(* ===== verification/Bukt_Prelude.thy ===== *)
theory Bukt_Prelude
  imports Main "HOL-Library.Word" "HOL-Library.List_Lexorder"
    "HOL-Library.Signed_Division" "HOL-Library.Multiset"
begin

text \<open>
  Shared vocabulary of the development: Go's basic types (bytes, strings as byte sequences,
  64-bit signed integers with their wrap-around, truncating division), run-time panics as
  values, the slice idioms the code uses (\<open>append\<close>/\<open>copy\<close> insertion, removal by \<open>append\<close>,
  element assignment in a local copy), big-endian integers, and the generic lemmas on lists,
  maps and sums that the component theories share.
\<close>

section \<open>Named collections\<close>

named_theorems go_simps \<open>evaluation rules for the Go primitives\<close>
named_theorems gbind_iff \<open>when a sequenced computation returns normally\<close>

section \<open>Go's basic types\<close>

type_synonym byte = "8 word"

text \<open>A Go string is an immutable byte sequence; \<open>len\<close> counts bytes and \<open><\<close> is the
  lexicographic order on bytes, which is the order \<open>HOL-Library.List_Lexorder\<close> gives.\<close>

type_synonym gostring = "byte list"

text \<open>The xxhash function of \<open>internal/util/hasher.go\<close> comes from a third-party module; every
  definition that hashes takes it as a parameter of this type.\<close>

type_synonym hasher = "gostring \<Rightarrow> 64 word"

text \<open>String constants of the source as byte sequences.\<close>

definition str :: "string \<Rightarrow> gostring" where
  "str s = map of_char s"

text \<open>The run-time panics that the modelled code can raise.\<close>

datatype go_panic = IndexOutOfRange | SliceOutOfRange | NilDereference | NotInitialized

section \<open>64-bit and 32-bit signed arithmetic\<close>

text \<open>Signed Go integers are modelled by \<open>int\<close>; an operation that can leave the range is
  wrapped with \<open>i64\<close> (\<open>i32\<close>), two's complement reduction.\<close>

definition i64 :: "int \<Rightarrow> int" where
  "i64 x = signed_take_bit 63 x"

definition i32 :: "int \<Rightarrow> int" where
  "i32 x = signed_take_bit 31 x"

lemma i64_id [go_simps]: "- (2 ^ 63) \<le> x \<Longrightarrow> x < 2 ^ 63 \<Longrightarrow> i64 x = x"
  by (simp add: i64_def signed_take_bit_int_eq_self)

lemma i64_lower: "- (2 ^ 63) \<le> i64 x"
  using signed_take_bit_int_greater_eq_minus_exp [of 63 x] by (simp add: i64_def)

lemma i64_upper: "i64 x < 2 ^ 63"
  using signed_take_bit_int_less_exp [of 63 x] by (simp add: i64_def)

lemma i64_i64 [simp]: "i64 (i64 x) = i64 x"
  using i64_lower [of x] i64_upper [of x] by (rule i64_id)

text \<open>Go's \<open>/\<close> truncates towards zero: \<open>sdiv\<close>. Nanoseconds become milliseconds by \<open>/ 1e6\<close>.\<close>

definition to_ms :: "int \<Rightarrow> int" where
  "to_ms ns = ns sdiv 1000000"

lemma to_ms_mono: "a \<le> b \<Longrightarrow> to_ms a \<le> to_ms b"
proof (cases "0 \<le> a")
  case True
  assume "a \<le> b"
  with True show ?thesis
    by (cases "a = 0") (auto simp: to_ms_def signed_divide_int_def zdiv_mono1 sgn_if)
next
  case False
  assume ab: "a \<le> b"
  show ?thesis
  proof (cases "0 \<le> b")
    case True
    have "0 \<le> - a div 1000000" using False by (simp add: pos_imp_zdiv_nonneg_iff)
    with False True show ?thesis
      by (cases "b = 0") (auto simp: to_ms_def signed_divide_int_def sgn_if
        pos_imp_zdiv_nonneg_iff intro: order_trans [of _ 0])
  next
    case b: False
    have "- b div 1000000 \<le> - a div 1000000" using ab by (simp add: zdiv_mono1)
    with False b show ?thesis by (simp add: to_ms_def signed_divide_int_def sgn_if)
  qed
qed

lemma to_ms_nonneg_eq: "0 \<le> a \<Longrightarrow> to_ms a = a div 1000000"
  by (cases "a = 0") (simp_all add: to_ms_def signed_divide_int_def)

section \<open>Time\<close>

text \<open>
  A \<open>time.Time\<close> is its number of nanoseconds since the Unix epoch, an unbounded integer;
  Go's zero time (year 1) is \<open>zero_time\<close>. \<open>UnixNano\<close> reduces to 64 bits, \<open>Unix\<close> rounds
  down to seconds.
\<close>

type_synonym go_time = int

definition zero_time :: go_time where
  "zero_time = - 62135596800 * 1000000000"

definition time_IsZero :: "go_time \<Rightarrow> bool" where
  "time_IsZero t \<longleftrightarrow> t = zero_time"

definition time_Add :: "go_time \<Rightarrow> int \<Rightarrow> go_time" where
  "time_Add t d = t + d"

definition time_UnixNano :: "go_time \<Rightarrow> int" where
  "time_UnixNano t = i64 t"

definition time_Unix :: "go_time \<Rightarrow> int" where
  "time_Unix t = i64 (t div 1000000000)"

text \<open>What one operation reads from its surroundings: \<open>time.Now()\<close>, the cached clock
  \<open>util.CachedNow()\<close>, and the two draws from \<open>math/rand\<close> (\<open>rand.Int63n(n)\<close> is
  \<open>env_rand mod n\<close>, \<open>rand.Intn(2) == 0\<close> is \<open>env_coin\<close>).\<close>

record env =
  env_now :: go_time
  env_cached :: int
  env_rand :: nat
  env_coin :: bool

section \<open>Sequencing of computations that can fail\<close>

definition gbind :: "'e + 'a \<Rightarrow> ('a \<Rightarrow> 'e + 'b) \<Rightarrow> 'e + 'b" where
  "gbind m f = (case m of Inl e \<Rightarrow> Inl e | Inr x \<Rightarrow> f x)"

lemma gbind_Inl [simp]: "gbind (Inl e) f = Inl e"
  by (simp add: gbind_def)

lemma gbind_Inr [simp]: "gbind (Inr x) f = f x"
  by (simp add: gbind_def)

lemma gbind_eq_Inr [gbind_iff]: "gbind m f = Inr y \<longleftrightarrow> (\<exists>x. m = Inr x \<and> f x = Inr y)"
  by (cases m) auto

lemma gbind_eq_Inl: "gbind m f = Inl e \<longleftrightarrow> m = Inl e \<or> (\<exists>x. m = Inr x \<and> f x = Inl e)"
  by (cases m) auto

section \<open>Slice idioms\<close>

text \<open>\<open>copy(dst[off:], src)\<close>: overwrites from \<open>off\<close> on, as far as both slices reach.\<close>

definition go_copy :: "'a list \<Rightarrow> nat \<Rightarrow> 'a list \<Rightarrow> 'a list" where
  "go_copy dst off src =
     (let n = min (length dst - off) (length src)
      in take off dst @ take n src @ drop (off + n) dst)"

text \<open>\<open>xs = append(xs, zero); copy(xs[i+1:], xs[i:]); xs[i] = x\<close>\<close>

definition insert_at :: "'a \<Rightarrow> nat \<Rightarrow> 'a \<Rightarrow> 'a list \<Rightarrow> 'a list" where
  "insert_at zero i x xs =
     (let xs1 = xs @ [zero]; xs2 = go_copy xs1 (i + 1) (drop i xs1) in xs2[i := x])"

text \<open>\<open>append(xs[:i], xs[i+1:]...)\<close>\<close>

definition remove_at :: "nat \<Rightarrow> 'a list \<Rightarrow> 'a list" where
  "remove_at i xs = take i xs @ drop (i + 1) xs"

lemma length_go_copy [simp]: "length (go_copy dst off src) = length dst"
  by (auto simp: go_copy_def Let_def min_def)

lemma insert_at_eq [go_simps]:
  assumes "i \<le> length xs"
  shows "insert_at z i x xs = take i xs @ x # drop i xs"
proof -
  let ?xs = "xs @ [z]"
  have n: "min (length ?xs - (i + 1)) (length (drop i ?xs)) = length xs - i"
    using assms by simp
  have cp: "go_copy ?xs (i + 1) (drop i ?xs) = take (i + 1) ?xs @ drop i xs"
  proof -
    have "take (length xs - i) (drop i ?xs) = drop i xs" using assms by simp
    moreover have "drop (i + 1 + (length xs - i)) ?xs = []" using assms by simp
    ultimately show ?thesis
      by (simp only: go_copy_def Let_def n append_Nil2)
  qed
  have tk: "take (i + 1) ?xs = take i xs @ [?xs ! i]"
    using assms take_Suc_conv_app_nth [of i ?xs] by simp
  have "((take i xs @ [?xs ! i]) @ drop i xs)[i := x] = take i xs @ x # drop i xs"
    using assms by (simp add: list_update_append)
  then show ?thesis
    by (simp only: insert_at_def Let_def cp tk)
qed

lemma length_remove_at [simp]: "i < length xs \<Longrightarrow> length (remove_at i xs) = length xs - 1"
  by (simp add: remove_at_def)

text \<open>Lists whose elements are told apart by a class function.\<close>

lemma distinct_concat_classes:
  assumes "\<And>i. i < length xss \<Longrightarrow> distinct (xss ! i)"
    and "\<And>i x. i < length xss \<Longrightarrow> x \<in> set (xss ! i) \<Longrightarrow> f x = off + i"
  shows "distinct (concat xss)"
  using assms
proof (induction xss arbitrary: off)
  case (Cons xs xss)
  have d: "distinct (xss ! i)" if "i < length xss" for i using Cons.prems(1) [of "Suc i"] that by simp
  have c: "f x = Suc off + i" if "i < length xss" "x \<in> set (xss ! i)" for i x
    using Cons.prems(2) [of "Suc i" x] that by simp
  have "x \<notin> set (concat xss)" if "x \<in> set xs" for x
    using Cons.prems(2) [of 0 x] c [of _ x] that by (fastforce simp: in_set_conv_nth [of _ xss])
  then show ?case using Cons.IH [OF d c] Cons.prems(1) [of 0] by auto
qed simp

text \<open>Association lists whose values change and whose keys stay.\<close>

lemma map_fst_values: "map fst (map (\<lambda>(k, b). (k, f k b)) xs) = map fst xs"
  by (induction xs) auto

lemma map_of_values: "map_of (map (\<lambda>(k, b). (k, f k b)) xs) k = map_option (f k) (map_of xs k)"
  by (induction xs) auto

lemma map_of_filter_key: "map_of (filter (\<lambda>(k, v). k \<noteq> name) xs) = (map_of xs)(name := None)"
  by (induction xs) (auto simp: fun_eq_iff)

lemma map_of_append_new:
  "map_of xs k = None \<Longrightarrow> map_of (xs @ [(k, v)]) = (map_of xs)(k \<mapsto> v)"
  by (auto simp: map_add_def fun_eq_iff split: option.splits)

section \<open>Big-endian integers\<close>

text \<open>The \<open>i\<close>-th byte, most significant first, of the \<open>n\<close>-byte big-endian form of \<open>x\<close>.\<close>

definition be_bytes :: "nat \<Rightarrow> nat \<Rightarrow> byte list" where
  "be_bytes n x = map (\<lambda>i. word_of_nat (x div 256 ^ (n - 1 - i))) [0..<n]"

definition be_nat :: "byte list \<Rightarrow> nat" where
  "be_nat bs = foldl (\<lambda>acc b. acc * 256 + unat b) 0 bs"

lemma length_be_bytes [simp]: "length (be_bytes n x) = n"
  by (simp add: be_bytes_def)

lemma be_bytes_Suc: "be_bytes (Suc n) x = word_of_nat (x div 256 ^ n) # be_bytes n x"
proof -
  have "[0..<Suc n] = 0 # map Suc [0..<n]" by (simp add: upt_conv_Cons map_Suc_upt)
  then show ?thesis by (simp add: be_bytes_def o_def)
qed

lemma be_bytes_0 [simp]: "be_bytes 0 x = []"
  by (simp add: be_bytes_def)

lemma foldl_be_nat:
  "foldl (\<lambda>acc b. acc * 256 + unat b) a bs = a * 256 ^ length bs + be_nat bs"
proof (induction bs arbitrary: a)
  case Nil
  then show ?case by (simp add: be_nat_def)
next
  case (Cons b bs)
  have "be_nat (b # bs) = unat b * 256 ^ length bs + be_nat bs"
    using Cons.IH [of "unat b"] by (simp add: be_nat_def)
  with Cons.IH [of "a * 256 + unat b"] show ?case by (simp add: algebra_simps)
qed

lemma be_nat_Nil [simp]: "be_nat [] = 0"
  by (simp add: be_nat_def)

lemma be_nat_Cons: "be_nat (b # bs) = unat b * 256 ^ length bs + be_nat bs"
  using foldl_be_nat [of "unat b" bs] by (simp add: be_nat_def)

lemma be_nat_less: "be_nat bs < 256 ^ length bs"
proof (induction bs)
  case Nil
  then show ?case by simp
next
  case (Cons b bs)
  have "unat b < 2 ^ LENGTH(8)" by (rule unsigned_less)
  then have "unat b + 1 \<le> 256" by simp
  then have "(unat b + 1) * 256 ^ length bs \<le> 256 * 256 ^ length bs"
    by (rule mult_le_mono1)
  then have "unat b * 256 ^ length bs + 256 ^ length bs \<le> 256 ^ length (b # bs)"
    by (simp add: add.commute)
  with Cons show ?case unfolding be_nat_Cons by linarith
qed

lemma be_nat_be_bytes: "be_nat (be_bytes n x) = x mod 256 ^ n"
proof (induction n)
  case 0
  then show ?case by simp
next
  case (Suc n)
  have "x mod 256 ^ Suc n = 256 ^ n * (x div 256 ^ n mod 256) + x mod 256 ^ n"
    using mod_mult2_eq [of x "256 ^ n" 256] by (simp add: mult.commute)
  with Suc show ?case
    by (simp add: be_bytes_Suc be_nat_Cons unat_of_nat mult.commute)
qed

lemma be_nat_be_bytes_id [simp]: "x < 256 ^ n \<Longrightarrow> be_nat (be_bytes n x) = x"
  by (simp add: be_nat_be_bytes)

end
