(* ===== verification/Go_Heap.thy ===== *)
theory Go_Heap
  imports Bukt_Prelude
begin

text \<open>
  The binary heap of Go's \<open>container/heap\<close>, over an arbitrary implementation of
  \<open>heap.Interface\<close> (its \<open>Less\<close> and \<open>Swap\<close>). The locale \<open>heap_interface\<close> states what the
  library needs of an implementation; inside it, sifting up and down is shown to restore the
  heap order from the two kinds of damage that \<open>Push\<close>, \<open>Pop\<close>, \<open>Fix\<close> and \<open>Remove\<close> do.
\<close>

section \<open>The library's loops\<close>

definition parent :: "nat \<Rightarrow> nat" where
  "parent j = (j - 1) div 2"

lemma parent_less: "0 < k \<Longrightarrow> parent k < k"
  by (auto simp: parent_def)

lemma parent_le: "parent k \<le> k"
  by (auto simp: parent_def)

lemma parent_eq_self: "parent k = k \<longleftrightarrow> k = 0"
  by (auto simp: parent_def)

lemma parent_left [simp]: "parent (2 * i + 1) = i" "parent (Suc (2 * i)) = i"
  by (auto simp: parent_def)

lemma parent_right [simp]: "parent (2 * i + 2) = i" "parent (Suc (Suc (2 * i))) = i"
  by (auto simp: parent_def)

lemma parent_cases: "0 < k \<Longrightarrow> parent k = i \<Longrightarrow> k = 2 * i + 1 \<or> k = 2 * i + 2"
  unfolding parent_def by presburger

text \<open>\<open>heap.up(h, j)\<close>; the second component is the position where the loop stops.\<close>

function heap_up :: "('h \<Rightarrow> nat \<Rightarrow> nat \<Rightarrow> bool) \<Rightarrow> ('h \<Rightarrow> nat \<Rightarrow> nat \<Rightarrow> 'h) \<Rightarrow> 'h \<Rightarrow> nat \<Rightarrow> 'h \<times> nat" where
  "heap_up lt swap h j =
     (let i = parent j
      in if i = j \<or> \<not> lt h j i then (h, j) else heap_up lt swap (swap h i j) i)"
  by pat_completeness auto
termination
  by (relation "measure (\<lambda>(lt, swap, h, j). j)") (use parent_le in \<open>auto simp: le_less\<close>)

text \<open>\<open>heap.down(h, i0, n)\<close>; the library's result \<open>i > i0\<close> is read off the final position.\<close>

definition least_child :: "('h \<Rightarrow> nat \<Rightarrow> nat \<Rightarrow> bool) \<Rightarrow> 'h \<Rightarrow> nat \<Rightarrow> nat \<Rightarrow> nat" where
  "least_child lt h j1 n = (let j2 = j1 + 1 in if j2 < n \<and> lt h j2 j1 then j2 else j1)"

lemma least_child_bounds:
  "j1 < n \<Longrightarrow> least_child lt h j1 n < n"
  "j1 \<le> least_child lt h j1 n"
  by (auto simp: least_child_def Let_def)

lemma least_child_parent: "parent (least_child lt h (2 * i + 1) n) = i"
  by (auto simp: least_child_def Let_def)

lemma least_child_range:
  assumes "2 * i + 1 < n"
  shows "i < least_child lt h (2 * i + 1) n" "0 < least_child lt h (2 * i + 1) n"
    "least_child lt h (2 * i + 1) n < n"
proof -
  have "i < 2 * i + 1" by simp
  then show "i < least_child lt h (2 * i + 1) n"
    using least_child_bounds(2) by (rule less_le_trans)
  then show "0 < least_child lt h (2 * i + 1) n" by simp
  show "least_child lt h (2 * i + 1) n < n" using assms by (rule least_child_bounds(1))
qed

function heap_down ::
  "('h \<Rightarrow> nat \<Rightarrow> nat \<Rightarrow> bool) \<Rightarrow> ('h \<Rightarrow> nat \<Rightarrow> nat \<Rightarrow> 'h) \<Rightarrow> 'h \<Rightarrow> nat \<Rightarrow> nat \<Rightarrow> 'h \<times> nat"
where
  "heap_down lt swap h i n =
     (let j1 = 2 * i + 1
      in if n \<le> j1 then (h, i)
         else let j = least_child lt h j1 n
              in if \<not> lt h j i then (h, i) else heap_down lt swap (swap h i j) j n)"
  by pat_completeness auto
termination
proof (relation "measure (\<lambda>(lt, swap, h, i, n). n - i)", goal_cases)
  case (2 lt swap h i n x xa)
  then have "x \<le> xa" using least_child_bounds(2) by simp
  with 2 show ?case by simp
qed simp

declare heap_up.simps [simp del] heap_down.simps [simp del]

text \<open>Every observation that in-range swaps keep is kept by the loops.\<close>

lemma heap_up_keeps:
  assumes "I h" and "j < n"
    and "\<And>h i j. I h \<Longrightarrow> i < n \<Longrightarrow> j < n \<Longrightarrow> I (swap h i j)"
  shows "I (fst (heap_up lt swap h j)) \<and> snd (heap_up lt swap h j) \<le> j"
  using assms
proof (induction lt swap h j rule: heap_up.induct)
  case (1 lt swap h j)
  let ?i = "parent j"
  show ?case
  proof (cases "?i = j \<or> \<not> lt h j ?i")
    case True
    then show ?thesis using "1.prems" by (simp add: heap_up.simps [of lt swap h j])
  next
    case False
    have "?i \<le> j" and "?i < n" using "1.prems"(2) parent_le [of j] by auto
    with 1(1)[OF refl False] "1.prems" False show ?thesis
      by (auto simp: heap_up.simps [of lt swap h j] Let_def)
  qed
qed

lemma heap_down_keeps:
  assumes "I h" and "i < n"
    and "\<And>h i j. I h \<Longrightarrow> i < n \<Longrightarrow> j < n \<Longrightarrow> i \<noteq> j \<Longrightarrow> I (swap h i j)"
  shows "I (fst (heap_down lt swap h i n)) \<and> i \<le> snd (heap_down lt swap h i n)
    \<and> snd (heap_down lt swap h i n) < n"
  using assms
proof (induction lt swap h i n rule: heap_down.induct)
  case (1 lt swap h i n)
  let ?j = "least_child lt h (2 * i + 1) n"
  show ?case
  proof (cases "n \<le> 2 * i + 1 \<or> \<not> lt h ?j i")
    case True
    then show ?thesis using "1.prems"
      by (auto simp: heap_down.simps [of lt swap h i n] Let_def)
  next
    case False
    then have n: "\<not> n \<le> 2 * i + 1" and lt: "\<not> \<not> lt h ?j i" by auto
    have j: "?j < n" "i < ?j"
      using n least_child_range [of i n lt h] by simp_all
    have eq: "heap_down lt swap h i n = heap_down lt swap (swap h i ?j) ?j n"
      using False by (simp add: heap_down.simps [of lt swap h i n] Let_def)
    have "I (swap h i ?j)" using "1.prems" j by auto
    from 1(1)[OF refl n refl lt this j(1) "1.prems"(3)] show ?thesis
      unfolding eq using j by auto
  qed
qed

section \<open>The interface and the heap order\<close>

text \<open>Every position but the root has a priority at least that of its parent.\<close>

definition heap_order :: "(nat \<Rightarrow> int) \<Rightarrow> nat \<Rightarrow> bool" where
  "heap_order p n \<longleftrightarrow> (\<forall>k. 0 < k \<and> k < n \<longrightarrow> p (parent k) \<le> p k)"

text \<open>Heap order that may fail between a position \<open>i\<close> and its neighbours; the children of
  \<open>i\<close> are still in order with the parent of \<open>i\<close>.\<close>

definition heap_except :: "(nat \<Rightarrow> int) \<Rightarrow> nat \<Rightarrow> nat \<Rightarrow> bool" where
  "heap_except p n i \<longleftrightarrow>
     (\<forall>k. 0 < k \<and> k < n \<and> k \<noteq> i \<and> parent k \<noteq> i \<longrightarrow> p (parent k) \<le> p k) \<and>
     (\<forall>k. 0 < i \<and> 0 < k \<and> k < n \<and> parent k = i \<longrightarrow> p (parent i) \<le> p k)"

definition children_ok :: "(nat \<Rightarrow> int) \<Rightarrow> nat \<Rightarrow> nat \<Rightarrow> bool" where
  "children_ok p n i \<longleftrightarrow> (\<forall>k. 0 < k \<and> k < n \<and> parent k = i \<longrightarrow> p i \<le> p k)"

lemma heap_order_root:
  assumes "heap_order p n" and "k < n"
  shows "p 0 \<le> p k"
  using assms(2)
proof (induction k rule: less_induct)
  case (less k)
  show ?case
  proof (cases "k = 0")
    case False
    then have "parent k < k" by (simp add: parent_less)
    with less have "p 0 \<le> p (parent k)" by auto
    also have "\<dots> \<le> p k" using assms(1) False less.prems by (simp add: heap_order_def)
    finally show ?thesis .
  qed simp
qed

lemma heap_order_exceptI:
  assumes "heap_order p n" and "i < n"
  shows "heap_except (p(i := x)) n i"
proof -
  have par: "p (parent k) \<le> p k" if "0 < k" "k < n" for k
    using assms(1) that by (simp add: heap_order_def)
  have gp: "p (parent i) \<le> p k" if "0 < i" "0 < k" "k < n" "parent k = i" for k
    using par [of i] par [of k] that assms(2) by simp
  have ne: "parent k \<noteq> k" if "0 < k" for k
    using that parent_less [of k] by simp
  show ?thesis
    unfolding heap_except_def
  proof (intro conjI allI impI)
    fix k assume "0 < k \<and> k < n \<and> k \<noteq> i \<and> parent k \<noteq> i"
    then show "(p(i := x)) (parent k) \<le> (p(i := x)) k" using par by simp
  next
    fix k assume "0 < i \<and> 0 < k \<and> k < n \<and> parent k = i"
    then show "(p(i := x)) (parent i) \<le> (p(i := x)) k" using gp [of k] ne [of i] ne [of k] by auto
  qed
qed

lemma heap_order_split:
  assumes "heap_except p n i" and "children_ok p n i"
    and "0 < i \<Longrightarrow> i < n \<Longrightarrow> p (parent i) \<le> p i"
  shows "heap_order p n"
  unfolding heap_order_def
proof (intro allI impI)
  fix k assume k: "0 < k \<and> k < n"
  show "p (parent k) \<le> p k"
  proof (cases "k = i \<or> parent k = i")
    case True
    then show ?thesis using assms(2,3) k by (auto simp: children_ok_def)
  next
    case False
    then show ?thesis using assms(1) k by (simp add: heap_except_def)
  qed
qed

text \<open>One exchange with the parent moves the damage up; one with the smaller child moves it
  down and leaves a proper edge behind.\<close>

lemma sift_up_step:
  assumes ex: "heap_except p n j" and ch: "children_ok p n j" and j: "0 < j" "j < n"
    and i: "i = parent j" and lt: "p j < p i"
    and p': "p' = p(i := p j, j := p i)"
  shows "heap_except p' n i \<and> children_ok p' n i"
proof -
  have ij: "i < j" using i j parent_less by simp
  have ord: "p (parent k) \<le> p k" if "0 < k" "k < n" "k \<noteq> j" "parent k \<noteq> j" for k
    using ex that by (simp add: heap_except_def)
  have below: "p i \<le> p k" if "0 < k" "k < n" "parent k = j" for k
    using ex that j i by (simp add: heap_except_def)
  have sib: "p i \<le> p k" if "0 < k" "k < n" "parent k = i" "k \<noteq> j" for k
    using ord [of k] that ij by simp
  have c: "p j \<le> p' k" if "0 < k" "k < n" "parent k = i" for k
    using sib [of k] that lt parent_less [of k] by (auto simp: p')
  have e1: "p' (parent k) \<le> p' k"
    if "0 < k" "k < n" "k \<noteq> i" "parent k \<noteq> i" for k
    using that ord [of k] below [of k] parent_less [of k] i by (auto simp: p')
  have e2: "p' (parent i) \<le> p' k" if "0 < i" "0 < k" "k < n" "parent k = i" for k
  proof -
    have "parent i < i" using that(1) by (rule parent_less)
    then have "p (parent i) \<le> p i" using ord [of i] that(1) ij j by simp
    then show ?thesis
      using \<open>parent i < i\<close> that sib [of k] ij parent_less [of k] by (auto simp: p')
  qed
  from c e1 e2 show ?thesis
    using ij by (simp add: heap_except_def children_ok_def p')
qed

lemma sift_down_step:
  assumes ex: "heap_except p n i" and j: "0 < j" "j < n" "parent j = i"
    and least: "\<And>k. 0 < k \<Longrightarrow> k < n \<Longrightarrow> parent k = i \<Longrightarrow> p j \<le> p k"
    and lt: "p j < p i" and p': "p' = p(i := p j, j := p i)"
  shows "heap_except p' n j \<and> p' (parent j) \<le> p' j"
proof -
  have ij: "i < j" using j parent_less by auto
  have ord: "p (parent k) \<le> p k" if "0 < k" "k < n" "k \<noteq> i" "parent k \<noteq> i" for k
    using ex that by (simp add: heap_except_def)
  have up: "p (parent i) \<le> p j" if "0 < i"
    using ex that j by (simp add: heap_except_def)
  have e1: "p' (parent k) \<le> p' k"
    if "0 < k" "k < n" "k \<noteq> j" "parent k \<noteq> j" for k
    using that ord [of k] up least [of k] parent_less [of k] ij
    by (cases "k = i") (auto simp: p')
  have e2: "p' (parent j) \<le> p' k" if "0 < k" "k < n" "parent k = j" for k
    using ord [of k] that parent_less [of k] ij j by (auto simp: p')
  from e1 e2 show ?thesis
    using lt ij j by (auto simp: heap_except_def p')
qed

text \<open>What the library relies on: \<open>Less\<close> compares priorities, \<open>Swap\<close> exchanges two in-range
  positions and keeps the length.\<close>

locale heap_interface =
  fixes lt :: "'h \<Rightarrow> nat \<Rightarrow> nat \<Rightarrow> bool"
    and swap :: "'h \<Rightarrow> nat \<Rightarrow> nat \<Rightarrow> 'h"
    and len :: "'h \<Rightarrow> nat"
    and prio :: "'h \<Rightarrow> nat \<Rightarrow> int"
  assumes lt_prio: "i < len h \<Longrightarrow> j < len h \<Longrightarrow> lt h i j \<longleftrightarrow> prio h i < prio h j"
    and swap_prio: "i < len h \<Longrightarrow> j < len h \<Longrightarrow>
      prio (swap h i j) = (prio h)(i := prio h j, j := prio h i)"
    and swap_len: "i < len h \<Longrightarrow> j < len h \<Longrightarrow> len (swap h i j) = len h"
begin

lemma up_len: "j < len h \<Longrightarrow> len (fst (heap_up lt swap h j)) = len h"
  using heap_up_keeps [of "\<lambda>x. len x = len h" h j "len h"] swap_len by simp

lemma down_len: "i < n \<Longrightarrow> n \<le> len h \<Longrightarrow> len (fst (heap_down lt swap h i n)) = len h"
  using heap_down_keeps [of "\<lambda>x. len x = len h" h i n] swap_len by simp

lemma up_restores:
  assumes "j < n" "n \<le> len h" "heap_except (prio h) n j" "children_ok (prio h) n j"
  shows "heap_order (prio (fst (heap_up lt swap h j))) n"
  using assms
proof (induction j arbitrary: h rule: less_induct)
  case (less j)
  let ?i = "parent j"
  have i: "?i < len h" "j < len h" using less.prems parent_le [of j] by auto
  show ?case
  proof (cases "?i = j \<or> \<not> lt h j ?i")
    case True
    then have "heap_order (prio h) n"
      using less.prems i by (intro heap_order_split [of _ _ j]) (auto simp: parent_eq_self lt_prio)
    with True show ?thesis by (simp add: heap_up.simps [of lt swap h j])
  next
    case False
    then have j: "0 < j" "prio h j < prio h ?i" using i by (auto simp: parent_eq_self lt_prio)
    let ?h = "swap h ?i j"
    have "heap_except (prio ?h) n ?i \<and> children_ok (prio ?h) n ?i"
      using less.prems j i by (intro sift_up_step [of "prio h" n j ?i]) (auto simp: swap_prio)
    then have "heap_order (prio (fst (heap_up lt swap ?h ?i))) n"
      using less.prems i j parent_less [of j] by (intro less.IH) (auto simp: swap_len)
    with False show ?thesis by (simp add: heap_up.simps [of lt swap h j] Let_def)
  qed
qed

lemma least_child_least:
  assumes "2 * i + 1 < n" "n \<le> len h" "0 < k" "k < n" "parent k = i"
  shows "prio h (least_child lt h (2 * i + 1) n) \<le> prio h k"
  using parent_cases [OF assms(3,5)] assms(1,2,4)
  by (auto simp: least_child_def Let_def lt_prio)

lemma down_restores:
  assumes "i < n" "n \<le> len h" "heap_except (prio h) n i"
  shows "(snd (heap_down lt swap h i n) = i \<longrightarrow>
      fst (heap_down lt swap h i n) = h \<and> children_ok (prio h) n i) \<and>
    (snd (heap_down lt swap h i n) \<noteq> i \<longrightarrow> heap_order (prio (fst (heap_down lt swap h i n))) n)"
  using assms
proof (induction "n - i" arbitrary: h i rule: less_induct)
  case less
  let ?j = "least_child lt h (2 * i + 1) n"
  show ?case
  proof (cases "n \<le> 2 * i + 1 \<or> \<not> lt h ?j i")
    case True
    have "prio h i \<le> prio h k" if "0 < k" "k < n" "parent k = i" for k
    proof -
      have n: "2 * i + 1 < n" using parent_cases [OF that(1,3)] that(2) by auto
      then have "prio h i \<le> prio h ?j"
        using True less.prems least_child_bounds(1) [OF n, of lt h] by (simp add: lt_prio not_less)
      also have "\<dots> \<le> prio h k" using n less.prems(2) that by (rule least_child_least)
      finally show ?thesis .
    qed
    with True show ?thesis
      by (auto simp: heap_down.simps [of lt swap h i n] Let_def children_ok_def)
  next
    case False
    then have n: "2 * i + 1 < n" by simp
    have j: "0 < ?j" "?j < n" "i < ?j" "parent ?j = i"
      using n least_child_range [OF n, of lt h] least_child_parent [of lt h i n] by simp_all
    let ?h = "swap h i ?j" and ?r = "heap_down lt swap (swap h i ?j) ?j n"
    have eq: "heap_down lt swap h i n = ?r"
      using False by (simp add: heap_down.simps [of lt swap h i n] Let_def)
    have in_h: "i < len h" "?j < len h" using less.prems j by auto
    have lt: "prio h ?j < prio h i" using False in_h by (simp add: lt_prio)
    have st: "heap_except (prio ?h) n ?j \<and> prio ?h (parent ?j) \<le> prio ?h ?j"
      using less.prems(3) j(1,2,4) least_child_least [OF n less.prems(2)] lt swap_prio [OF in_h]
      by (rule sift_down_step)
    have ge: "?j \<le> snd ?r"
      using heap_down_keeps [of "\<lambda>_. True" ?h ?j n] j by simp
    have "(snd ?r = ?j \<longrightarrow> fst ?r = ?h \<and> children_ok (prio ?h) n ?j) \<and>
        (snd ?r \<noteq> ?j \<longrightarrow> heap_order (prio (fst ?r)) n)"
      using j less.prems st in_h by (intro less.hyps) (auto simp: swap_len)
    then have "heap_order (prio (fst ?r)) n"
      using st heap_order_split [of "prio ?h" n ?j] by (cases "snd ?r = ?j") auto
    with ge j show ?thesis unfolding eq by auto
  qed
qed

text \<open>\<open>down\<close>, and \<open>up\<close> where \<open>down\<close> did not move: what \<open>Fix\<close> and \<open>Remove\<close> do.\<close>

lemma down_up_restores:
  assumes "i < n" "n \<le> len h" "heap_except (prio h) n i"
  shows "heap_order (prio (let (h', i') = heap_down lt swap h i n
    in if i < i' then h' else fst (heap_up lt swap h' i))) n"
proof -
  obtain h' i' where r: "heap_down lt swap h i n = (h', i')" by fastforce
  have "i \<le> i'" using heap_down_keeps [of "\<lambda>_. True" h i n swap lt] assms(1) r by auto
  then show ?thesis
    using down_restores [OF assms] up_restores [OF assms] r by (cases "i' = i") auto
qed

lemma down_root_restores:
  assumes "0 < n" "n \<le> len h" "heap_except (prio h) n 0"
  shows "heap_order (prio (fst (heap_down lt swap h 0 n))) n"
  using down_restores [OF assms] heap_order_split [of "prio h" n 0] assms(3) by fastforce

end

end
