(* ===== verification/Expiry_Source.thy ===== *)
theory Expiry_Source
  imports Bukt_Prelude
begin

text \<open>
  What the garbage collector's loop relies on from the two structures it polls, the near queue
  and the timing wheel: a poll hands out keys, each with a deadline that has passed, and keeps
  every other deadline. The second locale adds the cancellation contract of
  \<open>GarbageCollector.Cancel\<close>.
\<close>

text \<open>A deadline (in nanoseconds) has passed at a clock reading when it is not later in
  milliseconds, which is the comparison both structures make.\<close>

definition due :: "int \<Rightarrow> gostring \<times> int \<Rightarrow> bool" where
  "due now x \<longleftrightarrow> to_ms (snd x) \<le> to_ms now"

lemma due_mono: "due t x \<Longrightarrow> t \<le> t' \<Longrightarrow> due t' x"
  using to_ms_mono [of t t'] by (simp add: due_def)

text \<open>Polling at successive clock readings.\<close>

fun poll_all :: "(int \<Rightarrow> 'q \<Rightarrow> gostring list \<times> 'q) \<Rightarrow> int list \<Rightarrow> 'q \<Rightarrow> gostring list \<times> 'q" where
  "poll_all poll [] q = ([], q)"
| "poll_all poll (t # ts) q =
     (let (ks, q1) = poll t q; (ks', q2) = poll_all poll ts q1 in (ks @ ks', q2))"

locale expiry_source =
  fixes poll :: "int \<Rightarrow> 'q \<Rightarrow> gostring list \<times> 'q"
    and deadlines :: "'q \<Rightarrow> (gostring \<times> int) multiset"
    and inv :: "'q \<Rightarrow> bool"
  assumes poll_inv: "inv q \<Longrightarrow> poll t q = (ks, q') \<Longrightarrow> inv q'"
    and poll_sound: "inv q \<Longrightarrow> poll t q = (ks, q') \<Longrightarrow>
      \<exists>ds. ks = map fst ds \<and> deadlines q = mset ds + deadlines q' \<and> (\<forall>x \<in> set ds. due t x)"
begin

lemma poll_all_inv: "inv q \<Longrightarrow> poll_all poll ts q = (ks, q') \<Longrightarrow> inv q'"
  by (induction ts arbitrary: q ks) (auto split: prod.splits intro: poll_inv)

text \<open>No key is handed out before its deadline, none is handed out twice for one deadline, and
  none is lost: the deadlines at the start are those handed out and those still held.\<close>

lemma poll_all_sound:
  "inv q \<Longrightarrow> poll_all poll ts q = (ks, q') \<Longrightarrow> (\<forall>t \<in> set ts. t \<le> now) \<Longrightarrow>
    \<exists>ds. ks = map fst ds \<and> deadlines q = mset ds + deadlines q' \<and> (\<forall>x \<in> set ds. due now x)"
proof (induction ts arbitrary: q ks)
  case Nil
  then show ?case by auto
next
  case (Cons t ts)
  obtain ks1 q1 where p: "poll t q = (ks1, q1)" by fastforce
  obtain ks2 where r: "poll_all poll ts q1 = (ks2, q')" and ks: "ks = ks1 @ ks2"
    using Cons.prems(2) p by (auto split: prod.splits)
  obtain ds1 where d1: "ks1 = map fst ds1" "deadlines q = mset ds1 + deadlines q1"
      "\<forall>x \<in> set ds1. due t x"
    using poll_sound [OF Cons.prems(1) p] by blast
  obtain ds2 where d2: "ks2 = map fst ds2" "deadlines q1 = mset ds2 + deadlines q'"
      "\<forall>x \<in> set ds2. due now x"
    using Cons.IH [OF poll_inv [OF Cons.prems(1) p] r] Cons.prems(3) by auto
  have "\<forall>x \<in> set (ds1 @ ds2). due now x"
    using d1(3) d2(3) Cons.prems(3) by (auto intro: due_mono)
  moreover have "ks = map fst (ds1 @ ds2)" "deadlines q = mset (ds1 @ ds2) + deadlines q'"
    using ks d1 d2 by simp_all
  ultimately show ?case by blast
qed

lemma poll_all_conserves:
  assumes "inv q" "poll_all poll ts q = (ks, q')"
  shows "image_mset fst (deadlines q) = mset ks + image_mset fst (deadlines q')"
proof -
  define now where "now = Max (insert 0 (set ts))"
  have "\<forall>t \<in> set ts. t \<le> now" by (simp add: now_def)
  from poll_all_sound [OF assms this] obtain ds
    where "ks = map fst ds" "deadlines q = mset ds + deadlines q'" by blast
  then show ?thesis by simp
qed

lemma poll_all_never_early:
  assumes "inv q" "poll_all poll ts q = (ks, q')" "\<forall>t \<in> set ts. t \<le> now" "k \<in> set ks"
  shows "\<exists>d. (k, d) \<in># deadlines q \<and> to_ms d \<le> to_ms now"
proof -
  from poll_all_sound [OF assms(1-3)] obtain ds
    where ds: "ks = map fst ds" "deadlines q = mset ds + deadlines q'" "\<forall>x \<in> set ds. due now x" by blast
  with assms(4) obtain d where "(k, d) \<in> set ds" by auto
  with ds have "(k, d) \<in># deadlines q \<and> to_ms d \<le> to_ms now" by (auto simp: due_def)
  then show ?thesis by blast
qed

end

text \<open>Cancelling a key leaves no deadline of it behind and touches no other key.\<close>

locale cancellable_source = expiry_source +
  fixes remove :: "'q \<Rightarrow> gostring \<Rightarrow> 'q"
  assumes remove_inv: "inv q \<Longrightarrow> inv (remove q k)"
    and remove_deadlines: "inv q \<Longrightarrow> deadlines (remove q k) = filter_mset (\<lambda>x. fst x \<noteq> k) (deadlines q)"
begin

lemma poll_all_after_remove:
  assumes "inv q" "poll_all poll ts (remove q k) = (ks, q')"
  shows "k \<notin> set ks"
proof
  assume "k \<in> set ks"
  moreover have "image_mset fst (deadlines (remove q k)) = mset ks + image_mset fst (deadlines q')"
    using poll_all_conserves [OF remove_inv [OF assms(1)] assms(2)] .
  ultimately have "k \<in># image_mset fst (deadlines (remove q k))" by simp
  then show False using remove_deadlines [OF assms(1)] by auto
qed

end

end
