(* ===== verification/Near_Queue.thy ===== *)
theory Near_Queue
  imports Go_Heap Expiry_Source
begin

text \<open>
  The near queue of \<open>internal/gc/near_queue.go\<close>: deadlines at most \<open>windowMs\<close> ahead, in a
  binary heap ordered by \<open>expireAt\<close>, with a map from keys to heap positions. The heap part is
  correct (its order, its contents and each entry's own \<open>index\<close> field are kept); the
  position map is written at insertion only, so it goes stale when the heap moves entries,
  and the theorems say what is true with an accurate and with a stale map.
\<close>

section \<open>Entries and the heap.Interface methods\<close>

record near_entry =
  ne_key :: gostring
  ne_expireAt :: int
  ne_index :: int

type_synonym near_heap = "near_entry list"

text \<open>Entries are compared by their deadline, which is what \<open>Less\<close> does.\<close>

instantiation near_entry_ext :: (type) preorder
begin

definition less_eq_near_entry_ext :: "'a near_entry_scheme \<Rightarrow> 'a near_entry_scheme \<Rightarrow> bool" where
  "less_eq_near_entry_ext a b \<longleftrightarrow> ne_expireAt a \<le> ne_expireAt b"

definition less_near_entry_ext :: "'a near_entry_scheme \<Rightarrow> 'a near_entry_scheme \<Rightarrow> bool" where
  "less_near_entry_ext a b \<longleftrightarrow> ne_expireAt a < ne_expireAt b"

instance
  by standard (auto simp: less_eq_near_entry_ext_def less_near_entry_ext_def)

end

definition near_Less :: "near_heap \<Rightarrow> nat \<Rightarrow> nat \<Rightarrow> bool" where
  "near_Less h i j \<longleftrightarrow> h ! i < h ! j"

definition near_Swap :: "near_heap \<Rightarrow> nat \<Rightarrow> nat \<Rightarrow> near_heap" where
  "near_Swap h i j =
     (let h1 = h[i := h ! j, j := h ! i];
          h2 = h1[i := (h1 ! i)\<lparr>ne_index := int i\<rparr>]
      in h2[j := (h2 ! j)\<lparr>ne_index := int j\<rparr>])"

definition near_Push :: "near_heap \<Rightarrow> near_entry \<Rightarrow> near_heap" where
  "near_Push h x = h @ [x\<lparr>ne_index := int (length h)\<rparr>]"

definition near_Pop :: "near_heap \<Rightarrow> near_entry \<times> near_heap" where
  "near_Pop h = ((last h)\<lparr>ne_index := - 1\<rparr>, butlast h)"

abbreviation near_up :: "near_heap \<Rightarrow> nat \<Rightarrow> near_heap \<times> nat" where
  "near_up \<equiv> heap_up near_Less near_Swap"

abbreviation near_down :: "near_heap \<Rightarrow> nat \<Rightarrow> nat \<Rightarrow> near_heap \<times> nat" where
  "near_down \<equiv> heap_down near_Less near_Swap"

abbreviation near_prio :: "near_heap \<Rightarrow> nat \<Rightarrow> int" where
  "near_prio h i \<equiv> ne_expireAt (h ! i)"

section \<open>The container/heap operations on a near heap\<close>

text \<open>\<open>heap.Push\<close>; the second component is the position of the pushed entry.\<close>

definition heap_Push :: "near_heap \<Rightarrow> near_entry \<Rightarrow> near_heap \<times> nat" where
  "heap_Push h x = (let h1 = near_Push h x in near_up h1 (length h1 - 1))"

text \<open>\<open>heap.Pop\<close>; its only caller tests \<open>Len() > 0\<close> first.\<close>

definition heap_Pop :: "near_heap \<Rightarrow> near_entry \<times> near_heap" where
  "heap_Pop h =
     (let n = length h - 1; h1 = near_Swap h 0 n in near_Pop (fst (near_down h1 0 n)))"

definition heap_Fix :: "near_heap \<Rightarrow> nat \<Rightarrow> near_heap" where
  "heap_Fix h i =
     (let (h', i') = near_down h i (length h) in if i < i' then h' else fst (near_up h' i))"

text \<open>\<open>heap.Remove\<close>: an index past the end makes \<open>Swap\<close> (or \<open>Pop\<close>) panic, before any change.\<close>

definition heap_Remove :: "near_heap \<Rightarrow> nat \<Rightarrow> go_panic + near_entry \<times> near_heap" where
  "heap_Remove h i =
     (if length h \<le> i then Inl IndexOutOfRange
      else let n = length h - 1
           in if n \<noteq> i
              then let (h', i') = near_down (near_Swap h i n) i n
                   in Inr (near_Pop (if i < i' then h' else fst (near_up h' i)))
              else Inr (near_Pop h))"

section \<open>The queue\<close>

record near_queue =
  nq_heap :: near_heap
  nq_index :: "gostring \<rightharpoonup> nat"
  nq_windowMs :: int

definition NewNearQueue :: "int \<Rightarrow> near_queue" where
  "NewNearQueue windowMs = \<lparr>nq_heap = [], nq_index = Map.empty, nq_windowMs = windowMs\<rparr>"

definition NearQueue_Add :: "int \<Rightarrow> near_queue \<Rightarrow> gostring \<Rightarrow> int \<Rightarrow> go_panic + bool \<times> near_queue" where
  "NearQueue_Add cached nq key expireAt =
     (let now = to_ms cached
      in if nq_windowMs nq < to_ms expireAt - now then Inr (False, nq)
         else case nq_index nq key of
             Some idx \<Rightarrow>
               if length (nq_heap nq) \<le> idx then Inl IndexOutOfRange
               else let e = (nq_heap nq ! idx)\<lparr>ne_expireAt := expireAt\<rparr>;
                        h = heap_Fix ((nq_heap nq)[idx := e]) (nat (ne_index e))
                    in Inr (True, nq\<lparr>nq_heap := h\<rparr>)
           | None \<Rightarrow>
               let e = \<lparr>ne_key = key, ne_expireAt = expireAt, ne_index = 0\<rparr>;
                   (h, pos) = heap_Push (nq_heap nq) e
               in Inr (True, nq\<lparr>nq_heap := h,
                    nq_index := (nq_index nq)(key \<mapsto> nat (ne_index (h ! pos)))\<rparr>))"

definition NearQueue_Remove :: "near_queue \<Rightarrow> gostring \<Rightarrow> go_panic + near_queue" where
  "NearQueue_Remove nq key =
     (case nq_index nq key of
        None \<Rightarrow> Inr nq
      | Some idx \<Rightarrow>
          gbind (heap_Remove (nq_heap nq) idx)
            (\<lambda>(_, h). Inr (nq\<lparr>nq_heap := h, nq_index := (nq_index nq)(key := None)\<rparr>)))"

section \<open>What the heap methods keep\<close>

text \<open>The deadlines a heap holds, and the agreement of each entry's \<open>index\<close> field with its
  position.\<close>

definition deadline :: "near_entry \<Rightarrow> gostring \<times> int" where
  "deadline e = (ne_key e, ne_expireAt e)"

definition near_deadlines :: "near_heap \<Rightarrow> (gostring \<times> int) multiset" where
  "near_deadlines h = mset (map deadline h)"

definition index_fields_ok :: "near_heap \<Rightarrow> bool" where
  "index_fields_ok h \<longleftrightarrow> (\<forall>i < length h. ne_index (h ! i) = int i)"

lemma length_near_Swap [simp]: "length (near_Swap h i j) = length h"
  by (simp add: near_Swap_def Let_def)

lemma near_Swap_nth:
  assumes "i < length h" "j < length h"
  shows "near_Swap h i j ! k =
    (if k = j then (h ! i)\<lparr>ne_index := int j\<rparr>
     else if k = i then (h ! j)\<lparr>ne_index := int i\<rparr> else h ! k)"
  using assms by (auto simp: near_Swap_def Let_def nth_list_update)

interpretation near: heap_interface near_Less near_Swap length near_prio
  by unfold_locales
    (auto simp: near_Less_def less_near_entry_ext_def near_Swap_nth fun_eq_iff)

lemma near_deadlines_Swap:
  assumes "i < length h" "j < length h"
  shows "near_deadlines (near_Swap h i j) = near_deadlines h"
proof -
  have "map deadline (near_Swap h i j) = (map deadline h)[i := map deadline h ! j, j := map deadline h ! i]"
    using assms by (intro nth_equalityI) (auto simp: near_Swap_nth nth_list_update deadline_def)
  then have "mset (map deadline (near_Swap h i j)) = mset (map deadline h)"
    using assms mset_swap [of j "map deadline h" i] by (simp del: mset_map nth_map)
  then show ?thesis by (simp only: near_deadlines_def)
qed

lemma index_fields_Swap:
  "index_fields_ok h \<Longrightarrow> i < length h \<Longrightarrow> j < length h \<Longrightarrow> index_fields_ok (near_Swap h i j)"
  by (simp add: index_fields_ok_def near_Swap_nth)

text \<open>The observations every in-range swap keeps, bundled for the loops.\<close>

definition same_content :: "near_heap \<Rightarrow> near_heap \<Rightarrow> bool" where
  "same_content h h' \<longleftrightarrow> length h' = length h \<and> near_deadlines h' = near_deadlines h \<and>
     (index_fields_ok h \<longrightarrow> index_fields_ok h')"

lemma same_content_Swap:
  "same_content g h \<Longrightarrow> i < length g \<Longrightarrow> j < length g \<Longrightarrow> same_content g (near_Swap h i j)"
  by (auto simp: same_content_def near_deadlines_Swap index_fields_Swap)

lemma same_content_refl [simp]: "same_content h h"
  by (simp add: same_content_def)

lemma same_content_trans: "same_content f g \<Longrightarrow> same_content g h \<Longrightarrow> same_content f h"
  by (simp add: same_content_def)

lemma same_content_up: "j < length h \<Longrightarrow> same_content h (fst (near_up h j))"
  using heap_up_keeps [of "same_content h" h j "length h"] same_content_Swap by simp

text \<open>Sifting down within the first \<open>n\<close> positions does not touch position \<open>n\<close>.\<close>

lemma same_content_down:
  assumes "i < n" "n \<le> length h"
  shows "same_content h (fst (near_down h i n)) \<and> fst (near_down h i n) ! n = h ! n"
proof -
  have "same_content h (near_Swap x a b) \<and> near_Swap x a b ! n = h ! n"
    if "same_content h x \<and> x ! n = h ! n" "a < n" "b < n" for x a b
  proof -
    have "length x = length h" using that(1) by (simp add: same_content_def)
    then show ?thesis using that assms by (simp add: same_content_Swap near_Swap_nth)
  qed
  then show ?thesis
    using heap_down_keeps [where I = "\<lambda>x. same_content h x \<and> x ! n = h ! n" and lt = near_Less
        and swap = near_Swap and h = h, of i n] assms(1) by simp
qed

section \<open>Correctness of the heap operations\<close>

definition near_ordered :: "near_heap \<Rightarrow> bool" where
  "near_ordered h \<longleftrightarrow> heap_order (near_prio h) (length h)"

lemma heap_order_cong: "(\<And>k. k < n \<Longrightarrow> p k = q k) \<Longrightarrow> heap_order p n = heap_order q n"
  using parent_le by (auto simp: heap_order_def) (metis le_less_trans)+

lemma heap_except_cong:
  assumes "\<And>k. k < n \<Longrightarrow> p k = q k" and "i < n"
  shows "heap_except p n i = heap_except q n i"
proof -
  have "p (parent k) = q (parent k)" if "k < n" for k
    using assms(1) that parent_le [of k] by (meson le_less_trans)
  then show ?thesis using assms by (simp add: heap_except_def cong: conj_cong)
qed

lemma heap_order_mono: "heap_order p n \<Longrightarrow> m \<le> n \<Longrightarrow> heap_order p m"
  by (simp add: heap_order_def)

lemma near_ordered_root: "near_ordered h \<Longrightarrow> k < length h \<Longrightarrow> near_prio h 0 \<le> near_prio h k"
  unfolding near_ordered_def by (rule heap_order_root)

lemma near_deadlines_simps [simp]:
  "near_deadlines [] = {#}"
  "near_deadlines (h @ [x]) = add_mset (deadline x) (near_deadlines h)"
  "near_deadlines (x # h) = add_mset (deadline x) (near_deadlines h)"
  by (simp_all add: near_deadlines_def)

lemma deadline_index [simp]: "deadline (x\<lparr>ne_index := i\<rparr>) = deadline x"
  by (simp add: deadline_def)

lemma near_deadlines_butlast:
  "h \<noteq> [] \<Longrightarrow> near_deadlines h = add_mset (deadline (last h)) (near_deadlines (butlast h))"
  using near_deadlines_simps(2) [of "butlast h" "last h"] by simp

lemma index_fields_butlast: "index_fields_ok h \<Longrightarrow> index_fields_ok (butlast h)"
  by (simp add: index_fields_ok_def nth_butlast)

lemma near_ordered_butlast:
  "heap_order (near_prio h) (length h - 1) \<Longrightarrow> near_ordered (butlast h)"
  unfolding near_ordered_def
  by (subst heap_order_cong [of _ _ "near_prio h"]) (simp_all add: nth_butlast)

lemma heap_Push_correct:
  assumes ord: "near_ordered h" and ix: "index_fields_ok h" and r: "heap_Push h x = (h', pos)"
  shows "near_ordered h'" "index_fields_ok h'"
    "near_deadlines h' = add_mset (deadline x) (near_deadlines h)" "length h' = Suc (length h)"
proof -
  let ?h = "near_Push h x" and ?n = "length h"
  have h': "h' = fst (near_up ?h ?n)" using r by (simp add: heap_Push_def near_Push_def)
  have sc: "same_content ?h h'" unfolding h' by (rule same_content_up) (simp add: near_Push_def)
  have "index_fields_ok ?h" using ix by (simp add: index_fields_ok_def near_Push_def nth_append)
  with sc show "index_fields_ok h'" by (simp add: same_content_def)
  show "near_deadlines h' = add_mset (deadline x) (near_deadlines h)" "length h' = Suc (length h)"
    using sc by (simp_all add: same_content_def near_Push_def)
  have "heap_order (near_prio ?h) ?n"
    using ord unfolding near_ordered_def
    by (subst heap_order_cong [of _ _ "near_prio h"]) (simp_all add: near_Push_def nth_append)
  then have ko: "near_prio ?h (parent k) \<le> near_prio ?h k" if "0 < k" "k < ?n" for k
    using that by (simp add: heap_order_def)
  have "parent k \<noteq> ?n" if "k < Suc ?n" "0 < k" for k using parent_less [of k] that by simp
  then have "heap_except (near_prio ?h) (Suc ?n) ?n \<and> children_ok (near_prio ?h) (Suc ?n) ?n"
    using ko by (auto simp: heap_except_def children_ok_def less_Suc_eq)
  then have "heap_order (near_prio h') (Suc ?n)"
    unfolding h' by (intro near.up_restores) (simp_all add: near_Push_def)
  then show "near_ordered h'" using \<open>length h' = Suc ?n\<close> by (simp add: near_ordered_def)
qed

lemma heap_Pop_correct:
  assumes ord: "near_ordered h" and ne: "h \<noteq> []" and r: "heap_Pop h = (x, h')"
  shows "near_ordered h'" "near_deadlines h = add_mset (deadline x) (near_deadlines h')"
    "deadline x = deadline (h ! 0)" "length h' = length h - 1"
    "index_fields_ok h \<Longrightarrow> index_fields_ok h'"
proof -
  define n where "n = length h - 1"
  let ?h1 = "near_Swap h 0 n" and ?h2 = "fst (near_down (near_Swap h 0 n) 0 n)"
  have n: "n < length h" "0 < length h" "length h = Suc n" using ne by (simp_all add: n_def)
  have xh: "x = (last ?h2)\<lparr>ne_index := - 1\<rparr>" "h' = butlast ?h2"
    using r by (simp_all add: heap_Pop_def near_Pop_def n_def Let_def)
  have s1: "same_content h ?h1" using n by (simp add: same_content_Swap)
  have s2: "same_content ?h1 ?h2 \<and> ?h2 ! n = ?h1 ! n"
  proof (cases "n = 0")
    case True
    then show ?thesis by (simp add: heap_down.simps [of _ _ _ 0 0] Let_def)
  next
    case False
    then show ?thesis using n by (intro same_content_down) simp_all
  qed
  have sc: "same_content h ?h2" using s1 s2 same_content_trans by blast
  have len: "length ?h2 = Suc n" using sc n by (simp add: same_content_def)
  then have ne2: "?h2 \<noteq> []" by auto
  have last: "last ?h2 = ?h1 ! n" using s2 len ne2 by (simp add: last_conv_nth)
  show "deadline x = deadline (h ! 0)"
    using n unfolding xh last by (simp add: near_Swap_nth)
  show "near_deadlines h = add_mset (deadline x) (near_deadlines h')"
    using sc near_deadlines_butlast [OF ne2] unfolding xh by (simp add: same_content_def)
  show "length h' = length h - 1" using len n by (simp add: xh)
  show "index_fields_ok h'" if "index_fields_ok h"
    using that sc unfolding xh by (simp add: same_content_def index_fields_butlast)
  have "heap_order (near_prio ?h2) n"
  proof (cases "n = 0")
    case False
    have "heap_order (near_prio h) n" using ord n by (auto simp: near_ordered_def intro: heap_order_mono)
    then have "heap_except ((near_prio h)(0 := near_prio h n)) n 0" using False by (simp add: heap_order_exceptI)
    then have "heap_except (near_prio ?h1) n 0"
      using False n by (subst heap_except_cong [of n _ "(near_prio h)(0 := near_prio h n)"]) (simp_all add: near_Swap_nth)
    then show ?thesis using False n by (intro near.down_root_restores) simp_all
  qed (simp add: heap_order_def)
  then show "near_ordered h'" unfolding xh using near_ordered_butlast [of ?h2] len by simp
qed

lemma down_up_content:
  assumes "i < n" "n \<le> length h" and r: "near_down h i n = (h1, i')"
  defines "g \<equiv> if i < i' then h1 else fst (near_up h1 i)"
  shows "same_content h g" and "n < length h \<Longrightarrow> g ! n = h ! n"
proof -
  have d: "same_content h h1 \<and> h1 ! n = h ! n"
    using same_content_down [OF assms(1,2)] r by simp
  then have len: "length h1 = length h" by (simp add: same_content_def)
  have u: "same_content h1 x \<and> x ! n = h1 ! n \<Longrightarrow> a < n \<Longrightarrow> b < n \<Longrightarrow>
      same_content h1 (near_Swap x a b) \<and> near_Swap x a b ! n = h1 ! n" for x a b
    using assms(2) len by (auto simp: same_content_Swap near_Swap_nth same_content_def near_deadlines_Swap index_fields_Swap)
  have "(same_content h1 (fst (near_up h1 i)) \<and> fst (near_up h1 i) ! n = h1 ! n) \<and> snd (near_up h1 i) \<le> i"
    by (rule heap_up_keeps [where I = "\<lambda>x. same_content h1 x \<and> x ! n = h1 ! n" and n = n])
      (simp_all add: assms(1) u)
  with d show "same_content h g" "n < length h \<Longrightarrow> g ! n = h ! n"
    using same_content_trans by (auto simp: g_def)
qed

lemma heap_Fix_correct:
  assumes ord: "near_ordered h" and i: "i < length h"
    and h2: "h2 = h[i := e]"
  shows "near_ordered (heap_Fix h2 i)" "same_content h2 (heap_Fix h2 i)"
proof -
  let ?n = "length h"
  obtain h1 i' where r: "near_down h2 i ?n = (h1, i')" by fastforce
  then have fix_eq: "heap_Fix h2 i = (if i < i' then h1 else fst (near_up h1 i))"
    by (simp add: heap_Fix_def h2)
  show sc: "same_content h2 (heap_Fix h2 i)"
    unfolding fix_eq using i r by (intro down_up_content(1)) (simp_all add: h2)
  have "heap_except ((near_prio h)(i := ne_expireAt e)) ?n i"
    using ord i by (simp add: near_ordered_def heap_order_exceptI)
  then have "heap_except (near_prio h2) ?n i"
    using i by (subst heap_except_cong [of _ _ "(near_prio h)(i := ne_expireAt e)"]) (simp_all add: h2)
  then have "heap_order (near_prio (heap_Fix h2 i)) ?n"
    unfolding fix_eq using near.down_up_restores [of i ?n h2] i r by (simp add: h2)
  with sc show "near_ordered (heap_Fix h2 i)"
    by (simp add: near_ordered_def same_content_def h2)
qed

lemma heap_Remove_correct:
  assumes ord: "near_ordered h" and r: "heap_Remove h i = Inr (x, h')"
  shows "near_ordered h'" "near_deadlines h = add_mset (deadline (h ! i)) (near_deadlines h')"
    "i < length h" "index_fields_ok h \<Longrightarrow> index_fields_ok h'"
proof -
  define n where "n = length h - 1"
  show i: "i < length h" using r by (simp add: heap_Remove_def split: if_splits)
  then have n: "n < length h" "length h = Suc n" "h \<noteq> []" by (auto simp: n_def)
  let ?h1 = "near_Swap h i n"
  obtain g where h': "h' = butlast g" and sc: "same_content h g" and last: "deadline (g ! n) = deadline (h ! i)"
    and go: "heap_order (near_prio g) n"
  proof (cases "i = n")
    case True
    have "h' = butlast h" using r i True by (simp add: heap_Remove_def near_Pop_def n_def)
    moreover have "heap_order (near_prio h) n"
      using ord n by (auto simp: near_ordered_def intro: heap_order_mono)
    ultimately show ?thesis using that [of h] True by simp
  next
    case False
    then have "i < n" using i n by simp
    obtain h1 i' where d: "near_down ?h1 i n = (h1, i')" by fastforce
    define g where "g = (if i < i' then h1 else fst (near_up h1 i))"
    have h': "h' = butlast g"
      using r i False d by (simp add: heap_Remove_def near_Pop_def n_def g_def)
    have sg: "same_content ?h1 g" "g ! n = ?h1 ! n"
      unfolding g_def using \<open>i < n\<close> n d by (intro down_up_content; simp)+
    have "same_content h g"
      using sg(1) same_content_Swap [OF same_content_refl i n(1)] same_content_trans by blast
    moreover have "deadline (g ! n) = deadline (h ! i)" using sg(2) i n by (simp add: near_Swap_nth)
    moreover have "heap_order (near_prio g) n"
    proof -
      have "heap_order (near_prio h) n" using ord n by (auto simp: near_ordered_def intro: heap_order_mono)
      then have "heap_except ((near_prio h)(i := near_prio h n)) n i" using \<open>i < n\<close> by (rule heap_order_exceptI)
      then have "heap_except (near_prio ?h1) n i"
        using \<open>i < n\<close> n by (subst heap_except_cong [of n _ "(near_prio h)(i := near_prio h n)"]) (simp_all add: near_Swap_nth)
      then show ?thesis
        using near.down_up_restores [of i n ?h1] \<open>i < n\<close> n d by (simp add: g_def)
    qed
    ultimately show ?thesis using that h' by blast
  qed
  have len: "length g = Suc n" using sc n by (simp add: same_content_def)
  then have ne: "g \<noteq> []" by auto
  have lg: "last g = g ! n" using ne len by (simp add: last_conv_nth)
  show "near_deadlines h = add_mset (deadline (h ! i)) (near_deadlines h')"
    using sc near_deadlines_butlast [OF ne] unfolding h' lg last by (simp add: same_content_def)
  show "near_ordered h'" using go near_ordered_butlast [of g] len h' by simp
  show "index_fields_ok h'" if "index_fields_ok h"
    using that sc h' by (simp add: same_content_def index_fields_butlast)
qed

lemma heap_Remove_total: "i < length h \<Longrightarrow> \<exists>x h'. heap_Remove h i = Inr (x, h')"
  by (cases "near_down (near_Swap h i (length h - 1)) i (length h - 1)")
    (auto simp: heap_Remove_def near_Pop_def Let_def)

section \<open>Draining\<close>

lemma heap_Pop_length:
  "h \<noteq> [] \<Longrightarrow> length (snd (heap_Pop h)) = length h - 1"
proof -
  assume "h \<noteq> []"
  let ?n = "length h - 1"
  have "length (fst (near_down (near_Swap h 0 ?n) 0 ?n)) = length h"
  proof (cases "?n = 0")
    case True
    then show ?thesis by (simp add: heap_down.simps [of _ _ _ 0 0] Let_def)
  next
    case False
    then show ?thesis using near.down_len [of 0 ?n "near_Swap h 0 ?n"] by simp
  qed
  then show ?thesis by (simp add: heap_Pop_def near_Pop_def Let_def)
qed

text \<open>The loop of \<open>DrainExpired\<close>, with the heap, the position map and the result as its state.\<close>

function drain_loop :: "int \<Rightarrow> near_heap \<Rightarrow> (gostring \<rightharpoonup> nat) \<Rightarrow> gostring list
    \<Rightarrow> gostring list \<times> near_heap \<times> (gostring \<rightharpoonup> nat)" where
  "drain_loop now h ix expired =
     (if h = [] then (expired, h, ix)
      else let e = h ! 0
           in if now < to_ms (ne_expireAt e) then (expired, h, ix)
              else let (popped, h') = heap_Pop h
                   in drain_loop now h' (ix(ne_key popped := None)) (expired @ [ne_key popped]))"
  by pat_completeness auto
termination
proof (relation "measure (\<lambda>(now, h, ix, expired). length h)", goal_cases)
  case (2 now h ix expired e p popped h')
  then show ?case using heap_Pop_length [of h] by (cases "heap_Pop h") auto
qed simp

declare drain_loop.simps [simp del]

definition NearQueue_DrainExpired :: "int \<Rightarrow> near_queue \<Rightarrow> gostring list \<times> near_queue" where
  "NearQueue_DrainExpired cached nq =
     (let (expired, h, ix) = drain_loop (to_ms cached) (nq_heap nq) (nq_index nq) []
      in (expired, nq\<lparr>nq_heap := h, nq_index := ix\<rparr>))"

lemma drain_loop_correct:
  assumes "near_ordered h" and "drain_loop (to_ms now) h ix acc = (ks, h', ix')"
  shows "near_ordered h' \<and> (index_fields_ok h \<longrightarrow> index_fields_ok h') \<and>
    (\<forall>x \<in># near_deadlines h'. \<not> due now x) \<and>
    (\<exists>ds. ks = acc @ map fst ds \<and> near_deadlines h = mset ds + near_deadlines h' \<and>
      (\<forall>x \<in> set ds. due now x) \<and> sorted (map snd ds))"
  using assms
proof (induction "length h" arbitrary: h ix acc rule: less_induct)
  case less
  have root: "ne_expireAt (h ! 0) \<le> snd x" if "x \<in># near_deadlines h" for x
  proof -
    from that obtain k where "k < length h" "x = deadline (h ! k)"
      by (auto simp: near_deadlines_def in_set_conv_nth)
    then show ?thesis using near_ordered_root [OF less.prems(1)] by (simp add: deadline_def)
  qed
  show ?case
  proof (cases "h = [] \<or> to_ms now < to_ms (ne_expireAt (h ! 0))")
    case True
    have "\<forall>x \<in># near_deadlines h. \<not> due now x"
    proof
      fix x assume x: "x \<in># near_deadlines h"
      then have "h \<noteq> []" by auto
      then show "\<not> due now x" using True to_ms_mono [OF root [OF x]] by (simp add: due_def)
    qed
    moreover have "ks = acc" "h' = h"
      using True less.prems(2) by (auto simp: drain_loop.simps [of _ h] Let_def split: if_splits)
    ultimately show ?thesis using less.prems(1) by (intro conjI exI [of _ "[]"]) auto
  next
    case False
    obtain p g where pg: "heap_Pop h = (p, g)" by fastforce
    have ne: "h \<noteq> []" using False by simp
    note pop = heap_Pop_correct [OF less.prems(1) ne pg]
    have "drain_loop (to_ms now) g (ix(ne_key p := None)) (acc @ [ne_key p]) = (ks, h', ix')"
      using False less.prems(2) pg by (simp add: drain_loop.simps [of _ h] Let_def)
    with less.hyps [OF _ pop(1) this] ne pop(4) obtain ds where
      g: "near_ordered h'" "index_fields_ok g \<longrightarrow> index_fields_ok h'"
        "\<forall>x \<in># near_deadlines h'. \<not> due now x"
      and ds: "ks = (acc @ [ne_key p]) @ map fst ds" "near_deadlines g = mset ds + near_deadlines h'"
        "\<forall>x \<in> set ds. due now x" "sorted (map snd ds)"
      by auto
    let ?ds = "deadline p # ds"
    have "snd (deadline p) = near_prio h 0" unfolding pop(3) by (simp add: deadline_def)
    then have "due now (deadline p)" using False by (simp add: due_def)
    moreover have "sorted (map snd ?ds)"
      using ds(4) root pop(2,3) ds(2) by (auto simp: deadline_def)
    ultimately have "ks = acc @ map fst ?ds \<and> near_deadlines h = mset ?ds + near_deadlines h' \<and>
        (\<forall>x \<in> set ?ds. due now x) \<and> sorted (map snd ?ds)"
      using ds pop(2) by (simp add: deadline_def)
    with g pop(5) show ?thesis by blast
  qed
qed

section \<open>The queue's invariant\<close>

definition near_ok :: "near_queue \<Rightarrow> bool" where
  "near_ok nq \<longleftrightarrow> near_ordered (nq_heap nq) \<and> index_fields_ok (nq_heap nq)"

definition nq_deadlines :: "near_queue \<Rightarrow> (gostring \<times> int) multiset" where
  "nq_deadlines nq = near_deadlines (nq_heap nq)"

lemma near_ok_New: "near_ok (NewNearQueue w)"
  by (simp add: near_ok_def NewNearQueue_def near_ordered_def heap_order_def index_fields_ok_def)

lemma nq_deadlines_New [simp]: "nq_deadlines (NewNearQueue w) = {#}"
  by (simp add: nq_deadlines_def NewNearQueue_def)

text \<open>After a push, the returned position holds the pushed entry.\<close>

lemma near_up_tracks:
  "j < length h \<Longrightarrow> near_up h j = (h', pos) \<Longrightarrow> pos < length h' \<and> deadline (h' ! pos) = deadline (h ! j)"
proof (induction j arbitrary: h rule: less_induct)
  case (less j)
  show ?case
  proof (cases "parent j = j \<or> \<not> near_Less h j (parent j)")
    case True
    with less.prems show ?thesis by (simp add: heap_up.simps [of _ _ h j])
  next
    case False
    then have p: "parent j < j" by (auto simp: parent_eq_self intro: parent_less)
    let ?h = "near_Swap h (parent j) j"
    have "near_up ?h (parent j) = (h', pos)"
      using False less.prems(2) by (simp add: heap_up.simps [of _ _ h j] Let_def)
    with less.IH [OF p, of ?h] less.prems(1) p show ?thesis by (simp add: near_Swap_nth)
  qed
qed

lemma heap_Push_position:
  "heap_Push h x = (h', pos) \<Longrightarrow> pos < length h' \<and> deadline (h' ! pos) = deadline x"
  using near_up_tracks [of "length h" "near_Push h x" h' pos]
  by (simp add: heap_Push_def near_Push_def)

text \<open>The position map is accurate for a key when it points at an entry of that key.\<close>

definition index_accurate :: "near_queue \<Rightarrow> gostring \<Rightarrow> bool" where
  "index_accurate nq k \<longleftrightarrow> (\<forall>idx. nq_index nq k = Some idx \<longrightarrow>
     idx < length (nq_heap nq) \<and> ne_key (nq_heap nq ! idx) = k)"

lemma NearQueue_Add_window:
  "NearQueue_Add cached nq k d = Inr (False, nq') \<longleftrightarrow>
    nq_windowMs nq < to_ms d - to_ms cached \<and> nq' = nq"
  by (auto simp: NearQueue_Add_def Let_def split: option.splits prod.splits if_splits)

lemma NearQueue_Add_new:
  assumes "near_ok nq" "nq_index nq k = None" "NearQueue_Add cached nq k d = Inr (True, nq')"
  shows "near_ok nq'" "nq_deadlines nq' = add_mset (k, d) (nq_deadlines nq)" "index_accurate nq' k"
proof -
  let ?e = "\<lparr>ne_key = k, ne_expireAt = d, ne_index = 0\<rparr>"
  obtain h pos where p: "heap_Push (nq_heap nq) ?e = (h, pos)" by fastforce
  have nq': "nq' = nq\<lparr>nq_heap := h, nq_index := (nq_index nq)(k \<mapsto> nat (ne_index (h ! pos)))\<rparr>"
    using assms(2,3) p by (simp add: NearQueue_Add_def Let_def split: if_splits)
  have ok: "near_ordered (nq_heap nq)" "index_fields_ok (nq_heap nq)"
    using assms(1) by (simp_all add: near_ok_def)
  note push = heap_Push_correct [OF ok p]
  show "near_ok nq'" "nq_deadlines nq' = add_mset (k, d) (nq_deadlines nq)"
    using push by (simp_all add: nq' near_ok_def nq_deadlines_def deadline_def)
  have "pos < length h" "deadline (h ! pos) = (k, d)"
    using heap_Push_position [OF p] by (simp_all add: deadline_def)
  then show "index_accurate nq' k"
    using push(2) by (simp add: nq' index_accurate_def index_fields_ok_def deadline_def)
qed

lemma NearQueue_Add_ok:
  assumes ok: "near_ok nq" and r: "NearQueue_Add cached nq k d = Inr (b, nq')"
  shows "near_ok nq'"
proof (cases "nq_index nq k")
  case None
  show ?thesis
  proof (cases b)
    case True
    with None ok r show ?thesis by (auto intro: NearQueue_Add_new(1))
  next
    case False
    with r ok show ?thesis by (simp add: NearQueue_Add_window)
  qed
next
  case (Some idx)
  let ?e = "(nq_heap nq ! idx)\<lparr>ne_expireAt := d\<rparr>"
  show ?thesis
  proof (cases "nq_windowMs nq < to_ms d - to_ms cached")
    case True
    with r ok show ?thesis by (simp add: NearQueue_Add_def)
  next
    case False
    then have i: "idx < length (nq_heap nq)"
      and nq': "nq' = nq\<lparr>nq_heap := heap_Fix ((nq_heap nq)[idx := ?e]) (nat (ne_index ?e))\<rparr>"
      using r Some by (auto simp: NearQueue_Add_def Let_def split: if_splits)
    have "nat (ne_index ?e) = idx" using ok i by (simp add: near_ok_def index_fields_ok_def)
    moreover have "near_ordered (nq_heap nq)" using ok by (simp add: near_ok_def)
    note fx = heap_Fix_correct [OF this i refl, of ?e]
    have "index_fields_ok ((nq_heap nq)[idx := ?e])"
      using ok i by (auto simp: near_ok_def index_fields_ok_def nth_list_update)
    ultimately show ?thesis using fx by (simp add: nq' near_ok_def same_content_def)
  qed
qed

lemma NearQueue_Remove_ok:
  assumes "near_ok nq" "NearQueue_Remove nq k = Inr nq'"
  shows "near_ok nq'"
  using assms heap_Remove_correct
  by (auto simp: NearQueue_Remove_def near_ok_def gbind_iff split: option.splits) 

lemma NearQueue_Remove_accurate:
  assumes "near_ok nq" "nq_index nq k = Some idx" "index_accurate nq k"
  shows "\<exists>nq' d. NearQueue_Remove nq k = Inr nq' \<and> nq_deadlines nq = add_mset (k, d) (nq_deadlines nq') \<and>
    nq_index nq' = (nq_index nq)(k := None)"
proof -
  have i: "idx < length (nq_heap nq)" "ne_key (nq_heap nq ! idx) = k"
    using assms by (simp_all add: index_accurate_def)
  then obtain x h where r: "heap_Remove (nq_heap nq) idx = Inr (x, h)"
    using heap_Remove_total by blast
  have "near_ordered (nq_heap nq)" using assms(1) by (simp add: near_ok_def)
  from heap_Remove_correct(2) [OF this r] i r assms(2) show ?thesis
    by (auto simp: NearQueue_Remove_def nq_deadlines_def deadline_def)
qed

lemma NearQueue_Drain_correct:
  assumes "near_ok nq" "NearQueue_DrainExpired now nq = (ks, nq')"
  shows "near_ok nq' \<and> (\<forall>x \<in># nq_deadlines nq'. \<not> due now x) \<and>
    (\<exists>ds. ks = map fst ds \<and> nq_deadlines nq = mset ds + nq_deadlines nq' \<and>
      (\<forall>x \<in> set ds. due now x) \<and> sorted (map snd ds))"
proof -
  obtain h ix where r: "drain_loop (to_ms now) (nq_heap nq) (nq_index nq) [] = (ks, h, ix)"
    and nq': "nq' = nq\<lparr>nq_heap := h, nq_index := ix\<rparr>"
    using assms(2) by (auto simp: NearQueue_DrainExpired_def split: prod.splits)
  have "near_ordered (nq_heap nq)" using assms(1) by (simp add: near_ok_def)
  from drain_loop_correct [OF this r] assms(1) show ?thesis
    by (simp add: nq' near_ok_def nq_deadlines_def)
qed

interpretation near_src: expiry_source NearQueue_DrainExpired nq_deadlines near_ok
  using NearQueue_Drain_correct by unfold_locales blast+

section \<open>Reachable queues\<close>

inductive near_reachable :: "int \<Rightarrow> near_queue \<Rightarrow> bool" for w where
  near_new: "near_reachable w (NewNearQueue w)"
| near_add: "near_reachable w q \<Longrightarrow> NearQueue_Add cached q k d = Inr (b, q') \<Longrightarrow> near_reachable w q'"
| near_remove: "near_reachable w q \<Longrightarrow> NearQueue_Remove q k = Inr q' \<Longrightarrow> near_reachable w q'"
| near_drain: "near_reachable w q \<Longrightarrow> NearQueue_DrainExpired cached q = (ks, q') \<Longrightarrow> near_reachable w q'"

lemma near_reachable_ok: "near_reachable w q \<Longrightarrow> near_ok q"
  by (induction rule: near_reachable.induct)
    (auto intro: near_ok_New NearQueue_Add_ok NearQueue_Remove_ok near_src.poll_inv)

text \<open>Two keys, the second with the earlier deadline: the second is sifted above the first, and
  the position map still says 0 for both.\<close>

definition stale_queue :: near_queue where
  "stale_queue =
     \<lparr>nq_heap = [\<lparr>ne_key = str ''b'', ne_expireAt = 50, ne_index = 0\<rparr>,
                 \<lparr>ne_key = str ''a'', ne_expireAt = 100, ne_index = 1\<rparr>],
      nq_index = [str ''a'' \<mapsto> 0, str ''b'' \<mapsto> 0], nq_windowMs = 2000\<rparr>"

lemma stale_queue_step1:
  "NearQueue_Add 0 (NewNearQueue 2000) (str ''a'') 100 =
    Inr (True, \<lparr>nq_heap = [\<lparr>ne_key = str ''a'', ne_expireAt = 100, ne_index = 0\<rparr>],
      nq_index = [str ''a'' \<mapsto> 0], nq_windowMs = 2000\<rparr>)"
  by (simp add: NearQueue_Add_def NewNearQueue_def heap_Push_def near_Push_def heap_up.simps
      parent_def to_ms_def signed_divide_int_def)

lemma stale_queue_step2:
  "NearQueue_Add 0 \<lparr>nq_heap = [\<lparr>ne_key = str ''a'', ne_expireAt = 100, ne_index = 0\<rparr>],
      nq_index = [str ''a'' \<mapsto> 0], nq_windowMs = 2000\<rparr> (str ''b'') 50 = Inr (True, stale_queue)"
  by (simp add: NearQueue_Add_def heap_Push_def near_Push_def heap_up.simps near_Less_def
      less_near_entry_ext_def near_Swap_def parent_def to_ms_def signed_divide_int_def
      stale_queue_def str_def)

lemma stale_queue_reachable: "near_reachable 2000 stale_queue"
  using near_add [OF near_add [OF near_new stale_queue_step1] stale_queue_step2] .

lemma stale_remove_other:
  "\<exists>q'. NearQueue_Remove stale_queue (str ''a'') = Inr q' \<and> nq_deadlines q' = {#(str ''a'', 100)#}
    \<and> nq_index q' (str ''a'') = None"
  by (simp add: NearQueue_Remove_def stale_queue_def heap_Remove_def near_Swap_def heap_down.simps
      heap_up.simps near_Pop_def nq_deadlines_def near_deadlines_def deadline_def str_def parent_def)

text \<open>Once the first key has expired, the position recorded for the second is past the end.\<close>

definition drained_queue :: near_queue where
  "drained_queue =
     \<lparr>nq_heap = [\<lparr>ne_key = str ''b'', ne_expireAt = 90000000, ne_index = 0\<rparr>],
      nq_index = [str ''b'' \<mapsto> 1], nq_windowMs = 2000\<rparr>"

abbreviation two_keys :: near_queue where
  "two_keys \<equiv>
     \<lparr>nq_heap = [\<lparr>ne_key = str ''a'', ne_expireAt = 10000000, ne_index = 0\<rparr>,
                 \<lparr>ne_key = str ''b'', ne_expireAt = 90000000, ne_index = 1\<rparr>],
      nq_index = [str ''a'' \<mapsto> 0, str ''b'' \<mapsto> 1], nq_windowMs = 2000\<rparr>"

abbreviation one_key :: near_queue where
  "one_key \<equiv>
     \<lparr>nq_heap = [\<lparr>ne_key = str ''a'', ne_expireAt = 10000000, ne_index = 0\<rparr>],
      nq_index = [str ''a'' \<mapsto> 0], nq_windowMs = 2000\<rparr>"

lemma two_keys_steps:
  "NearQueue_Add 0 (NewNearQueue 2000) (str ''a'') 10000000 = Inr (True, one_key)"
  "NearQueue_Add 0 one_key (str ''b'') 90000000 = Inr (True, two_keys)"
  by (simp_all add: NearQueue_Add_def NewNearQueue_def heap_Push_def near_Push_def heap_up.simps
      near_Less_def less_near_entry_ext_def parent_def to_ms_def signed_divide_int_def str_def)

lemma two_keys_drain:
  "NearQueue_DrainExpired 20000000 two_keys = ([str ''a''], drained_queue)"
  by (simp add: NearQueue_DrainExpired_def drain_loop.simps [of _ "_ # _"] heap_Pop_def
      near_Swap_def near_Pop_def heap_down.simps to_ms_def signed_divide_int_def str_def
      drained_queue_def fun_upd_twist)

lemma drained_queue_reachable: "near_reachable 2000 drained_queue"
  using near_drain [OF near_add [OF near_add [OF near_new two_keys_steps(1)] two_keys_steps(2)]
      two_keys_drain] .

lemma drained_queue_panics:
  "NearQueue_Remove drained_queue (str ''b'') = Inl IndexOutOfRange"
  "NearQueue_Add 20000000 drained_queue (str ''b'') 95000000 = Inl IndexOutOfRange"
  by (simp_all add: NearQueue_Remove_def NearQueue_Add_def drained_queue_def heap_Remove_def
      to_ms_def signed_divide_int_def)

text \<open>The same without any expiry: removing the first of two keys in deadline order.\<close>

definition removed_queue :: near_queue where
  "removed_queue =
     \<lparr>nq_heap = [\<lparr>ne_key = str ''b'', ne_expireAt = 90000000, ne_index = 0\<rparr>],
      nq_index = [str ''b'' \<mapsto> 1], nq_windowMs = 2000\<rparr>"

lemma removed_queue_steps:
  "NearQueue_Remove two_keys (str ''a'') = Inr removed_queue"
  "NearQueue_Remove removed_queue (str ''b'') = Inl IndexOutOfRange"
  by (simp_all add: NearQueue_Remove_def heap_Remove_def near_Swap_def near_Pop_def heap_down.simps heap_up.simps
      parent_def removed_queue_def str_def fun_upd_twist)

lemma removed_queue_reachable: "near_reachable 2000 removed_queue"
  using near_remove [OF near_add [OF near_add [OF near_new two_keys_steps(1)] two_keys_steps(2)] removed_queue_steps(1)] .

text \<open>The same for any two keys in deadline order, from an empty queue.\<close>

lemma two_deadlines_panic:
  assumes "a \<noteq> b" "d1 \<le> d2" "to_ms d1 - to_ms c1 \<le> w" "to_ms d2 - to_ms c2 \<le> w"
  shows "\<exists>q1 q2 q3. NearQueue_Add c1 (NewNearQueue w) a d1 = Inr (True, q1) \<and> NearQueue_Add c2 q1 b d2 = Inr (True, q2) \<and>
    NearQueue_Remove q2 a = Inr q3 \<and> NearQueue_Remove q3 b = Inl IndexOutOfRange"
proof -
  let ?q1 = "\<lparr>nq_heap = [\<lparr>ne_key = a, ne_expireAt = d1, ne_index = 0\<rparr>], nq_index = [a \<mapsto> 0], nq_windowMs = w\<rparr>"
  let ?q2 = "\<lparr>nq_heap = [\<lparr>ne_key = a, ne_expireAt = d1, ne_index = 0\<rparr>, \<lparr>ne_key = b, ne_expireAt = d2, ne_index = 1\<rparr>],
    nq_index = [a \<mapsto> 0, b \<mapsto> 1], nq_windowMs = w\<rparr>"
  let ?q3 = "\<lparr>nq_heap = [\<lparr>ne_key = b, ne_expireAt = d2, ne_index = 0\<rparr>], nq_index = [b \<mapsto> 1], nq_windowMs = w\<rparr>"
  have 1: "NearQueue_Add c1 (NewNearQueue w) a d1 = Inr (True, ?q1)"
    using assms by (simp add: NearQueue_Add_def NewNearQueue_def heap_Push_def near_Push_def heap_up.simps parent_def)
  have 2: "NearQueue_Add c2 ?q1 b d2 = Inr (True, ?q2)"
    using assms by (simp add: NearQueue_Add_def heap_Push_def near_Push_def heap_up.simps near_Less_def
        less_near_entry_ext_def parent_def)
  have 3: "NearQueue_Remove ?q2 a = Inr ?q3"
    using assms by (simp add: NearQueue_Remove_def heap_Remove_def near_Swap_def near_Pop_def heap_down.simps heap_up.simps
        parent_def fun_upd_twist [of a b])
  have 4: "NearQueue_Remove ?q3 b = Inl IndexOutOfRange"
    by (simp add: NearQueue_Remove_def heap_Remove_def)
  show ?thesis by (rule exI [of _ ?q1], rule exI [of _ ?q2], rule exI [of _ ?q3]) (use 1 2 3 4 in blast)
qed

section \<open>Properties\<close>

text \<open>C6: in every reachable queue a drain hands out exactly the keys whose deadline has come, once per
  deadline and in order of deadline, and keeps the others; nothing still held is due.\<close>

theorem near_drain_exact:
  assumes "near_reachable w q" "NearQueue_DrainExpired now q = (ks, q')"
  shows "(\<forall>x \<in># nq_deadlines q'. \<not> due now x) \<and>
    (\<exists>ds. ks = map fst ds \<and> nq_deadlines q = mset ds + nq_deadlines q' \<and>
      (\<forall>x \<in> set ds. due now x) \<and> sorted (map snd ds))"
  using NearQueue_Drain_correct [OF near_reachable_ok [OF assms(1)] assms(2)] by blast

lemma two_keys_reachable: "near_reachable 2000 two_keys"
  using near_add [OF near_add [OF near_new two_keys_steps(1)] two_keys_steps(2)] .

theorem near_drain_exact_witness:
  "(\<exists>ds. [str ''a''] = map fst ds \<and> nq_deadlines two_keys = mset ds + nq_deadlines drained_queue) \<and>
    filter_mset (due 20000000) (nq_deadlines drained_queue) = {#}"
proof
  note d = near_drain_exact [OF two_keys_reachable two_keys_drain]
  show "\<exists>ds. [str ''a''] = map fst ds \<and> nq_deadlines two_keys = mset ds + nq_deadlines drained_queue"
    using conjunct2 [OF d] by (elim exE conjE, intro exI conjI)
  show "filter_mset (due 20000000) (nq_deadlines drained_queue) = {#}"
    using conjunct1 [OF d] by (simp only: filter_mset_eq_mempty_iff) blast
qed

text \<open>Every reachable queue keeps the order of a binary heap, and every entry knows its own
  position in it, whatever the sequence of additions, removals and drains.\<close>

theorem near_heap_invariant:
  assumes "near_reachable w q" "0 < k" "k < length (nq_heap q)"
  shows "ne_expireAt (nq_heap q ! ((k - 1) div 2)) \<le> ne_expireAt (nq_heap q ! k) \<and>
    ne_index (nq_heap q ! k) = int k"
  using near_reachable_ok [OF assms(1)] assms(2,3)
  by (simp add: near_ok_def near_ordered_def heap_order_def index_fields_ok_def parent_def)

theorem near_heap_invariant_witness:
  "ne_expireAt (nq_heap two_keys ! 0) \<le> ne_expireAt (nq_heap two_keys ! 1)"
  using near_heap_invariant [OF two_keys_reachable, of 1] by simp

text \<open>Adding a key that the queue does not know, within its window, records exactly its deadline.\<close>

theorem near_add_new:
  assumes "near_reachable w q" "nq_index q k = None" "to_ms d - to_ms cached \<le> nq_windowMs q"
  shows "\<exists>q'. NearQueue_Add cached q k d = Inr (True, q') \<and> nq_deadlines q' = add_mset (k, d) (nq_deadlines q) \<and>
    index_accurate q' k"
proof -
  obtain q' where r: "NearQueue_Add cached q k d = Inr (True, q')"
    using assms(2,3)
    by (cases "heap_Push (nq_heap q) \<lparr>ne_key = k, ne_expireAt = d, ne_index = 0\<rparr>")
      (auto simp: NearQueue_Add_def Let_def)
  show ?thesis using NearQueue_Add_new(2,3) [OF near_reachable_ok [OF assms(1)] assms(2) r] r by blast
qed

theorem near_add_new_witness:
  "\<exists>q'. NearQueue_Add 0 one_key (str ''b'') 90000000 = Inr (True, q') \<and>
    nq_deadlines q' = add_mset (str ''b'', 90000000) (nq_deadlines one_key)"
  using near_add_new [OF near_add [OF near_new two_keys_steps(1)], of "str ''b''" 90000000 0]
  by (auto simp: str_def to_ms_def signed_divide_int_def)

text \<open>Removing a key whose recorded position is right takes out one deadline of that key and
  nothing else.\<close>

theorem near_remove_exact:
  assumes "near_reachable w q" "nq_index q k = Some idx" "index_accurate q k"
  shows "\<exists>q' d. NearQueue_Remove q k = Inr q' \<and> nq_deadlines q = add_mset (k, d) (nq_deadlines q') \<and>
    nq_index q' k = None"
  using NearQueue_Remove_accurate [OF near_reachable_ok [OF assms(1)] assms(2,3)] by auto

theorem near_remove_exact_witness:
  "\<exists>q' d. NearQueue_Remove two_keys (str ''a'') = Inr q' \<and> nq_deadlines two_keys = add_mset (str ''a'', d) (nq_deadlines q')"
  using near_remove_exact [OF two_keys_reachable, of "str ''a''" 0] by (auto simp: index_accurate_def str_def)

text \<open>The position map goes stale when the heap moves entries. There is a reachable queue, made by
  two additions, in which removing one key removes the deadline of the other and keeps its own.\<close>

theorem near_remove_wrong_key:
  "\<exists>q q'. near_reachable 2000 q \<and> nq_deadlines q = {#(str ''a'', 100), (str ''b'', 50)#} \<and>
    NearQueue_Remove q (str ''a'') = Inr q' \<and> nq_deadlines q' = {#(str ''a'', 100)#}"
proof -
  obtain q' where "NearQueue_Remove stale_queue (str ''a'') = Inr q'" "nq_deadlines q' = {#(str ''a'', 100)#}"
    using stale_remove_other by blast
  moreover have "nq_deadlines stale_queue = {#(str ''a'', 100), (str ''b'', 50)#}"
    by (simp add: stale_queue_def nq_deadlines_def near_deadlines_def deadline_def)
  ultimately show ?thesis using stale_queue_reachable by blast
qed

end
