(* ===== verification/Hashed_Wheel.thy ===== *)
theory Hashed_Wheel
  imports Expiry_Source
begin

text \<open>
  The hashed timing wheel of \<open>internal/gc/hashed_wheel.go\<close>: an array of slots visited one per
  tick, each holding entries with the number of full rotations still to wait, and a map from
  keys to slots. The theory shows that the map and the slots always agree, that a visit hands
  out exactly the entries of the current slot that are due in their last rotation, and how many
  visits an entry waits.
\<close>

section \<open>Data and operations\<close>

record wheel_entry =
  we_key :: gostring
  we_expireAt :: int
  we_rounds :: nat

record hashed_wheel =
  hw_slots :: "wheel_entry list list"
  hw_slotCount :: nat
  hw_tickMs :: int
  hw_currentPos :: nat
  hw_startTime :: int
  hw_keyIndex :: "gostring \<rightharpoonup> nat"

text \<open>\<open>NewHashedWheel\<close> clamps both parameters.\<close>

definition NewHashedWheel :: "go_time \<Rightarrow> int \<Rightarrow> int \<Rightarrow> hashed_wheel" where
  "NewHashedWheel now slotCount tickMs =
     (let s1 = (if slotCount < 64 then 64 else slotCount);
          s2 = (if 8192 < s1 then 8192 else s1);
          t1 = (if tickMs < 100 then 100 else tickMs);
          t2 = (if 1000 < t1 then 1000 else t1)
      in \<lparr>hw_slots = replicate (nat s2) [], hw_slotCount = nat s2, hw_tickMs = t2,
          hw_currentPos = 0, hw_startTime = to_ms (time_UnixNano now), hw_keyIndex = Map.empty\<rparr>)"

text \<open>The loop of \<open>removeLocked\<close>: drop the first entry of the key.\<close>

fun drop_first :: "gostring \<Rightarrow> wheel_entry list \<Rightarrow> wheel_entry list" where
  "drop_first key [] = []"
| "drop_first key (e # es) = (if we_key e = key then es else e # drop_first key es)"

definition removeLocked :: "hashed_wheel \<Rightarrow> gostring \<Rightarrow> hashed_wheel" where
  "removeLocked hw key =
     (case hw_keyIndex hw key of
        None \<Rightarrow> hw
      | Some slot \<Rightarrow>
          hw\<lparr>hw_slots := (hw_slots hw)[slot := drop_first key (hw_slots hw ! slot)],
             hw_keyIndex := (hw_keyIndex hw)(key := None)\<rparr>)"

definition HashedWheel_Remove :: "hashed_wheel \<Rightarrow> gostring \<Rightarrow> hashed_wheel" where
  "HashedWheel_Remove hw key = removeLocked hw key"

text \<open>The deadline after the random smear. The draw is below \<open>tickMs / 4\<close> and is added to a
  deadline in nanoseconds.\<close>

definition smeared :: "env \<Rightarrow> hashed_wheel \<Rightarrow> int \<Rightarrow> int" where
  "smeared env hw expireAt =
     (let r = int (env_rand env) mod (hw_tickMs hw sdiv 4);
          smear = (if env_coin env then - r else r)
      in i64 (expireAt + smear))"

text \<open>How many ticks ahead of the current position the entry goes.\<close>

definition wheel_ticks :: "env \<Rightarrow> hashed_wheel \<Rightarrow> int \<Rightarrow> nat" where
  "wheel_ticks env hw expireAt =
     (let now = to_ms (time_UnixNano (env_now env));
          d = to_ms expireAt - now;
          delay = (if d < 0 then 0 else d)
      in nat (delay sdiv hw_tickMs hw))"

definition HashedWheel_Add :: "env \<Rightarrow> hashed_wheel \<Rightarrow> gostring \<Rightarrow> int \<Rightarrow> hashed_wheel" where
  "HashedWheel_Add env hw key expireAt0 =
     (let expireAt = smeared env hw expireAt0;
          ticks = wheel_ticks env hw expireAt;
          slot = (hw_currentPos hw + ticks) mod hw_slotCount hw;
          rounds = ticks div hw_slotCount hw;
          hw1 = removeLocked hw key;
          e = \<lparr>we_key = key, we_expireAt = expireAt, we_rounds = rounds\<rparr>
      in hw1\<lparr>hw_slots := (hw_slots hw1)[slot := hw_slots hw1 ! slot @ [e]],
             hw_keyIndex := (hw_keyIndex hw1)(key \<mapsto> slot)\<rparr>)"

text \<open>The loop of \<open>Advance\<close> over the current slot: expired keys, remaining entries, key map.\<close>

fun advance_slot :: "int \<Rightarrow> wheel_entry list \<Rightarrow> (gostring \<rightharpoonup> nat)
    \<Rightarrow> gostring list \<times> wheel_entry list \<times> (gostring \<rightharpoonup> nat)" where
  "advance_slot now [] ix = ([], [], ix)"
| "advance_slot now (e # es) ix =
     (if 0 < we_rounds e
      then let (ks, rs, ix') = advance_slot now es ix
           in (ks, e\<lparr>we_rounds := we_rounds e - 1\<rparr> # rs, ix')
      else if to_ms (we_expireAt e) \<le> now
      then let (ks, rs, ix') = advance_slot now es (ix(we_key e := None))
           in (we_key e # ks, rs, ix')
      else let (ks, rs, ix') = advance_slot now es ix in (ks, e # rs, ix'))"

definition HashedWheel_Advance :: "int \<Rightarrow> hashed_wheel \<Rightarrow> gostring list \<times> hashed_wheel" where
  "HashedWheel_Advance now hw =
     (let p = hw_currentPos hw;
          (expired, remaining, ix) = advance_slot (to_ms now) (hw_slots hw ! p) (hw_keyIndex hw)
      in (expired, hw\<lparr>hw_slots := (hw_slots hw)[p := remaining], hw_keyIndex := ix,
            hw_currentPos := (p + 1) mod hw_slotCount hw\<rparr>))"

section \<open>The invariant\<close>

text \<open>The key map and the slots agree: a key is mapped to a slot exactly when that slot holds an
  entry of it, and no slot holds two entries of one key.\<close>

definition wheel_ok :: "hashed_wheel \<Rightarrow> bool" where
  "wheel_ok hw \<longleftrightarrow> length (hw_slots hw) = hw_slotCount hw \<and> 0 < hw_slotCount hw \<and>
     hw_currentPos hw < hw_slotCount hw \<and> 0 < hw_tickMs hw \<and>
     (\<forall>s < hw_slotCount hw. distinct (map we_key (hw_slots hw ! s))) \<and>
     (\<forall>k s. hw_keyIndex hw k = Some s \<longleftrightarrow> s < hw_slotCount hw \<and> k \<in> we_key ` set (hw_slots hw ! s))"

definition entry_deadline :: "wheel_entry \<Rightarrow> gostring \<times> int" where
  "entry_deadline e = (we_key e, we_expireAt e)"

definition wheel_deadlines :: "hashed_wheel \<Rightarrow> (gostring \<times> int) multiset" where
  "wheel_deadlines hw = mset (map entry_deadline (concat (hw_slots hw)))"

lemma wheel_ok_New: "wheel_ok (NewHashedWheel now n t)"
  by (simp add: wheel_ok_def NewHashedWheel_def Let_def)

lemma wheel_deadlines_New [simp]: "wheel_deadlines (NewHashedWheel now n t) = {#}"
  by (simp add: wheel_deadlines_def NewHashedWheel_def Let_def concat_replicate_trivial)

text \<open>Replacing one slot replaces its entries.\<close>

lemma mset_concat_update:
  "s < length xss \<Longrightarrow> mset (concat (xss[s := ys])) + mset (xss ! s) = mset (concat xss) + mset ys"
proof (induction xss arbitrary: s)
  case (Cons xs xss)
  then show ?case by (cases s) (simp_all add: add_ac)
qed simp

lemma wheel_deadlines_update:
  assumes "s < length (hw_slots hw)"
  shows "wheel_deadlines (hw\<lparr>hw_slots := (hw_slots hw)[s := ys], hw_keyIndex := ix, hw_currentPos := p\<rparr>)
      + mset (map entry_deadline (hw_slots hw ! s))
    = wheel_deadlines hw + mset (map entry_deadline ys)"
proof -
  have "image_mset entry_deadline (mset (concat ((hw_slots hw)[s := ys])) + mset (hw_slots hw ! s)) =
      image_mset entry_deadline (mset (concat (hw_slots hw)) + mset ys)"
    using mset_concat_update [OF assms] by simp
  then show ?thesis by (simp add: wheel_deadlines_def)
qed

lemma drop_first_filter: "distinct (map we_key es) \<Longrightarrow> drop_first k es = filter (\<lambda>e. we_key e \<noteq> k) es"
proof (induction es)
  case (Cons e es)
  show ?case
  proof (cases "we_key e = k")
    case True
    have "\<forall>x \<in> set es. we_key x \<noteq> k"
      using Cons.prems True by (metis distinct.simps(2) list.simps(9) image_eqI set_map)
    then have "filter (\<lambda>e. we_key e \<noteq> k) es = es" by simp
    with True show ?thesis by simp
  next
    case False
    with Cons show ?thesis by simp
  qed
qed simp

section \<open>Removal and insertion\<close>

lemma wheel_ok_slotD:
  assumes "wheel_ok hw" "s < hw_slotCount hw"
  shows "s < length (hw_slots hw)" "distinct (map we_key (hw_slots hw ! s))"
    "\<And>e. e \<in> set (hw_slots hw ! s) \<Longrightarrow> hw_keyIndex hw (we_key e) = Some s"
  using assms by (auto simp: wheel_ok_def)

lemma wheel_ok_indexD:
  assumes "wheel_ok hw" "hw_keyIndex hw k = Some s"
  shows "s < hw_slotCount hw" "s < length (hw_slots hw)" "k \<in> we_key ` set (hw_slots hw ! s)"
  using assms by (auto simp: wheel_ok_def)

lemma keys_filter:
  "k' \<in> we_key ` set (filter (\<lambda>e. we_key e \<noteq> k) es) \<longleftrightarrow> k' \<noteq> k \<and> k' \<in> we_key ` set es"
  by auto

lemma removeLocked_Some:
  assumes ok: "wheel_ok hw" and "hw_keyIndex hw k = Some slot"
  shows "removeLocked hw k =
    hw\<lparr>hw_slots := (hw_slots hw)[slot := filter (\<lambda>e. we_key e \<noteq> k) (hw_slots hw ! slot)],
       hw_keyIndex := (hw_keyIndex hw)(k := None)\<rparr>"
  using assms wheel_ok_slotD(2) [OF ok wheel_ok_indexD(1) [OF assms]]
  by (simp add: removeLocked_def drop_first_filter)

lemma removeLocked_ok:
  assumes ok: "wheel_ok hw"
  shows "wheel_ok (removeLocked hw k)"
proof (cases "hw_keyIndex hw k")
  case None
  with ok show ?thesis by (simp add: removeLocked_def)
next
  case (Some slot)
  let ?n = "hw_slotCount hw"
  let ?slots = "(hw_slots hw)[slot := filter (\<lambda>e. we_key e \<noteq> k) (hw_slots hw ! slot)]"
  note s = wheel_ok_indexD [OF ok Some]
  have nth: "?slots ! t = (if t = slot then filter (\<lambda>e. we_key e \<noteq> k) (hw_slots hw ! slot) else hw_slots hw ! t)" for t
    using s(2) by (auto simp: nth_list_update)
  have B: "hw_keyIndex hw k' = Some t \<longleftrightarrow> t < ?n \<and> k' \<in> we_key ` set (hw_slots hw ! t)" for k' t
    using ok by (simp add: wheel_ok_def)
  have "((hw_keyIndex hw)(k := None)) k' = Some t \<longleftrightarrow> t < ?n \<and> k' \<in> we_key ` set (?slots ! t)" for k' t
  proof (cases "k' = k")
    case True
    have "k \<notin> we_key ` set (hw_slots hw ! t)" if "t < ?n" "t \<noteq> slot" using B [of k t] Some that by simp
    with True show ?thesis by (simp add: nth image_iff) blast
  next
    case False
    then show ?thesis using B [of k' t] by (simp add: nth image_iff) blast
  qed
  moreover have "distinct (map we_key (?slots ! t))" if "t < ?n" for t
    using wheel_ok_slotD(2) [OF ok that] wheel_ok_slotD(2) [OF ok s(1)] by (simp add: nth distinct_map_filter)
  ultimately show ?thesis
    using ok unfolding removeLocked_Some [OF ok Some] by (simp add: wheel_ok_def)
qed

lemma filter_deadlines_slot:
  "mset (map entry_deadline (filter (\<lambda>e. we_key e \<noteq> k) es)) =
    filter_mset (\<lambda>x. fst x \<noteq> k) (mset (map entry_deadline es))"
  by (induction es) (auto simp: entry_deadline_def)

lemma wheel_deadlines_slots:
  "wheel_deadlines hw = (\<Sum>es \<leftarrow> hw_slots hw. mset (map entry_deadline es))"
  unfolding wheel_deadlines_def by (induction "hw_slots hw" arbitrary: hw) (simp_all add: map_concat mset_concat o_def)

lemma in_wheel_deadlines:
  assumes "wheel_ok hw"
  shows "x \<in># wheel_deadlines hw \<longleftrightarrow>
    (\<exists>s < hw_slotCount hw. \<exists>e \<in> set (hw_slots hw ! s). x = entry_deadline e)"
  using assms by (auto simp: wheel_deadlines_def wheel_ok_def in_set_conv_nth image_iff) (metis nth_mem)+

lemma removeLocked_deadlines:
  assumes ok: "wheel_ok hw"
  shows "wheel_deadlines (removeLocked hw k) = filter_mset (\<lambda>x. fst x \<noteq> k) (wheel_deadlines hw)"
proof -
  have keep: "filter_mset (\<lambda>x. fst x \<noteq> k) (mset (map entry_deadline (hw_slots hw ! t))) =
      mset (map entry_deadline (hw_slots hw ! t))"
    if "t < hw_slotCount hw" "hw_keyIndex hw k \<noteq> Some t" for t
  proof -
    have "we_key e \<noteq> k" if "e \<in> set (hw_slots hw ! t)" for e
      using wheel_ok_slotD(3) [OF ok \<open>t < hw_slotCount hw\<close> that] \<open>hw_keyIndex hw k \<noteq> Some t\<close> by auto
    then show ?thesis by (auto simp: filter_mset_eq_conv entry_deadline_def)
  qed
  have len: "length (hw_slots hw) = hw_slotCount hw" using ok by (simp add: wheel_ok_def)
  have filt: "filter_mset P (\<Sum>es \<leftarrow> xss. mset (f es)) = (\<Sum>es \<leftarrow> xss. filter_mset P (mset (f es)))"
    for P :: "gostring \<times> int \<Rightarrow> bool" and f :: "wheel_entry list \<Rightarrow> (gostring \<times> int) list" and xss
    by (induction xss) simp_all
  show ?thesis
  proof (cases "hw_keyIndex hw k")
    case None
    then have "map (\<lambda>es. filter_mset (\<lambda>x. fst x \<noteq> k) (mset (map entry_deadline es))) (hw_slots hw) =
        map (\<lambda>es. mset (map entry_deadline es)) (hw_slots hw)"
      using keep len by (intro nth_equalityI) simp_all
    then show ?thesis by (simp only: removeLocked_def None option.case wheel_deadlines_slots filt)
  next
    case (Some slot)
    note s = wheel_ok_indexD [OF ok Some]
    have eq: "hw_slots (removeLocked hw k) =
        (hw_slots hw)[slot := filter (\<lambda>e. we_key e \<noteq> k) (hw_slots hw ! slot)]"
      by (simp add: removeLocked_Some [OF ok Some])
    have "map (\<lambda>es. mset (map entry_deadline es)) (hw_slots (removeLocked hw k)) =
        map (\<lambda>es. filter_mset (\<lambda>x. fst x \<noteq> k) (mset (map entry_deadline es))) (hw_slots hw)"
      using keep len s Some unfolding eq
      by (intro nth_equalityI) (auto simp: nth_list_update filter_deadlines_slot simp del: mset_map)
    then show ?thesis by (simp only: wheel_deadlines_slots filt)
  qed
qed

lemma removeLocked_simps [simp]:
  "hw_slotCount (removeLocked hw k) = hw_slotCount hw" "hw_currentPos (removeLocked hw k) = hw_currentPos hw"
  "hw_tickMs (removeLocked hw k) = hw_tickMs hw" "hw_keyIndex (removeLocked hw k) k = None"
  "k' \<noteq> k \<Longrightarrow> hw_keyIndex (removeLocked hw k) k' = hw_keyIndex hw k'"
  by (simp_all add: removeLocked_def split: option.splits)

text \<open>What \<open>Add\<close> puts where.\<close>

definition added_entry :: "env \<Rightarrow> hashed_wheel \<Rightarrow> gostring \<Rightarrow> int \<Rightarrow> wheel_entry" where
  "added_entry env hw k d =
     \<lparr>we_key = k, we_expireAt = smeared env hw d,
      we_rounds = wheel_ticks env hw (smeared env hw d) div hw_slotCount hw\<rparr>"

definition added_slot :: "env \<Rightarrow> hashed_wheel \<Rightarrow> int \<Rightarrow> nat" where
  "added_slot env hw d = (hw_currentPos hw + wheel_ticks env hw (smeared env hw d)) mod hw_slotCount hw"

lemma HashedWheel_Add_eq:
  "HashedWheel_Add env hw k d =
     (let hw1 = removeLocked hw k; s = added_slot env hw d
      in hw1\<lparr>hw_slots := (hw_slots hw1)[s := hw_slots hw1 ! s @ [added_entry env hw k d]],
             hw_keyIndex := (hw_keyIndex hw1)(k \<mapsto> s)\<rparr>)"
  by (simp add: HashedWheel_Add_def added_entry_def added_slot_def Let_def)

lemma added_slot_less: "wheel_ok hw \<Longrightarrow> added_slot env hw d < hw_slotCount hw"
  by (simp add: added_slot_def wheel_ok_def)

lemma HashedWheel_Add_ok:
  assumes ok: "wheel_ok hw"
  shows "wheel_ok (HashedWheel_Add env hw k d)"
proof -
  let ?hw = "removeLocked hw k" and ?s = "added_slot env hw d" and ?e = "added_entry env hw k d"
  let ?slots = "(hw_slots ?hw)[?s := hw_slots ?hw ! ?s @ [?e]]"
  have ok1: "wheel_ok ?hw" by (rule removeLocked_ok [OF ok])
  have s: "?s < hw_slotCount ?hw" using added_slot_less [OF ok] by simp
  have nth: "?slots ! t = (if t = ?s then hw_slots ?hw ! ?s @ [?e] else hw_slots ?hw ! t)" for t
    using wheel_ok_slotD(1) [OF ok1 s] by (auto simp: nth_list_update)
  have B: "hw_keyIndex ?hw k' = Some t \<longleftrightarrow> t < hw_slotCount ?hw \<and> k' \<in> we_key ` set (hw_slots ?hw ! t)" for k' t
    using ok1 by (simp add: wheel_ok_def)
  have gone: "k \<notin> we_key ` set (hw_slots ?hw ! t)" if "t < hw_slotCount hw" for t
    using B [of k t] that by simp
  have ek [simp]: "we_key ?e = k" by (simp add: added_entry_def)
  have "distinct (map we_key (?slots ! t))" if "t < hw_slotCount ?hw" for t
    using wheel_ok_slotD(2) [OF ok1 that] gone [of t] that by (auto simp: nth)
  moreover have "((hw_keyIndex ?hw)(k \<mapsto> ?s)) k' = Some t \<longleftrightarrow>
      t < hw_slotCount ?hw \<and> k' \<in> we_key ` set (?slots ! t)" for k' t
    using B [of k' t] gone [of t] s by (cases "k' = k"; cases "t = ?s") (auto simp: nth)
  ultimately show ?thesis
    using ok1 unfolding HashedWheel_Add_eq by (simp add: wheel_ok_def Let_def)
qed

lemma HashedWheel_Add_deadlines:
  assumes ok: "wheel_ok hw"
  shows "wheel_deadlines (HashedWheel_Add env hw k d) =
    add_mset (k, smeared env hw d) (filter_mset (\<lambda>x. fst x \<noteq> k) (wheel_deadlines hw))"
proof -
  let ?hw = "removeLocked hw k" and ?s = "added_slot env hw d"
  have s: "?s < length (hw_slots ?hw)"
    using wheel_ok_slotD(1) [OF removeLocked_ok [OF ok]] added_slot_less [OF ok] by simp
  have "wheel_deadlines (HashedWheel_Add env hw k d) + mset (map entry_deadline (hw_slots ?hw ! ?s)) =
      wheel_deadlines ?hw + mset (map entry_deadline (hw_slots ?hw ! ?s @ [added_entry env hw k d]))"
    using wheel_deadlines_update [OF s, where ys = "hw_slots ?hw ! ?s @ [added_entry env hw k d]"]
    by (simp add: HashedWheel_Add_eq Let_def wheel_deadlines_def)
  then show ?thesis
    by (simp add: removeLocked_deadlines [OF ok] entry_deadline_def added_entry_def)
qed

section \<open>Visiting a slot\<close>

definition expires :: "int \<Rightarrow> wheel_entry \<Rightarrow> bool" where
  "expires now e \<longleftrightarrow> we_rounds e = 0 \<and> to_ms (we_expireAt e) \<le> now"

definition next_round :: "wheel_entry \<Rightarrow> wheel_entry" where
  "next_round e = e\<lparr>we_rounds := we_rounds e - 1\<rparr>"

lemma next_round_simps [simp]:
  "we_key (next_round e) = we_key e" "entry_deadline (next_round e) = entry_deadline e"
  "we_rounds (next_round e) = we_rounds e - 1" "we_expireAt (next_round e) = we_expireAt e"
  by (simp_all add: next_round_def entry_deadline_def)

lemma advance_slot_eq:
  "advance_slot now es ix =
    (map we_key (filter (expires now) es), map next_round (filter (\<lambda>e. \<not> expires now e) es),
     \<lambda>k. if k \<in> we_key ` set (filter (expires now) es) then None else ix k)"
  by (induction es arbitrary: ix) (auto simp: expires_def next_round_def fun_eq_iff)

lemma HashedWheel_Advance_eq:
  "HashedWheel_Advance now hw =
    (let es = hw_slots hw ! hw_currentPos hw; out = filter (expires (to_ms now)) es
     in (map we_key out,
       hw\<lparr>hw_slots := (hw_slots hw)[hw_currentPos hw :=
            map next_round (filter (\<lambda>e. \<not> expires (to_ms now) e) es)],
          hw_keyIndex := (\<lambda>k. if k \<in> we_key ` set out then None else hw_keyIndex hw k),
          hw_currentPos := (hw_currentPos hw + 1) mod hw_slotCount hw\<rparr>))"
  by (simp add: HashedWheel_Advance_def advance_slot_eq Let_def)

lemma HashedWheel_Advance_simps:
  assumes "HashedWheel_Advance now hw = (ks, hw')"
  shows "hw_slotCount hw' = hw_slotCount hw" "hw_tickMs hw' = hw_tickMs hw"
    "hw_currentPos hw' = (hw_currentPos hw + 1) mod hw_slotCount hw"
  using assms by (auto simp: HashedWheel_Advance_eq Let_def)

lemma HashedWheel_Advance_ok:
  assumes ok: "wheel_ok hw" and r: "HashedWheel_Advance now hw = (ks, hw')"
  shows "wheel_ok hw'"
proof -
  let ?p = "hw_currentPos hw" and ?n = "hw_slotCount hw"
  let ?es = "hw_slots hw ! ?p"
  let ?out = "filter (expires (to_ms now)) ?es"
  let ?rem = "map next_round (filter (\<lambda>e. \<not> expires (to_ms now) e) ?es)"
  have p: "?p < ?n" using ok by (simp add: wheel_ok_def)
  note slot = wheel_ok_slotD [OF ok]
  have hw': "hw' = hw\<lparr>hw_slots := (hw_slots hw)[?p := ?rem],
      hw_keyIndex := (\<lambda>k. if k \<in> we_key ` set ?out then None else hw_keyIndex hw k),
      hw_currentPos := (?p + 1) mod ?n\<rparr>"
    using r by (simp add: HashedWheel_Advance_eq Let_def)
  have B: "hw_keyIndex hw k' = Some t \<longleftrightarrow> t < ?n \<and> k' \<in> we_key ` set (hw_slots hw ! t)" for k' t
    using ok by (simp add: wheel_ok_def)
  have split: "k \<in> we_key ` set ?es \<longleftrightarrow> k \<in> we_key ` set ?out \<or> k \<in> we_key ` set ?rem" for k
    by (auto simp: image_iff)
  have dist: "distinct (map we_key ?es)" using slot(2) [OF p] .
  have disj: "\<not> (k \<in> we_key ` set ?out \<and> k \<in> we_key ` set ?rem)" for k
    using dist by (auto simp: distinct_map dest: inj_onD)
  have only_p: "t = ?p" if "k \<in> we_key ` set ?es" "hw_keyIndex hw k = Some t" for k t
    using that B [of k ?p] p by simp
  have "(if k \<in> we_key ` set ?out then None else hw_keyIndex hw k) = Some t \<longleftrightarrow>
      t < ?n \<and> k \<in> we_key ` set ((hw_slots hw)[?p := ?rem] ! t)" for k t
  proof (cases "t = ?p")
    case True
    then show ?thesis using B [of k ?p] p slot(1) [OF p] split [of k] disj [of k] by auto
  next
    case False
    have "k \<notin> we_key ` set ?out" if "hw_keyIndex hw k = Some t"
      using only_p [of k t] that False split [of k] by auto
    then show ?thesis using B [of k t] False by auto
  qed
  moreover have "distinct (map we_key ((hw_slots hw)[?p := ?rem] ! t))" if "t < ?n" for t
    using slot(2) [OF that] dist slot(1) [OF p]
    by (cases "t = ?p") (auto simp: distinct_map_filter o_def)
  ultimately show ?thesis
    using ok p unfolding hw' by (simp add: wheel_ok_def)
qed

lemma filter_split_mset: "mset (map f xs) = mset (map f (filter P xs)) + mset (map f (filter (\<lambda>x. \<not> P x) xs))"
  by (induction xs) auto

lemma HashedWheel_Advance_deadlines:
  assumes ok: "wheel_ok hw" and r: "HashedWheel_Advance now hw = (ks, hw')"
  shows "\<exists>ds. ks = map fst ds \<and> wheel_deadlines hw = mset ds + wheel_deadlines hw' \<and> (\<forall>x \<in> set ds. due now x)"
proof -
  let ?p = "hw_currentPos hw" and ?n = "hw_slotCount hw"
  let ?es = "hw_slots hw ! ?p"
  let ?out = "filter (expires (to_ms now)) ?es"
  let ?rem = "map next_round (filter (\<lambda>e. \<not> expires (to_ms now) e) ?es)"
  let ?ds = "map entry_deadline ?out"
  have p: "?p < length (hw_slots hw)" using ok by (simp add: wheel_ok_def)
  have "wheel_deadlines hw' + mset (map entry_deadline ?es) = wheel_deadlines hw + mset (map entry_deadline ?rem)"
    using r wheel_deadlines_update [OF p, where ys = ?rem] by (auto simp: HashedWheel_Advance_eq Let_def)
  moreover have "mset (map entry_deadline ?es) = mset ?ds + mset (map entry_deadline ?rem)"
    using filter_split_mset [of entry_deadline ?es "expires (to_ms now)"] by (simp add: o_def)
  ultimately have "wheel_deadlines hw = mset ?ds + wheel_deadlines hw'"
    by (simp add: union_assoc [symmetric] add.commute del: mset_map)
  moreover have "ks = map fst ?ds"
    using r by (simp add: HashedWheel_Advance_eq Let_def entry_deadline_def o_def)
  moreover have "\<forall>x \<in> set ?ds. due now x" by (auto simp: due_def expires_def entry_deadline_def)
  ultimately show ?thesis by blast
qed

interpretation wheel_src: cancellable_source HashedWheel_Advance wheel_deadlines wheel_ok HashedWheel_Remove
proof unfold_locales
  fix q t ks q' assume "wheel_ok q" "HashedWheel_Advance t q = (ks, q')"
  then show "wheel_ok q'" by (rule HashedWheel_Advance_ok)
qed (simp_all add: HashedWheel_Advance_deadlines HashedWheel_Remove_def removeLocked_ok removeLocked_deadlines)

section \<open>How many visits an entry waits\<close>

definition wheel_entry_of :: "hashed_wheel \<Rightarrow> gostring \<Rightarrow> wheel_entry option" where
  "wheel_entry_of hw k =
     (case hw_keyIndex hw k of None \<Rightarrow> None
      | Some s \<Rightarrow> find (\<lambda>e. we_key e = k) (hw_slots hw ! s))"

text \<open>The number of visits before the one at which the key's entry can be handed out.\<close>

definition wheel_wait :: "hashed_wheel \<Rightarrow> gostring \<Rightarrow> nat option" where
  "wheel_wait hw k =
     (case hw_keyIndex hw k of None \<Rightarrow> None
      | Some s \<Rightarrow> map_option
          (\<lambda>e. (s + hw_slotCount hw - hw_currentPos hw) mod hw_slotCount hw + we_rounds e * hw_slotCount hw)
          (wheel_entry_of hw k))"

lemma find_by_key:
  "distinct (map we_key es) \<Longrightarrow> find (\<lambda>e. we_key e = k) es = Some e \<longleftrightarrow> e \<in> set es \<and> we_key e = k"
  by (induction es) (auto simp: image_iff)

lemma wheel_entry_of_iff:
  assumes "wheel_ok hw"
  shows "wheel_entry_of hw k = Some e \<longleftrightarrow>
    we_key e = k \<and> (\<exists>s < hw_slotCount hw. e \<in> set (hw_slots hw ! s))"
proof
  assume "wheel_entry_of hw k = Some e"
  then obtain s where s: "hw_keyIndex hw k = Some s" "find (\<lambda>e. we_key e = k) (hw_slots hw ! s) = Some e"
    by (auto simp: wheel_entry_of_def split: option.splits)
  note i = wheel_ok_indexD(1) [OF assms s(1)]
  from s(2) find_by_key [OF wheel_ok_slotD(2) [OF assms i]] i
  show "we_key e = k \<and> (\<exists>s < hw_slotCount hw. e \<in> set (hw_slots hw ! s))" by auto
next
  assume "we_key e = k \<and> (\<exists>s < hw_slotCount hw. e \<in> set (hw_slots hw ! s))"
  then obtain s where s: "we_key e = k" "s < hw_slotCount hw" "e \<in> set (hw_slots hw ! s)" by blast
  have "hw_keyIndex hw k = Some s" using wheel_ok_slotD(3) [OF assms s(2,3)] s(1) by simp
  with s find_by_key [OF wheel_ok_slotD(2) [OF assms s(2)]]
  show "wheel_entry_of hw k = Some e" by (simp add: wheel_entry_of_def)
qed

text \<open>Walking one position forward brings every other slot one step nearer.\<close>

lemma distance_step:
  assumes "p < n" "s < n" "s \<noteq> p"
  shows "(s + n - p) mod n = Suc ((s + n - (p + 1) mod n) mod n)"
proof (cases "p + 1 = n")
  case True
  then have "s < p" using assms by simp
  then have "(s + n - p) mod n = s + 1" using True assms by (simp add: mod_less)
  moreover have "(s + n - (p + 1) mod n) mod n = s" using True assms by simp
  ultimately show ?thesis by simp
next
  case False
  then have p1: "(p + 1) mod n = p + 1" using assms by simp
  show ?thesis
  proof (cases "p < s")
    case True
    then have "(s + n - p) mod n = s - p" "(s + n - (p + 1)) mod n = s - (p + 1)"
      using assms by (simp_all add: mod_if)
    with True p1 show ?thesis by simp
  next
    case F: False
    then have "(s + n - p) mod n = s + n - p" "(s + n - (p + 1)) mod n = s + n - (p + 1)"
      using assms False by (simp_all add: mod_if)
    with p1 assms show ?thesis by simp
  qed
qed

lemma distance_here: "p < n \<Longrightarrow> (p + n - p) mod n = (0::nat)"
  by simp

lemma distance_after: "p < n \<Longrightarrow> (p + n - (p + 1) mod n) mod n = n - (1::nat)"
  by (cases "p + 1 = n") (auto simp: mod_if)

text \<open>Where an entry is after a visit, and what it has become.\<close>

lemma advance_other_slot:
  assumes ok: "wheel_ok hw" and r: "HashedWheel_Advance now hw = (ks, hw')"
    and s: "hw_keyIndex hw k = Some s" "s \<noteq> hw_currentPos hw"
  shows "k \<notin> set ks" "hw_keyIndex hw' k = Some s" "wheel_entry_of hw' k = wheel_entry_of hw k"
proof -
  have p: "hw_currentPos hw < hw_slotCount hw" using ok by (simp add: wheel_ok_def)
  have "k \<notin> we_key ` set (hw_slots hw ! hw_currentPos hw)"
    using wheel_ok_slotD(3) [OF ok p] s by auto
  then show "k \<notin> set ks" "hw_keyIndex hw' k = Some s" "wheel_entry_of hw' k = wheel_entry_of hw k"
    using r s by (auto simp: HashedWheel_Advance_eq Let_def wheel_entry_of_def)
qed

lemma advance_this_slot:
  assumes ok: "wheel_ok hw" and r: "HashedWheel_Advance now hw = (ks, hw')"
    and s: "hw_keyIndex hw k = Some (hw_currentPos hw)" and e: "wheel_entry_of hw k = Some e"
  shows "expires (to_ms now) e \<Longrightarrow> k \<in> set ks \<and> hw_keyIndex hw' k = None"
    and "\<not> expires (to_ms now) e \<Longrightarrow> k \<notin> set ks \<and> hw_keyIndex hw' k = Some (hw_currentPos hw) \<and>
      wheel_entry_of hw' k = Some (next_round e)"
proof -
  let ?p = "hw_currentPos hw"
  let ?es = "hw_slots hw ! ?p"
  have p: "?p < hw_slotCount hw" "?p < length (hw_slots hw)" using ok by (simp_all add: wheel_ok_def)
  have ein: "e \<in> set ?es" "we_key e = k"
    using e s find_by_key [OF wheel_ok_slotD(2) [OF ok p(1)]] by (auto simp: wheel_entry_of_def)
  have uniq: "x = e" if "x \<in> set ?es" "we_key x = k" for x
    using wheel_ok_slotD(2) [OF ok p(1)] that ein by (auto simp: distinct_map dest: inj_onD)
  show "k \<in> set ks \<and> hw_keyIndex hw' k = None" if "expires (to_ms now) e"
    using r that ein by (auto simp: HashedWheel_Advance_eq Let_def image_iff)
  assume ne: "\<not> expires (to_ms now) e"
  then have out: "k \<notin> we_key ` set (filter (expires (to_ms now)) ?es)" using uniq by auto
  then have ix: "hw_keyIndex hw' k = Some ?p" and ks: "k \<notin> set ks"
    using r s by (auto simp: HashedWheel_Advance_eq Let_def)
  have "next_round e \<in> set (hw_slots hw' ! ?p)"
    using r ein ne p(2) by (auto simp: HashedWheel_Advance_eq Let_def)
  then have "wheel_entry_of hw' k = Some (next_round e)"
    using wheel_entry_of_iff [OF HashedWheel_Advance_ok [OF ok r]] ein p(1) HashedWheel_Advance_simps(1) [OF r]
    by auto
  with ix ks show "k \<notin> set ks \<and> hw_keyIndex hw' k = Some ?p \<and> wheel_entry_of hw' k = Some (next_round e)"
    by simp
qed

lemma wheel_wait_SomeD:
  assumes "wheel_wait hw k = Some m"
  obtains s e where "hw_keyIndex hw k = Some s" "wheel_entry_of hw k = Some e"
    "m = (s + hw_slotCount hw - hw_currentPos hw) mod hw_slotCount hw + we_rounds e * hw_slotCount hw"
  using assms by (auto simp: wheel_wait_def split: option.splits)

lemma advance_wait_Suc:
  assumes ok: "wheel_ok hw" and r: "HashedWheel_Advance now hw = (ks, hw')"
    and w: "wheel_wait hw k = Some (Suc m)"
  shows "k \<notin> set ks \<and> wheel_wait hw' k = Some m \<and>
    map_option we_expireAt (wheel_entry_of hw' k) = map_option we_expireAt (wheel_entry_of hw k)"
proof -
  let ?p = "hw_currentPos hw" and ?n = "hw_slotCount hw"
  from w obtain s e where s: "hw_keyIndex hw k = Some s" "wheel_entry_of hw k = Some e"
    and m: "Suc m = (s + ?n - ?p) mod ?n + we_rounds e * ?n" by (rule wheel_wait_SomeD)
  have p: "?p < ?n" "0 < ?n" using ok by (simp_all add: wheel_ok_def)
  note sim = HashedWheel_Advance_simps [OF r]
  show ?thesis
  proof (cases "s = ?p")
    case True
    then have m': "Suc m = we_rounds e * ?n" using m distance_here [OF p(1)] by simp
    then obtain q where q: "we_rounds e = Suc q" by (cases "we_rounds e") auto
    then have "\<not> expires (to_ms now) e" by (simp add: expires_def)
    note st = advance_this_slot(2) [OF ok r _ s(2) this] 
    have "m = (?n - 1) + q * ?n" using m' q p by simp
    then show ?thesis
      using st s True distance_after [OF p(1)] q by (simp add: wheel_wait_def sim)
  next
    case False
    note st = advance_other_slot [OF ok r s(1) False]
    have "s < ?n" by (rule wheel_ok_indexD(1) [OF ok s(1)])
    from distance_step [OF p(1) this False] m st s show ?thesis
      by (simp add: wheel_wait_def sim)
  qed
qed

lemma advance_wait_0:
  assumes ok: "wheel_ok hw" and r: "HashedWheel_Advance now hw = (ks, hw')"
    and w: "wheel_wait hw k = Some 0" and e: "wheel_entry_of hw k = Some e"
  shows "to_ms (we_expireAt e) \<le> to_ms now \<Longrightarrow> k \<in> set ks"
    and "\<not> to_ms (we_expireAt e) \<le> to_ms now \<Longrightarrow> k \<notin> set ks \<and> wheel_wait hw' k = Some (hw_slotCount hw - 1)"
proof -
  let ?p = "hw_currentPos hw" and ?n = "hw_slotCount hw"
  from w obtain s where s: "hw_keyIndex hw k = Some s"
    and m: "0 = (s + ?n - ?p) mod ?n + we_rounds e * ?n" using e by (auto elim: wheel_wait_SomeD)
  have p: "?p < ?n" "0 < ?n" using ok by (simp_all add: wheel_ok_def)
  have r0: "we_rounds e = 0" using m p by simp
  have sp: "s = ?p"
  proof (rule ccontr)
    assume "s \<noteq> ?p"
    from distance_step [OF p(1) wheel_ok_indexD(1) [OF ok s] this] m show False by simp
  qed
  show "k \<in> set ks" if "to_ms (we_expireAt e) \<le> to_ms now"
    using advance_this_slot(1) [OF ok r _ e] s sp r0 that by (simp add: expires_def)
  show "k \<notin> set ks \<and> wheel_wait hw' k = Some (?n - 1)" if "\<not> to_ms (we_expireAt e) \<le> to_ms now"
    using advance_this_slot(2) [OF ok r _ e] s sp r0 that distance_after [OF p(1)]
    by (simp add: expires_def wheel_wait_def HashedWheel_Advance_simps [OF r])
qed

lemma added_wait:
  assumes ok: "wheel_ok hw"
  shows "wheel_wait (HashedWheel_Add env hw k d) k = Some (wheel_ticks env hw (smeared env hw d))"
    and "wheel_entry_of (HashedWheel_Add env hw k d) k = Some (added_entry env hw k d)"
proof -
  let ?hw = "HashedWheel_Add env hw k d" and ?s = "added_slot env hw d" and ?n = "hw_slotCount hw"
  let ?t = "wheel_ticks env hw (smeared env hw d)"
  have p: "hw_currentPos hw < ?n" "0 < ?n" using ok by (simp_all add: wheel_ok_def)
  have s: "?s < length (hw_slots (removeLocked hw k))"
    using wheel_ok_slotD(1) [OF removeLocked_ok [OF ok]] added_slot_less [OF ok] by simp
  have ix: "hw_keyIndex ?hw k = Some ?s" and n: "hw_slotCount ?hw = ?n" "hw_currentPos ?hw = hw_currentPos hw"
    by (simp_all add: HashedWheel_Add_eq Let_def)
  have "added_entry env hw k d \<in> set (hw_slots ?hw ! ?s)"
    using s by (simp add: HashedWheel_Add_eq Let_def)
  moreover have "we_key (added_entry env hw k d) = k" by (simp add: added_entry_def)
  ultimately show e: "wheel_entry_of ?hw k = Some (added_entry env hw k d)"
    using wheel_entry_of_iff [OF HashedWheel_Add_ok [OF ok]] added_slot_less [OF ok, of env d] n
    by (auto intro!: exI [of _ ?s])
  have "(?s + ?n - hw_currentPos hw) mod ?n = (?s + (?n - hw_currentPos hw)) mod ?n" using p by simp
  also have "\<dots> = (hw_currentPos hw + ?t + (?n - hw_currentPos hw)) mod ?n"
    by (simp add: added_slot_def mod_add_left_eq)
  also have "\<dots> = ?t mod ?n" using p by simp
  finally have "(?s + ?n - hw_currentPos hw) mod ?n + (?t div ?n) * ?n = ?t" by simp
  then show "wheel_wait ?hw k = Some ?t"
    using ix e n by (simp add: wheel_wait_def added_entry_def)
qed

lemma poll_all_append:
  "poll_all poll (ts @ us) q =
    (let (ks, q1) = poll_all poll ts q; (ls, q2) = poll_all poll us q1 in (ks @ ls, q2))"
  by (induction ts arbitrary: q) (simp_all add: Let_def split: prod.splits)

lemma poll_while_waiting:
  assumes "wheel_ok hw" "wheel_wait hw k = Some m" "length ts \<le> m"
    "poll_all HashedWheel_Advance ts hw = (ks, hw')"
  shows "k \<notin> set ks \<and> wheel_wait hw' k = Some (m - length ts) \<and>
    map_option we_expireAt (wheel_entry_of hw' k) = map_option we_expireAt (wheel_entry_of hw k)"
  using assms
proof (induction ts arbitrary: hw m ks)
  case Nil
  then show ?case by simp
next
  case (Cons t ts)
  obtain ks1 hw1 where a: "HashedWheel_Advance t hw = (ks1, hw1)" by fastforce
  obtain ks2 where b: "poll_all HashedWheel_Advance ts hw1 = (ks2, hw')" and ks: "ks = ks1 @ ks2"
    using Cons.prems(4) a by (auto split: prod.splits)
  obtain m' where m: "m = Suc m'" using Cons.prems(3) by (cases m) auto
  note st = advance_wait_Suc [OF Cons.prems(1) a Cons.prems(2) [unfolded m]]
  have "k \<notin> set ks2 \<and> wheel_wait hw' k = Some (m' - length ts) \<and>
      map_option we_expireAt (wheel_entry_of hw' k) = map_option we_expireAt (wheel_entry_of hw1 k)"
    using Cons.IH [OF HashedWheel_Advance_ok [OF Cons.prems(1) a] _ _ b] st Cons.prems(3) m by auto
  with st ks m show ?case by simp
qed

text \<open>The visit at which the wait is over: the entry leaves if it is due, and otherwise waits for
  a whole further rotation.\<close>

lemma poll_at_turn:
  assumes ok: "wheel_ok hw" and w: "wheel_wait hw k = Some (length ts)"
    and e: "wheel_entry_of hw k = Some e"
    and r: "poll_all HashedWheel_Advance (ts @ [t]) hw = (ks, hw')"
  shows "to_ms (we_expireAt e) \<le> to_ms t \<Longrightarrow> k \<in> set ks"
    and "\<not> to_ms (we_expireAt e) \<le> to_ms t \<Longrightarrow>
      k \<notin> set ks \<and> wheel_wait hw' k = Some (hw_slotCount hw - 1)"
proof -
  obtain ks1 hw1 where a: "poll_all HashedWheel_Advance ts hw = (ks1, hw1)" by fastforce
  obtain ks2 where b: "HashedWheel_Advance t hw1 = (ks2, hw')" and ks: "ks = ks1 @ ks2"
    using r a by (auto simp: poll_all_append split: prod.splits)
  note st = poll_while_waiting [OF ok w order_refl a]
  have ok1: "wheel_ok hw1" by (rule wheel_src.poll_all_inv [OF ok a])
  obtain e1 where e1: "wheel_entry_of hw1 k = Some e1" "we_expireAt e1 = we_expireAt e"
    using st e by auto
  have n: "hw_slotCount hw1 = hw_slotCount hw"
    using a by (induction ts arbitrary: hw ks1)
      (auto split: prod.splits dest: HashedWheel_Advance_simps(1))
  have "wheel_wait hw1 k = Some 0" using st by simp
  note z = advance_wait_0 [OF ok1 b this e1(1)]
  show "k \<in> set ks" if "to_ms (we_expireAt e) \<le> to_ms t"
    using z(1) that e1(2) ks by simp
  show "k \<notin> set ks \<and> wheel_wait hw' k = Some (hw_slotCount hw - 1)" if "\<not> to_ms (we_expireAt e) \<le> to_ms t"
    using z(2) that e1(2) ks st n by simp
qed

section \<open>Properties\<close>

inductive wheel_reachable :: "hashed_wheel \<Rightarrow> bool" where
  wheel_new: "wheel_reachable (NewHashedWheel now n t)"
| wheel_add: "wheel_reachable hw \<Longrightarrow> wheel_reachable (HashedWheel_Add env hw k d)"
| wheel_remove: "wheel_reachable hw \<Longrightarrow> wheel_reachable (HashedWheel_Remove hw k)"
| wheel_advance: "wheel_reachable hw \<Longrightarrow> HashedWheel_Advance now hw = (ks, hw') \<Longrightarrow> wheel_reachable hw'"

lemma wheel_reachable_ok: "wheel_reachable hw \<Longrightarrow> wheel_ok hw"
  by (induction rule: wheel_reachable.induct)
    (auto intro: wheel_ok_New HashedWheel_Add_ok wheel_src.remove_inv HashedWheel_Advance_ok)

text \<open>Over any sequence of advances of a reachable wheel no deadline is lost or handed out twice,
  and no key is handed out before one of its deadlines has come.\<close>

theorem wheel_conserves:
  assumes "wheel_reachable hw" "poll_all HashedWheel_Advance ts hw = (ks, hw')" "\<forall>t \<in> set ts. t \<le> now"
  shows "image_mset fst (wheel_deadlines hw) = mset ks + image_mset fst (wheel_deadlines hw') \<and>
    (\<forall>k \<in> set ks. \<exists>d. (k, d) \<in># wheel_deadlines hw \<and> to_ms d \<le> to_ms now)"
  using wheel_src.poll_all_conserves [OF wheel_reachable_ok [OF assms(1)] assms(2)]
    wheel_src.poll_all_never_early [OF wheel_reachable_ok [OF assms(1)] assms(2,3)] by blast

definition small_wheel :: hashed_wheel where
  "small_wheel = HashedWheel_Add \<lparr>env_now = 0, env_cached = 0, env_rand = 0, env_coin = True\<rparr>
     (NewHashedWheel 0 64 100) (str ''k'') 150000000"

lemma small_wheel_reachable: "wheel_reachable small_wheel"
  unfolding small_wheel_def by (intro wheel_add wheel_new)

lemma small_wheel_wait:
  "wheel_ticks \<lparr>env_now = 0, env_cached = 0, env_rand = 0, env_coin = True\<rparr> (NewHashedWheel 0 64 100)
    (smeared \<lparr>env_now = 0, env_cached = 0, env_rand = 0, env_coin = True\<rparr> (NewHashedWheel 0 64 100) 150000000) = 1"
  "smeared \<lparr>env_now = 0, env_cached = 0, env_rand = 0, env_coin = True\<rparr> (NewHashedWheel 0 64 100) 150000000 = 150000000"
  by code_simp+

theorem wheel_conserves_witness:
  "\<exists>ks hw'. poll_all HashedWheel_Advance [100000000, 200000000] small_wheel = (ks, hw') \<and>
    image_mset fst (wheel_deadlines small_wheel) = mset ks + image_mset fst (wheel_deadlines hw')"
proof -
  obtain ks hw' where r: "poll_all HashedWheel_Advance [100000000, 200000000] small_wheel = (ks, hw')" by fastforce
  show ?thesis using wheel_conserves [OF small_wheel_reachable r, of 200000000] r by simp
qed

text \<open>A key that is removed from a reachable wheel is not handed out by any later advance.\<close>

theorem wheel_remove_final:
  assumes "wheel_reachable hw" "poll_all HashedWheel_Advance ts (HashedWheel_Remove hw k) = (ks, hw')"
  shows "k \<notin> set ks"
  by (rule wheel_src.poll_all_after_remove [OF wheel_reachable_ok [OF assms(1)] assms(2)])

theorem wheel_remove_final_witness:
  "str ''k'' \<notin> set (fst (poll_all HashedWheel_Advance [200000000, 400000000] (HashedWheel_Remove small_wheel (str ''k''))))"
  using wheel_remove_final [OF small_wheel_reachable, of "[200000000, 400000000]" "str ''k''"]
  by (metis prod.collapse)

text \<open>C33: an added key is handed out at exactly the visit computed for it, if its deadline has come by
  then; if it has not, the key stays for a whole further rotation, however late it becomes.\<close>

theorem wheel_delivery:
  assumes "wheel_reachable hw" "length ts = wheel_ticks env hw (smeared env hw d)"
    and "poll_all HashedWheel_Advance (ts @ [t]) (HashedWheel_Add env hw k d) = (ks, hw')"
  shows "(k \<in> set ks \<longleftrightarrow> to_ms (smeared env hw d) \<le> to_ms t) \<and>
    (to_ms t < to_ms (smeared env hw d) \<longrightarrow>
      (\<forall>us. length us < hw_slotCount hw \<longrightarrow> k \<notin> set (fst (poll_all HashedWheel_Advance us hw'))))"
proof -
  let ?hw = "HashedWheel_Add env hw k d"
  note ok = wheel_reachable_ok [OF assms(1)]
  note okA = HashedWheel_Add_ok [OF ok, of env k d]
  have e: "wheel_entry_of ?hw k = Some (added_entry env hw k d)" "we_expireAt (added_entry env hw k d) = smeared env hw d"
    using added_wait(2) [OF ok] by (simp_all add: added_entry_def)
  have w: "wheel_wait ?hw k = Some (length ts)" using added_wait(1) [OF ok] assms(2) by simp
  note turn = poll_at_turn [OF okA w e(1) assms(3), unfolded e(2)]
  have n: "hw_slotCount ?hw = hw_slotCount hw" by (simp add: HashedWheel_Add_eq Let_def)
  have ok': "wheel_ok hw'" by (rule wheel_src.poll_all_inv [OF okA assms(3)])
  have "k \<notin> set (fst (poll_all HashedWheel_Advance us hw'))"
    if "to_ms t < to_ms (smeared env hw d)" "length us < hw_slotCount hw" for us
  proof -
    have "wheel_wait hw' k = Some (hw_slotCount hw - 1)" using turn(2) that(1) n by simp
    from poll_while_waiting [OF ok' this, of us] that(2) show ?thesis by (metis Suc_pred' gr_implies_not0 less_Suc_eq_le linorder_neqE_nat prod.collapse)
  qed
  then show ?thesis using turn by force
qed

theorem wheel_delivery_witness:
  "str ''k'' \<in> set (fst (poll_all HashedWheel_Advance [100000000, 200000000] small_wheel)) \<and>
   str ''k'' \<notin> set (fst (poll_all HashedWheel_Advance [100000000, 149000000] small_wheel))"
proof -
  let ?env = "\<lparr>env_now = 0, env_cached = 0, env_rand = 0, env_coin = True\<rparr>"
  have d: "str ''k'' \<in> set (fst (poll_all HashedWheel_Advance ([100000000] @ [t]) small_wheel)) \<longleftrightarrow> 150 \<le> to_ms t" for t
  proof -
    obtain ks hw' where r: "poll_all HashedWheel_Advance ([100000000] @ [t]) small_wheel = (ks, hw')" by fastforce
    have l: "length [100000000 :: int] = wheel_ticks ?env (NewHashedWheel 0 64 100) (smeared ?env (NewHashedWheel 0 64 100) 150000000)"
      using small_wheel_wait(1) by simp
    from wheel_delivery [OF wheel_new l r [unfolded small_wheel_def]] show ?thesis
      unfolding r by (simp add: small_wheel_wait(2) to_ms_nonneg_eq)
  qed
  show ?thesis using d [of 200000000] d [of 149000000] by (simp add: to_ms_nonneg_eq)
qed

end
