(* ===== verification/Delete_Coalescer.thy ===== *)
theory Delete_Coalescer
  imports Bukt_Prelude
begin

text \<open>
  The delete coalescer of \<open>internal/gc/delete_coalescer.go\<close>: a set of keys waiting to be
  deleted, emptied in one batch by a periodic flush. Go's \<open>map[string]struct{}\<close> is a list
  without duplicates; its iteration order is unspecified, so nothing below depends on it.
\<close>

record delete_coalescer =
  dc_pending :: "gostring list"
  dc_flushMs :: int
  dc_running :: bool
  dc_stopClosed :: bool

definition NewDeleteCoalescer :: "int \<Rightarrow> delete_coalescer" where
  "NewDeleteCoalescer flushMs =
     (let f1 = (if flushMs < 5 then 5 else flushMs); f2 = (if 50 < f1 then 50 else f1)
      in \<lparr>dc_pending = [], dc_flushMs = f2, dc_running = False, dc_stopClosed = False\<rparr>)"

definition set_add :: "gostring \<Rightarrow> gostring list \<Rightarrow> gostring list" where
  "set_add k ks = (if k \<in> set ks then ks else ks @ [k])"

definition DeleteCoalescer_Enqueue :: "delete_coalescer \<Rightarrow> gostring \<Rightarrow> delete_coalescer" where
  "DeleteCoalescer_Enqueue dc key = dc\<lparr>dc_pending := set_add key (dc_pending dc)\<rparr>"

definition DeleteCoalescer_EnqueueBatch :: "delete_coalescer \<Rightarrow> gostring list \<Rightarrow> delete_coalescer" where
  "DeleteCoalescer_EnqueueBatch dc keys =
     (if keys = [] then dc
      else dc\<lparr>dc_pending := foldl (\<lambda>p k. set_add k p) (dc_pending dc) keys\<rparr>)"

text \<open>\<open>flush\<close> returns the keys of the batch it hands to \<open>deleteBatchF\<close>, if there is one.\<close>

definition DeleteCoalescer_flush :: "delete_coalescer \<Rightarrow> gostring list option \<times> delete_coalescer" where
  "DeleteCoalescer_flush dc =
     (if dc_pending dc = [] then (None, dc) else (Some (dc_pending dc), dc\<lparr>dc_pending := []\<rparr>))"

definition DeleteCoalescer_Start :: "delete_coalescer \<Rightarrow> delete_coalescer" where
  "DeleteCoalescer_Start dc = dc\<lparr>dc_running := True\<rparr>"

definition DeleteCoalescer_Stop :: "delete_coalescer \<Rightarrow> delete_coalescer" where
  "DeleteCoalescer_Stop dc = dc\<lparr>dc_stopClosed := True\<rparr>"

section \<open>The pending set\<close>

lemma set_set_add [simp]: "set (set_add k ks) = insert k (set ks)"
  by (auto simp: set_add_def)

lemma distinct_set_add [simp]: "distinct ks \<Longrightarrow> distinct (set_add k ks)"
  by (simp add: set_add_def)

lemma set_foldl_add [simp]: "set (foldl (\<lambda>p k. set_add k p) ps ks) = set ps \<union> set ks"
  by (induction ks arbitrary: ps) auto

lemma distinct_foldl_add [simp]: "distinct ps \<Longrightarrow> distinct (foldl (\<lambda>p k. set_add k p) ps ks)"
  by (induction ks arbitrary: ps) auto

lemma pending_Enqueue [simp]:
  "set (dc_pending (DeleteCoalescer_Enqueue dc k)) = insert k (set (dc_pending dc))"
  "distinct (dc_pending dc) \<Longrightarrow> distinct (dc_pending (DeleteCoalescer_Enqueue dc k))"
  by (simp_all add: DeleteCoalescer_Enqueue_def)

lemma pending_EnqueueBatch [simp]:
  "set (dc_pending (DeleteCoalescer_EnqueueBatch dc ks)) = set (dc_pending dc) \<union> set ks"
  "distinct (dc_pending dc) \<Longrightarrow> distinct (dc_pending (DeleteCoalescer_EnqueueBatch dc ks))"
  by (simp_all add: DeleteCoalescer_EnqueueBatch_def)

lemma flush_hands_out_pending:
  "DeleteCoalescer_flush dc = (b, dc') \<Longrightarrow>
    dc_pending dc' = [] \<and> (case b of None \<Rightarrow> dc_pending dc = [] | Some ks \<Rightarrow> ks = dc_pending dc \<and> ks \<noteq> [])"
  by (auto simp: DeleteCoalescer_flush_def split: if_splits)

end
