(* ===== verification/Garbage_Collector.thy ===== *)
theory Garbage_Collector
  imports Near_Queue Hashed_Wheel Delete_Coalescer
begin

text \<open>
  The garbage collector of \<open>internal/gc/gc.go\<close>: it routes deadlines to the near queue or to the
  wheel, polls both from one background goroutine, and passes what has expired to the
  coalescer. The background goroutines are a labelled step relation; the invariant of the three
  parts holds in every reachable state.
\<close>

section \<open>State and operations\<close>

record garbage_collector =
  gc_wheel :: hashed_wheel
  gc_nearQueue :: near_queue
  gc_coalescer :: delete_coalescer
  gc_startOnce :: bool
  gc_stopOnce :: bool
  gc_stopClosed :: bool
  gc_loopRunning :: bool
  gc_tickMs :: int

definition defaultWheelSlots :: int where "defaultWheelSlots = 2048"
definition defaultWheelTickMs :: int where "defaultWheelTickMs = 500"
definition defaultNearWindowMs :: int where "defaultNearWindowMs = 2000"
definition defaultCoalescerMs :: int where "defaultCoalescerMs = 10"

definition NewGarbageCollector :: "go_time \<Rightarrow> garbage_collector" where
  "NewGarbageCollector now =
     \<lparr>gc_wheel = NewHashedWheel now defaultWheelSlots defaultWheelTickMs,
      gc_nearQueue = NewNearQueue defaultNearWindowMs,
      gc_coalescer = NewDeleteCoalescer defaultCoalescerMs,
      gc_startOnce = False, gc_stopOnce = False, gc_stopClosed = False, gc_loopRunning = False,
      gc_tickMs = defaultWheelTickMs\<rparr>"

definition GC_Cancel :: "garbage_collector \<Rightarrow> gostring \<Rightarrow> go_panic + garbage_collector" where
  "GC_Cancel gc key =
     gbind (NearQueue_Remove (gc_nearQueue gc) key)
       (\<lambda>nq. Inr (gc\<lparr>gc_nearQueue := nq, gc_wheel := HashedWheel_Remove (gc_wheel gc) key\<rparr>))"

text \<open>The deadline \<open>createdAt.Add(time.Duration(ttl)).UnixNano()\<close>.\<close>

definition gc_expireAt :: "int \<Rightarrow> go_time \<Rightarrow> int" where
  "gc_expireAt ttl createdAt = time_UnixNano (time_Add createdAt ttl)"

definition GC_Schedule ::
  "env \<Rightarrow> garbage_collector \<Rightarrow> gostring \<Rightarrow> int \<Rightarrow> go_time \<Rightarrow> go_panic + garbage_collector" where
  "GC_Schedule env gc key ttl createdAt =
     (if ttl \<le> 0 then GC_Cancel gc key
      else let expireAt = gc_expireAt ttl createdAt
           in gbind (NearQueue_Add (env_cached env) (gc_nearQueue gc) key expireAt)
                (\<lambda>(added, nq).
                   if added then Inr (gc\<lparr>gc_nearQueue := nq\<rparr>)
                   else Inr (gc\<lparr>gc_nearQueue := nq,
                          gc_wheel := HashedWheel_Add env (gc_wheel gc) key expireAt\<rparr>)))"

definition GC_ScheduleDelete :: "garbage_collector \<Rightarrow> gostring \<Rightarrow> garbage_collector" where
  "GC_ScheduleDelete gc key = gc\<lparr>gc_coalescer := DeleteCoalescer_Enqueue (gc_coalescer gc) key\<rparr>"

definition GC_Start :: "garbage_collector \<Rightarrow> garbage_collector" where
  "GC_Start gc =
     (if gc_startOnce gc then gc
      else gc\<lparr>gc_startOnce := True, gc_coalescer := DeleteCoalescer_Start (gc_coalescer gc),
              gc_loopRunning := True\<rparr>)"

definition GC_Stop :: "garbage_collector \<Rightarrow> garbage_collector" where
  "GC_Stop gc =
     (if gc_stopOnce gc then gc
      else gc\<lparr>gc_stopOnce := True, gc_stopClosed := True,
              gc_coalescer := DeleteCoalescer_Stop (gc_coalescer gc)\<rparr>)"

text \<open>The two ticker branches of the background loop.\<close>

definition GC_nearTick :: "int \<Rightarrow> garbage_collector \<Rightarrow> garbage_collector" where
  "GC_nearTick cached gc =
     (let (expired, nq) = NearQueue_DrainExpired cached (gc_nearQueue gc)
      in gc\<lparr>gc_nearQueue := nq,
            gc_coalescer := DeleteCoalescer_EnqueueBatch (gc_coalescer gc) expired\<rparr>)"

definition GC_wheelTick :: "go_time \<Rightarrow> garbage_collector \<Rightarrow> garbage_collector" where
  "GC_wheelTick now gc =
     (let (expired, hw) = HashedWheel_Advance (time_UnixNano now) (gc_wheel gc)
      in gc\<lparr>gc_wheel := hw,
            gc_coalescer := DeleteCoalescer_EnqueueBatch (gc_coalescer gc) expired\<rparr>)"

definition GC_flush :: "garbage_collector \<Rightarrow> gostring list option \<times> garbage_collector" where
  "GC_flush gc =
     (let (batch, dc) = DeleteCoalescer_flush (gc_coalescer gc) in (batch, gc\<lparr>gc_coalescer := dc\<rparr>))"

section \<open>The background goroutines\<close>

text \<open>A batch handed to \<open>deleteBatchF\<close> is the label of a flush. After \<open>Stop\<close> a goroutine may
  still take a ticker branch before it sees the closed channel; it ends with the stop branch.\<close>

datatype gc_event =
    NearTick int
  | WheelTick go_time
  | LoopExit
  | FlushTick "gostring list option"
  | FlushExit "gostring list option"
  | CallSchedule env gostring int go_time
  | CallCancel gostring
  | CallScheduleDelete gostring
  | CallStart
  | CallStop

inductive gc_step :: "garbage_collector \<Rightarrow> gc_event \<Rightarrow> garbage_collector \<Rightarrow> bool" where
  near_tick: "gc_loopRunning gc \<Longrightarrow> gc_step gc (NearTick c) (GC_nearTick c gc)"
| wheel_tick: "gc_loopRunning gc \<Longrightarrow> gc_step gc (WheelTick t) (GC_wheelTick t gc)"
| loop_exit: "gc_loopRunning gc \<Longrightarrow> gc_stopClosed gc \<Longrightarrow> gc_step gc LoopExit (gc\<lparr>gc_loopRunning := False\<rparr>)"
| flush_tick: "dc_running (gc_coalescer gc) \<Longrightarrow> GC_flush gc = (b, gc') \<Longrightarrow> gc_step gc (FlushTick b) gc'"
| flush_exit: "dc_running (gc_coalescer gc) \<Longrightarrow> dc_stopClosed (gc_coalescer gc) \<Longrightarrow> GC_flush gc = (b, gc') \<Longrightarrow>
    gc_step gc (FlushExit b) (gc'\<lparr>gc_coalescer := (gc_coalescer gc')\<lparr>dc_running := False\<rparr>\<rparr>)"
| call_schedule: "GC_Schedule env gc k ttl at = Inr gc' \<Longrightarrow> gc_step gc (CallSchedule env k ttl at) gc'"
| call_cancel: "GC_Cancel gc k = Inr gc' \<Longrightarrow> gc_step gc (CallCancel k) gc'"
| call_schedule_delete: "gc_step gc (CallScheduleDelete k) (GC_ScheduleDelete gc k)"
| call_start: "gc_step gc CallStart (GC_Start gc)"
| call_stop: "gc_step gc CallStop (GC_Stop gc)"

inductive_cases gc_near_tickE: "gc_step gc (NearTick c) gc'"
inductive_cases gc_wheel_tickE: "gc_step gc (WheelTick t) gc'"
inductive_cases gc_flush_tickE: "gc_step gc (FlushTick b) gc'"

inductive gc_run :: "garbage_collector \<Rightarrow> gc_event list \<Rightarrow> garbage_collector \<Rightarrow> bool" where
  run_nil: "gc_run gc [] gc"
| run_snoc: "gc_run gc es gc1 \<Longrightarrow> gc_step gc1 e gc2 \<Longrightarrow> gc_run gc (es @ [e]) gc2"

section \<open>The invariant\<close>

definition gc_ok :: "garbage_collector \<Rightarrow> bool" where
  "gc_ok gc \<longleftrightarrow> near_ok (gc_nearQueue gc) \<and> wheel_ok (gc_wheel gc) \<and> distinct (dc_pending (gc_coalescer gc))"

abbreviation gc_pending :: "garbage_collector \<Rightarrow> gostring set" where
  "gc_pending gc \<equiv> set (dc_pending (gc_coalescer gc))"

definition gc_deadlines :: "garbage_collector \<Rightarrow> (gostring \<times> int) multiset" where
  "gc_deadlines gc = nq_deadlines (gc_nearQueue gc) + wheel_deadlines (gc_wheel gc)"

lemma gc_ok_New [simp]: "gc_ok (NewGarbageCollector now)"
  by (simp add: gc_ok_def NewGarbageCollector_def near_ok_New wheel_ok_New NewDeleteCoalescer_def Let_def)

lemma gc_deadlines_New [simp]: "gc_deadlines (NewGarbageCollector now) = {#}"
  by (simp add: gc_deadlines_def NewGarbageCollector_def)

lemma GC_Cancel_ok: "gc_ok gc \<Longrightarrow> GC_Cancel gc k = Inr gc' \<Longrightarrow> gc_ok gc'"
  by (auto simp: GC_Cancel_def gc_ok_def gbind_iff HashedWheel_Remove_def
      intro: NearQueue_Remove_ok removeLocked_ok)

lemma GC_Schedule_ok: "gc_ok gc \<Longrightarrow> GC_Schedule env gc k ttl at = Inr gc' \<Longrightarrow> gc_ok gc'"
  by (auto simp: GC_Schedule_def gc_ok_def gbind_iff Let_def split: if_splits
      intro: NearQueue_Add_ok HashedWheel_Add_ok dest: GC_Cancel_ok [unfolded gc_ok_def, rotated])

lemma GC_ScheduleDelete_ok [simp]: "gc_ok gc \<Longrightarrow> gc_ok (GC_ScheduleDelete gc k)"
  by (simp add: gc_ok_def GC_ScheduleDelete_def)

lemma GC_nearTick_ok: "gc_ok gc \<Longrightarrow> gc_ok (GC_nearTick c gc)"
  by (auto simp: gc_ok_def GC_nearTick_def split: prod.splits intro: near_src.poll_inv)

lemma GC_wheelTick_ok: "gc_ok gc \<Longrightarrow> gc_ok (GC_wheelTick t gc)"
  by (auto simp: gc_ok_def GC_wheelTick_def split: prod.splits intro: wheel_src.poll_inv)

lemma GC_flush_ok: "gc_ok gc \<Longrightarrow> GC_flush gc = (b, gc') \<Longrightarrow> gc_ok gc'"
  by (auto simp: gc_ok_def GC_flush_def DeleteCoalescer_flush_def split: if_splits)

lemma GC_Start_ok [simp]: "gc_ok gc \<Longrightarrow> gc_ok (GC_Start gc)"
  by (simp add: gc_ok_def GC_Start_def DeleteCoalescer_Start_def)

lemma GC_Stop_ok [simp]: "gc_ok gc \<Longrightarrow> gc_ok (GC_Stop gc)"
  by (simp add: gc_ok_def GC_Stop_def DeleteCoalescer_Stop_def)

lemmas gc_ok_intros = GC_Cancel_ok GC_Schedule_ok GC_ScheduleDelete_ok GC_nearTick_ok
  GC_wheelTick_ok GC_flush_ok GC_Start_ok GC_Stop_ok

lemma gc_ok_coalescer_flag [simp]:
  "gc_ok (gc\<lparr>gc_coalescer := (gc_coalescer gc)\<lparr>dc_running := b\<rparr>\<rparr>) = gc_ok gc"
  "gc_ok (gc\<lparr>gc_loopRunning := b\<rparr>) = gc_ok gc"
  by (simp_all add: gc_ok_def)

lemma gc_step_ok: "gc_step gc e gc' \<Longrightarrow> gc_ok gc \<Longrightarrow> gc_ok gc'"
  by (induction rule: gc_step.induct) (auto intro: gc_ok_intros)

lemma gc_run_ok: "gc_run gc es gc' \<Longrightarrow> gc_ok gc \<Longrightarrow> gc_ok gc'"
  by (induction rule: gc_run.induct) (auto intro: gc_step_ok)

section \<open>Where deleted keys come from\<close>

definition deadline_keys :: "(gostring \<times> int) multiset \<Rightarrow> gostring set" where
  "deadline_keys D = fst ` set_mset D"

lemma deadline_keys_simps [simp]:
  "deadline_keys {#} = {}" "deadline_keys (add_mset x D) = insert (fst x) (deadline_keys D)"
  "deadline_keys (D + E) = deadline_keys D \<union> deadline_keys E"
  by (auto simp: deadline_keys_def)

lemma deadline_keys_map: "deadline_keys (mset ds) = set (map fst ds)"
  by (simp add: deadline_keys_def)

lemma NearQueue_Add_keys:
  assumes ok: "near_ok nq" and r: "NearQueue_Add c nq k d = Inr (b, nq')"
  shows "deadline_keys (nq_deadlines nq') \<subseteq> insert k (deadline_keys (nq_deadlines nq))"
proof (cases "b = False \<or> nq_index nq k = None")
  case True
  then show ?thesis
  proof (cases b)
    assume b
    with True r have "nq_deadlines nq' = add_mset (k, d) (nq_deadlines nq)"
      by (intro NearQueue_Add_new(2) [OF ok]) auto
    then show ?thesis by simp
  qed (use r in \<open>auto simp: NearQueue_Add_window\<close>)
next
  case False
  then obtain idx where idx: "nq_index nq k = Some idx" by blast
  let ?e = "(nq_heap nq ! idx)\<lparr>ne_expireAt := d\<rparr>" and ?i = "nat (ne_index (nq_heap nq ! idx))"
  have i: "idx < length (nq_heap nq)" and nq': "nq' = nq\<lparr>nq_heap := heap_Fix ((nq_heap nq)[idx := ?e]) ?i\<rparr>"
    using r False idx by (auto simp: NearQueue_Add_def Let_def split: if_splits)
  have "?i = idx" using ok i by (simp add: near_ok_def index_fields_ok_def)
  moreover have "near_ordered (nq_heap nq)" using ok by (simp add: near_ok_def)
  ultimately have "near_deadlines (nq_heap nq') = near_deadlines ((nq_heap nq)[idx := ?e])"
    using heap_Fix_correct(2) [OF _ i refl] by (simp add: nq' same_content_def)
  moreover have "map ne_key ((nq_heap nq)[idx := ?e]) = map ne_key (nq_heap nq)"
    using i by (intro nth_equalityI) (auto simp: nth_list_update)
  ultimately have "ne_key ` set (nq_heap nq') = ne_key ` set (nq_heap nq)"
    by (metis (no_types, lifting) deadline_def fst_conv image_cong image_image list.set_map near_deadlines_def set_mset_mset)
  then show ?thesis
    by (auto simp: deadline_keys_def nq_deadlines_def near_deadlines_def deadline_def image_image)
qed

lemma NearQueue_Remove_keys:
  "near_ok nq \<Longrightarrow> NearQueue_Remove nq k = Inr nq' \<Longrightarrow>
    deadline_keys (nq_deadlines nq') \<subseteq> deadline_keys (nq_deadlines nq)"
  using heap_Remove_correct(2)
  by (auto simp: NearQueue_Remove_def near_ok_def gbind_iff nq_deadlines_def split: option.splits)

definition gc_keys :: "garbage_collector \<Rightarrow> gostring set" where
  "gc_keys gc = deadline_keys (gc_deadlines gc) \<union> gc_pending gc"

lemma gc_keys_New [simp]: "gc_keys (NewGarbageCollector now) = {}"
  by (simp add: gc_keys_def, simp add: NewGarbageCollector_def NewDeleteCoalescer_def Let_def)

text \<open>The key an event asks to have deleted, now or after a positive time-to-live.\<close>

fun asks_for :: "gc_event \<Rightarrow> gostring set" where
  "asks_for (CallSchedule env k ttl at) = (if 0 < ttl then {k} else {})"
| "asks_for (CallScheduleDelete k) = {k}"
| "asks_for _ = {}"

fun batch_of :: "gc_event \<Rightarrow> gostring set" where
  "batch_of (FlushTick (Some ks)) = set ks"
| "batch_of (FlushExit (Some ks)) = set ks"
| "batch_of _ = {}"

lemma wheel_keys_filter: "deadline_keys (filter_mset P D) \<subseteq> deadline_keys D"
  by (auto simp: deadline_keys_def)

lemma GC_Cancel_keys: "gc_ok gc \<Longrightarrow> GC_Cancel gc k = Inr gc' \<Longrightarrow> gc_keys gc' \<subseteq> gc_keys gc"
  using wheel_keys_filter
  by (fastforce simp: GC_Cancel_def gc_ok_def gbind_iff gc_keys_def gc_deadlines_def
      HashedWheel_Remove_def removeLocked_deadlines dest: NearQueue_Remove_keys)

lemma GC_Schedule_keys:
  assumes ok: "gc_ok gc" and r: "GC_Schedule env gc k ttl at = Inr gc'"
  shows "gc_keys gc' \<subseteq> gc_keys gc \<union> (if 0 < ttl then {k} else {})"
proof (cases "0 < ttl")
  case False
  then show ?thesis using ok r by (simp add: GC_Schedule_def GC_Cancel_keys)
next
  case True
  let ?d = "gc_expireAt ttl at"
  obtain b nq where a: "NearQueue_Add (env_cached env) (gc_nearQueue gc) k ?d = Inr (b, nq)"
    using r True by (auto simp: GC_Schedule_def gbind_iff Let_def split: if_splits)
  have nk: "deadline_keys (nq_deadlines nq) \<subseteq> insert k (deadline_keys (nq_deadlines (gc_nearQueue gc)))"
    using ok a by (auto simp: gc_ok_def dest: NearQueue_Add_keys)
  have wk: "deadline_keys (wheel_deadlines (HashedWheel_Add env (gc_wheel gc) k ?d)) \<subseteq>
      insert k (deadline_keys (wheel_deadlines (gc_wheel gc)))"
    using ok HashedWheel_Add_deadlines [of "gc_wheel gc" env k ?d] wheel_keys_filter
    by (fastforce simp: gc_ok_def)
  have "gc' = gc\<lparr>gc_nearQueue := nq\<rparr> \<or>
      gc' = gc\<lparr>gc_nearQueue := nq, gc_wheel := HashedWheel_Add env (gc_wheel gc) k ?d\<rparr>"
    using r True a by (auto simp: GC_Schedule_def Let_def split: if_splits)
  then show ?thesis using True nk wk by (auto simp: gc_keys_def gc_deadlines_def)
qed

text \<open>The near tick as one equation: what leaves the near queue joins the pending set.\<close>

lemma GC_nearTick_moves:
  assumes "gc_ok gc"
  shows "\<exists>ds. gc_pending (GC_nearTick c gc) = gc_pending gc \<union> set (map fst ds) \<and>
    nq_deadlines (gc_nearQueue gc) = mset ds + nq_deadlines (gc_nearQueue (GC_nearTick c gc)) \<and>
    (\<forall>x \<in> set ds. due c x) \<and> (\<forall>x \<in># nq_deadlines (gc_nearQueue (GC_nearTick c gc)). \<not> due c x)"
proof -
  obtain ks nq where r: "NearQueue_DrainExpired c (gc_nearQueue gc) = (ks, nq)" by fastforce
  have "near_ok (gc_nearQueue gc)" using assms by (simp add: gc_ok_def)
  from NearQueue_Drain_correct [OF this r] obtain ds where
    "ks = map fst ds" "nq_deadlines (gc_nearQueue gc) = mset ds + nq_deadlines nq"
    "\<forall>x \<in> set ds. due c x" "\<forall>x \<in># nq_deadlines nq. \<not> due c x" by blast
  then show ?thesis by (intro exI [of _ ds]) (simp add: GC_nearTick_def r)
qed

lemma GC_wheelTick_moves:
  assumes "gc_ok gc"
  shows "\<exists>ds. gc_pending (GC_wheelTick t gc) = gc_pending gc \<union> set (map fst ds) \<and>
    wheel_deadlines (gc_wheel gc) = mset ds + wheel_deadlines (gc_wheel (GC_wheelTick t gc)) \<and>
    (\<forall>x \<in> set ds. due (time_UnixNano t) x)"
proof -
  obtain ks hw where r: "HashedWheel_Advance (time_UnixNano t) (gc_wheel gc) = (ks, hw)" by fastforce
  have "wheel_ok (gc_wheel gc)" using assms by (simp add: gc_ok_def)
  from wheel_src.poll_sound [OF this r] obtain ds where
    "ks = map fst ds" "wheel_deadlines (gc_wheel gc) = mset ds + wheel_deadlines hw"
    "\<forall>x \<in> set ds. due (time_UnixNano t) x" by blast
  then show ?thesis by (intro exI [of _ ds]) (simp add: GC_wheelTick_def r)
qed

lemma GC_tick_frame [simp]:
  "gc_wheel (GC_nearTick c gc) = gc_wheel gc" "gc_nearQueue (GC_wheelTick t gc) = gc_nearQueue gc"
  by (simp_all add: GC_nearTick_def GC_wheelTick_def split: prod.splits)

lemma GC_nearTick_keys: "gc_ok gc \<Longrightarrow> gc_keys (GC_nearTick c gc) = gc_keys gc"
  using GC_nearTick_moves [of gc c]
  by (auto simp: gc_keys_def gc_deadlines_def deadline_keys_map)

lemma GC_wheelTick_keys: "gc_ok gc \<Longrightarrow> gc_keys (GC_wheelTick t gc) = gc_keys gc"
  using GC_wheelTick_moves [of gc t]
  by (auto simp: gc_keys_def gc_deadlines_def deadline_keys_map)

lemma GC_flush_keys:
  assumes "GC_flush gc = (b, gc')"
  shows "gc_keys gc' \<subseteq> gc_keys gc" "b = Some ks \<Longrightarrow> set ks = gc_pending gc" "gc_pending gc' = {}"
  using assms by (auto simp: GC_flush_def DeleteCoalescer_flush_def gc_keys_def gc_deadlines_def split: if_splits)

lemma gc_keys_frame [simp]:
  "gc_keys (gc\<lparr>gc_loopRunning := b\<rparr>) = gc_keys gc"
  "gc_keys (gc\<lparr>gc_coalescer := (gc_coalescer gc)\<lparr>dc_running := b\<rparr>\<rparr>) = gc_keys gc"
  "gc_keys (GC_Start gc) = gc_keys gc" "gc_keys (GC_Stop gc) = gc_keys gc"
  "gc_keys (GC_ScheduleDelete gc k) = insert k (gc_keys gc)"
  by (auto simp: gc_keys_def gc_deadlines_def GC_Start_def GC_Stop_def GC_ScheduleDelete_def
      DeleteCoalescer_Start_def DeleteCoalescer_Stop_def)

lemma gc_step_keys:
  assumes "gc_step gc e gc'" "gc_ok gc"
  shows "gc_keys gc' \<subseteq> gc_keys gc \<union> asks_for e \<and> batch_of e \<subseteq> gc_keys gc"
  using assms
proof (induction rule: gc_step.induct)
  case (flush_tick gc b gc')
  then show ?case using GC_flush_keys [OF flush_tick(2)] by (cases b) (auto simp: gc_keys_def)
next
  case (flush_exit gc b gc')
  then show ?case
    using GC_flush_keys [OF flush_exit(3)] unfolding gc_keys_frame(2) by (cases b) (auto simp: gc_keys_def)
next
  case (call_schedule env gc k ttl at gc')
  then show ?case using GC_Schedule_keys by auto
next
  case (call_cancel gc k gc')
  then show ?case using GC_Cancel_keys by auto
qed (auto simp: GC_nearTick_keys GC_wheelTick_keys)

lemma gc_run_keys:
  "gc_run gc es gc' \<Longrightarrow> gc_ok gc \<Longrightarrow> gc_keys gc' \<subseteq> gc_keys gc \<union> \<Union> (asks_for ` set es)"
proof (induction rule: gc_run.induct)
  case (run_snoc gc es gc1 e gc2)
  then show ?case using gc_step_keys [OF run_snoc(2)] gc_run_ok [OF run_snoc(1)] by fastforce
qed simp

inductive_cases gc_run_snocE: "gc_run gc (es @ [e]) gc'"

lemma gc_run_batch:
  assumes "gc_run (NewGarbageCollector now) (es @ [e]) gc'" "k \<in> batch_of e"
  shows "\<exists>e' \<in> set es. k \<in> asks_for e'"
proof -
  from assms(1) obtain gc1 where r: "gc_run (NewGarbageCollector now) es gc1" "gc_step gc1 e gc'"
    by (auto elim: gc_run_snocE)
  have "gc_ok gc1" using gc_run_ok [OF r(1)] by simp
  with gc_step_keys [OF r(2)] assms(2) have "k \<in> gc_keys gc1" by auto
  then show ?thesis using gc_run_keys [OF r(1)] by auto
qed

section \<open>Superseded deadlines\<close>

text \<open>A key moved beyond the near window goes to the wheel; its entry in the near queue stays.\<close>

lemma GC_Schedule_far:
  assumes "0 < ttl" "nq_windowMs (gc_nearQueue gc) < to_ms (gc_expireAt ttl at) - to_ms (env_cached env)"
  shows "GC_Schedule env gc k ttl at =
    Inr (gc\<lparr>gc_wheel := HashedWheel_Add env (gc_wheel gc) k (gc_expireAt ttl at)\<rparr>)"
  using assms by (simp add: GC_Schedule_def NearQueue_Add_def Let_def)

lemma near_tick_delivers:
  assumes "gc_ok gc" "(k, d) \<in># nq_deadlines (gc_nearQueue gc)" "due c (k, d)"
  shows "k \<in> gc_pending (GC_nearTick c gc)"
proof -
  from GC_nearTick_moves [OF assms(1), of c] obtain ds where
    p: "gc_pending (GC_nearTick c gc) = gc_pending gc \<union> set (map fst ds)"
    and n: "nq_deadlines (gc_nearQueue gc) = mset ds + nq_deadlines (gc_nearQueue (GC_nearTick c gc))"
    and nd: "\<forall>x \<in># nq_deadlines (gc_nearQueue (GC_nearTick c gc)). \<not> due c x" by blast
  have "(k, d) \<in> set ds" using assms(2,3) n nd by auto
  then show ?thesis using p by force
qed

section \<open>Properties\<close>

text \<open>C34: whatever the callers and the two background goroutines do, in whatever order, a key that a
  flush hands to the delete callback was put there by an earlier call: a schedule with a positive
  time-to-live or an explicit request.\<close>

theorem gc_deletes_only_asked:
  assumes "gc_run (NewGarbageCollector now) (es @ [e]) gc'" "k \<in> batch_of e"
  shows "\<exists>e' \<in> set es. k \<in> asks_for e'"
  by (rule gc_run_batch [OF assms])

lemma sample_run:
  "gc_run (NewGarbageCollector 0) ([CallStart, CallScheduleDelete (str ''k'')] @ [FlushTick (Some [str ''k''])])
    (snd (GC_flush (GC_ScheduleDelete (GC_Start (NewGarbageCollector 0)) (str ''k''))))"
proof -
  let ?g1 = "GC_Start (NewGarbageCollector 0)" and ?g2 = "GC_ScheduleDelete (GC_Start (NewGarbageCollector 0)) (str ''k'')"
  have "gc_run (NewGarbageCollector 0) ([] @ [CallStart]) ?g1" by (rule run_snoc [OF run_nil call_start])
  from run_snoc [OF this call_schedule_delete]
  have r: "gc_run (NewGarbageCollector 0) [CallStart, CallScheduleDelete (str ''k'')] ?g2" by simp
  have "dc_running (gc_coalescer ?g2)" "GC_flush ?g2 = (Some [str ''k''], snd (GC_flush ?g2))"
    by (simp_all add: GC_ScheduleDelete_def DeleteCoalescer_Enqueue_def GC_Start_def DeleteCoalescer_Start_def
        NewGarbageCollector_def NewDeleteCoalescer_def set_add_def GC_flush_def DeleteCoalescer_flush_def Let_def)
  then show ?thesis by (intro run_snoc [OF r] flush_tick)
qed

theorem gc_deletes_only_asked_witness:
  "\<exists>e' \<in> set [CallStart, CallScheduleDelete (str ''k'')]. str ''k'' \<in> asks_for e'"
  by (rule gc_deletes_only_asked [OF sample_run]) simp

text \<open>In every run of the collector the near queue stays a heap with right positions, the wheel and
  its key map agree, and no key is pending twice.\<close>

theorem gc_run_invariant:
  assumes "gc_run (NewGarbageCollector now) es gc"
  shows "near_ok (gc_nearQueue gc) \<and> wheel_ok (gc_wheel gc) \<and> distinct (dc_pending (gc_coalescer gc))"
  using gc_run_ok [OF assms gc_ok_New] by (simp only: gc_ok_def)

theorem gc_run_invariant_witness:
  "distinct (dc_pending (gc_coalescer (snd (GC_flush (GC_ScheduleDelete (GC_Start (NewGarbageCollector 0)) (str ''k''))))))"
  using gc_run_invariant [OF sample_run] by blast

text \<open>A key rescheduled beyond the near window keeps its old deadline in the near queue, and the
  old deadline still gets it deleted.\<close>

theorem gc_superseded_deadline_fires:
  assumes "gc_run (NewGarbageCollector now) es gc" "nq_index (gc_nearQueue gc) k = None"
    and "0 < ttl1" "to_ms (gc_expireAt ttl1 at1) - to_ms (env_cached env1) \<le> nq_windowMs (gc_nearQueue gc)"
    and "GC_Schedule env1 gc k ttl1 at1 = Inr gc1"
    and "0 < ttl2" "nq_windowMs (gc_nearQueue gc1) < to_ms (gc_expireAt ttl2 at2) - to_ms (env_cached env2)"
    and "to_ms (gc_expireAt ttl1 at1) \<le> to_ms c"
  shows "\<exists>gc2. GC_Schedule env2 gc1 k ttl2 at2 = Inr gc2 \<and> k \<in> gc_pending (GC_nearTick c gc2)"
proof -
  let ?gc2 = "gc1\<lparr>gc_wheel := HashedWheel_Add env2 (gc_wheel gc1) k (gc_expireAt ttl2 at2)\<rparr>"
  have s2: "GC_Schedule env2 gc1 k ttl2 at2 = Inr ?gc2" by (rule GC_Schedule_far [OF assms(6,7)])
  have ok: "gc_ok gc" using gc_run_ok [OF assms(1)] by simp
  then have nok: "near_ok (gc_nearQueue gc)" by (simp add: gc_ok_def)
  have ok2: "gc_ok ?gc2" using GC_Schedule_ok [OF GC_Schedule_ok [OF ok assms(5)] s2] .
  obtain b nq where a: "NearQueue_Add (env_cached env1) (gc_nearQueue gc) k (gc_expireAt ttl1 at1) = Inr (b, nq)"
    using assms(3,5) by (auto simp: GC_Schedule_def gbind_iff Let_def split: if_splits)
  have b: "b" using a assms(4) NearQueue_Add_window by (cases b) auto
  have "gc_nearQueue ?gc2 = nq" using assms(3,5) a b by (auto simp: GC_Schedule_def Let_def)
  moreover have "nq_deadlines nq = add_mset (k, gc_expireAt ttl1 at1) (nq_deadlines (gc_nearQueue gc))"
    using NearQueue_Add_new(2) [OF nok assms(2)] a b by simp
  ultimately have "(k, gc_expireAt ttl1 at1) \<in># nq_deadlines (gc_nearQueue ?gc2)" by simp
  from near_tick_delivers [OF ok2 this] assms(8) have "k \<in> gc_pending (GC_nearTick c ?gc2)" by (simp add: due_def)
  with s2 show ?thesis by blast
qed

theorem gc_superseded_deadline_fires_witness:
  "\<exists>gc1 gc2. GC_Schedule \<lparr>env_now = 0, env_cached = 0, env_rand = 0, env_coin = True\<rparr> (NewGarbageCollector 0) (str ''k'') 1000000 0 = Inr gc1 \<and>
    GC_Schedule \<lparr>env_now = 0, env_cached = 0, env_rand = 0, env_coin = True\<rparr> gc1 (str ''k'') 3600000000000 0 = Inr gc2 \<and>
    str ''k'' \<in> gc_pending (GC_nearTick 1000000 gc2)"
proof -
  let ?env = "\<lparr>env_now = 0, env_cached = 0, env_rand = 0, env_coin = True\<rparr>" and ?gc = "NewGarbageCollector 0"
  have x: "gc_expireAt 1000000 0 = 1000000" "gc_expireAt 3600000000000 0 = 3600000000000"
    by (simp_all add: gc_expireAt_def time_UnixNano_def time_Add_def i64_id)
  have nq: "gc_nearQueue ?gc = NewNearQueue 2000" by (simp add: NewGarbageCollector_def defaultNearWindowMs_def)
  have ix: "nq_index (gc_nearQueue ?gc) (str ''k'') = None" "nq_windowMs (gc_nearQueue ?gc) = 2000"
    by (simp_all add: nq NewNearQueue_def)
  obtain q' where a: "NearQueue_Add 0 (gc_nearQueue ?gc) (str ''k'') 1000000 = Inr (True, q')" "nq_windowMs q' = 2000"
    by (cases "heap_Push (nq_heap (NewNearQueue 2000)) \<lparr>ne_key = str ''k'', ne_expireAt = 1000000, ne_index = 0\<rparr>")
      (simp add: nq NearQueue_Add_def Let_def NewNearQueue_def to_ms_nonneg_eq)
  let ?gc1 = "?gc\<lparr>gc_nearQueue := q'\<rparr>"
  have s1: "GC_Schedule ?env ?gc (str ''k'') 1000000 0 = Inr ?gc1" using a by (simp add: GC_Schedule_def x Let_def)
  from gc_superseded_deadline_fires [OF run_nil ix(1) _ _ s1, of 3600000000000 0 ?env 1000000] a(2) ix(2) s1
  show ?thesis by (auto simp: x to_ms_nonneg_eq)
qed

end
