(* ===== verification/Binary_Search.thy ===== *)
theory Binary_Search
  imports Bukt_Prelude
begin

text \<open>
  \<open>slices.BinarySearch\<close> of Go's standard library, the lookup of the storage engine, and the
  pairs of parallel sorted slices it is used on.
\<close>

function bsearch_loop :: "'a::linorder list \<Rightarrow> 'a \<Rightarrow> nat \<Rightarrow> nat \<Rightarrow> nat" where
  "bsearch_loop xs target i j =
     (if i < j
      then let h = (i + j) div 2
           in if xs ! h < target then bsearch_loop xs target (h + 1) j else bsearch_loop xs target i h
      else i)"
  by pat_completeness auto
termination
  by (relation "measure (\<lambda>(xs, target, i, j). j - i)") auto

declare bsearch_loop.simps [simp del]

definition BinarySearch :: "'a::linorder list \<Rightarrow> 'a \<Rightarrow> nat \<times> bool" where
  "BinarySearch xs target =
     (let i = bsearch_loop xs target 0 (length xs) in (i, i < length xs \<and> xs ! i = target))"

abbreviation strictly_sorted :: "'a::linorder list \<Rightarrow> bool" where
  "strictly_sorted \<equiv> sorted_wrt (<)"

lemma bsearch_loop_correct:
  assumes "strictly_sorted xs" "i \<le> j" "j \<le> length xs"
    and "\<And>k. k < i \<Longrightarrow> xs ! k < t" and "\<And>k. j \<le> k \<Longrightarrow> k < length xs \<Longrightarrow> t \<le> xs ! k"
  shows "bsearch_loop xs t i j \<le> length xs \<and> (\<forall>k < bsearch_loop xs t i j. xs ! k < t) \<and>
    (\<forall>k. bsearch_loop xs t i j \<le> k \<longrightarrow> k < length xs \<longrightarrow> t \<le> xs ! k)"
  using assms
proof (induction xs t i j rule: bsearch_loop.induct)
  case (1 xs t i j)
  show ?case
  proof (cases "i < j")
    case False
    then have "bsearch_loop xs t i j = i" by (simp add: bsearch_loop.simps [of xs t i j])
    then show ?thesis using False "1.prems" by auto
  next
    case True
    let ?h = "(i + j) div 2"
    have h: "i \<le> ?h" "?h < j" "?h < length xs" using True "1.prems"(3) by auto
    have mono: "xs ! a \<le> xs ! b" if "a \<le> b" "b < length xs" for a b
      using "1.prems"(1) that by (cases "a = b") (auto simp: sorted_wrt_iff_nth_less less_imp_le)
    show ?thesis
    proof (cases "xs ! ?h < t")
      case lt: True
      have "xs ! k < t" if "k < ?h + 1" for k
        using mono [of k ?h] that h lt by (simp add: less_Suc_eq_le)
      from "1.IH"(1) [OF True refl lt "1.prems"(1) _ _ this "1.prems"(5)] h "1.prems"(3)
      show ?thesis using True lt by (simp add: bsearch_loop.simps [of xs t i j] Let_def)
    next
      case ge: False
      have "t \<le> xs ! k" if "?h \<le> k" "k < length xs" for k
        using mono [of ?h k] that ge by simp
      from "1.IH"(2) [OF True refl ge "1.prems"(1) _ _ "1.prems"(4) this] h "1.prems"(3)
      show ?thesis using True ge by (simp add: bsearch_loop.simps [of xs t i j] Let_def)
    qed
  qed
qed

lemma BinarySearch_correct:
  assumes "strictly_sorted xs" "BinarySearch xs t = (i, found)"
  shows "i \<le> length xs" "\<And>k. k < i \<Longrightarrow> xs ! k < t" "\<And>k. i \<le> k \<Longrightarrow> k < length xs \<Longrightarrow> t \<le> xs ! k"
    "found \<longleftrightarrow> t \<in> set xs" "found \<Longrightarrow> i < length xs \<and> xs ! i = t"
proof -
  have i: "i = bsearch_loop xs t 0 (length xs)" and f: "found \<longleftrightarrow> i < length xs \<and> xs ! i = t"
    using assms(2) by (auto simp: BinarySearch_def Let_def)
  have c: "i \<le> length xs \<and> (\<forall>k < i. xs ! k < t) \<and> (\<forall>k. i \<le> k \<longrightarrow> k < length xs \<longrightarrow> t \<le> xs ! k)"
    unfolding i by (rule bsearch_loop_correct [OF assms(1)]) simp_all
  then show "i \<le> length xs" "\<And>k. k < i \<Longrightarrow> xs ! k < t" "\<And>k. i \<le> k \<Longrightarrow> k < length xs \<Longrightarrow> t \<le> xs ! k"
    by auto
  show "found \<Longrightarrow> i < length xs \<and> xs ! i = t" using f by simp
  have "found" if tin: "t \<in> set xs"
  proof -
    from tin obtain k where k: "k < length xs" "xs ! k = t" by (auto simp: in_set_conv_nth)
    then have "i \<le> k" using c by (meson less_irrefl not_less)
    then have il: "i < length xs" "t \<le> xs ! i" using k c by auto
    have "xs ! i \<le> xs ! k"
      using assms(1) \<open>i \<le> k\<close> k(1) by (cases "i = k") (auto simp: sorted_wrt_iff_nth_less less_imp_le)
    with il k f show ?thesis by simp
  qed
  then show "found \<longleftrightarrow> t \<in> set xs" using f by auto
qed

text \<open>What the search tells about the two halves at the returned position.\<close>

lemma BinarySearch_halves:
  assumes "strictly_sorted xs" "BinarySearch xs t = (i, found)"
  shows "\<forall>x \<in> set (take i xs). x < t" "\<not> found \<Longrightarrow> \<forall>x \<in> set (drop i xs). t < x"
    "found \<Longrightarrow> \<forall>x \<in> set (drop (i + 1) xs). t < x"
proof -
  note c = BinarySearch_correct [OF assms]
  show "\<forall>x \<in> set (take i xs). x < t" using c(2) by (auto simp: in_set_conv_nth)
  show "\<forall>x \<in> set (drop i xs). t < x" if "\<not> found"
  proof
    fix x assume x: "x \<in> set (drop i xs)"
    then have "t \<le> x" using c(3) by (auto simp: in_set_conv_nth)
    moreover have "x \<in> set xs" using x by (rule in_set_dropD)
    ultimately show "t < x" using that c(4) by (cases "t = x") auto
  qed
  show "\<forall>x \<in> set (drop (i + 1) xs). t < x" if "found"
  proof
    fix x assume "x \<in> set (drop (i + 1) xs)"
    then obtain k where "k < length (drop (i + 1) xs)" "x = drop (i + 1) xs ! k"
      by (auto simp only: in_set_conv_nth)
    then have k: "i + 1 + k < length xs" "x = xs ! (i + 1 + k)" by simp_all
    moreover have "xs ! i < xs ! (i + 1 + k)"
      using assms(1) k(1) by (simp add: sorted_wrt_iff_nth_less)
    ultimately show "t < x" using c(5) that by simp
  qed
qed

lemma strictly_sorted_take_drop:
  "strictly_sorted xs \<Longrightarrow> strictly_sorted (take i xs) \<and> strictly_sorted (drop i xs)"
  by (simp add: sorted_wrt_take sorted_wrt_drop)

lemma strictly_sorted_insert:
  assumes "strictly_sorted xs" "BinarySearch xs t = (i, False)"
  shows "strictly_sorted (take i xs @ t # drop i xs)"
  using BinarySearch_halves [OF assms] strictly_sorted_take_drop [OF assms(1), of i] assms(1)
  by (auto simp: sorted_wrt_append intro: less_trans)

lemma strictly_sorted_remove:
  assumes "strictly_sorted xs"
  shows "strictly_sorted (remove_at i xs)"
proof -
  have "strictly_sorted (take i xs @ drop i xs)" using assms by simp
  then have "\<forall>x \<in> set (take i xs). \<forall>y \<in> set (drop i xs). x < y" unfolding sorted_wrt_append by blast
  moreover have "set (drop (i + 1) xs) \<subseteq> set (drop i xs)" by (rule set_drop_subset_set_drop) simp
  ultimately show ?thesis
    using strictly_sorted_take_drop [OF assms] unfolding remove_at_def sorted_wrt_append by blast
qed

lemma strictly_sorted_distinct: "strictly_sorted (xs :: 'a::linorder list) \<Longrightarrow> distinct xs"
  by (induction xs) auto

section \<open>Parallel slices as finite maps\<close>

lemma map_of_middle:
  "x \<notin> fst ` set ps \<Longrightarrow> map_of (ps @ (x, y) # qs) = (map_of (ps @ qs))(x \<mapsto> y)"
proof (induction ps)
  case (Cons p ps)
  then have "fst p \<noteq> x" by auto
  with Cons show ?case by (cases p) (auto simp: fun_eq_iff)
qed simp

lemma zip_parallel_insert:
  "length ks = length vs \<Longrightarrow> zip (take i ks @ k # drop i ks) (take i vs @ v # drop i vs) =
    take i (zip ks vs) @ (k, v) # drop i (zip ks vs)"
  by (simp add: take_zip drop_zip)

lemma zip_parallel_remove:
  "length ks = length vs \<Longrightarrow> zip (remove_at i ks) (remove_at i vs) = remove_at i (zip ks vs)"
  by (simp add: remove_at_def take_zip drop_zip)

lemma zip_at:
  "i < length ks \<Longrightarrow> length ks = length vs \<Longrightarrow>
    zip ks vs = take i (zip ks vs) @ (ks ! i, vs ! i) # drop (i + 1) (zip ks vs)"
  using id_take_nth_drop [of i "zip ks vs"] by simp

lemma zip_update_at:
  assumes "i < length ks" "length ks = length vs"
  shows "zip ks (vs[i := v]) = take i (zip ks vs) @ (ks ! i, v) # drop (i + 1) (zip ks vs)"
proof -
  have "zip ks (vs[i := v]) = (zip ks vs)[i := (ks ! i, v)]"
    using assms by (intro nth_equalityI) (auto simp: nth_list_update)
  then show ?thesis using assms by (simp add: upd_conv_take_nth_drop)
qed

lemma fst_take_zip: "length ks = length vs \<Longrightarrow> fst ` set (take i (zip ks vs)) = set (take i ks)"
  by (metis length_take list.set_map map_fst_zip take_zip)

lemma fst_drop_zip: "length ks = length vs \<Longrightarrow> fst ` set (drop i (zip ks vs)) = set (drop i ks)"
  by (metis length_drop list.set_map map_fst_zip drop_zip)

lemma map_of_parallel_insert:
  assumes "length ks = length vs" "strictly_sorted ks" "BinarySearch ks k = (i, False)"
  shows "map_of (zip (take i ks @ k # drop i ks) (take i vs @ v # drop i vs)) = (map_of (zip ks vs))(k \<mapsto> v)"
proof -
  have "k \<notin> fst ` set (take i (zip ks vs))"
    using BinarySearch_halves(1) [OF assms(2,3)] fst_take_zip [OF assms(1)] by auto
  then show ?thesis
    by (simp only: zip_parallel_insert [OF assms(1)] map_of_middle append_take_drop_id not_False_eq_True)
qed

lemma map_of_parallel_update:
  assumes "length ks = length vs" "strictly_sorted ks" "BinarySearch ks k = (i, True)"
  shows "map_of (zip ks (vs[i := v])) = (map_of (zip ks vs))(k \<mapsto> v)"
proof -
  note c = BinarySearch_correct(5) [OF assms(2,3) TrueI]
  have k: "k \<notin> fst ` set (take i (zip ks vs))"
    using BinarySearch_halves(1) [OF assms(2,3)] fst_take_zip [OF assms(1)] by auto
  have "zip ks (vs[i := v]) = take i (zip ks vs) @ (k, v) # drop (i + 1) (zip ks vs)"
    using zip_update_at [of i ks vs v] c assms(1) by simp
  then show ?thesis
    using k zip_at [of i ks vs] c assms(1) by (metis fun_upd_upd map_of_middle)
qed

lemma map_of_parallel_remove:
  assumes "length ks = length vs" "strictly_sorted ks" "BinarySearch ks k = (i, True)"
  shows "map_of (zip (remove_at i ks) (remove_at i vs)) = (map_of (zip ks vs))(k := None)"
proof -
  note c = BinarySearch_correct(5) [OF assms(2,3) TrueI]
  let ?a = "take i (zip ks vs)" and ?b = "drop (i + 1) (zip ks vs)"
  have k: "k \<notin> fst ` set ?a" "k \<notin> fst ` set ?b"
    using BinarySearch_halves(1,3) [OF assms(2,3)] fst_take_zip [OF assms(1)] fst_drop_zip [OF assms(1)]
    by auto
  have "map_of (zip ks vs) = (map_of (?a @ ?b))(k \<mapsto> vs ! i)"
    using zip_at [of i ks vs] c assms(1) map_of_middle [OF k(1)] by metis
  moreover have "map_of (?a @ ?b) k = None" using k by (simp add: map_of_eq_None_iff image_Un)
  ultimately show ?thesis
    unfolding zip_parallel_remove [OF assms(1)] by (auto simp: remove_at_def fun_eq_iff)
qed

end
