(* ===== verification/Memory_Store.thy ===== *)
theory Memory_Store
  imports Binary_Search Garbage_Collector
begin

text \<open>
  The storage engine of \<open>internal/engine/types.go\<close> and \<open>internal/engine/in_memory.go\<close>: an index
  of segments, each a pair of parallel slices sorted by key, replaced as a whole by every write
  (copy on write), with counters for bytes and keys and the garbage collector embedded. Each
  operation is one atomic step on the current index; what a panicking collector leaves behind
  is part of the result. The main lemmas relate the operations to a finite map.
\<close>

section \<open>Entries\<close>

record storage_entry =
  se_Key :: gostring
  se_Value :: "byte list"
  se_OriginalSize :: int
  se_TTL :: int
  se_CreatedAt :: go_time
  se_ExpiresAt :: go_time
  se_SingleRead :: bool
  se_AccessCount :: int
  se_LastAccess :: int

definition IsExpired :: "go_time \<Rightarrow> storage_entry \<Rightarrow> bool" where
  "IsExpired now e = (if time_IsZero (se_ExpiresAt e) then False else se_ExpiresAt e < now)"

definition sizeOf :: "gostring \<Rightarrow> storage_entry \<Rightarrow> int" where
  "sizeOf key e =
     (let v = (if 0 < se_OriginalSize e then se_OriginalSize e else int (length (se_Value e)))
      in int (length key) + v)"

lemma sizeOf_nonneg: "0 \<le> sizeOf k e"
  by (simp add: sizeOf_def)

section \<open>The store\<close>

record segment =
  seg_keys :: "gostring list"
  seg_vals :: "storage_entry list"

record memory_store =
  ms_segments :: "segment list"
  ms_usedBytes :: int
  ms_keyCount :: int
  ms_gc :: garbage_collector

definition NewMemoryStore :: "go_time \<Rightarrow> memory_store" where
  "NewMemoryStore now =
     \<lparr>ms_segments = replicate 64 \<lparr>seg_keys = [], seg_vals = []\<rparr>,
      ms_usedBytes = 0, ms_keyCount = 0, ms_gc = NewGarbageCollector now\<rparr>"

definition segmentIndexOf :: "hasher \<Rightarrow> memory_store \<Rightarrow> gostring \<Rightarrow> nat" where
  "segmentIndexOf hash s key = unat (hash key mod word_of_nat (length (ms_segments s)))"

text \<open>Writing an entry through its pointer, in the current index.\<close>

definition write_entry :: "memory_store \<Rightarrow> nat \<Rightarrow> nat \<Rightarrow> storage_entry \<Rightarrow> memory_store" where
  "write_entry s si i e =
     s\<lparr>ms_segments := (ms_segments s)[si := (ms_segments s ! si)
         \<lparr>seg_vals := (seg_vals (ms_segments s ! si))[i := e]\<rparr>]\<rparr>"

definition MemoryStore_Get ::
  "env \<Rightarrow> hasher \<Rightarrow> memory_store \<Rightarrow> gostring \<Rightarrow> storage_entry option \<times> memory_store" where
  "MemoryStore_Get env hash s key =
     (let si = segmentIndexOf hash s key;
          seg = ms_segments s ! si;
          (i, found) = BinarySearch (seg_keys seg) key
      in if \<not> found then (None, s)
         else let e = seg_vals seg ! i
              in if IsExpired (env_now env) e
                 then (None, s\<lparr>ms_gc := GC_ScheduleDelete (ms_gc s) key\<rparr>)
                 else if se_SingleRead e
                 then if se_AccessCount e = 0
                      then let e' = e\<lparr>se_AccessCount := 1\<rparr>
                           in (Some e', (write_entry s si i e')\<lparr>ms_gc := GC_ScheduleDelete (ms_gc s) key\<rparr>)
                      else (None, s)
                 else let e' = e\<lparr>se_AccessCount := i32 (se_AccessCount e + 1), se_LastAccess := env_cached env\<rparr>
                      in (Some e', write_entry s si i e'))"

text \<open>The entry as \<open>Set\<close> stores it.\<close>

definition stamped :: "env \<Rightarrow> storage_entry \<Rightarrow> storage_entry" where
  "stamped env val = val\<lparr>se_LastAccess := env_cached env, se_AccessCount := 0\<rparr>"

text \<open>A write returns the new state and the panic it ended with, if any: \<open>Set\<close> publishes the new
  index before it schedules the deadline.\<close>

definition MemoryStore_Set ::
  "env \<Rightarrow> hasher \<Rightarrow> memory_store \<Rightarrow> gostring \<Rightarrow> storage_entry \<Rightarrow> memory_store \<times> go_panic option" where
  "MemoryStore_Set env hash s key val0 =
     (let val = stamped env val0;
          si = segmentIndexOf hash s key;
          oldSeg = ms_segments s ! si;
          (i, found) = BinarySearch (seg_keys oldSeg) key;
          (ns, delta, keyCount) =
            (if found
             then (oldSeg\<lparr>seg_vals := (seg_vals oldSeg)[i := val]\<rparr>,
                   - sizeOf key (seg_vals oldSeg ! i), ms_keyCount s)
             else (\<lparr>seg_keys = insert_at [] i key (seg_keys oldSeg),
                    seg_vals = insert_at val i val (seg_vals oldSeg)\<rparr>,
                   0, ms_keyCount s + 1));
          s1 = s\<lparr>ms_segments := (ms_segments s)[si := ns],
                 ms_usedBytes := ms_usedBytes s + (delta + sizeOf key val),
                 ms_keyCount := keyCount\<rparr>
      in case GC_Schedule env (ms_gc s) key (se_TTL val) (se_CreatedAt val) of
           Inl p \<Rightarrow> (s1, Some p)
         | Inr gc \<Rightarrow> (s1\<lparr>ms_gc := gc\<rparr>, None))"

text \<open>The inner loop of \<open>deleteBatch\<close> over the keys of one segment: segment copy, byte delta,
  key counter and collector, and the panic that \<open>Cancel\<close> may raise.\<close>

fun delete_keys :: "gostring list \<Rightarrow> segment \<Rightarrow> int \<Rightarrow> int \<Rightarrow> garbage_collector
    \<Rightarrow> (segment \<times> int \<times> int \<times> garbage_collector) \<times> go_panic option" where
  "delete_keys [] ns delta kc gc = ((ns, delta, kc, gc), None)"
| "delete_keys (k # ks) ns delta kc gc =
     (let (i, found) = BinarySearch (seg_keys ns) k
      in if \<not> found then delete_keys ks ns delta kc gc
         else let ent = seg_vals ns ! i;
                  delta' = delta - sizeOf k ent;
                  ns' = \<lparr>seg_keys = remove_at i (seg_keys ns), seg_vals = remove_at i (seg_vals ns)\<rparr>;
                  kc' = kc - 1
              in case GC_Cancel gc k of
                   Inl p \<Rightarrow> ((ns', delta', kc', gc), Some p)
                 | Inr gc' \<Rightarrow> delete_keys ks ns' delta' kc' gc')"

text \<open>\<open>group[si] = append(group[si], k)\<close> for each key, as an association list.\<close>

fun group_add :: "nat \<Rightarrow> gostring \<Rightarrow> (nat \<times> gostring list) list \<Rightarrow> (nat \<times> gostring list) list" where
  "group_add si k [] = [(si, [k])]"
| "group_add si k ((sj, ks) # g) = (if si = sj then (sj, ks @ [k]) # g else (sj, ks) # group_add si k g)"

definition group_keys :: "hasher \<Rightarrow> memory_store \<Rightarrow> gostring list \<Rightarrow> (nat \<times> gostring list) list" where
  "group_keys hash s keys = foldl (\<lambda>g k. group_add (segmentIndexOf hash s k) k g) [] keys"

text \<open>The outer loop over the groups: each segment is copied from the old index. (Go iterates
  over a map, in no specified order; the groups touch different segments.)\<close>

fun delete_groups :: "(nat \<times> gostring list) list \<Rightarrow> segment list \<Rightarrow> segment list \<Rightarrow> int \<Rightarrow> int
    \<Rightarrow> garbage_collector \<Rightarrow> (segment list \<times> int \<times> int \<times> garbage_collector) \<times> go_panic option" where
  "delete_groups [] old new delta kc gc = ((new, delta, kc, gc), None)"
| "delete_groups ((si, gks) # g) old new delta kc gc =
     (case delete_keys gks (old ! si) delta kc gc of
        ((ns, delta', kc', gc'), Some p) \<Rightarrow> ((new, delta', kc', gc'), Some p)
      | ((ns, delta', kc', gc'), None) \<Rightarrow> delete_groups g old (new[si := ns]) delta' kc' gc')"

definition deleteBatch :: "hasher \<Rightarrow> memory_store \<Rightarrow> gostring list \<Rightarrow> memory_store \<times> go_panic option" where
  "deleteBatch hash s keys =
     (if keys = [] then (s, None)
      else case delete_groups (group_keys hash s keys) (ms_segments s) (ms_segments s) 0
                  (ms_keyCount s) (ms_gc s) of
          ((new, delta, kc, gc), Some p) \<Rightarrow> (s\<lparr>ms_keyCount := kc, ms_gc := gc\<rparr>, Some p)
        | ((new, delta, kc, gc), None) \<Rightarrow>
            (if delta \<noteq> 0
             then (s\<lparr>ms_segments := new, ms_usedBytes := ms_usedBytes s + delta,
                     ms_keyCount := kc, ms_gc := gc\<rparr>, None)
             else (s\<lparr>ms_keyCount := kc, ms_gc := gc\<rparr>, None)))"

definition MemoryStore_Delete :: "hasher \<Rightarrow> memory_store \<Rightarrow> gostring \<Rightarrow> memory_store \<times> go_panic option" where
  "MemoryStore_Delete hash s key = deleteBatch hash s [key]"

definition MemoryStore_Exists :: "hasher \<Rightarrow> memory_store \<Rightarrow> gostring \<Rightarrow> bool" where
  "MemoryStore_Exists hash s key =
     snd (BinarySearch (seg_keys (ms_segments s ! segmentIndexOf hash s key)) key)"

definition MemoryStore_Keys :: "memory_store \<Rightarrow> gostring list" where
  "MemoryStore_Keys s = concat (map seg_keys (ms_segments s))"

definition MemoryStore_Usage :: "memory_store \<Rightarrow> int" where
  "MemoryStore_Usage s = ms_usedBytes s"

definition MemoryStore_Count :: "memory_store \<Rightarrow> int" where
  "MemoryStore_Count s = ms_keyCount s"

definition MemoryStore_StartGC :: "memory_store \<Rightarrow> memory_store" where
  "MemoryStore_StartGC s = s\<lparr>ms_gc := GC_Start (ms_gc s)\<rparr>"

definition MemoryStore_StopGC :: "memory_store \<Rightarrow> memory_store" where
  "MemoryStore_StopGC s = s\<lparr>ms_gc := GC_Stop (ms_gc s)\<rparr>"

text \<open>A flush of the coalescer runs \<open>deleteBatch\<close> on its batch.\<close>

definition MemoryStore_flush :: "hasher \<Rightarrow> memory_store \<Rightarrow> memory_store \<times> go_panic option" where
  "MemoryStore_flush hash s =
     (case GC_flush (ms_gc s) of
        (None, gc) \<Rightarrow> (s\<lparr>ms_gc := gc\<rparr>, None)
      | (Some keys, gc) \<Rightarrow> deleteBatch hash (s\<lparr>ms_gc := gc\<rparr>) keys)"

section \<open>Segments as maps\<close>

definition seg_ok :: "segment \<Rightarrow> bool" where
  "seg_ok seg \<longleftrightarrow> length (seg_keys seg) = length (seg_vals seg) \<and> strictly_sorted (seg_keys seg)"

definition seg_map :: "segment \<Rightarrow> gostring \<rightharpoonup> storage_entry" where
  "seg_map seg = map_of (zip (seg_keys seg) (seg_vals seg))"

definition seg_size :: "segment \<Rightarrow> int" where
  "seg_size seg = sum_list (map (\<lambda>(k, e). sizeOf k e) (zip (seg_keys seg) (seg_vals seg)))"

lemma dom_seg_map: "seg_ok seg \<Longrightarrow> dom (seg_map seg) = set (seg_keys seg)"
  by (simp add: seg_map_def seg_ok_def dom_map_of_zip)

lemma seg_lookup:
  assumes "seg_ok seg" "BinarySearch (seg_keys seg) k = (i, found)"
  shows "found \<longleftrightarrow> seg_map seg k \<noteq> None" "found \<Longrightarrow> seg_map seg k = Some (seg_vals seg ! i)"
    "found \<Longrightarrow> i < length (seg_vals seg) \<and> seg_keys seg ! i = k"
proof -
  have ss: "strictly_sorted (seg_keys seg)" and len: "length (seg_keys seg) = length (seg_vals seg)"
    using assms(1) by (simp_all add: seg_ok_def)
  note c = BinarySearch_correct [OF ss assms(2)]
  show "found \<longleftrightarrow> seg_map seg k \<noteq> None"
    using c(4) dom_seg_map [OF assms(1)] by auto
  show "found \<Longrightarrow> i < length (seg_vals seg) \<and> seg_keys seg ! i = k" using c(5) len by simp
  assume found
  then have "i < length (seg_keys seg)" "seg_keys seg ! i = k" using c(5) by simp_all
  then show "seg_map seg k = Some (seg_vals seg ! i)"
    using len strictly_sorted_distinct [OF ss] unfolding seg_map_def
    by (intro map_of_is_SomeI) (auto simp: in_set_zip)
qed

text \<open>The three ways a segment changes, with their effect on the map and on the byte count.\<close>

lemma seg_update:
  assumes ok: "seg_ok seg" and b: "BinarySearch (seg_keys seg) k = (i, True)"
    and seg': "seg' = seg\<lparr>seg_vals := (seg_vals seg)[i := v]\<rparr>"
  shows "seg_ok seg'" "seg_map seg' = (seg_map seg)(k \<mapsto> v)"
    "seg_size seg' = seg_size seg - sizeOf k (seg_vals seg ! i) + sizeOf k v" "seg_keys seg' = seg_keys seg"
proof -
  have l: "length (seg_keys seg) = length (seg_vals seg)" "strictly_sorted (seg_keys seg)"
    using ok by (simp_all add: seg_ok_def)
  show "seg_ok seg'" "seg_keys seg' = seg_keys seg" using ok by (simp_all add: seg_ok_def seg')
  show "seg_map seg' = (seg_map seg)(k \<mapsto> v)"
    using map_of_parallel_update [OF l b] by (simp add: seg_map_def seg')
  have i: "i < length (seg_keys seg)" "seg_keys seg ! i = k" using BinarySearch_correct(5) [OF l(2) b] by auto
  show "seg_size seg' = seg_size seg - sizeOf k (seg_vals seg ! i) + sizeOf k v"
    using zip_update_at [OF i(1) l(1), of v] arg_cong [OF zip_at [OF i(1) l(1)], of "\<lambda>z. sum_list (map (\<lambda>(k, e). sizeOf k e) z)"] i(2)
    by (simp add: seg_size_def seg')
qed

lemma seg_insert:
  assumes ok: "seg_ok seg" and b: "BinarySearch (seg_keys seg) k = (i, False)"
    and seg': "seg' = \<lparr>seg_keys = insert_at z i k (seg_keys seg), seg_vals = insert_at z' i v (seg_vals seg)\<rparr>"
  shows "seg_ok seg'" "seg_map seg' = (seg_map seg)(k \<mapsto> v)" "seg_size seg' = seg_size seg + sizeOf k v"
    "length (seg_keys seg') = Suc (length (seg_keys seg))" "set (seg_keys seg') = insert k (set (seg_keys seg))"
proof -
  have l: "length (seg_keys seg) = length (seg_vals seg)" "strictly_sorted (seg_keys seg)"
    using ok by (simp_all add: seg_ok_def)
  have i: "i \<le> length (seg_keys seg)" "i \<le> length (seg_vals seg)"
    using BinarySearch_correct(1) [OF l(2) b] l(1) by simp_all
  have eq: "seg_keys seg' = take i (seg_keys seg) @ k # drop i (seg_keys seg)"
    "seg_vals seg' = take i (seg_vals seg) @ v # drop i (seg_vals seg)"
    using i by (simp_all add: seg' insert_at_eq)
  show "seg_ok seg'" using l strictly_sorted_insert [OF l(2) b] by (simp add: seg_ok_def eq)
  show "seg_map seg' = (seg_map seg)(k \<mapsto> v)"
    using map_of_parallel_insert [OF l b, of v] by (simp add: seg_map_def eq)
  show "length (seg_keys seg') = Suc (length (seg_keys seg))" using i by (simp add: eq)
  have "set (take i (seg_keys seg) @ drop i (seg_keys seg)) = set (seg_keys seg)" by simp
  then show "set (seg_keys seg') = insert k (set (seg_keys seg))" unfolding set_append by (simp add: eq)
  let ?f = "\<lambda>(k, e). sizeOf k e" and ?z = "zip (seg_keys seg) (seg_vals seg)"
  have "sum_list (map ?f (take i ?z @ drop i ?z)) = seg_size seg" by (simp add: seg_size_def)
  then show "seg_size seg' = seg_size seg + sizeOf k v"
    unfolding map_append sum_list_append
    by (simp add: seg_size_def eq zip_parallel_insert [OF l(1)])
qed

lemma seg_remove:
  assumes ok: "seg_ok seg" and b: "BinarySearch (seg_keys seg) k = (i, True)"
    and seg': "seg' = \<lparr>seg_keys = remove_at i (seg_keys seg), seg_vals = remove_at i (seg_vals seg)\<rparr>"
  shows "seg_ok seg'" "seg_map seg' = (seg_map seg)(k := None)"
    "seg_size seg' = seg_size seg - sizeOf k (seg_vals seg ! i)"
    "Suc (length (seg_keys seg')) = length (seg_keys seg)"
proof -
  have l: "length (seg_keys seg) = length (seg_vals seg)" "strictly_sorted (seg_keys seg)"
    using ok by (simp_all add: seg_ok_def)
  have i: "i < length (seg_keys seg)" "seg_keys seg ! i = k" using BinarySearch_correct(5) [OF l(2) b] by auto
  show "seg_ok seg'" using l i strictly_sorted_remove [OF l(2)] by (simp add: seg_ok_def seg')
  show "seg_map seg' = (seg_map seg)(k := None)"
    using map_of_parallel_remove [OF l b] by (simp add: seg_map_def seg')
  show "Suc (length (seg_keys seg')) = length (seg_keys seg)" using i by (simp add: seg')
  let ?z = "zip (seg_keys seg) (seg_vals seg)"
  have zz: "zip (seg_keys seg') (seg_vals seg') = take i ?z @ drop (i + 1) ?z"
    using zip_parallel_remove [OF l(1), of i] by (simp add: seg' remove_at_def [of i ?z])
  show "seg_size seg' = seg_size seg - sizeOf k (seg_vals seg ! i)"
    using arg_cong [OF zip_at [OF i(1) l(1)], of "\<lambda>z. sum_list (map (\<lambda>(k, e). sizeOf k e) z)"] i(2)
    unfolding seg_size_def zz by simp
qed

section \<open>The store as a map\<close>

definition segment_of :: "hasher \<Rightarrow> nat \<Rightarrow> gostring \<Rightarrow> nat" where
  "segment_of hash n k = unat (hash k mod word_of_nat n)"

lemma segmentIndexOf_eq [simp]: "segmentIndexOf hash s k = segment_of hash (length (ms_segments s)) k"
  by (simp add: segmentIndexOf_def segment_of_def)

lemma segment_of_less: "0 < n \<Longrightarrow> n < 2 ^ 64 \<Longrightarrow> segment_of hash n k < n"
  by (simp add: segment_of_def unat_mod_distrib unat_of_nat)

definition index_ok :: "hasher \<Rightarrow> segment list \<Rightarrow> bool" where
  "index_ok hash segs \<longleftrightarrow> 0 < length segs \<and> length segs < 2 ^ 64 \<and>
     (\<forall>si < length segs. seg_ok (segs ! si) \<and>
        (\<forall>k \<in> set (seg_keys (segs ! si)). segment_of hash (length segs) k = si))"

definition index_map :: "hasher \<Rightarrow> segment list \<Rightarrow> gostring \<rightharpoonup> storage_entry" where
  "index_map hash segs k = seg_map (segs ! segment_of hash (length segs) k) k"

definition index_size :: "segment list \<Rightarrow> int" where
  "index_size segs = sum_list (map seg_size segs)"

definition index_count :: "segment list \<Rightarrow> int" where
  "index_count segs = sum_list (map (\<lambda>seg. int (length (seg_keys seg))) segs)"

definition store_map :: "hasher \<Rightarrow> memory_store \<Rightarrow> gostring \<rightharpoonup> storage_entry" where
  "store_map hash s = index_map hash (ms_segments s)"

text \<open>The structural invariant, and the agreement of the two counters with the contents.\<close>

definition store_ok :: "hasher \<Rightarrow> memory_store \<Rightarrow> bool" where
  "store_ok hash s \<longleftrightarrow> index_ok hash (ms_segments s) \<and> gc_ok (ms_gc s)"

definition counters_ok :: "memory_store \<Rightarrow> bool" where
  "counters_ok s \<longleftrightarrow> ms_usedBytes s = index_size (ms_segments s) \<and> ms_keyCount s = index_count (ms_segments s)"

lemma index_okD:
  assumes "index_ok hash segs"
  shows "segment_of hash (length segs) k < length segs" "si < length segs \<Longrightarrow> seg_ok (segs ! si)"
    "si < length segs \<Longrightarrow> k \<in> set (seg_keys (segs ! si)) \<Longrightarrow> segment_of hash (length segs) k = si"
  using assms segment_of_less by (auto simp: index_ok_def)

lemma sum_list_update:
  "i < length xs \<Longrightarrow> sum_list (map f (xs[i := y])) = sum_list (map f xs) - f (xs ! i) + (f y :: int)"
proof (induction xs arbitrary: i)
  case (Cons x xs)
  then show ?case by (cases i) simp_all
qed simp

text \<open>Replacing the segment of \<open>k\<close> by one that differs at \<open>k\<close> only.\<close>

lemma index_replace:
  assumes ok: "index_ok hash segs" and si: "si < length segs" and ns: "seg_ok ns"
    and keys: "\<And>k. k \<in> set (seg_keys ns) \<Longrightarrow> segment_of hash (length segs) k = si"
  shows "index_ok hash (segs[si := ns])"
    "index_map hash (segs[si := ns]) = (\<lambda>k. if segment_of hash (length segs) k = si then seg_map ns k else index_map hash segs k)"
    "index_size (segs[si := ns]) = index_size segs - seg_size (segs ! si) + seg_size ns"
    "index_count (segs[si := ns]) = index_count segs - int (length (seg_keys (segs ! si))) + int (length (seg_keys ns))"
  using assms
  by (auto simp: index_ok_def index_map_def index_size_def index_count_def sum_list_update
      nth_list_update fun_eq_iff)

lemma index_replace_key:
  assumes ok: "index_ok hash segs" and si: "si = segment_of hash (length segs) k" and ns: "seg_ok ns"
    and sub: "set (seg_keys ns) \<subseteq> insert k (set (seg_keys (segs ! si)))"
    and m: "seg_map ns = (seg_map (segs ! si))(k := v)"
  shows "index_ok hash (segs[si := ns])" "index_map hash (segs[si := ns]) = (index_map hash segs)(k := v)"
    "index_size (segs[si := ns]) = index_size segs - seg_size (segs ! si) + seg_size ns"
    "index_count (segs[si := ns]) = index_count segs - int (length (seg_keys (segs ! si))) + int (length (seg_keys ns))"
proof -
  have l: "si < length segs" using index_okD(1) [OF ok] by (simp add: si)
  have "segment_of hash (length segs) k' = si" if "k' \<in> set (seg_keys ns)" for k'
    using that sub index_okD(3) [OF ok l] si by auto
  note rep = index_replace [OF ok l ns this]
  show "index_ok hash (segs[si := ns])"
    "index_size (segs[si := ns]) = index_size segs - seg_size (segs ! si) + seg_size ns"
    "index_count (segs[si := ns]) = index_count segs - int (length (seg_keys (segs ! si))) + int (length (seg_keys ns))"
    using rep by simp_all
  have "index_map hash segs k' = seg_map (segs ! si) k'" if "segment_of hash (length segs) k' = si" for k'
    using that by (simp add: index_map_def)
  note at = this
  have sk: "segment_of hash (length segs) k = si" by (simp only: si)
  show "index_map hash (segs[si := ns]) = (index_map hash segs)(k := v)"
  proof
    fix k'
    show "index_map hash (segs[si := ns]) k' = ((index_map hash segs)(k := v)) k'"
      using fun_cong [OF rep(2), of k'] fun_cong [OF m, of k'] sk at [of k']
      by (cases "k' = k"; cases "segment_of hash (length segs) k' = si")
        (simp_all only: fun_upd_apply if_True if_False refl simp_thms)
  qed
qed

section \<open>Set\<close>

lemma MemoryStore_Set_correct:
  assumes ok: "store_ok hash s" and r: "MemoryStore_Set env hash s key val = (s', out)"
  shows "store_ok hash s'" "store_map hash s' = (store_map hash s)(key \<mapsto> stamped env val)"
    "counters_ok s \<Longrightarrow> counters_ok s'" "length (ms_segments s') = length (ms_segments s)"
proof -
  let ?segs = "ms_segments s" and ?v = "stamped env val"
  define si where "si = segment_of hash (length ?segs) key"
  have io: "index_ok hash ?segs" and go: "gc_ok (ms_gc s)" using ok by (simp_all add: store_ok_def)
  have si: "si < length ?segs" unfolding si_def by (rule index_okD(1) [OF io])
  have sok: "seg_ok (?segs ! si)" by (rule index_okD(2) [OF io si])
  obtain i found where b: "BinarySearch (seg_keys (?segs ! si)) key = (i, found)" by fastforce
  define ns where "ns = (if found then (?segs ! si)\<lparr>seg_vals := (seg_vals (?segs ! si))[i := ?v]\<rparr>
     else \<lparr>seg_keys = insert_at [] i key (seg_keys (?segs ! si)), seg_vals = insert_at ?v i ?v (seg_vals (?segs ! si))\<rparr>)"
  have s': "ms_segments s' = ?segs[si := ns]" "gc_ok (ms_gc s')"
      "ms_usedBytes s' = ms_usedBytes s + ((if found then - sizeOf key (seg_vals (?segs ! si) ! i) else 0) + sizeOf key ?v)"
      "ms_keyCount s' = (if found then ms_keyCount s else ms_keyCount s + 1)"
    using r b go by (auto simp: MemoryStore_Set_def Let_def si_def [symmetric] ns_def
        split: sum.splits if_splits intro: GC_Schedule_ok)
  have seg: "seg_ok ns \<and> seg_map ns = (seg_map (?segs ! si))(key \<mapsto> ?v) \<and>
      set (seg_keys ns) \<subseteq> insert key (set (seg_keys (?segs ! si))) \<and>
      seg_size ns = seg_size (?segs ! si) + (if found then - sizeOf key (seg_vals (?segs ! si) ! i) else 0) + sizeOf key ?v \<and>
      length (seg_keys ns) = length (seg_keys (?segs ! si)) + (if found then 0 else 1)"
  proof (cases found)
    case True
    with seg_update [OF sok, of key i ns ?v] b show ?thesis by (simp add: ns_def subset_insertI)
  next
    case False
    with seg_insert [OF sok, of key i ns "[]" ?v ?v] b show ?thesis by (simp add: ns_def)
  qed
  have "index_ok hash (?segs[si := ns]) \<and> index_map hash (?segs[si := ns]) = (index_map hash ?segs)(key \<mapsto> ?v) \<and>
      index_size (?segs[si := ns]) = index_size ?segs - seg_size (?segs ! si) + seg_size ns \<and>
      index_count (?segs[si := ns]) = index_count ?segs - int (length (seg_keys (?segs ! si))) + int (length (seg_keys ns))"
    using seg by (intro conjI index_replace_key [OF io si_def]) auto
  then have rep: "index_ok hash (?segs[si := ns])" "index_map hash (?segs[si := ns]) = (index_map hash ?segs)(key \<mapsto> ?v)"
      "index_size (?segs[si := ns]) = index_size ?segs - seg_size (?segs ! si) + seg_size ns"
      "index_count (?segs[si := ns]) = index_count ?segs - int (length (seg_keys (?segs ! si))) + int (length (seg_keys ns))"
    by blast+
  show "store_ok hash s'" using rep(1) s' by (simp add: store_ok_def)
  show "store_map hash s' = (store_map hash s)(key \<mapsto> ?v)"
    by (simp only: store_map_def s'(1) rep(2))
  show "counters_ok s'" if "counters_ok s"
    using that seg rep(3,4) s' by (simp add: counters_ok_def)
  show "length (ms_segments s') = length ?segs" using s' by simp
qed

text \<open>The panic of \<open>Set\<close> is the collector's.\<close>

lemma MemoryStore_Set_panic:
  "MemoryStore_Set env hash s key val = (s', out) \<Longrightarrow>
    (out = Some p) = (GC_Schedule env (ms_gc s) key (se_TTL val) (se_CreatedAt val) = Inl p)"
  by (auto simp: MemoryStore_Set_def Let_def stamped_def split: sum.splits prod.splits)

section \<open>Get\<close>

lemma write_entry_correct:
  assumes ok: "index_ok hash (ms_segments s)" and si: "si = segment_of hash (length (ms_segments s)) k"
    and b: "BinarySearch (seg_keys (ms_segments s ! si)) k = (i, True)"
  shows "index_ok hash (ms_segments (write_entry s si i e))"
    "index_map hash (ms_segments (write_entry s si i e)) = (index_map hash (ms_segments s))(k \<mapsto> e)"
    "sizeOf k e = sizeOf k (seg_vals (ms_segments s ! si) ! i) \<Longrightarrow>
      index_size (ms_segments (write_entry s si i e)) = index_size (ms_segments s)"
    "index_count (ms_segments (write_entry s si i e)) = index_count (ms_segments s)"
proof -
  let ?segs = "ms_segments s"
  define ns where "ns = (?segs ! si)\<lparr>seg_vals := (seg_vals (?segs ! si))[i := e]\<rparr>"
  have l: "si < length ?segs" using index_okD(1) [OF ok] by (simp add: si)
  have sok: "seg_ok (?segs ! si)" by (rule index_okD(2) [OF ok l])
  note up = seg_update [OF sok b ns_def]
  have "set (seg_keys ns) \<subseteq> insert k (set (seg_keys (?segs ! si)))" using up(4) by auto
  note rep = index_replace_key [OF ok si up(1) this up(2)]
  have w: "ms_segments (write_entry s si i e) = ?segs[si := ns]" by (simp add: write_entry_def ns_def)
  show "index_ok hash (ms_segments (write_entry s si i e))" using rep(1) by (simp add: w)
  show "index_map hash (ms_segments (write_entry s si i e)) = (index_map hash ?segs)(k \<mapsto> e)"
    by (simp only: w rep(2))
  show "index_size (ms_segments (write_entry s si i e)) = index_size ?segs"
    if "sizeOf k e = sizeOf k (seg_vals (?segs ! si) ! i)"
    using up(3) that by (simp add: w rep(3))
  show "index_count (ms_segments (write_entry s si i e)) = index_count ?segs"
    using up(4) by (simp add: w rep(4))
qed

text \<open>What \<open>Get\<close> does, on the map: the entry it returns, and the entry it leaves.\<close>

definition read_entry :: "env \<Rightarrow> storage_entry \<Rightarrow> storage_entry option" where
  "read_entry env e =
     (if IsExpired (env_now env) e then None
      else if se_SingleRead e
      then if se_AccessCount e = 0 then Some (e\<lparr>se_AccessCount := 1\<rparr>) else None
      else Some (e\<lparr>se_AccessCount := i32 (se_AccessCount e + 1), se_LastAccess := env_cached env\<rparr>))"

lemma sizeOf_read_entry: "read_entry env e = Some e' \<Longrightarrow> sizeOf k e' = sizeOf k e"
  by (auto simp: read_entry_def sizeOf_def split: if_splits)

lemma write_entry_gc [simp]:
  "ms_gc (write_entry s si i e) = ms_gc s" "ms_usedBytes (write_entry s si i e) = ms_usedBytes s"
  "ms_keyCount (write_entry s si i e) = ms_keyCount s"
  "length (ms_segments (write_entry s si i e)) = length (ms_segments s)"
  by (simp_all add: write_entry_def)

lemma MemoryStore_Get_correct:
  assumes ok: "store_ok hash s" and r: "MemoryStore_Get env hash s key = (res, s')"
  shows "res = Option.bind (store_map hash s key) (read_entry env)"
    "store_map hash s' = (case res of None \<Rightarrow> store_map hash s | Some e \<Rightarrow> (store_map hash s)(key \<mapsto> e))"
    "store_ok hash s'" "counters_ok s \<Longrightarrow> counters_ok s'"
    "length (ms_segments s') = length (ms_segments s)"
    "ms_gc s' = (case store_map hash s key of None \<Rightarrow> ms_gc s | Some e \<Rightarrow>
       if IsExpired (env_now env) e \<or> se_SingleRead e \<and> se_AccessCount e = 0
       then GC_ScheduleDelete (ms_gc s) key else ms_gc s)"
proof -
  let ?segs = "ms_segments s"
  define si where "si = segment_of hash (length ?segs) key"
  have io: "index_ok hash ?segs" and go: "gc_ok (ms_gc s)" using ok by (simp_all add: store_ok_def)
  have l: "si < length ?segs" unfolding si_def by (rule index_okD(1) [OF io])
  have sok: "seg_ok (?segs ! si)" by (rule index_okD(2) [OF io l])
  obtain i found where b: "BinarySearch (seg_keys (?segs ! si)) key = (i, found)" by fastforce
  note lk = seg_lookup [OF sok b]
  have m: "store_map hash s key = seg_map (?segs ! si) key" by (simp add: store_map_def index_map_def si_def)
  have all: "res = Option.bind (store_map hash s key) (read_entry env) \<and>
    store_map hash s' = (case res of None \<Rightarrow> store_map hash s | Some e \<Rightarrow> (store_map hash s)(key \<mapsto> e)) \<and>
    store_ok hash s' \<and> (counters_ok s \<longrightarrow> counters_ok s') \<and> length (ms_segments s') = length ?segs \<and>
    ms_gc s' = (case store_map hash s key of None \<Rightarrow> ms_gc s | Some e \<Rightarrow>
       if IsExpired (env_now env) e \<or> se_SingleRead e \<and> se_AccessCount e = 0
       then GC_ScheduleDelete (ms_gc s) key else ms_gc s)"
  proof (cases found)
    case False
    then show ?thesis
      using r b lk(1) ok m by (simp add: MemoryStore_Get_def si_def [symmetric])
  next
    case True
    let ?e = "seg_vals (?segs ! si) ! i"
    have bT: "BinarySearch (seg_keys (?segs ! si)) key = (i, True)" using b True by simp
    have me: "store_map hash s key = Some ?e" using lk(2) True m by simp
    note w = write_entry_correct [OF io si_def bT]
    show ?thesis
    proof (cases "read_entry env ?e")
      case None
      then show ?thesis
        using r bT ok me by (auto simp: MemoryStore_Get_def si_def [symmetric] read_entry_def Let_def
            store_ok_def store_map_def counters_ok_def split: if_splits)
    next
      case (Some e')
      have sz: "sizeOf key e' = sizeOf key ?e" by (rule sizeOf_read_entry [OF Some])
      have s': "res = Some e'" "ms_segments s' = ms_segments (write_entry s si i e')"
          "ms_gc s' = (if se_SingleRead ?e then GC_ScheduleDelete (ms_gc s) key else ms_gc s)"
          "ms_usedBytes s' = ms_usedBytes s" "ms_keyCount s' = ms_keyCount s"
        using r bT Some by (auto simp: MemoryStore_Get_def si_def [symmetric] read_entry_def Let_def split: if_splits)
      have nx: "\<not> IsExpired (env_now env) ?e" "se_SingleRead ?e \<Longrightarrow> se_AccessCount ?e = 0"
        using Some by (auto simp: read_entry_def split: if_splits)
      show ?thesis
        using s' me Some w(1,2) w(3) [OF sz] w(4) nx go
        by (auto simp: store_ok_def store_map_def counters_ok_def)
    qed
  qed
  show "res = Option.bind (store_map hash s key) (read_entry env)" using all by blast
  show "store_map hash s' = (case res of None \<Rightarrow> store_map hash s | Some e \<Rightarrow> (store_map hash s)(key \<mapsto> e))"
    using all by blast
  show "store_ok hash s'" "counters_ok s \<Longrightarrow> counters_ok s'" "length (ms_segments s') = length (ms_segments s)"
    using all by blast+
  show "ms_gc s' = (case store_map hash s key of None \<Rightarrow> ms_gc s | Some e \<Rightarrow>
       if IsExpired (env_now env) e \<or> se_SingleRead e \<and> se_AccessCount e = 0
       then GC_ScheduleDelete (ms_gc s) key else ms_gc s)" using all by blast
qed

section \<open>Deletion\<close>

text \<open>The loop over the keys of one segment. \<open>sizes_pos\<close> says that deleting any of the keys shows
  in the byte count.\<close>

definition sizes_pos :: "(gostring \<rightharpoonup> storage_entry) \<Rightarrow> gostring set \<Rightarrow> bool" where
  "sizes_pos m K \<longleftrightarrow> (\<forall>k \<in> K. \<forall>e. m k = Some e \<longrightarrow> 0 < sizeOf k e)"

lemma delete_keys_correct:
  assumes "seg_ok ns" "gc_ok gc" "delete_keys ks ns d kc gc = ((ns', d', kc', gc'), out)"
  shows "seg_ok ns' \<and> gc_ok gc' \<and> d' = d + seg_size ns' - seg_size ns \<and>
    kc' = kc + int (length (seg_keys ns')) - int (length (seg_keys ns)) \<and>
    (out = None \<longrightarrow> seg_map ns' = (seg_map ns) |` (- set ks)) \<and> d' \<le> d \<and>
    (sizes_pos (seg_map ns) (set ks) \<longrightarrow> d' = d \<longrightarrow> ns' = ns)"
  using assms
proof (induction ks arbitrary: ns d kc gc)
  case Nil
  then show ?case by (simp add: restrict_map_def)
next
  case (Cons k ks)
  obtain i found where b: "BinarySearch (seg_keys ns) k = (i, found)" by fastforce
  note lk = seg_lookup [OF Cons.prems(1) b]
  show ?case
  proof (cases found)
    case False
    have mk: "seg_map ns k = None" using lk(1) False by simp
    have r: "delete_keys ks ns d kc gc = ((ns', d', kc', gc'), out)" using Cons.prems(3) b False by simp
    have restr: "(seg_map ns) |` (- set ks) = (seg_map ns) |` (- set (k # ks))"
      using mk by (auto simp: restrict_map_def fun_eq_iff)
    have sp: "sizes_pos (seg_map ns) (set (k # ks)) \<Longrightarrow> sizes_pos (seg_map ns) (set ks)"
      by (simp add: sizes_pos_def)
    show ?thesis using Cons.IH [OF Cons.prems(1,2) r] sp unfolding restr by blast
  next
    case True
    let ?ent = "seg_vals ns ! i"
    define ns1 where "ns1 = \<lparr>seg_keys = remove_at i (seg_keys ns), seg_vals = remove_at i (seg_vals ns)\<rparr>"
    have bT: "BinarySearch (seg_keys ns) k = (i, True)" using b True by simp
    note rm = seg_remove [OF Cons.prems(1) bT ns1_def]
    have mk: "seg_map ns k = Some ?ent" using lk(2) True by simp
    have less: "d - sizeOf k ?ent < d" if "sizes_pos (seg_map ns) (set (k # ks))"
      using that mk by (simp add: sizes_pos_def)
    show ?thesis
    proof (cases "GC_Cancel gc k")
      case (Inl p)
      then have eq: "ns' = ns1" "d' = d - sizeOf k ?ent" "kc' = kc - 1" "gc' = gc" "out = Some p"
        using Cons.prems(3) bT by (auto simp: ns1_def)
      have kc: "kc - 1 = kc + int (length (seg_keys ns1)) - int (length (seg_keys ns))" using rm(4) by linarith
      show ?thesis
        unfolding eq using rm(1,3) less sizeOf_nonneg [of k ?ent] Cons.prems(2) kc by (intro conjI impI) simp_all
    next
      case (Inr gc1)
      have r: "delete_keys ks ns1 (d - sizeOf k ?ent) (kc - 1) gc1 = ((ns', d', kc', gc'), out)"
        using Cons.prems(3) bT Inr by (simp add: ns1_def)
      have g1: "gc_ok gc1" by (rule GC_Cancel_ok [OF Cons.prems(2) Inr])
      have restr: "(seg_map ns1) |` (- set ks) = (seg_map ns) |` (- set (k # ks))"
        unfolding rm(2) by (auto simp: restrict_map_def fun_eq_iff)
      note ih = Cons.IH [OF rm(1) g1 r, unfolded restr]
      have kc: "kc' = kc + int (length (seg_keys ns')) - int (length (seg_keys ns))" using ih rm(4) by linarith
      have d: "d' = d + seg_size ns' - seg_size ns" using ih rm(3) by linarith
      have le: "d' \<le> d - sizeOf k ?ent" using ih by blast
      have ne: "sizes_pos (seg_map ns) (set (k # ks)) \<Longrightarrow> d' \<noteq> d" using le less by linarith
      show ?thesis using ih kc d ne le sizeOf_nonneg [of k ?ent]
        by (intro conjI) (blast | linarith)+
    qed
  qed
qed

text \<open>Grouping by segment keeps every key, in the group of its segment.\<close>

lemma group_add_facts:
  "fst ` set (group_add si k g) = insert si (fst ` set g)"
  "distinct (map fst g) \<Longrightarrow> distinct (map fst (group_add si k g))"
  "(\<Union>x \<in> set (group_add si k g). set (snd x)) = insert k (\<Union>x \<in> set g. set (snd x))"
  "(sj, ks) \<in> set (group_add si k g) \<Longrightarrow> k' \<in> set ks \<Longrightarrow>
    (sj = si \<and> k' = k) \<or> (\<exists>ks'. (sj, ks') \<in> set g \<and> k' \<in> set ks')"
proof (induction g)
  case (Cons x g)
  obtain sj ks' where x: "x = (sj, ks')" by fastforce
  { case 1 then show ?case using Cons(1) by (auto simp: x) }
  { case 2
    have "fst ` set (group_add si k g) = insert si (fst ` set g)" by (rule Cons(1))
    then show ?case using 2 Cons(2) by (auto simp: x) }
  { case 3 then show ?case using Cons(3) by (auto simp: x) }
  { case 4 then show ?case using Cons(4) by (auto simp: x split: if_splits) }
qed auto

lemma group_keys_facts:
  "distinct (map fst (group_keys hash s keys)) \<and>
   (\<Union>x \<in> set (group_keys hash s keys). set (snd x)) = set keys \<and>
   (\<forall>(si, ks) \<in> set (group_keys hash s keys). \<forall>k \<in> set ks. segmentIndexOf hash s k = si) \<and>
   fst ` set (group_keys hash s keys) = segmentIndexOf hash s ` set keys"
proof (induction keys rule: rev_induct)
  case Nil
  then show ?case by (simp add: group_keys_def)
next
  case (snoc k keys)
  let ?g = "group_keys hash s keys" and ?si = "segmentIndexOf hash s k"
  have g: "group_keys hash s (keys @ [k]) = group_add ?si k ?g" by (simp add: group_keys_def)
  show ?case unfolding g
    using snoc by (simp add: group_add_facts(1,2,3)) (fastforce dest: group_add_facts(4))
qed

lemma restrict_replace:
  assumes "index_ok hash segs" "si < length segs" "seg_ok ns" "seg_map ns = (seg_map (segs ! si)) |` (- K)"
    and K: "\<And>k. k \<in> K \<Longrightarrow> segment_of hash (length segs) k = si"
  shows "index_ok hash (segs[si := ns])" "index_map hash (segs[si := ns]) = (index_map hash segs) |` (- K)"
    "index_size (segs[si := ns]) = index_size segs - seg_size (segs ! si) + seg_size ns"
    "index_count (segs[si := ns]) = index_count segs - int (length (seg_keys (segs ! si))) + int (length (seg_keys ns))"
proof -
  have so: "seg_ok (segs ! si)" by (rule index_okD(2) [OF assms(1,2)])
  have "dom (seg_map ns) \<subseteq> dom (seg_map (segs ! si))" unfolding assms(4) by (simp add: dom_restrict)
  then have "set (seg_keys ns) \<subseteq> set (seg_keys (segs ! si))"
    using dom_seg_map [OF so] dom_seg_map [OF assms(3)] by simp
  then have "segment_of hash (length segs) k = si" if "k \<in> set (seg_keys ns)" for k
    using that index_okD(3) [OF assms(1,2)] by blast
  note rep = index_replace [OF assms(1-3) this]
  show "index_ok hash (segs[si := ns])"
    "index_size (segs[si := ns]) = index_size segs - seg_size (segs ! si) + seg_size ns"
    "index_count (segs[si := ns]) = index_count segs - int (length (seg_keys (segs ! si))) + int (length (seg_keys ns))"
    using rep by simp_all
  show "index_map hash (segs[si := ns]) = (index_map hash segs) |` (- K)"
  proof
    fix k
    show "index_map hash (segs[si := ns]) k = ((index_map hash segs) |` (- K)) k"
      using fun_cong [OF rep(2), of k] fun_cong [OF assms(4), of k] K [of k]
      by (cases "segment_of hash (length segs) k = si") (auto simp: restrict_map_def index_map_def)
  qed
qed

lemma delete_groups_correct:
  assumes "index_ok hash new" "gc_ok gc" "length old = length new"
    "distinct (map fst g)" "\<forall>(si, ks) \<in> set g. si < length new \<and> new ! si = old ! si \<and>
      (\<forall>k \<in> set ks. segment_of hash (length new) k = si)"
    "delete_groups g old new d kc gc = ((new', d', kc', gc'), out)"
  shows "gc_ok gc' \<and> (out = None \<longrightarrow>
     index_ok hash new' \<and> index_map hash new' = (index_map hash new) |` (- (\<Union>x \<in> set g. set (snd x))) \<and>
     d' = d + index_size new' - index_size new \<and> kc' = kc + index_count new' - index_count new \<and>
     length new' = length new \<and> d' \<le> d \<and>
     (sizes_pos (index_map hash new) (\<Union>x \<in> set g. set (snd x)) \<longrightarrow> d' = d \<longrightarrow> new' = new))"
  using assms
proof (induction g arbitrary: new d kc gc)
  case Nil
  then show ?case by (simp add: restrict_map_def)
next
  case (Cons x g)
  obtain si ks where x: "x = (si, ks)" by fastforce
  have si: "si < length new" "new ! si = old ! si"
    and K: "\<And>k. k \<in> set ks \<Longrightarrow> segment_of hash (length new) k = si"
    using Cons.prems(5) by (auto simp: x)
  have so: "seg_ok (old ! si)" using index_okD(2) [OF Cons.prems(1) si(1)] si(2) by simp
  obtain ns d1 kc1 gc1 o1 where r1: "delete_keys ks (old ! si) d kc gc = ((ns, d1, kc1, gc1), o1)"
    by (metis surj_pair)
  note dk = delete_keys_correct [OF so Cons.prems(2) r1]
  show ?case
  proof (cases o1)
    case (Some p)
    then show ?thesis using Cons.prems(6) r1 dk by (auto simp: x)
  next
    case None
    let ?new1 = "new[si := ns]" and ?K = "\<Union>x \<in> set g. set (snd x)"
    have r: "delete_groups g old ?new1 d1 kc1 gc1 = ((new', d', kc', gc'), out)"
      using Cons.prems(6) r1 None by (simp add: x)
    have m: "seg_map ns = (seg_map (new ! si)) |` (- set ks)" using dk None si(2) by simp
    have nso: "seg_ok ns" and g1: "gc_ok gc1" using dk by blast+
    note rep = restrict_replace [OF Cons.prems(1) si(1) nso m K]
    have P: "\<forall>(sj, ks) \<in> set g. sj < length ?new1 \<and> ?new1 ! sj = old ! sj \<and>
        (\<forall>k \<in> set ks. segment_of hash (length ?new1) k = sj)"
    proof (intro ballI, clarify)
      fix sj ks' assume m: "(sj, ks') \<in> set g"
      then have "sj \<noteq> si" using Cons.prems(4) by (force simp: x)
      then show "sj < length ?new1 \<and> ?new1 ! sj = old ! sj \<and> (\<forall>k \<in> set ks'. segment_of hash (length ?new1) k = sj)"
        using bspec [OF Cons.prems(5), of "(sj, ks')"] m by (simp add: x)
    qed
    have ih: "gc_ok gc' \<and> (out = None \<longrightarrow>
       index_ok hash new' \<and> index_map hash new' = (index_map hash ?new1) |` (- ?K) \<and>
       d' = d1 + index_size new' - index_size ?new1 \<and> kc' = kc1 + index_count new' - index_count ?new1 \<and>
       length new' = length ?new1 \<and> d' \<le> d1 \<and>
       (sizes_pos (index_map hash ?new1) ?K \<longrightarrow> d' = d1 \<longrightarrow> new' = ?new1))"
      by (rule Cons.IH [OF rep(1) g1 _ _ P r]) (use Cons.prems(3,4) in simp_all)
    have restr: "((index_map hash new) |` (- set ks)) |` (- ?K) = (index_map hash new) |` (- (\<Union>x \<in> set (x # g). set (snd x)))"
      by (auto simp: x restrict_map_def fun_eq_iff)
    have same: "new' = new" if "out = None" "sizes_pos (index_map hash new) (\<Union>x \<in> set (x # g). set (snd x))" "d' = d"
    proof -
      have "sizes_pos (seg_map (old ! si)) (set ks)"
        using that(2) K si(2) by (auto simp: sizes_pos_def index_map_def x)
      moreover have d: "d' = d1" "d1 = d" using that(1,3) ih dk by auto
      ultimately have "ns = old ! si" using dk by blast
      then have nn: "?new1 = new" using si(2) by (metis list_update_id)
      have "sizes_pos (index_map hash ?new1) ?K" using that(2) unfolding nn by (simp add: sizes_pos_def x)
      then show ?thesis using ih that(1) d(1) nn by simp
    qed
    have d: "d' = d + index_size new' - index_size new" "kc' = kc + index_count new' - index_count new" "d' \<le> d" if "out = None"
      using ih dk rep(3,4) si(2) that by simp_all
    have mm: "index_map hash new' = (index_map hash new) |` (- (\<Union>x \<in> set (x # g). set (snd x)))" if "out = None"
      using ih that restr rep(2) by simp
    show ?thesis using ih d mm same by simp
  qed
qed

lemma deleteBatch_groups:
  assumes ok: "store_ok hash s"
    and dg: "delete_groups (group_keys hash s keys) (ms_segments s) (ms_segments s) 0 (ms_keyCount s) (ms_gc s) = ((new, d, kc, gc), o1)"
  shows "gc_ok gc \<and> (o1 = None \<longrightarrow>
     index_ok hash new \<and> index_map hash new = (index_map hash (ms_segments s)) |` (- set keys) \<and>
     d = index_size new - index_size (ms_segments s) \<and> kc = ms_keyCount s + index_count new - index_count (ms_segments s) \<and>
     length new = length (ms_segments s) \<and> (sizes_pos (index_map hash (ms_segments s)) (set keys) \<longrightarrow> d = 0 \<longrightarrow> new = ms_segments s))"
proof -
  let ?segs = "ms_segments s" and ?g = "group_keys hash s keys"
  have io: "index_ok hash ?segs" and go: "gc_ok (ms_gc s)" using ok by (simp_all add: store_ok_def)
  note gf = group_keys_facts [of hash s keys]
  have P: "\<forall>(si, ks) \<in> set ?g. si < length ?segs \<and> ?segs ! si = ?segs ! si \<and>
      (\<forall>k \<in> set ks. segment_of hash (length ?segs) k = si)"
  proof -
    have "si < length ?segs" if "(si, ks) \<in> set ?g" for si ks
    proof -
      have "si \<in> fst ` set ?g" using that by force
      then show ?thesis using gf index_okD(1) [OF io] by auto
    qed
    then show ?thesis using gf by fastforce
  qed
  note c = delete_groups_correct [OF io go refl _ P dg, unfolded gf [THEN conjunct2, THEN conjunct1]]
  then show ?thesis using gf by simp
qed

text \<open>\<open>deleteBatch\<close> without a panic removes exactly the keys of the batch, provided each of them
  contributes to the byte count.\<close>

lemma deleteBatch_correct:
  assumes ok: "store_ok hash s" and r: "deleteBatch hash s keys = (s', out)"
  shows "out = None \<Longrightarrow> store_ok hash s'"
    "out = None \<Longrightarrow> sizes_pos (store_map hash s) (set keys) \<Longrightarrow> store_map hash s' = (store_map hash s) |` (- set keys)"
    "out = None \<Longrightarrow> sizes_pos (store_map hash s) (set keys) \<Longrightarrow> counters_ok s \<Longrightarrow> counters_ok s'"
    "gc_ok (ms_gc s')" "length (ms_segments s') = length (ms_segments s)"
proof -
  let ?segs = "ms_segments s" and ?g = "group_keys hash s keys"
  have io: "index_ok hash ?segs" and go: "gc_ok (ms_gc s)" using ok by (simp_all add: store_ok_def)
  obtain new d kc gc o1 where dg: "delete_groups ?g ?segs ?segs 0 (ms_keyCount s) (ms_gc s) = ((new, d, kc, gc), o1)"
    by (metis surj_pair)
  note c = deleteBatch_groups [OF ok dg]
  have all: "(out = None \<longrightarrow> store_ok hash s') \<and> gc_ok (ms_gc s') \<and> length (ms_segments s') = length ?segs \<and>
    (out = None \<longrightarrow> sizes_pos (store_map hash s) (set keys) \<longrightarrow> store_map hash s' = (store_map hash s) |` (- set keys) \<and>
       (counters_ok s \<longrightarrow> counters_ok s'))"
  proof (cases "keys = []")
    case True
    then show ?thesis using r ok go by (auto simp: deleteBatch_def restrict_map_def)
  next
    case False
    show ?thesis
    proof (cases o1)
      case (Some p)
      then have "s' = s\<lparr>ms_keyCount := kc, ms_gc := gc\<rparr>" "out = Some p"
        using r dg False by (simp_all add: deleteBatch_def)
      then show ?thesis using c by simp
    next
      case None
      then have s': "ms_segments s' = (if d = 0 then ?segs else new)" "ms_gc s' = gc" "ms_keyCount s' = kc"
          "ms_usedBytes s' = ms_usedBytes s + d"
        using r dg False by (auto simp: deleteBatch_def split: if_splits)
      have seg: "ms_segments s' = new" if "sizes_pos (store_map hash s) (set keys)"
        using that c None s'(1) by (simp add: store_map_def)
      have "store_ok hash s'" using c io None s'(1,2) by (simp add: store_ok_def)
      moreover have "length (ms_segments s') = length ?segs" using c None s'(1) by simp
      moreover have "store_map hash s' = (store_map hash s) |` (- set keys)" if "sizes_pos (store_map hash s) (set keys)"
        using seg [OF that] c None unfolding store_map_def by simp
      moreover have "counters_ok s'" if "sizes_pos (store_map hash s) (set keys)" "counters_ok s"
        using seg [OF that(1)] that(2) c None s'(3,4) by (simp add: counters_ok_def)
      ultimately show ?thesis using c s'(2) by simp
    qed
  qed
  show "out = None \<Longrightarrow> store_ok hash s'" "gc_ok (ms_gc s')" "length (ms_segments s') = length ?segs"
    "out = None \<Longrightarrow> sizes_pos (store_map hash s) (set keys) \<Longrightarrow> store_map hash s' = (store_map hash s) |` (- set keys)"
    "out = None \<Longrightarrow> sizes_pos (store_map hash s) (set keys) \<Longrightarrow> counters_ok s \<Longrightarrow> counters_ok s'"
    using all by blast+
qed

text \<open>Whatever the batch, also when it panics on the way, the index stays well-formed and is the old one
  or the old one without the keys.\<close>

lemma deleteBatch_any:
  assumes ok: "store_ok hash s" and r: "deleteBatch hash s keys = (s', out)"
  shows "store_ok hash s' \<and> (store_map hash s' = store_map hash s \<or>
    out = None \<and> store_map hash s' = (store_map hash s) |` (- set keys)) \<and> (out \<noteq> None \<longrightarrow> store_map hash s' = store_map hash s)"
proof (cases out)
  case (Some p)
  then have "ms_segments s' = ms_segments s"
    using r by (auto simp: deleteBatch_def split: if_splits prod.splits option.splits)
  then show ?thesis using deleteBatch_correct(4) [OF ok r] ok by (simp add: store_ok_def store_map_def)
next
  case None
  have "ms_segments s' = ms_segments s \<or> store_map hash s' = (store_map hash s) |` (- set keys)"
  proof (rule disjCI)
    assume other: "store_map hash s' \<noteq> (store_map hash s) |` (- set keys)"
    let ?segs = "ms_segments s" and ?g = "group_keys hash s keys"
    obtain new d kc gc o1 where dg: "delete_groups ?g ?segs ?segs 0 (ms_keyCount s) (ms_gc s) = ((new, d, kc, gc), o1)"
      by (metis surj_pair)
    then have "ms_segments s' = ?segs \<or> o1 = None \<and> ms_segments s' = new"
      using r by (auto simp: deleteBatch_def split: if_splits option.splits)
    moreover have "index_map hash new = (index_map hash ?segs) |` (- set keys)" if "o1 = None"
      using deleteBatch_groups [OF ok dg] that by blast
    ultimately show "ms_segments s' = ?segs" using other by (auto simp: store_map_def)
  qed
  then show ?thesis using deleteBatch_correct(1) [OF ok r None] None by (auto simp: store_map_def)
qed

section \<open>Construction, listing and counters\<close>

lemma NewMemoryStore_ok [simp]:
  "store_ok hash (NewMemoryStore now)" "counters_ok (NewMemoryStore now)"
  "store_map hash (NewMemoryStore now) = Map.empty" "length (ms_segments (NewMemoryStore now)) = 64"
proof -
  have seg: "seg_ok \<lparr>seg_keys = [], seg_vals = []\<rparr>" by (simp add: seg_ok_def)
  have io: "index_ok hash (replicate 64 \<lparr>seg_keys = [], seg_vals = []\<rparr>)"
    by (simp add: index_ok_def seg nth_replicate)
  then show "store_ok hash (NewMemoryStore now)" by (simp add: store_ok_def NewMemoryStore_def)
  show "counters_ok (NewMemoryStore now)"
    by (simp add: counters_ok_def NewMemoryStore_def index_size_def index_count_def map_replicate sum_list_replicate seg_size_def)
  have "segment_of hash 64 k < 64" for k by (rule segment_of_less) simp_all
  then show "store_map hash (NewMemoryStore now) = Map.empty"
    by (simp add: store_map_def NewMemoryStore_def index_map_def nth_replicate seg_map_def fun_eq_iff)
  show "length (ms_segments (NewMemoryStore now)) = 64" by (simp add: NewMemoryStore_def)
qed

lemma index_keys:
  assumes ok: "index_ok hash segs"
  shows "set (concat (map seg_keys segs)) = dom (index_map hash segs)" "distinct (concat (map seg_keys segs))"
proof -
  have d: "dom (seg_map (segs ! i)) = set (seg_keys (segs ! i))" if "i < length segs" for i
    by (rule dom_seg_map [OF index_okD(2) [OF ok that]])
  have mem: "k \<in> dom (index_map hash segs) \<longleftrightarrow> (\<exists>i < length segs. k \<in> set (seg_keys (segs ! i)))" for k
    using index_okD(1) [OF ok] index_okD(3) [OF ok] d
    by (metis (no_types, lifting) domIff index_map_def)
  show "set (concat (map seg_keys segs)) = dom (index_map hash segs)"
  proof (intro set_eqI)
    fix k
    show "k \<in> set (concat (map seg_keys segs)) \<longleftrightarrow> k \<in> dom (index_map hash segs)"
      unfolding mem by (simp only: set_concat set_map UN_iff bex_simps) (metis in_set_conv_nth)
  qed
  have s: "distinct (seg_keys (segs ! i))" if "i < length segs" for i
    using index_okD(2) [OF ok that] strictly_sorted_distinct by (auto simp: seg_ok_def)
  show "distinct (concat (map seg_keys segs))"
    by (rule distinct_concat_classes [where off = 0 and f = "segment_of hash (length segs)"])
      (use s index_okD(3) [OF ok] in simp_all)
qed

lemma MemoryStore_Keys_correct:
  assumes "store_ok hash s"
  shows "set (MemoryStore_Keys s) = dom (store_map hash s)" "distinct (MemoryStore_Keys s)"
  using index_keys [of hash "ms_segments s"] assms
  by (simp_all add: store_ok_def store_map_def MemoryStore_Keys_def)

lemma MemoryStore_Exists_correct:
  assumes "store_ok hash s"
  shows "MemoryStore_Exists hash s key \<longleftrightarrow> store_map hash s key \<noteq> None"
proof -
  let ?seg = "ms_segments s ! segment_of hash (length (ms_segments s)) key"
  have io: "index_ok hash (ms_segments s)" using assms by (simp add: store_ok_def)
  obtain i found where b: "BinarySearch (seg_keys ?seg) key = (i, found)" by fastforce
  show ?thesis
    using seg_lookup(1) [OF index_okD(2) [OF io index_okD(1) [OF io]] b] b
    by (simp add: MemoryStore_Exists_def store_map_def index_map_def)
qed

lemma index_count_card:
  assumes "index_ok hash segs"
  shows "index_count segs = int (card (dom (index_map hash segs)))"
proof -
  have "sum_list (map (\<lambda>seg. int (length (seg_keys seg))) xs) = int (length (concat (map seg_keys xs)))" for xs
    by (induction xs) simp_all
  then have "index_count segs = int (length (concat (map seg_keys segs)))" by (simp only: index_count_def)
  also have "\<dots> = int (card (set (concat (map seg_keys segs))))"
    using index_keys(2) [OF assms] by (simp only: distinct_card)
  finally show ?thesis using index_keys(1) [OF assms] by simp
qed

lemma index_size_sum:
  assumes ok: "index_ok hash segs"
  shows "index_size segs = (\<Sum>k \<in> dom (index_map hash segs). sizeOf k (the (index_map hash segs k)))"
proof -
  let ?f = "\<lambda>k. sizeOf k (the (index_map hash segs k))"
  have "seg_size (segs ! i) = sum_list (map ?f (seg_keys (segs ! i)))" if i: "i < length segs" for i
  proof -
    let ?seg = "segs ! i"
    have so: "length (seg_keys ?seg) = length (seg_vals ?seg)" "distinct (seg_keys ?seg)"
      using index_okD(2) [OF ok i] strictly_sorted_distinct by (auto simp: seg_ok_def)
    have "index_map hash segs k = Some e" if "(k, e) \<in> set (zip (seg_keys ?seg) (seg_vals ?seg))" for k e
    proof -
      have "segment_of hash (length segs) k = i"
        using that by (intro index_okD(3) [OF ok i]) (auto dest: set_zip_leftD)
      then show ?thesis using that so by (simp add: index_map_def seg_map_def)
    qed
    then have "map (\<lambda>(k, e). sizeOf k e) (zip (seg_keys ?seg) (seg_vals ?seg)) =
        map (\<lambda>x. ?f (fst x)) (zip (seg_keys ?seg) (seg_vals ?seg))"
      by (intro map_cong) auto
    also have "\<dots> = map ?f (seg_keys ?seg)"
      using arg_cong [OF map_fst_zip [OF so(1)], of "map ?f"] by (simp only: map_map comp_def)
    finally show ?thesis by (simp add: seg_size_def)
  qed
  then have "map seg_size segs = map (\<lambda>seg. sum_list (map ?f (seg_keys seg))) segs"
    by (intro nth_equalityI) simp_all
  then have "index_size segs = sum_list (map ?f (concat (map seg_keys segs)))"
  proof -
    have "sum_list (map (\<lambda>seg. sum_list (map ?f (seg_keys seg))) xs) = sum_list (map ?f (concat (map seg_keys xs)))" for xs
      by (induction xs) simp_all
    moreover assume "map seg_size segs = map (\<lambda>seg. sum_list (map ?f (seg_keys seg))) segs"
    ultimately show ?thesis by (simp only: index_size_def)
  qed
  also have "\<dots> = sum ?f (set (concat (map seg_keys segs)))"
    by (rule sum_list_distinct_conv_sum_set [OF index_keys(2) [OF ok]])
  finally show ?thesis by (simp only: index_keys(1) [OF ok])
qed

lemma MemoryStore_counters:
  assumes "store_ok hash s" "counters_ok s"
  shows "MemoryStore_Count s = int (card (dom (store_map hash s)))"
    "MemoryStore_Usage s = (\<Sum>k \<in> dom (store_map hash s). sizeOf k (the (store_map hash s k)))"
  using assms index_count_card index_size_sum
  by (simp_all add: MemoryStore_Count_def MemoryStore_Usage_def store_ok_def counters_ok_def store_map_def)

lemma MemoryStore_StartStopGC [simp]:
  "store_map hash (MemoryStore_StartGC s) = store_map hash s" "store_map hash (MemoryStore_StopGC s) = store_map hash s"
  "counters_ok (MemoryStore_StartGC s) = counters_ok s" "counters_ok (MemoryStore_StopGC s) = counters_ok s"
  "store_ok hash s \<Longrightarrow> store_ok hash (MemoryStore_StartGC s)" "store_ok hash s \<Longrightarrow> store_ok hash (MemoryStore_StopGC s)"
  by (simp_all add: MemoryStore_StartGC_def MemoryStore_StopGC_def store_map_def counters_ok_def store_ok_def)

text \<open>A flush deletes exactly the keys that were pending.\<close>

lemma MemoryStore_flush_correct:
  assumes ok: "store_ok hash s" and r: "MemoryStore_flush hash s = (s', None)"
    and pos: "sizes_pos (store_map hash s) (gc_pending (ms_gc s))"
  shows "store_ok hash s'" "store_map hash s' = (store_map hash s) |` (- gc_pending (ms_gc s))"
    "counters_ok s \<Longrightarrow> counters_ok s'"
proof -
  obtain b gc where f: "GC_flush (ms_gc s) = (b, gc)" by fastforce
  have gok: "gc_ok gc" using GC_flush_ok [OF _ f] ok by (simp add: store_ok_def)
  have sok: "store_ok hash (s\<lparr>ms_gc := gc\<rparr>)" using ok gok by (simp add: store_ok_def)
  have same: "store_map hash (s\<lparr>ms_gc := gc\<rparr>) = store_map hash s" "counters_ok (s\<lparr>ms_gc := gc\<rparr>) = counters_ok s"
    by (simp_all add: store_map_def counters_ok_def)
  have "store_ok hash s' \<and> store_map hash s' = (store_map hash s) |` (- gc_pending (ms_gc s)) \<and>
    (counters_ok s \<longrightarrow> counters_ok s')"
  proof (cases b)
    case None
    then have "gc_pending (ms_gc s) = {}" "s' = s\<lparr>ms_gc := gc\<rparr>"
      using f r by (auto simp: MemoryStore_flush_def GC_flush_def DeleteCoalescer_flush_def split: if_splits)
    then show ?thesis using sok same by (simp add: restrict_map_def)
  next
    case (Some ks)
    have ks: "set ks = gc_pending (ms_gc s)" using GC_flush_keys(2) [OF f Some] .
    have d: "deleteBatch hash (s\<lparr>ms_gc := gc\<rparr>) ks = (s', None)" using r f Some by (simp add: MemoryStore_flush_def)
    show ?thesis
      using deleteBatch_correct(1-3) [OF sok d refl] pos unfolding same ks by blast
  qed
  then show "store_ok hash s'" "store_map hash s' = (store_map hash s) |` (- gc_pending (ms_gc s))"
    "counters_ok s \<Longrightarrow> counters_ok s'" by blast+
qed

text \<open>The empty key with an empty value contributes no byte: deleting it leaves it in place and
  takes one off the key counter.\<close>

lemma delete_empty_key:
  assumes ok: "store_ok hash s" and e: "store_map hash s [] = Some e" "sizeOf [] e = 0"
    and c: "GC_Cancel (ms_gc s) [] = Inr gc"
  shows "MemoryStore_Delete hash s [] = (s\<lparr>ms_keyCount := ms_keyCount s - 1, ms_gc := gc\<rparr>, None)"
proof -
  let ?si = "segment_of hash (length (ms_segments s)) []"
  have io: "index_ok hash (ms_segments s)" using ok by (simp add: store_ok_def)
  have so: "seg_ok (ms_segments s ! ?si)" by (rule index_okD(2) [OF io index_okD(1) [OF io]])
  obtain i found where b: "BinarySearch (seg_keys (ms_segments s ! ?si)) [] = (i, found)" by fastforce
  have m: "seg_map (ms_segments s ! ?si) [] = Some e" using e(1) by (simp add: store_map_def index_map_def)
  have found: "found" using seg_lookup(1) [OF so b] m by simp
  then have "seg_vals (ms_segments s ! ?si) ! i = e" using seg_lookup(2) [OF so b] m by simp
  then show ?thesis
    using b found e(2) c by (simp add: MemoryStore_Delete_def deleteBatch_def group_keys_def Let_def)
qed

text \<open>A delete that meets a stale position in the collector ends in the collector's panic.\<close>

lemma GC_frame_store [simp]:
  "store_map hash (s\<lparr>ms_gc := gc\<rparr>) = store_map hash s" "counters_ok (s\<lparr>ms_gc := gc\<rparr>) = counters_ok s"
  "store_ok hash s \<Longrightarrow> gc_ok gc \<Longrightarrow> store_ok hash (s\<lparr>ms_gc := gc\<rparr>)"
  by (simp_all add: store_map_def counters_ok_def store_ok_def)

lemma store_ok_gc: "store_ok hash s \<Longrightarrow> gc_ok (ms_gc s)"
  by (simp add: store_ok_def)

lemma MemoryStore_Delete_gc:
  assumes ok: "store_ok hash s" and m: "store_map hash s k \<noteq> None"
  shows "GC_Cancel (ms_gc s) k = Inl p \<Longrightarrow> snd (MemoryStore_Delete hash s k) = Some p"
    "GC_Cancel (ms_gc s) k = Inr gc \<Longrightarrow> snd (MemoryStore_Delete hash s k) = None \<and> ms_gc (fst (MemoryStore_Delete hash s k)) = gc"
proof -
  let ?si = "segment_of hash (length (ms_segments s)) k"
  have io: "index_ok hash (ms_segments s)" using ok by (simp add: store_ok_def)
  have so: "seg_ok (ms_segments s ! ?si)" by (rule index_okD(2) [OF io index_okD(1) [OF io]])
  obtain i found where b: "BinarySearch (seg_keys (ms_segments s ! ?si)) k = (i, found)" by fastforce
  have found: "found" using seg_lookup(1) [OF so b] m by (simp add: store_map_def index_map_def)
  show "snd (MemoryStore_Delete hash s k) = Some p" if "GC_Cancel (ms_gc s) k = Inl p"
    using b found that by (simp add: MemoryStore_Delete_def deleteBatch_def group_keys_def Let_def)
  show "snd (MemoryStore_Delete hash s k) = None \<and> ms_gc (fst (MemoryStore_Delete hash s k)) = gc"
    if "GC_Cancel (ms_gc s) k = Inr gc"
    using b found that by (simp add: MemoryStore_Delete_def deleteBatch_def group_keys_def Let_def)
qed

lemma MemoryStore_Set_gc:
  assumes "GC_Schedule env (ms_gc s) k (se_TTL v) (se_CreatedAt v) = Inr gc"
  shows "snd (MemoryStore_Set env hash s k v) = None" "ms_gc (fst (MemoryStore_Set env hash s k v)) = gc"
  using assms by (auto simp: MemoryStore_Set_def Let_def stamped_def split: prod.splits)

section \<open>Stores over time\<close>

text \<open>A store over time: calls, background ticks and flushes, in any order. The keys that are set are
  not empty, and what happens after a panic in the collector is left out.\<close>

inductive ms_reachable :: "hasher \<Rightarrow> memory_store \<Rightarrow> bool" for hash where
  ms_new: "ms_reachable hash (NewMemoryStore now)"
| ms_set: "ms_reachable hash s \<Longrightarrow> k \<noteq> [] \<Longrightarrow> MemoryStore_Set env hash s k v = (s', out) \<Longrightarrow> ms_reachable hash s'"
| ms_get: "ms_reachable hash s \<Longrightarrow> MemoryStore_Get env hash s k = (r, s') \<Longrightarrow> ms_reachable hash s'"
| ms_delete: "ms_reachable hash s \<Longrightarrow> deleteBatch hash s ks = (s', None) \<Longrightarrow> ms_reachable hash s'"
| ms_flush: "ms_reachable hash s \<Longrightarrow> MemoryStore_flush hash s = (s', None) \<Longrightarrow> ms_reachable hash s'"
| ms_near: "ms_reachable hash s \<Longrightarrow> ms_reachable hash (s\<lparr>ms_gc := GC_nearTick c (ms_gc s)\<rparr>)"
| ms_wheel: "ms_reachable hash s \<Longrightarrow> ms_reachable hash (s\<lparr>ms_gc := GC_wheelTick t (ms_gc s)\<rparr>)"
| ms_start: "ms_reachable hash s \<Longrightarrow> ms_reachable hash (MemoryStore_StartGC s)"
| ms_stop: "ms_reachable hash s \<Longrightarrow> ms_reachable hash (MemoryStore_StopGC s)"

definition ms_inv :: "hasher \<Rightarrow> memory_store \<Rightarrow> bool" where
  "ms_inv hash s \<longleftrightarrow> store_ok hash s \<and> counters_ok s \<and> store_map hash s [] = None"

lemma sizes_pos_nonempty: "m [] = None \<Longrightarrow> sizes_pos m K"
  unfolding sizes_pos_def
proof (intro ballI allI impI)
  fix k e assume "m [] = None" "m k = Some e"
  then have "k \<noteq> []" by auto
  then show "0 < sizeOf k e" by (simp add: sizeOf_def add_pos_nonneg)
qed

lemma ms_reachable_inv: "ms_reachable hash s \<Longrightarrow> ms_inv hash s"
proof (induction rule: ms_reachable.induct)
  case (ms_new now)
  then show ?case by (simp add: ms_inv_def)
next
  case (ms_set s k env v s' out)
  then show ?case using MemoryStore_Set_correct(1-3) [of hash s env k v s' out] by (simp add: ms_inv_def)
next
  case (ms_get s env k r s')
  then have ok: "store_ok hash s" by (simp add: ms_inv_def)
  note g = MemoryStore_Get_correct(1-4) [OF ok ms_get(2)]
  have "store_map hash s' [] = None"
  proof (cases r)
    case None
    then show ?thesis using g(2) ms_get.IH by (simp add: ms_inv_def)
  next
    case (Some e)
    then have "k \<noteq> []" using g(1) ms_get.IH by (auto simp: ms_inv_def)
    then show ?thesis using g(2) Some ms_get.IH by (simp add: ms_inv_def)
  qed
  then show ?case using g(3,4) ms_get.IH by (simp add: ms_inv_def)
next
  case (ms_delete s ks s')
  then have ok: "store_ok hash s" and p: "sizes_pos (store_map hash s) (set ks)"
    by (simp_all add: ms_inv_def sizes_pos_nonempty)
  show ?case using deleteBatch_correct(1-3) [OF ok ms_delete(2) refl] p ms_delete.IH
    by (simp add: ms_inv_def restrict_map_def)
next
  case (ms_flush s s')
  then have ok: "store_ok hash s" and p: "sizes_pos (store_map hash s) (gc_pending (ms_gc s))"
    by (simp_all add: ms_inv_def sizes_pos_nonempty)
  show ?case using MemoryStore_flush_correct [OF ok ms_flush(2) p] ms_flush.IH
    by (simp add: ms_inv_def restrict_map_def)
qed (auto simp: ms_inv_def intro!: GC_frame_store(3) GC_nearTick_ok GC_wheelTick_ok intro: store_ok_gc)

section \<open>Properties\<close>

definition sample_env :: env where
  "sample_env = \<lparr>env_now = 1700000000000000000, env_cached = 1700000000000000000, env_rand = 0, env_coin = True\<rparr>"

definition sample_entry :: "byte list \<Rightarrow> int \<Rightarrow> bool \<Rightarrow> storage_entry" where
  "sample_entry v ttl sr =
     \<lparr>se_Key = str ''k'', se_Value = v, se_OriginalSize = int (length v), se_TTL = ttl,
      se_CreatedAt = env_now sample_env,
      se_ExpiresAt = (if 0 < ttl then env_now sample_env + ttl * 1000000000 else zero_time),
      se_SingleRead = sr, se_AccessCount = 0, se_LastAccess = 0\<rparr>"

definition sample_store :: "hasher \<Rightarrow> bool \<Rightarrow> memory_store" where
  "sample_store hash sr = fst (MemoryStore_Set sample_env hash (NewMemoryStore 0) (str ''k'') (sample_entry [1, 2, 3] 0 sr))"

lemma str_nonempty: "str (c # cs) \<noteq> []"
  by (simp add: str_def)

lemma sample_store_reachable: "ms_reachable hash (sample_store hash sr)"
  unfolding sample_store_def by (intro ms_set [OF ms_new str_nonempty]) (rule prod.collapse [symmetric])

lemma sample_store_map:
  "store_map hash (sample_store hash sr) = [str ''k'' \<mapsto> stamped sample_env (sample_entry [1, 2, 3] 0 sr)]"
  "store_ok hash (sample_store hash sr)"
  unfolding sample_store_def
  using MemoryStore_Set_correct(1,2) [OF NewMemoryStore_ok(1) prod.collapse [symmetric]] by simp_all

text \<open>\<open>Set\<close> on a reachable store binds the key to the stamped entry and changes no other key, also
  when the collector panics after the new index is published.\<close>

theorem store_set:
  assumes "ms_reachable hash s" "MemoryStore_Set env hash s k v = (s', out)"
  shows "store_map hash s' = (store_map hash s)(k \<mapsto> v\<lparr>se_LastAccess := env_cached env, se_AccessCount := 0\<rparr>) \<and>
    (out = None \<longleftrightarrow> (\<exists>gc. GC_Schedule env (ms_gc s) k (se_TTL v) (se_CreatedAt v) = Inr gc))"
proof -
  have ok: "store_ok hash s" using ms_reachable_inv [OF assms(1)] by (simp add: ms_inv_def)
  have "out \<noteq> None \<longleftrightarrow> (\<exists>p. GC_Schedule env (ms_gc s) k (se_TTL v) (se_CreatedAt v) = Inl p)"
    using MemoryStore_Set_panic [OF assms(2)] by (cases out) auto
  then have "out = None \<longleftrightarrow> (\<exists>gc. GC_Schedule env (ms_gc s) k (se_TTL v) (se_CreatedAt v) = Inr gc)"
    by (cases "GC_Schedule env (ms_gc s) k (se_TTL v) (se_CreatedAt v)") auto
  then show ?thesis using MemoryStore_Set_correct(2) [OF ok assms(2)] by (simp add: stamped_def)
qed

theorem store_set_witness:
  "store_map (\<lambda>_. 0) (fst (MemoryStore_Set sample_env (\<lambda>_. 0) (NewMemoryStore 0) (str ''k'') (sample_entry [7] 0 False))) (str ''k'')
    = Some ((sample_entry [7] 0 False)\<lparr>se_LastAccess := env_cached sample_env, se_AccessCount := 0\<rparr>)"
  using store_set [OF ms_new prod.collapse [symmetric]] by simp

text \<open>\<open>Get\<close> on a reachable store answers from the entry of the key: nothing when it has expired or
  is a single-read entry already read, otherwise the entry with its counters advanced, which is also
  what it leaves in the store; an expired or single-read entry is queued for deletion.\<close>

theorem store_get:
  assumes "ms_reachable hash s" "MemoryStore_Get env hash s k = (res, s')"
  shows "(case store_map hash s k of
       None \<Rightarrow> res = None \<and> store_map hash s' = store_map hash s
     | Some e \<Rightarrow>
         if IsExpired (env_now env) e then res = None \<and> store_map hash s' = store_map hash s \<and> k \<in> gc_pending (ms_gc s')
         else if se_SingleRead e \<and> se_AccessCount e \<noteq> 0 then res = None \<and> store_map hash s' = store_map hash s
         else (\<exists>e'. res = Some e' \<and> store_map hash s' = (store_map hash s)(k \<mapsto> e') \<and>
                 se_Value e' = se_Value e \<and> se_AccessCount e' = i32 (se_AccessCount e + 1) \<and>
                 (se_SingleRead e \<longrightarrow> k \<in> gc_pending (ms_gc s'))))"
proof -
  have ok: "store_ok hash s" using ms_reachable_inv [OF assms(1)] by (simp add: ms_inv_def)
  have pend: "k \<in> gc_pending (GC_ScheduleDelete gc k)" for gc by (simp add: GC_ScheduleDelete_def)
  have one: "i32 1 = 1" by (simp add: i32_def signed_take_bit_eq_if_positive)
  note g = MemoryStore_Get_correct(1,2,6) [OF ok assms(2)]
  show ?thesis
  proof (cases "store_map hash s k")
    case None
    then show ?thesis using g(1,2) by simp
  next
    case (Some e)
    have r: "res = read_entry env e" using g(1) Some by simp
    show ?thesis
      unfolding g(2,3) r Some option.case using pend one by (auto simp: read_entry_def)
  qed
qed

theorem store_get_witness:
  "\<exists>e'. fst (MemoryStore_Get sample_env (\<lambda>_. 0) (sample_store (\<lambda>_. 0) True) (str ''k'')) = Some e' \<and> se_Value e' = [1, 2, 3]"
proof -
  obtain res s' where r: "MemoryStore_Get sample_env (\<lambda>_. 0) (sample_store (\<lambda>_. 0) True) (str ''k'') = (res, s')" by fastforce
  show ?thesis
    using store_get [OF sample_store_reachable r] r
    by (simp add: sample_store_map stamped_def sample_entry_def IsExpired_def time_IsZero_def) blast
qed

fun reads_of :: "hasher \<Rightarrow> memory_store \<Rightarrow> (env \<times> gostring) list \<Rightarrow> (gostring \<times> storage_entry option) list" where
  "reads_of hash s [] = []"
| "reads_of hash s ((env, k) # rs) =
     (let (r, s') = MemoryStore_Get env hash s k in (k, r) # reads_of hash s' rs)"

lemma reads_after_used:
  assumes "store_ok hash s" "store_map hash s k = Some e" "se_SingleRead e" "se_AccessCount e = 1"
  shows "\<forall>r. (k, Some r) \<notin> set (reads_of hash s rs)"
  using assms(1,2)
proof (induction rs arbitrary: s)
  case (Cons x rs)
  obtain env k' where x: "x = (env, k')" by fastforce
  obtain r s' where g: "MemoryStore_Get env hash s k' = (r, s')" by fastforce
  note c = MemoryStore_Get_correct(1-3) [OF Cons.prems(1) g]
  have n: "r = None" if "k' = k" using c(1) that Cons.prems(2) assms(3,4) by (simp add: read_entry_def)
  have "store_map hash s' k = Some e" using c(2) n Cons.prems(2) by (cases r; cases "k' = k") auto
  then have "\<forall>r. (k, Some r) \<notin> set (reads_of hash s' rs)" by (rule Cons.IH [OF c(3)])
  then show ?case using n by (auto simp: x g)
qed simp

lemma reads_single:
  assumes "store_ok hash s" "store_map hash s k = Some e" "se_SingleRead e" "se_AccessCount e = 0"
  shows "length (filter (\<lambda>(k', r). k' = k \<and> r \<noteq> None) (reads_of hash s rs)) \<le> 1"
  using assms(1,2)
proof (induction rs arbitrary: s)
  case (Cons x rs)
  obtain env k' where x: "x = (env, k')" by fastforce
  obtain r s' where g: "MemoryStore_Get env hash s k' = (r, s')" by fastforce
  note c = MemoryStore_Get_correct(1-3) [OF Cons.prems(1) g]
  show ?case
  proof (cases "k' = k \<and> r \<noteq> None")
    case True
    then obtain e' where e': "r = Some e'" "store_map hash s' k = Some e'" using c(2) by auto
    have "se_SingleRead e'" "se_AccessCount e' = 1"
      using c(1) True e' Cons.prems(2) assms(3,4) by (auto simp: read_entry_def split: if_splits)
    from reads_after_used [OF c(3) e'(2) this, of rs]
    have "filter (\<lambda>(k', r). k' = k \<and> r \<noteq> None) (reads_of hash s' rs) = []" by (auto simp: filter_empty_conv)
    then show ?thesis by (simp add: x g)
  next
    case False
    have "store_map hash s' k = Some e" using c(2) False Cons.prems(2) by (cases r; cases "k' = k") auto
    from Cons.IH [OF c(3) this] show ?thesis using False by (auto simp: x g)
  qed
qed simp

text \<open>A single-read entry is delivered at most once: in any sequence of reads of any keys, at most
  one read of the key succeeds.\<close>

theorem single_read_once:
  assumes "ms_reachable hash s" "store_map hash s k = Some e" "se_SingleRead e" "se_AccessCount e = 0"
  shows "length (filter (\<lambda>(k', r). k' = k \<and> r \<noteq> None) (reads_of hash s rs)) \<le> 1"
  using reads_single [OF _ assms(2-4)] ms_reachable_inv [OF assms(1)] by (simp add: ms_inv_def)

theorem single_read_once_witness:
  "length (filter (\<lambda>(k', r). k' = str ''k'' \<and> r \<noteq> None)
     (reads_of (\<lambda>_. 0) (sample_store (\<lambda>_. 0) True) [(sample_env, str ''k''), (sample_env, str ''k'')])) \<le> 1"
  by (rule single_read_once [OF sample_store_reachable, where e = "stamped sample_env (sample_entry [1, 2, 3] 0 True)"])
    (simp_all add: sample_store_map, simp_all add: stamped_def sample_entry_def)

text \<open>A batch deletion on a reachable store that does not panic removes exactly the keys of the
  batch, and the counters stay exact.\<close>

theorem store_delete_batch:
  assumes "ms_reachable hash s" "deleteBatch hash s ks = (s', None)"
  shows "store_map hash s' = (store_map hash s) |` (- set ks) \<and>
    MemoryStore_Count s' = int (card (dom (store_map hash s) - set ks))"
proof -
  have i: "store_ok hash s" "counters_ok s" "sizes_pos (store_map hash s) (set ks)"
    using ms_reachable_inv [OF assms(1)] by (simp_all add: ms_inv_def sizes_pos_nonempty)
  note d = deleteBatch_correct(1-3) [OF i(1) assms(2) refl]
  have m: "store_map hash s' = (store_map hash s) |` (- set ks)" using d(2) i(3) by simp
  have "dom (store_map hash s') = dom (store_map hash s) - set ks" unfolding m by auto
  then show ?thesis using m MemoryStore_counters(1) [OF d(1) d(3) [OF i(3,2)]] by simp
qed

lemma cancel_unknown:
  assumes "nq_index (gc_nearQueue gc) k = None"
  shows "GC_Cancel gc k = Inr (gc\<lparr>gc_wheel := HashedWheel_Remove (gc_wheel gc) k\<rparr>)"
  using assms by (simp add: GC_Cancel_def NearQueue_Remove_def)

lemma sample_store_gc: "nq_index (gc_nearQueue (ms_gc (sample_store hash sr))) k = None"
proof -
  have n: "nq_index (gc_nearQueue (NewGarbageCollector 0)) k = None" for k
    by (simp add: NewGarbageCollector_def NewNearQueue_def)
  have "GC_Schedule sample_env (ms_gc (NewMemoryStore 0)) (str ''k'') (se_TTL (sample_entry [1, 2, 3] 0 sr)) (se_CreatedAt (sample_entry [1, 2, 3] 0 sr)) =
    Inr ((NewGarbageCollector 0)\<lparr>gc_wheel := HashedWheel_Remove (gc_wheel (NewGarbageCollector 0)) (str ''k'')\<rparr>)"
    using cancel_unknown [OF n] by (simp add: GC_Schedule_def sample_entry_def NewMemoryStore_def)
  from MemoryStore_Set_gc(2) [OF this] show ?thesis using n by (simp add: sample_store_def)
qed

theorem store_delete_batch_witness:
  "store_map (\<lambda>_. 0) (fst (deleteBatch (\<lambda>_. 0) (sample_store (\<lambda>_. 0) False) [str ''k''])) = Map.empty"
proof -
  obtain s' out where r: "deleteBatch (\<lambda>_. 0) (sample_store (\<lambda>_. 0) False) [str ''k''] = (s', out)" by fastforce
  have "snd (MemoryStore_Delete (\<lambda>_. 0) (sample_store (\<lambda>_. 0) False) (str ''k'')) = None"
    using MemoryStore_Delete_gc(2) [OF sample_store_map(2) _ cancel_unknown [OF sample_store_gc]]
    by (simp add: sample_store_map)
  then have "out = None" using r by (simp add: MemoryStore_Delete_def)
  with store_delete_batch [OF sample_store_reachable r [unfolded \<open>out = None\<close>]] r
  show ?thesis by (simp add: sample_store_map restrict_map_def fun_eq_iff)
qed

definition set_set_delete :: "hasher \<Rightarrow> env \<Rightarrow> env \<Rightarrow> go_time \<Rightarrow> gostring \<Rightarrow> storage_entry \<Rightarrow> gostring \<Rightarrow> storage_entry \<Rightarrow> memory_store" where
  "set_set_delete hash env1 env2 now a ea b eb =
     fst (MemoryStore_Delete hash (fst (MemoryStore_Set env2 hash (fst (MemoryStore_Set env1 hash (NewMemoryStore now) a ea)) b eb)) a)"

lemma near_route:
  assumes "0 < ttl" "NearQueue_Add (env_cached env) (gc_nearQueue gc) k (gc_expireAt ttl at) = Inr (True, q)"
  shows "GC_Schedule env gc k ttl at = Inr (gc\<lparr>gc_nearQueue := q\<rparr>)"
  using assms by (simp add: GC_Schedule_def Let_def)

text \<open>C31: two keys with a time-to-live are enough to crash a delete. From a new store: set \<open>a\<close>, set \<open>b\<close>
  with a deadline no earlier, delete \<open>a\<close>, delete \<open>b\<close>. The last call panics with an index out of range,
  because the position recorded for \<open>b\<close> was not updated when \<open>a\<close> left the heap.\<close>

theorem delete_two_keys_panics:
  assumes "a \<noteq> b" "a \<noteq> []" "b \<noteq> []"
    and da: "0 < se_TTL ea" "to_ms (gc_expireAt (se_TTL ea) (se_CreatedAt ea)) - to_ms (env_cached env1) \<le> 2000"
    and db: "0 < se_TTL eb" "to_ms (gc_expireAt (se_TTL eb) (se_CreatedAt eb)) - to_ms (env_cached env2) \<le> 2000"
    and le: "gc_expireAt (se_TTL ea) (se_CreatedAt ea) \<le> gc_expireAt (se_TTL eb) (se_CreatedAt eb)"
  shows "ms_reachable hash (set_set_delete hash env1 env2 now a ea b eb) \<and>
    snd (MemoryStore_Delete hash (set_set_delete hash env1 env2 now a ea b eb) b) = Some IndexOutOfRange"
proof -
  let ?s0 = "NewMemoryStore now"
  let ?s1 = "fst (MemoryStore_Set env1 hash ?s0 a ea)"
  let ?s2 = "fst (MemoryStore_Set env2 hash ?s1 b eb)"
  let ?s3 = "fst (MemoryStore_Delete hash ?s2 a)"
  let ?d1 = "gc_expireAt (se_TTL ea) (se_CreatedAt ea)" and ?d2 = "gc_expireAt (se_TTL eb) (se_CreatedAt eb)"
  obtain q1 q2 q3 where q: "NearQueue_Add (env_cached env1) (NewNearQueue 2000) a ?d1 = Inr (True, q1)"
    "NearQueue_Add (env_cached env2) q1 b ?d2 = Inr (True, q2)" "NearQueue_Remove q2 a = Inr q3"
    "NearQueue_Remove q3 b = Inl IndexOutOfRange"
    using two_deadlines_panic [OF assms(1) le da(2) db(2)] by blast
  have g0: "gc_nearQueue (ms_gc ?s0) = NewNearQueue 2000"
    by (simp add: NewMemoryStore_def NewGarbageCollector_def defaultNearWindowMs_def)
  have g1: "gc_nearQueue (ms_gc ?s1) = q1"
    using MemoryStore_Set_gc(2) [OF near_route [OF da(1), of env1 "ms_gc ?s0"]] q(1) by (simp add: g0)
  have g2: "gc_nearQueue (ms_gc ?s2) = q2"
    using MemoryStore_Set_gc(2) [OF near_route [OF db(1), of env2 "ms_gc ?s1"]] q(2) by (simp add: g1)
  have r1: "ms_reachable hash ?s1" by (rule ms_set [OF ms_new assms(2) prod.collapse [symmetric]])
  have r2: "ms_reachable hash ?s2" by (rule ms_set [OF r1 assms(3) prod.collapse [symmetric]])
  have ok: "store_ok hash ?s0" "store_ok hash ?s1" "store_ok hash ?s2"
    using ms_reachable_inv [OF ms_new] ms_reachable_inv [OF r1] ms_reachable_inv [OF r2] by (simp_all add: ms_inv_def)
  have m2: "store_map hash ?s2 a \<noteq> None" "store_map hash ?s2 b \<noteq> None"
    using MemoryStore_Set_correct(2) [OF ok(2) prod.collapse [symmetric], of env2 b eb]
      MemoryStore_Set_correct(2) [OF ok(1) prod.collapse [symmetric], of env1 a ea] assms(1) by simp_all
  have c2: "GC_Cancel (ms_gc ?s2) a = Inr ((ms_gc ?s2)\<lparr>gc_nearQueue := q3, gc_wheel := HashedWheel_Remove (gc_wheel (ms_gc ?s2)) a\<rparr>)"
    using q(3) by (simp add: GC_Cancel_def g2)
  note d = MemoryStore_Delete_gc(2) [OF ok(3) m2(1) c2]
  have del: "deleteBatch hash ?s2 [a] = (?s3, None)" using d by (metis MemoryStore_Delete_def prod.collapse)
  have r3: "ms_reachable hash ?s3" by (rule ms_delete [OF r2 del])
  have ok3: "store_ok hash ?s3" using ms_reachable_inv [OF r3] by (simp add: ms_inv_def)
  have "sizes_pos (store_map hash ?s2) (set [a])" using ms_reachable_inv [OF r2] by (simp add: ms_inv_def sizes_pos_nonempty)
  then have "store_map hash ?s3 b \<noteq> None"
    using deleteBatch_correct(2) [OF ok(3) del refl] m2(2) assms(1) by simp
  moreover have "GC_Cancel (ms_gc ?s3) b = Inl IndexOutOfRange" using d q(4) by (simp add: GC_Cancel_def)
  ultimately have "snd (MemoryStore_Delete hash ?s3 b) = Some IndexOutOfRange" by (rule MemoryStore_Delete_gc(1) [OF ok3])
  with r3 show ?thesis by (simp only: set_set_delete_def)
qed

theorem delete_two_keys_panics_witness:
  "snd (MemoryStore_Delete (\<lambda>_. 0) (set_set_delete (\<lambda>_. 0) sample_env sample_env 0 (str ''a'') (sample_entry [1] 10 False)
     (str ''b'') (sample_entry [2] 20 False)) (str ''b'')) = Some IndexOutOfRange"
proof -
  have x: "gc_expireAt 10 1700000000000000000 = 1700000000000000010" "gc_expireAt 20 1700000000000000000 = 1700000000000000020"
    by (simp_all add: gc_expireAt_def time_UnixNano_def time_Add_def i64_id)
  have "str ''a'' \<noteq> str ''b''" by (simp add: str_def)
  from delete_two_keys_panics [OF this str_nonempty str_nonempty, of "sample_entry [1] 10 False" sample_env
      "sample_entry [2] 20 False" sample_env "\<lambda>_. 0" 0]
  show ?thesis by (simp add: sample_entry_def sample_env_def x to_ms_nonneg_eq)
qed

text \<open>Deleting the empty key, when its value is empty, leaves it in the store and takes one off the
  key counter: the counter no longer is the number of keys.\<close>

theorem delete_empty_key_leaks:
  assumes "store_ok hash s" "counters_ok s" "store_map hash s [] = Some e" "sizeOf [] e = 0"
    and "MemoryStore_Delete hash s [] = (s', None)"
  shows "store_map hash s' = store_map hash s \<and> MemoryStore_Count s' = int (card (dom (store_map hash s'))) - 1"
proof -
  obtain gc where c: "GC_Cancel (ms_gc s) [] = Inr gc"
    using MemoryStore_Delete_gc(1) [OF assms(1), of "[]"] assms(3,5) by (cases "GC_Cancel (ms_gc s) []") auto
  have s': "s' = s\<lparr>ms_keyCount := ms_keyCount s - 1, ms_gc := gc\<rparr>"
    using delete_empty_key [OF assms(1,3,4) c] assms(5) by simp
  have "store_map hash s' = store_map hash s" "MemoryStore_Count s' = MemoryStore_Count s - 1"
    by (simp_all add: s' store_map_def MemoryStore_Count_def)
  then show ?thesis using MemoryStore_counters(1) [OF assms(1,2)] by simp
qed

theorem delete_empty_key_leaks_witness:
  "let s = fst (MemoryStore_Set sample_env (\<lambda>_. 0) (NewMemoryStore 0) [] (sample_entry [] 0 False))
   in MemoryStore_Count (fst (MemoryStore_Delete (\<lambda>_. 0) s [])) = int (card (dom (store_map (\<lambda>_. 0) (fst (MemoryStore_Delete (\<lambda>_. 0) s []))))) - 1"
proof -
  let ?e = "sample_entry [] 0 False"
  let ?s = "fst (MemoryStore_Set sample_env (\<lambda>_. 0) (NewMemoryStore 0) [] ?e)"
  note c = MemoryStore_Set_correct(1-3) [where hash = "\<lambda>_. 0" and env = sample_env and key = "[]" and val = ?e and s = "NewMemoryStore 0",
      OF NewMemoryStore_ok(1) prod.collapse [symmetric]]
  have n: "nq_index (gc_nearQueue (NewGarbageCollector 0)) k = None" for k
    by (simp add: NewGarbageCollector_def NewNearQueue_def)
  have "GC_Schedule sample_env (ms_gc (NewMemoryStore 0)) [] (se_TTL ?e) (se_CreatedAt ?e) =
    Inr ((NewGarbageCollector 0)\<lparr>gc_wheel := HashedWheel_Remove (gc_wheel (NewGarbageCollector 0)) []\<rparr>)"
    using cancel_unknown [OF n] by (simp add: GC_Schedule_def sample_entry_def NewMemoryStore_def)
  from MemoryStore_Set_gc(2) [OF this] have q: "nq_index (gc_nearQueue (ms_gc ?s)) [] = None" using n by simp
  have m: "store_map (\<lambda>_. 0) ?s [] = Some (stamped sample_env ?e)" using c(2) by simp
  have "snd (MemoryStore_Delete (\<lambda>_. 0) ?s []) = None"
    using MemoryStore_Delete_gc(2) [OF c(1) _ cancel_unknown [OF q]] m by simp
  then have d: "MemoryStore_Delete (\<lambda>_. 0) ?s [] = (fst (MemoryStore_Delete (\<lambda>_. 0) ?s []), None)"
    by (metis prod.collapse)
  have z: "sizeOf [] (stamped sample_env ?e) = 0" by (simp add: sizeOf_def stamped_def sample_entry_def)
  from delete_empty_key_leaks [OF c(1) c(3) [OF NewMemoryStore_ok(2)] m z d] show ?thesis by (simp only: Let_def)
qed

end
