(* ===== verification/Pending_Deletes.thy ===== *)
theory Pending_Deletes
  imports Memory_Store
begin

text \<open>
  The queue of keys to delete between a \<open>Get\<close> and the next flush: \<open>Get\<close> of an expired or single-read entry
  (\<open>internal/engine/in_memory.go\<close>, lines 60 to 68) enqueues the key, not the entry, and nothing takes a key out of
  the coalescer (\<open>internal/gc/delete_coalescer.go\<close>) but the flush.
\<close>

lemma GC_Cancel_coalescer: "GC_Cancel gc k = Inr gc' \<Longrightarrow> gc_coalescer gc' = gc_coalescer gc"
  by (auto simp: GC_Cancel_def gbind_iff)

lemma GC_Schedule_coalescer: "GC_Schedule env gc k ttl at = Inr gc' \<Longrightarrow> gc_coalescer gc' = gc_coalescer gc"
  by (auto simp: GC_Schedule_def Let_def gbind_iff GC_Cancel_coalescer split: if_splits)

lemma MemoryStore_Set_coalescer:
  "MemoryStore_Set env hash s k v = (s', out) \<Longrightarrow> gc_coalescer (ms_gc s') = gc_coalescer (ms_gc s)"
  by (auto simp: MemoryStore_Set_def Let_def GC_Schedule_coalescer split: prod.splits sum.splits)

section \<open>Properties\<close>

text \<open>C32: A key whose entry a \<open>Get\<close> found expired, or took as its single reader, stays marked for deletion: a
  value set under that key before the next flush is stored, and the flush deletes it.\<close>

theorem overwritten_before_flush:
  assumes "ms_reachable hash s" "k \<noteq> []" "store_map hash s k = Some e"
    and "IsExpired (env_now env0) e \<or> se_SingleRead e \<and> se_AccessCount e = 0"
    and get: "MemoryStore_Get env0 hash s k = (r, s0)" and set: "MemoryStore_Set env hash s0 k v = (s1, out)"
    and flush: "MemoryStore_flush hash s1 = (s2, None)"
  shows "store_map hash s1 k = Some (stamped env v) \<and> store_map hash s2 k = None"
proof -
  have ok: "store_ok hash s" using ms_reachable_inv [OF assms(1)] by (simp add: ms_inv_def)
  have "ms_gc s0 = GC_ScheduleDelete (ms_gc s) k" using MemoryStore_Get_correct(6) [OF ok get] assms(3,4) by simp
  then have p: "k \<in> gc_pending (ms_gc s1)" using MemoryStore_Set_coalescer [OF set] by (simp add: GC_ScheduleDelete_def)
  have r1: "ms_reachable hash s1" by (rule ms_set [OF ms_get [OF assms(1) get] assms(2) set])
  then have "ms_inv hash s1" by (rule ms_reachable_inv)
  then have "store_ok hash s1" "sizes_pos (store_map hash s1) (gc_pending (ms_gc s1))"
    by (simp_all only: ms_inv_def sizes_pos_nonempty)
  from MemoryStore_flush_correct(2) [OF this(1) flush this(2)] p have "store_map hash s2 k = None" by simp
  moreover have "store_map hash s1 k = Some (stamped env v)"
    using MemoryStore_Set_correct(2) [OF MemoryStore_Get_correct(3) [OF ok get] set] by simp
  ultimately show ?thesis by blast
qed

text \<open>Read once, set again, flush.\<close>

definition taken_store :: memory_store where
  "taken_store = snd (MemoryStore_Get sample_env (\<lambda>_. 0) (sample_store (\<lambda>_. 0) True) (str ''k''))"

definition reset_store :: memory_store where
  "reset_store = fst (MemoryStore_Set sample_env (\<lambda>_. 0) taken_store (str ''k'') (sample_entry [7] 0 False))"

lemma reset_flush: "snd (MemoryStore_flush (\<lambda>_. 0) reset_store) = None"
  by code_simp

theorem overwritten_before_flush_witness:
  "store_map (\<lambda>_. 0) reset_store (str ''k'') = Some (stamped sample_env (sample_entry [7] 0 False)) \<and>
   store_map (\<lambda>_. 0) (fst (MemoryStore_flush (\<lambda>_. 0) reset_store)) (str ''k'') = None"
proof -
  let ?f = "MemoryStore_flush (\<lambda>_. 0) reset_store"
  have f: "?f = (fst ?f, None)" using reset_flush by (metis prod.collapse)
  have e: "store_map (\<lambda>_. 0) (sample_store (\<lambda>_. 0) True) (str ''k'') = Some (stamped sample_env (sample_entry [1, 2, 3] 0 True))"
    by code_simp
  have g: "MemoryStore_Get sample_env (\<lambda>_. 0) (sample_store (\<lambda>_. 0) True) (str ''k'') =
      (fst (MemoryStore_Get sample_env (\<lambda>_. 0) (sample_store (\<lambda>_. 0) True) (str ''k'')), taken_store)"
    by (simp add: taken_store_def)
  have s: "MemoryStore_Set sample_env (\<lambda>_. 0) taken_store (str ''k'') (sample_entry [7] 0 False) =
      (reset_store, snd (MemoryStore_Set sample_env (\<lambda>_. 0) taken_store (str ''k'') (sample_entry [7] 0 False)))"
    by (simp add: reset_store_def)
  show ?thesis
    by (rule overwritten_before_flush [OF sample_store_reachable str_nonempty e _ g s f]) (simp add: stamped_def sample_entry_def)
qed

end
