(* ===== verification/Cow_Concurrency.thy ===== *)
theory Cow_Concurrency
  imports Memory_Store
begin

text \<open>
  The memory store under concurrent readers (\<open>internal/engine/in_memory.go\<close>). \<open>Memory_Store\<close> takes one operation
  at a time; here a \<open>Get\<close> is cut at its atomic accesses, entries are cells of a heap that an index points to, and
  any number of readers run between the writers, each with the index it loaded. Writers hold the write mutex, read
  the index they replace and publish the new one in one store, so to readers a writer is one step. The counters and
  the collector that a writer also updates are left to \<open>Memory_Store\<close>; \<open>deleteBatch\<close> goes through its keys one by
  one, where the code goes group by group; \<open>Cow_Refinement\<close> shows that the outcome is the same.
\<close>

section \<open>Shared memory\<close>

record ref_segment =
  rg_keys :: "gostring list"
  rg_vals :: "nat list"

type_synonym ref_index = "ref_segment list"

text \<open>Where a \<open>Get\<close> is: the index loaded, the entry found, not expired, counted, or about to copy the entry; a
  returned entry is recorded with the cell it was copied from.\<close>

datatype reader_pc =
    Loaded ref_index | Found nat | Live nat | Counted nat | Copying nat
  | Returned "(nat \<times> storage_entry) option"

record reader =
  rd_key :: gostring
  rd_start :: nat
  rd_pc :: reader_pc

text \<open>All indexes ever published, the current one last; \<open>rd_start\<close> is the one a reader loaded.\<close>

record cow_state =
  co_heap :: "storage_entry list"
  co_indexes :: "ref_index list"
  co_readers :: "reader list"
  co_pending :: "gostring list"

definition new_cow :: cow_state where
  "new_cow = \<lparr>co_heap = [], co_indexes = [replicate 64 \<lparr>rg_keys = [], rg_vals = []\<rparr>], co_readers = [], co_pending = []\<rparr>"

definition snapshot :: "cow_state \<Rightarrow> ref_index" where
  "snapshot s = last (co_indexes s)"

text \<open>\<open>segmentIndexOf\<close> loads the published index again, for its length.\<close>

definition ref_segmentIndexOf :: "hasher \<Rightarrow> ref_index \<Rightarrow> gostring \<Rightarrow> nat" where
  "ref_segmentIndexOf hash t key = unat (hash key mod word_of_nat (length t))"

definition ref_lookup :: "hasher \<Rightarrow> ref_index \<Rightarrow> gostring \<Rightarrow> nat option" where
  "ref_lookup hash idx key =
     (let seg = idx ! ref_segmentIndexOf hash idx key; (i, found) = BinarySearch (rg_keys seg) key
      in if found then Some (rg_vals seg ! i) else None)"

section \<open>Readers\<close>

definition set_pc :: "nat \<Rightarrow> reader_pc \<Rightarrow> cow_state \<Rightarrow> cow_state" where
  "set_pc i pc s = s\<lparr>co_readers := (co_readers s)[i := (co_readers s ! i)\<lparr>rd_pc := pc\<rparr>]\<rparr>"

definition Get_start :: "gostring \<Rightarrow> cow_state \<Rightarrow> cow_state" where
  "Get_start key s =
     s\<lparr>co_readers := co_readers s @ [\<lparr>rd_key = key, rd_start = length (co_indexes s) - 1, rd_pc = Loaded (snapshot s)\<rparr>]\<rparr>"

definition Get_find :: "hasher \<Rightarrow> nat \<Rightarrow> ref_index \<Rightarrow> cow_state \<Rightarrow> cow_state" where
  "Get_find hash i idx s =
     (let key = rd_key (co_readers s ! i);
          seg = idx ! ref_segmentIndexOf hash (snapshot s) key;
          (j, found) = BinarySearch (rg_keys seg) key
      in if found then set_pc i (Found (rg_vals seg ! j)) s else set_pc i (Returned None) s)"

definition Get_expired :: "go_time \<Rightarrow> nat \<Rightarrow> nat \<Rightarrow> cow_state \<Rightarrow> cow_state" where
  "Get_expired now i r s =
     (if IsExpired now (co_heap s ! r)
      then set_pc i (Returned None) (s\<lparr>co_pending := co_pending s @ [rd_key (co_readers s ! i)]\<rparr>)
      else set_pc i (Live r) s)"

text \<open>The compare-and-swap of a single-read entry, or the atomic increment of another.\<close>

definition Get_count :: "nat \<Rightarrow> nat \<Rightarrow> cow_state \<Rightarrow> cow_state" where
  "Get_count i r s =
     (let e = co_heap s ! r
      in if se_SingleRead e
         then if se_AccessCount e = 0
              then set_pc i (Copying r) (s\<lparr>co_heap := (co_heap s)[r := e\<lparr>se_AccessCount := 1\<rparr>],
                                           co_pending := co_pending s @ [rd_key (co_readers s ! i)]\<rparr>)
              else set_pc i (Returned None) s
         else set_pc i (Counted r) (s\<lparr>co_heap := (co_heap s)[r := e\<lparr>se_AccessCount := i32 (se_AccessCount e + 1)\<rparr>]\<rparr>))"

definition Get_stamp :: "int \<Rightarrow> nat \<Rightarrow> nat \<Rightarrow> cow_state \<Rightarrow> cow_state" where
  "Get_stamp cached i r s =
     set_pc i (Copying r) (s\<lparr>co_heap := (co_heap s)[r := (co_heap s ! r)\<lparr>se_LastAccess := cached\<rparr>]\<rparr>)"

definition Get_copy :: "nat \<Rightarrow> nat \<Rightarrow> cow_state \<Rightarrow> cow_state" where
  "Get_copy i r s = set_pc i (Returned (Some (r, co_heap s ! r))) s"

text \<open>The next access of reader \<open>i\<close>, with the clocks it may look at.\<close>

definition Get_step :: "hasher \<Rightarrow> env \<Rightarrow> nat \<Rightarrow> cow_state \<Rightarrow> cow_state option" where
  "Get_step hash env i s =
     (if i < length (co_readers s)
      then case rd_pc (co_readers s ! i) of
             Loaded idx \<Rightarrow> Some (Get_find hash i idx s)
           | Found r \<Rightarrow> Some (Get_expired (env_now env) i r s)
           | Live r \<Rightarrow> Some (Get_count i r s)
           | Counted r \<Rightarrow> Some (Get_stamp (env_cached env) i r s)
           | Copying r \<Rightarrow> Some (Get_copy i r s)
           | Returned res \<Rightarrow> None
      else None)"

section \<open>Writers\<close>

text \<open>\<open>Set\<close>: a new cell, and an index in which only the segment of the key is new.\<close>

definition ref_insert :: "hasher \<Rightarrow> ref_index \<Rightarrow> gostring \<Rightarrow> nat \<Rightarrow> ref_index" where
  "ref_insert hash old key r =
     (let si = ref_segmentIndexOf hash old key;
          seg = old ! si;
          (i, found) = BinarySearch (rg_keys seg) key
      in old[si := if found then seg\<lparr>rg_vals := (rg_vals seg)[i := r]\<rparr>
                   else \<lparr>rg_keys = insert_at [] i key (rg_keys seg), rg_vals = insert_at 0 i r (rg_vals seg)\<rparr>])"

definition Set_publish :: "hasher \<Rightarrow> env \<Rightarrow> gostring \<Rightarrow> storage_entry \<Rightarrow> cow_state \<Rightarrow> cow_state" where
  "Set_publish hash env key val s =
     s\<lparr>co_heap := co_heap s @ [stamped env val],
       co_indexes := co_indexes s @ [ref_insert hash (snapshot s) key (length (co_heap s))]\<rparr>"

text \<open>\<open>deleteBatch\<close>: each key is cut out of its segment, and the index is published when the size changed.\<close>

definition ref_delete :: "hasher \<Rightarrow> storage_entry list \<Rightarrow> gostring \<Rightarrow> ref_index \<times> int \<Rightarrow> ref_index \<times> int" where
  "ref_delete hash heap key st =
     (let (idx, delta) = st;
          si = ref_segmentIndexOf hash idx key;
          seg = idx ! si;
          (i, found) = BinarySearch (rg_keys seg) key
      in if \<not> found then (idx, delta)
         else (idx[si := \<lparr>rg_keys = remove_at i (rg_keys seg), rg_vals = remove_at i (rg_vals seg)\<rparr>],
               delta - sizeOf key (heap ! (rg_vals seg ! i))))"

definition Delete_publish :: "hasher \<Rightarrow> gostring list \<Rightarrow> cow_state \<Rightarrow> cow_state" where
  "Delete_publish hash keys s =
     (let (idx, delta) = fold (ref_delete hash (co_heap s)) keys (snapshot s, 0)
      in if delta \<noteq> 0 then s\<lparr>co_indexes := co_indexes s @ [idx]\<rparr> else s)"

section \<open>Runs\<close>

datatype cow_action = GetStart gostring | GetStep env nat | SetPublish env gostring storage_entry | DeletePublish "gostring list"

fun cow_step :: "hasher \<Rightarrow> cow_action \<Rightarrow> cow_state \<Rightarrow> cow_state option" where
  "cow_step hash (GetStart k) s = Some (Get_start k s)"
| "cow_step hash (GetStep env i) s = Get_step hash env i s"
| "cow_step hash (SetPublish env k v) s = Some (Set_publish hash env k v s)"
| "cow_step hash (DeletePublish ks) s = Some (Delete_publish hash ks s)"

fun cow_run :: "hasher \<Rightarrow> cow_action list \<Rightarrow> cow_state \<Rightarrow> cow_state option" where
  "cow_run hash [] s = Some s"
| "cow_run hash (a # as) s = Option.bind (cow_step hash a s) (cow_run hash as)"

lemma cow_run_invariant:
  assumes "cow_run hash as s = Some s'" "I s" "\<And>a s s'. I s \<Longrightarrow> cow_step hash a s = Some s' \<Longrightarrow> I s'"
  shows "I s'"
  using assms(1,2)
proof (induction as arbitrary: s)
  case (Cons a as)
  then obtain t where t: "cow_step hash a s = Some t" "cow_run hash as t = Some s'" by (auto simp: bind_eq_Some_conv)
  show ?case by (rule Cons.IH [OF t(2) assms(3) [OF Cons.prems(2) t(1)]])
qed simp

section \<open>Indexes\<close>

definition idx_ok :: "nat \<Rightarrow> ref_index \<Rightarrow> bool" where
  "idx_ok n idx \<longleftrightarrow> length idx = 64 \<and>
     (\<forall>seg \<in> set idx. length (rg_keys seg) = length (rg_vals seg) \<and> (\<forall>r \<in> set (rg_vals seg). r < n))"

lemma ref_segment_less: "idx_ok n idx \<Longrightarrow> ref_segmentIndexOf hash idx k < length idx"
proof -
  assume "idx_ok n idx"
  then have l: "length idx = 64" by (simp add: idx_ok_def)
  have "unat (hash k mod 64) = unat (hash k) mod 64" by (simp add: unat_mod)
  then show ?thesis by (simp add: ref_segmentIndexOf_def l)
qed

lemma ref_segment_cong: "idx_ok n idx \<Longrightarrow> idx_ok m t \<Longrightarrow> ref_segmentIndexOf hash t k = ref_segmentIndexOf hash idx k"
  by (simp add: idx_ok_def ref_segmentIndexOf_def)

lemma ref_lookup_less:
  assumes "idx_ok n idx" "ref_lookup hash idx k = Some r"
  shows "r < n"
proof -
  let ?seg = "idx ! ref_segmentIndexOf hash idx k"
  have s: "?seg \<in> set idx" using ref_segment_less [OF assms(1)] by simp
  obtain i found where b: "BinarySearch (rg_keys ?seg) k = (i, found)" by fastforce
  have f: found "r = rg_vals ?seg ! i" using assms(2) b by (auto simp: ref_lookup_def Let_def split: if_splits)
  have "i < length (rg_keys ?seg)" using b f(1) by (auto simp: BinarySearch_def Let_def)
  then show ?thesis using s assms(1) f(2) by (simp add: idx_ok_def)
qed

lemma idx_ok_mono: "idx_ok n idx \<Longrightarrow> n \<le> m \<Longrightarrow> idx_ok m idx"
  by (force simp: idx_ok_def)

lemma idx_ok_update:
  assumes "idx_ok n idx" "length (rg_keys seg) = length (rg_vals seg)" "set (rg_vals seg) \<subseteq> {..<n}"
  shows "idx_ok n (idx[i := seg])"
  using assms set_update_subset_insert [of idx i seg] by (auto simp: idx_ok_def)

lemma idx_ok_segment:
  assumes "idx_ok n idx"
  shows "length (rg_keys (idx ! ref_segmentIndexOf hash idx k)) = length (rg_vals (idx ! ref_segmentIndexOf hash idx k))"
    "set (rg_vals (idx ! ref_segmentIndexOf hash idx k)) \<subseteq> {..<n}"
  using assms nth_mem [OF ref_segment_less [OF assms, of hash k]] by (auto simp: idx_ok_def)

lemma BinarySearch_le: "BinarySearch xs k = (i, found) \<Longrightarrow> found \<Longrightarrow> i < length xs"
  by (auto simp: BinarySearch_def Let_def)

lemma bsearch_loop_le: "i \<le> j \<Longrightarrow> bsearch_loop xs t i j \<le> j"
proof (induction xs t i j rule: bsearch_loop.induct)
  case (1 xs t i j)
  have "(i + j) div 2 \<le> j" using 1(3) by simp
  then show ?case using 1 by (subst bsearch_loop.simps) (fastforce simp: Let_def)
qed

lemma BinarySearch_le_length: "BinarySearch xs k = (i, found) \<Longrightarrow> i \<le> length xs"
  using bsearch_loop_le [of 0 "length xs" xs k] by (auto simp: BinarySearch_def Let_def)

lemma idx_ok_insert:
  assumes "idx_ok n idx" "r < n"
  shows "idx_ok n (ref_insert hash idx k r)"
proof -
  let ?seg = "idx ! ref_segmentIndexOf hash idx k"
  obtain i found where b: "BinarySearch (rg_keys ?seg) k = (i, found)" by fastforce
  have i: "i \<le> length (rg_keys ?seg)" by (rule BinarySearch_le_length [OF b])
  note s = idx_ok_segment [OF assms(1), of hash k]
  show ?thesis
  proof (cases found)
    case True
    then show ?thesis using b s assms set_update_subset_insert [of "rg_vals ?seg" i r]
      by (auto simp: ref_insert_def Let_def intro!: idx_ok_update)
  next
    case False
    have "set (insert_at 0 i r (rg_vals ?seg)) \<subseteq> {..<n}"
      using s assms(2) i set_take_subset [of i "rg_vals ?seg"] set_drop_subset [of i "rg_vals ?seg"] by (auto simp: insert_at_eq)
    then show ?thesis using False b s i by (auto simp: ref_insert_def Let_def insert_at_eq intro!: idx_ok_update [OF assms(1)])
  qed
qed

lemma idx_ok_delete:
  assumes "idx_ok n (fst st)"
  shows "idx_ok n (fst (ref_delete hash heap k st))"
proof -
  let ?seg = "fst st ! ref_segmentIndexOf hash (fst st) k"
  obtain i found where b: "BinarySearch (rg_keys ?seg) k = (i, found)" by fastforce
  note s = idx_ok_segment [OF assms, of hash k]
  have "set (remove_at i (rg_vals ?seg)) \<subseteq> {..<n}"
    using s set_take_subset [of i "rg_vals ?seg"] set_drop_subset [of "Suc i" "rg_vals ?seg"] by (auto simp: remove_at_def)
  then show ?thesis using b s assms
    by (auto simp: ref_delete_def Let_def remove_at_def case_prod_unfold intro!: idx_ok_update)
qed

lemma idx_ok_deletes: "idx_ok n (fst st) \<Longrightarrow> idx_ok n (fst (fold (ref_delete hash heap) ks st))"
  by (induction ks arbitrary: st) (simp_all add: idx_ok_delete)

section \<open>What a reader may rely on\<close>

text \<open>The part of an entry that no reader changes.\<close>

definition frozen :: "storage_entry \<Rightarrow> storage_entry" where
  "frozen e = e\<lparr>se_AccessCount := 0, se_LastAccess := 0\<rparr>"

lemma frozen_simps [simp]:
  "frozen (e\<lparr>se_AccessCount := c\<rparr>) = frozen e" "frozen (e\<lparr>se_LastAccess := t\<rparr>) = frozen e"
  by (simp_all add: frozen_def)

lemma frozen_eqD:
  assumes "frozen e = frozen e'"
  shows "se_SingleRead e = se_SingleRead e'" "IsExpired now e = IsExpired now e'" "se_Value e = se_Value e'"
proof -
  have f: "se_SingleRead e = se_SingleRead (frozen e)" "IsExpired now e = IsExpired now (frozen e)" "se_Value e = se_Value (frozen e)" for e
    by (simp_all add: frozen_def IsExpired_def)
  show "se_SingleRead e = se_SingleRead e'" "IsExpired now e = IsExpired now e'" "se_Value e = se_Value e'"
    by (simp_all only: f [of e] f [of e'] assms)
qed

text \<open>A single-read entry that was taken.\<close>

definition taken :: "storage_entry \<Rightarrow> bool" where
  "taken e \<longleftrightarrow> se_SingleRead e \<and> se_AccessCount e \<noteq> 0"

text \<open>Memory only grows, entries keep their frozen part, and what was taken stays taken.\<close>

definition later :: "storage_entry list \<Rightarrow> storage_entry list \<Rightarrow> bool" where
  "later h h' \<longleftrightarrow> length h \<le> length h' \<and>
     (\<forall>r < length h. frozen (h' ! r) = frozen (h ! r) \<and> (taken (h ! r) \<longrightarrow> taken (h' ! r)))"

lemma later_refl [simp]: "later h h"
  by (simp add: later_def)

lemma later_append [simp]: "later h (h @ es)"
  by (simp add: later_def nth_append)

lemma later_update:
  assumes "frozen e = frozen (h ! r)" "taken (h ! r) \<Longrightarrow> taken e"
  shows "later h (h[r := e])"
  using assms by (cases "r < length h") (auto simp: later_def nth_list_update)

text \<open>What is known about the cell \<open>r\<close> at each point of a \<open>Get\<close>.\<close>

fun pc_ref :: "reader_pc \<Rightarrow> nat option" where
  "pc_ref (Loaded idx) = None"
| "pc_ref (Found r) = Some r"
| "pc_ref (Live r) = Some r"
| "pc_ref (Counted r) = Some r"
| "pc_ref (Copying r) = Some r"
| "pc_ref (Returned res) = map_option fst res"

fun pc_ok :: "storage_entry list \<Rightarrow> reader_pc \<Rightarrow> bool" where
  "pc_ok h (Counted r) = (\<not> se_SingleRead (h ! r))"
| "pc_ok h (Copying r) = (se_SingleRead (h ! r) \<longrightarrow> taken (h ! r))"
| "pc_ok h (Returned (Some (r, e))) = (frozen e = frozen (h ! r) \<and> (se_SingleRead (h ! r) \<longrightarrow> taken (h ! r)))"
| "pc_ok h pc = True"

text \<open>Why a reader answered that there is nothing.\<close>

definition absent :: "hasher \<Rightarrow> storage_entry list \<Rightarrow> ref_index \<Rightarrow> gostring \<Rightarrow> bool" where
  "absent hash h idx k \<longleftrightarrow>
     (case ref_lookup hash idx k of
        None \<Rightarrow> True | Some r \<Rightarrow> r < length h \<and> (taken (h ! r) \<or> (\<exists>now. IsExpired now (h ! r))))"

definition reader_ok :: "hasher \<Rightarrow> storage_entry list \<Rightarrow> ref_index list \<Rightarrow> reader \<Rightarrow> bool" where
  "reader_ok hash h idxs rd \<longleftrightarrow>
     rd_start rd < length idxs \<and> pc_ok h (rd_pc rd) \<and>
     (\<forall>idx. rd_pc rd = Loaded idx \<longrightarrow> idx = idxs ! rd_start rd) \<and>
     (\<forall>r. pc_ref (rd_pc rd) = Some r \<longrightarrow> r < length h \<and> ref_lookup hash (idxs ! rd_start rd) (rd_key rd) = Some r) \<and>
     (rd_pc rd = Returned None \<longrightarrow> absent hash h (idxs ! rd_start rd) (rd_key rd))"

lemma pc_ok_later:
  assumes "pc_ok h pc" "later h h'" "\<And>r. pc_ref pc = Some r \<Longrightarrow> r < length h"
  shows "pc_ok h' pc"
proof (cases "pc_ref pc")
  case (Some r)
  then have r: "r < length h" by (rule assms(3))
  have f: "frozen (h' ! r) = frozen (h ! r)" "taken (h ! r) \<longrightarrow> taken (h' ! r)" using assms(2) r by (simp_all add: later_def)
  have "se_SingleRead (h' ! r) = se_SingleRead (h ! r)" by (rule frozen_eqD(1) [OF f(1)])
  then show ?thesis using assms(1) Some f by (cases "(h, pc)" rule: pc_ok.cases) simp_all
qed (cases "(h, pc)" rule: pc_ok.cases; simp)

lemma absent_later:
  assumes "absent hash h idx k" "later h h'"
  shows "absent hash h' idx k"
proof (cases "ref_lookup hash idx k")
  case (Some r)
  then have r: "r < length h" "taken (h ! r) \<or> (\<exists>now. IsExpired now (h ! r))" using assms(1) by (simp_all add: absent_def)
  have "frozen (h' ! r) = frozen (h ! r)" "taken (h ! r) \<longrightarrow> taken (h' ! r)" "r < length h'"
    using assms(2) r(1) by (simp_all add: later_def)
  then show ?thesis using r(2) frozen_eqD(2) [of "h' ! r" "h ! r"] by (simp add: absent_def Some) blast
qed (simp add: absent_def)

lemma reader_ok_later:
  assumes "reader_ok hash h idxs rd" "later h h'"
  shows "reader_ok hash h' (idxs @ newer) rd"
  using assms pc_ok_later [of h "rd_pc rd" h'] absent_later [of hash h _ _ h']
  by (auto simp: reader_ok_def nth_append later_def)

section \<open>The invariant\<close>

text \<open>The cell whose entry a reader was given.\<close>

fun got :: "reader_pc \<Rightarrow> nat option" where
  "got (Copying r) = Some r"
| "got (Returned res) = map_option fst res"
| "got pc = None"

definition got_once :: "cow_state \<Rightarrow> bool" where
  "got_once s \<longleftrightarrow>
     (\<forall>i j r. i < length (co_readers s) \<longrightarrow> j < length (co_readers s) \<longrightarrow> got (rd_pc (co_readers s ! i)) = Some r \<longrightarrow>
        got (rd_pc (co_readers s ! j)) = Some r \<longrightarrow> se_SingleRead (co_heap s ! r) \<longrightarrow> i = j)"

definition cow_ok :: "hasher \<Rightarrow> cow_state \<Rightarrow> bool" where
  "cow_ok hash s \<longleftrightarrow>
     co_indexes s \<noteq> [] \<and> (\<forall>idx \<in> set (co_indexes s). idx_ok (length (co_heap s)) idx) \<and>
     (\<forall>rd \<in> set (co_readers s). reader_ok hash (co_heap s) (co_indexes s) rd) \<and> got_once s"

lemma got_ref: "got pc = Some r \<Longrightarrow> pc_ref pc = Some r"
  by (cases pc) auto

lemma got_taken: "pc_ok h pc \<Longrightarrow> got pc = Some r \<Longrightarrow> se_SingleRead (h ! r) \<Longrightarrow> taken (h ! r)"
  by (cases "(h, pc)" rule: pc_ok.cases) auto

lemma cow_ok_reader: "cow_ok hash s \<Longrightarrow> i < length (co_readers s) \<Longrightarrow> reader_ok hash (co_heap s) (co_indexes s) (co_readers s ! i)"
  by (simp add: cow_ok_def)

text \<open>One reader moves.\<close>

lemma cow_ok_move:
  assumes ok: "cow_ok hash s" and i: "i < length (co_readers s)" and l: "later (co_heap s) h" and len: "length h = length (co_heap s)"
    and rd: "reader_ok hash h (co_indexes s) ((co_readers s ! i)\<lparr>rd_pc := pc\<rparr>)"
    and new: "\<And>r. got pc = Some r \<Longrightarrow> r < length h \<Longrightarrow> se_SingleRead (co_heap s ! r) \<Longrightarrow>
      got (rd_pc (co_readers s ! i)) = Some r \<or> \<not> taken (co_heap s ! r)"
  shows "cow_ok hash (set_pc i pc (s\<lparr>co_heap := h, co_pending := p\<rparr>))"
proof -
  let ?rd = "co_readers s ! i"
  let ?rs = "(co_readers s)[i := ?rd\<lparr>rd_pc := pc\<rparr>]"
  have old: "reader_ok hash h (co_indexes s) x" if "x \<in> set (co_readers s)" for x
    using reader_ok_later [of hash "co_heap s" "co_indexes s" x h "[]"] ok l that by (simp add: cow_ok_def)
  have all: "\<forall>x \<in> set ?rs. reader_ok hash h (co_indexes s) x"
    using old rd set_update_subset_insert [of "co_readers s" i] by blast
  have once: "j = k" if jk: "j < length ?rs" "k < length ?rs" "got (rd_pc (?rs ! j)) = Some r" "got (rd_pc (?rs ! k)) = Some r"
      and sr: "se_SingleRead (h ! r)" for j k r
  proof -
    have "reader_ok hash h (co_indexes s) (?rs ! j)" using all nth_mem [OF jk(1)] by blast
    then have rl: "r < length h" using got_ref [OF jk(3)] by (simp add: reader_ok_def)
    have sr0: "se_SingleRead (co_heap s ! r)"
      using l rl len sr frozen_eqD(1) [of "h ! r" "co_heap s ! r"] by (simp add: later_def)
    have other: "m = i" if "m < length ?rs" "got (rd_pc (?rs ! m)) = Some r" "got pc = Some r" for m
    proof (rule ccontr)
      assume "m \<noteq> i"
      then have m: "m < length (co_readers s)" "got (rd_pc (co_readers s ! m)) = Some r" using that by simp_all
      have "taken (co_heap s ! r)"
        using got_taken [OF _ m(2) sr0] cow_ok_reader [OF ok m(1)] by (simp add: reader_ok_def)
      then have "got (rd_pc ?rd) = Some r" using new [OF that(3) rl sr0] by blast
      then show False using ok m i sr0 \<open>m \<noteq> i\<close> by (auto simp: cow_ok_def got_once_def)
    qed
    show ?thesis
    proof (cases "got pc = Some r")
      case True
      then show ?thesis using other jk by metis
    next
      case False
      then have "j \<noteq> i" "k \<noteq> i" using jk by (auto simp: i)
      then show ?thesis using ok jk sr0 by (auto simp: cow_ok_def got_once_def)
    qed
  qed
  have "got_once (set_pc i pc (s\<lparr>co_heap := h, co_pending := p\<rparr>))"
    unfolding got_once_def set_pc_def using once by simp
  then show ?thesis using ok len all by (simp add: cow_ok_def set_pc_def)
qed

text \<open>A move that writes nothing to the heap.\<close>

lemma cow_ok_move_only:
  assumes "cow_ok hash s" "i < length (co_readers s)" "reader_ok hash (co_heap s) (co_indexes s) ((co_readers s ! i)\<lparr>rd_pc := pc\<rparr>)"
    and "\<And>r. got pc = Some r \<Longrightarrow> got (rd_pc (co_readers s ! i)) = Some r"
  shows "cow_ok hash (set_pc i pc (s\<lparr>co_pending := p\<rparr>))" "cow_ok hash (set_pc i pc s)"
proof -
  show "cow_ok hash (set_pc i pc (s\<lparr>co_pending := p\<rparr>))" for p
    using cow_ok_move [OF assms(1,2) later_refl refl assms(3), of p] assms(4) by simp
  from this [of "co_pending s"] show "cow_ok hash (set_pc i pc s)" by simp
qed

lemma cow_ok_start: "cow_ok hash s \<Longrightarrow> cow_ok hash (Get_start k s)"
proof -
  assume ok: "cow_ok hash s"
  then have ne: "co_indexes s \<noteq> []" by (simp add: cow_ok_def)
  then have "snapshot s = co_indexes s ! (length (co_indexes s) - 1)" by (simp add: snapshot_def last_conv_nth)
  then have "reader_ok hash (co_heap s) (co_indexes s) \<lparr>rd_key = k, rd_start = length (co_indexes s) - 1, rd_pc = Loaded (snapshot s)\<rparr>"
    using ne by (simp add: reader_ok_def)
  then show ?thesis using ok by (auto simp: cow_ok_def Get_start_def got_once_def nth_append split: if_splits)
qed

lemma cow_ok_find:
  assumes ok: "cow_ok hash s" and i: "i < length (co_readers s)" and pc: "rd_pc (co_readers s ! i) = Loaded idx"
  shows "cow_ok hash (Get_find hash i idx s)"
proof -
  let ?rd = "co_readers s ! i"
  have rd: "rd_start ?rd < length (co_indexes s)" "idx = co_indexes s ! rd_start ?rd"
    using cow_ok_reader [OF ok i] pc by (simp_all add: reader_ok_def)
  have io: "idx_ok (length (co_heap s)) idx" "idx_ok (length (co_heap s)) (snapshot s)"
    using ok rd by (simp_all add: cow_ok_def snapshot_def)
  obtain j found where b: "BinarySearch (rg_keys (idx ! ref_segmentIndexOf hash idx (rd_key ?rd))) (rd_key ?rd) = (j, found)" by fastforce
  let ?r = "rg_vals (idx ! ref_segmentIndexOf hash idx (rd_key ?rd)) ! j"
  have lk: "ref_lookup hash idx (rd_key ?rd) = (if found then Some ?r else None)" by (simp add: ref_lookup_def Let_def b)
  have eq: "Get_find hash i idx s = (if found then set_pc i (Found ?r) s else set_pc i (Returned None) s)"
    by (simp add: Get_find_def Let_def ref_segment_cong [OF io] b)
  show ?thesis
  proof (cases found)
    case True
    have "?r < length (co_heap s)" by (rule ref_lookup_less [OF io(1), of hash "rd_key ?rd"]) (simp add: lk True)
    then show ?thesis unfolding eq using True rd lk by (auto simp: reader_ok_def intro!: cow_ok_move_only(2) [OF ok i])
  next
    case False
    then show ?thesis unfolding eq using rd lk by (auto simp: reader_ok_def absent_def intro!: cow_ok_move_only(2) [OF ok i])
  qed
qed

lemma reader_at:
  assumes "cow_ok hash s" "i < length (co_readers s)" "pc_ref (rd_pc (co_readers s ! i)) = Some r"
  shows "r < length (co_heap s)" "rd_start (co_readers s ! i) < length (co_indexes s)"
    "ref_lookup hash (co_indexes s ! rd_start (co_readers s ! i)) (rd_key (co_readers s ! i)) = Some r"
    "pc_ok (co_heap s) (rd_pc (co_readers s ! i))"
  using cow_ok_reader [OF assms(1,2)] assms(3) by (simp_all add: reader_ok_def)

lemma cow_ok_expired:
  assumes ok: "cow_ok hash s" and i: "i < length (co_readers s)" and pc: "rd_pc (co_readers s ! i) = Found r"
  shows "cow_ok hash (Get_expired now i r s)"
proof -
  have ref: "pc_ref (rd_pc (co_readers s ! i)) = Some r" by (simp add: pc)
  note at = reader_at [OF ok i ref]
  show ?thesis
  proof (cases "IsExpired now (co_heap s ! r)")
    case True
    then show ?thesis using at
      by (auto simp: Get_expired_def reader_ok_def absent_def intro!: cow_ok_move_only(1) [OF ok i])
  next
    case False
    then show ?thesis using at by (auto simp: Get_expired_def reader_ok_def intro!: cow_ok_move_only(2) [OF ok i])
  qed
qed

lemma cow_ok_count:
  assumes ok: "cow_ok hash s" and i: "i < length (co_readers s)" and pc: "rd_pc (co_readers s ! i) = Live r"
  shows "cow_ok hash (Get_count i r s)"
proof -
  let ?e = "co_heap s ! r"
  have ref: "pc_ref (rd_pc (co_readers s ! i)) = Some r" by (simp add: pc)
  note at = reader_at [OF ok i ref]
  consider (win) "se_SingleRead ?e" "se_AccessCount ?e = 0" | (lost) "se_SingleRead ?e" "se_AccessCount ?e \<noteq> 0"
    | (many) "\<not> se_SingleRead ?e" by blast
  then show ?thesis
  proof cases
    case win
    let ?h = "(co_heap s)[r := ?e\<lparr>se_AccessCount := 1\<rparr>]"
    have l: "later (co_heap s) ?h" by (rule later_update) (use win in \<open>simp_all add: taken_def\<close>)
    have "reader_ok hash ?h (co_indexes s) ((co_readers s ! i)\<lparr>rd_pc := Copying r\<rparr>)"
      using at by (simp add: reader_ok_def taken_def)
    from cow_ok_move [OF ok i l _ this] win show ?thesis by (simp add: Get_count_def Let_def taken_def)
  next
    case lost
    then show ?thesis using at
      by (auto simp: Get_count_def reader_ok_def absent_def taken_def intro!: cow_ok_move_only(2) [OF ok i])
  next
    case many
    let ?h = "(co_heap s)[r := ?e\<lparr>se_AccessCount := i32 (se_AccessCount ?e + 1)\<rparr>]"
    have l: "later (co_heap s) ?h" by (rule later_update) (use many in \<open>simp_all add: taken_def\<close>)
    have "reader_ok hash ?h (co_indexes s) ((co_readers s ! i)\<lparr>rd_pc := Counted r\<rparr>)"
      using at many by (simp add: reader_ok_def)
    from cow_ok_move [OF ok i l _ this, of "co_pending s"] many show ?thesis by (simp add: Get_count_def Let_def)
  qed
qed

lemma cow_ok_stamp:
  assumes ok: "cow_ok hash s" and i: "i < length (co_readers s)" and pc: "rd_pc (co_readers s ! i) = Counted r"
  shows "cow_ok hash (Get_stamp cached i r s)"
proof -
  let ?h = "(co_heap s)[r := (co_heap s ! r)\<lparr>se_LastAccess := cached\<rparr>]"
  have ref: "pc_ref (rd_pc (co_readers s ! i)) = Some r" by (simp add: pc)
  note at = reader_at [OF ok i ref]
  have many: "\<not> se_SingleRead (co_heap s ! r)" using at(4) by (simp add: pc)
  have l: "later (co_heap s) ?h" by (rule later_update) (simp_all add: taken_def)
  have "reader_ok hash ?h (co_indexes s) ((co_readers s ! i)\<lparr>rd_pc := Copying r\<rparr>)"
    using at(1-3) many by (simp add: reader_ok_def)
  from cow_ok_move [OF ok i l _ this, of "co_pending s"] many show ?thesis by (simp add: Get_stamp_def)
qed

lemma cow_ok_copy:
  assumes ok: "cow_ok hash s" and i: "i < length (co_readers s)" and pc: "rd_pc (co_readers s ! i) = Copying r"
  shows "cow_ok hash (Get_copy i r s)"
proof -
  have ref: "pc_ref (rd_pc (co_readers s ! i)) = Some r" by (simp add: pc)
  note at = reader_at [OF ok i ref]
  have "reader_ok hash (co_heap s) (co_indexes s) ((co_readers s ! i)\<lparr>rd_pc := Returned (Some (r, co_heap s ! r))\<rparr>)"
    using at by (simp add: reader_ok_def pc)
  from cow_ok_move_only(2) [OF ok i this] show ?thesis by (simp add: Get_copy_def pc)
qed

lemma cow_ok_grow:
  assumes ok: "cow_ok hash s" and h: "later (co_heap s) h" and idx: "\<forall>idx \<in> set new. idx_ok (length h) idx"
  shows "cow_ok hash (s\<lparr>co_heap := h, co_indexes := co_indexes s @ new\<rparr>)"
proof -
  have len: "length (co_heap s) \<le> length h" using h by (simp add: later_def)
  have once: "i = j" if "i < length (co_readers s)" "j < length (co_readers s)" "got (rd_pc (co_readers s ! i)) = Some r"
      "got (rd_pc (co_readers s ! j)) = Some r" "se_SingleRead (h ! r)" for i j r
  proof -
    have "r < length (co_heap s)" by (rule reader_at(1) [OF ok that(1) got_ref [OF that(3)]])
    then have "se_SingleRead (co_heap s ! r)" using h that(5) frozen_eqD(1) [of "h ! r" "co_heap s ! r"] by (simp add: later_def)
    then show ?thesis using ok that by (auto simp: cow_ok_def got_once_def)
  qed
  then have "got_once (s\<lparr>co_heap := h, co_indexes := co_indexes s @ new\<rparr>)" by (simp add: got_once_def)
  moreover have "\<forall>idx \<in> set (co_indexes s). idx_ok (length h) idx" using ok idx_ok_mono [OF _ len] by (simp add: cow_ok_def)
  moreover have "\<forall>rd \<in> set (co_readers s). reader_ok hash h (co_indexes s @ new) rd"
    using ok reader_ok_later [OF _ h] by (simp add: cow_ok_def)
  ultimately show ?thesis using ok idx by (auto simp: cow_ok_def)
qed

lemma snapshot_ok: "cow_ok hash s \<Longrightarrow> idx_ok (length (co_heap s)) (snapshot s)"
  by (simp add: cow_ok_def snapshot_def)

lemma cow_ok_set: "cow_ok hash s \<Longrightarrow> cow_ok hash (Set_publish hash env k v s)"
proof -
  assume ok: "cow_ok hash s"
  have "idx_ok (length (co_heap s) + 1) (ref_insert hash (snapshot s) k (length (co_heap s)))"
    by (rule idx_ok_insert [OF idx_ok_mono [OF snapshot_ok [OF ok]]]) simp_all
  then show ?thesis unfolding Set_publish_def by (intro cow_ok_grow [OF ok later_append]) simp
qed

lemma cow_ok_delete: "cow_ok hash s \<Longrightarrow> cow_ok hash (Delete_publish hash ks s)"
proof -
  assume ok: "cow_ok hash s"
  obtain idx delta where d: "fold (ref_delete hash (co_heap s)) ks (snapshot s, 0) = (idx, delta)" by fastforce
  have "idx_ok (length (co_heap s)) idx"
    using idx_ok_deletes [of _ "(snapshot s, 0)" hash "co_heap s" ks] snapshot_ok [OF ok] d by simp
  then have "cow_ok hash (s\<lparr>co_heap := co_heap s, co_indexes := co_indexes s @ [idx]\<rparr>)"
    by (intro cow_ok_grow [OF ok later_refl]) simp
  then show ?thesis using ok by (simp add: Delete_publish_def d)
qed

lemma cow_ok_step: "cow_ok hash s \<Longrightarrow> cow_step hash a s = Some s' \<Longrightarrow> cow_ok hash s'"
proof (cases a)
  case (GetStep env i)
  assume "cow_ok hash s" "cow_step hash a s = Some s'"
  then show ?thesis using GetStep
    by (auto simp: Get_step_def cow_ok_find cow_ok_expired cow_ok_count cow_ok_stamp cow_ok_copy
        split: if_splits reader_pc.splits)
qed (auto simp: cow_ok_start cow_ok_set cow_ok_delete)

lemma cow_ok_run: "cow_run hash as new_cow = Some s \<Longrightarrow> cow_ok hash s"
proof -
  assume r: "cow_run hash as new_cow = Some s"
  have "cow_ok hash new_cow" by (simp add: cow_ok_def new_cow_def idx_ok_def got_once_def)
  then show ?thesis by (rule cow_run_invariant [where I = "cow_ok hash", OF r]) (rule cow_ok_step)
qed

section \<open>One operation at a time\<close>

text \<open>The index with its pointers followed is the state of \<open>Memory_Store\<close>.\<close>

definition deref :: "storage_entry list \<Rightarrow> ref_index \<Rightarrow> segment list" where
  "deref h idx = map (\<lambda>seg. \<lparr>seg_keys = rg_keys seg, seg_vals = map ((!) h) (rg_vals seg)\<rparr>) idx"

lemma length_deref [simp]: "length (deref h idx) = length idx"
  by (simp add: deref_def)

lemma deref_nth: "i < length idx \<Longrightarrow> deref h idx ! i = \<lparr>seg_keys = rg_keys (idx ! i), seg_vals = map ((!) h) (rg_vals (idx ! i))\<rparr>"
  by (simp add: deref_def)

lemma deref_append: "idx_ok (length h) idx \<Longrightarrow> deref (h @ es) idx = deref h idx"
  by (auto simp: deref_def idx_ok_def nth_append)

lemma map_insert_at: "i \<le> length xs \<Longrightarrow> map f (insert_at z i x xs) = insert_at (f x) i (f x) (map f xs)"
  by (simp add: insert_at_eq take_map drop_map)

lemma segment_of_ref: "segment_of hash (length idx) k = ref_segmentIndexOf hash idx k"
  by (simp add: segment_of_def ref_segmentIndexOf_def)

lemma Set_publish_refines:
  assumes ok: "idx_ok (length (co_heap s)) (snapshot s)" and m: "ms_segments m = deref (co_heap s) (snapshot s)"
  shows "ms_segments (fst (MemoryStore_Set env hash m k v)) =
    deref (co_heap (Set_publish hash env k v s)) (snapshot (Set_publish hash env k v s))"
proof -
  let ?idx = "snapshot s" and ?h = "co_heap s" and ?si = "ref_segmentIndexOf hash (snapshot s) k"
  let ?e = "stamped env v"
  let ?h' = "?h @ [?e]"
  obtain i found where b: "BinarySearch (rg_keys (?idx ! ?si)) k = (i, found)" by fastforce
  have si: "?si < length ?idx" by (rule ref_segment_less [OF ok])
  note sg = idx_ok_segment [OF ok, of hash k]
  have i: "i \<le> length (rg_vals (?idx ! ?si))" using BinarySearch_le_length [OF b] sg(1) by simp
  have vals: "map ((!) ?h') (rg_vals (?idx ! ?si)) = map ((!) ?h) (rg_vals (?idx ! ?si))" using sg(2) by (auto simp: nth_append)
  have e: "?h' ! length ?h = ?e" by simp
  have old: "deref ?h' ?idx = deref ?h ?idx" by (rule deref_append [OF ok])
  have upd: "deref ?h' (?idx[?si := seg]) =
      (deref ?h ?idx)[?si := \<lparr>seg_keys = rg_keys seg, seg_vals = map ((!) ?h') (rg_vals seg)\<rparr>]" for seg
    unfolding old [symmetric] by (simp add: deref_def map_update)
  have b': "BinarySearch (seg_keys (ms_segments m ! ?si)) k = (i, found)" by (simp add: m deref_nth [OF si] b)
  have new: "co_heap (Set_publish hash env k v s) = ?h'" "snapshot (Set_publish hash env k v s) = ref_insert hash ?idx k (length ?h)"
    by (simp_all add: Set_publish_def snapshot_def)
  show ?thesis
  proof (cases found)
    case True
    have "ms_segments (fst (MemoryStore_Set env hash m k v)) =
        (deref ?h ?idx)[?si := \<lparr>seg_keys = rg_keys (?idx ! ?si), seg_vals = (map ((!) ?h) (rg_vals (?idx ! ?si)))[i := ?e]\<rparr>]"
      using b' True by (auto simp: MemoryStore_Set_def Let_def segment_of_ref m deref_nth [OF si] split: sum.splits)
    then show ?thesis by (simp add: new ref_insert_def Let_def b True upd map_update vals e)
  next
    case False
    have "ms_segments (fst (MemoryStore_Set env hash m k v)) =
        (deref ?h ?idx)[?si := \<lparr>seg_keys = insert_at [] i k (rg_keys (?idx ! ?si)),
           seg_vals = insert_at ?e i ?e (map ((!) ?h) (rg_vals (?idx ! ?si)))\<rparr>]"
      using b' False by (auto simp: MemoryStore_Set_def Let_def segment_of_ref m deref_nth [OF si] split: sum.splits)
    then show ?thesis by (simp add: new ref_insert_def Let_def b False upd map_insert_at [OF i] vals e)
  qed
qed

text \<open>The steps of a \<open>Get\<close>, unfolded.\<close>

lemmas get_steps = Get_step_def Get_find_def Get_expired_def Get_count_def Get_stamp_def Get_copy_def set_pc_def
  Get_start_def snapshot_def Let_def

section \<open>Properties\<close>

text \<open>C2: A single-read value is delivered at most once also under concurrency: in every interleaving of any
  number of readers with writers and deletions, at the granularity of the atomic accesses and with readers that
  still hold an older index, no two calls of \<open>Get\<close> return the same stored single-read entry.\<close>

theorem concurrent_single_read_once:
  assumes "cow_run hash as new_cow = Some s" "i < length (co_readers s)" "j < length (co_readers s)"
    and "rd_pc (co_readers s ! i) = Returned (Some (r, e))" "rd_pc (co_readers s ! j) = Returned (Some (r, e'))"
    and "se_SingleRead e"
  shows "i = j"
proof -
  note ok = cow_ok_run [OF assms(1)]
  have "pc_ok (co_heap s) (rd_pc (co_readers s ! i))" by (rule reader_at(4) [OF ok assms(2)]) (simp add: assms(4))
  then have "se_SingleRead (co_heap s ! r)"
    using assms(6) frozen_eqD(1) [of e "co_heap s ! r"] by (simp add: assms(4))
  then show ?thesis using ok assms(2-5) by (auto simp: cow_ok_def got_once_def)
qed

text \<open>A \<open>Get\<close> is answered from one index, the one that was current when it was called, whatever writers
  publish while it runs: an entry it returns was then bound to its key and is unchanged but for its counters, and
  if it returns none, then the key was not bound, or its entry has expired or was taken by a reader.\<close>

theorem concurrent_get_snapshot:
  assumes "cow_run hash as new_cow = Some s" "rd \<in> set (co_readers s)" "rd_pc rd = Returned res"
  shows "rd_start rd < length (co_indexes s) \<and>
    (case res of
       Some (r, e) \<Rightarrow> ref_lookup hash (co_indexes s ! rd_start rd) (rd_key rd) = Some r \<and> frozen e = frozen (co_heap s ! r)
     | None \<Rightarrow>
         (case ref_lookup hash (co_indexes s ! rd_start rd) (rd_key rd) of
            None \<Rightarrow> True
          | Some r \<Rightarrow> taken (co_heap s ! r) \<or> (\<exists>now. IsExpired now (co_heap s ! r))))"
proof -
  have "reader_ok hash (co_heap s) (co_indexes s) rd" using cow_ok_run [OF assms(1)] assms(2) by (simp add: cow_ok_def)
  then show ?thesis using assms(3) by (auto simp: reader_ok_def absent_def split: option.splits)
qed

text \<open>Two readers and a writer: both readers load the index with the single-read entry and find it, the key is
  set again, then both go on; the first gets the old value and the second nothing.\<close>

definition race :: "cow_action list" where
  "race =
     [SetPublish sample_env (str ''k'') (sample_entry [1] 0 True), GetStart (str ''k''), GetStart (str ''k''),
      GetStep sample_env 0, GetStep sample_env 1, SetPublish sample_env (str ''k'') (sample_entry [2] 0 True),
      GetStep sample_env 0, GetStep sample_env 1, GetStep sample_env 1, GetStep sample_env 0, GetStep sample_env 1]"

definition race_end :: "cow_state option \<Rightarrow> bool" where
  "race_end res =
     (case res of
        None \<Rightarrow> False
      | Some s \<Rightarrow> map rd_start (co_readers s) = [1, 1] \<and> length (co_indexes s) = 3 \<and>
          (case map rd_pc (co_readers s) of
             [Returned None, Returned (Some (r, e))] \<Rightarrow> r = 0 \<and> se_SingleRead e \<and> se_Value e = [1]
           | _ \<Rightarrow> False))"

lemma race_ends: "race_end (cow_run (\<lambda>_. 0) race new_cow)"
  by code_simp

lemma race_result:
  "\<exists>s e rd0 rd1. cow_run (\<lambda>_. 0) race new_cow = Some s \<and> co_readers s = [rd0, rd1] \<and> rd_start rd0 = 1 \<and> length (co_indexes s) = 3 \<and>
     rd_pc rd0 = Returned None \<and> rd_pc rd1 = Returned (Some (0, e)) \<and> se_SingleRead e \<and> se_Value e = [1]"
  using race_ends by (auto simp: race_end_def map_eq_Cons_conv split: option.splits list.splits reader_pc.splits) (metis not_None_eq surj_pair)

theorem concurrent_single_read_once_witness:
  "\<exists>s e. cow_run (\<lambda>_. 0) race new_cow = Some s \<and> rd_pc (co_readers s ! 1) = Returned (Some (0, e)) \<and> se_SingleRead e \<and>
     (\<forall>e'. rd_pc (co_readers s ! 0) \<noteq> Returned (Some (0, e')))"
proof -
  obtain s e rd0 rd1 where s: "cow_run (\<lambda>_. 0) race new_cow = Some s" "co_readers s = [rd0, rd1]"
      "rd_pc rd1 = Returned (Some (0, e))" "se_SingleRead e"
    using race_result by blast
  have "rd_pc (co_readers s ! 0) \<noteq> Returned (Some (0, e'))" for e'
    using concurrent_single_read_once [OF s(1), of 1 0 0 e e'] s(2-4) by auto
  then show ?thesis using s by (intro exI [of _ s] exI [of _ e]) simp
qed

theorem concurrent_get_snapshot_witness:
  "\<exists>s rd e. cow_run (\<lambda>_. 0) race new_cow = Some s \<and> rd \<in> set (co_readers s) \<and> rd_start rd + 1 < length (co_indexes s) \<and>
     rd_pc rd = Returned (Some (0, e)) \<and> ref_lookup (\<lambda>_. 0) (co_indexes s ! rd_start rd) (rd_key rd) = Some 0"
proof -
  obtain s e rd0 rd1 where s: "cow_run (\<lambda>_. 0) race new_cow = Some s" "co_readers s = [rd0, rd1]"
      "rd_pc rd1 = Returned (Some (0, e))" "length (co_indexes s) = 3"
    using race_result by blast
  have rd: "rd1 \<in> set (co_readers s)" by (simp add: s(2))
  have "rd_start rd1 = 1" using race_ends s(1,2) by (simp add: race_end_def)
  then show ?thesis using concurrent_get_snapshot [OF s(1) rd s(3)] s(1,3,4) rd
    by (intro exI [of _ s] exI [of _ rd1] exI [of _ e]) simp
qed

end
