(* ===== verification/Shard_Container.thy ===== *)
theory Shard_Container
  imports Memory_Store
begin

text \<open>
  The shard container of \<open>internal/engine/sharding.go\<close>: an array of stores behind the \<open>Store\<close>
  interface of \<open>internal/engine/types.go\<close>, each key routed by its hash. The interface is a record of
  methods, as Go's dispatch has it; its contract is the locale \<open>store_laws\<close>, in which the container
  is shown to be one map, and the locale is interpreted on the in-memory store.
\<close>

section \<open>The interface\<close>

record 's store_methods =
  m_Set :: "env \<Rightarrow> 's \<Rightarrow> gostring \<Rightarrow> storage_entry \<Rightarrow> 's \<times> go_panic option"
  m_Get :: "env \<Rightarrow> 's \<Rightarrow> gostring \<Rightarrow> storage_entry option \<times> 's"
  m_Delete :: "'s \<Rightarrow> gostring \<Rightarrow> 's \<times> go_panic option"
  m_Exists :: "'s \<Rightarrow> gostring \<Rightarrow> bool"
  m_Keys :: "'s \<Rightarrow> gostring list"
  m_StartGC :: "'s \<Rightarrow> 's"
  m_StopGC :: "'s \<Rightarrow> 's"
  m_Usage :: "'s \<Rightarrow> int"
  m_Count :: "'s \<Rightarrow> int"

definition cow_methods :: "hasher \<Rightarrow> memory_store store_methods" where
  "cow_methods hash =
     \<lparr>m_Set = (\<lambda>env. MemoryStore_Set env hash), m_Get = (\<lambda>env. MemoryStore_Get env hash),
      m_Delete = MemoryStore_Delete hash, m_Exists = MemoryStore_Exists hash,
      m_Keys = MemoryStore_Keys, m_StartGC = MemoryStore_StartGC, m_StopGC = MemoryStore_StopGC,
      m_Usage = MemoryStore_Usage, m_Count = MemoryStore_Count\<rparr>"

section \<open>The container\<close>

record 's shard_container =
  sc_shards :: "'s list"
  sc_shardCount :: int

definition NewShardContainer :: "(go_time \<Rightarrow> 's) \<Rightarrow> go_time \<Rightarrow> int \<Rightarrow> 's shard_container" where
  "NewShardContainer new now shardCount =
     (let n = (if shardCount < 1 then 1 else shardCount)
      in \<lparr>sc_shards = replicate (nat n) (new now), sc_shardCount = n\<rparr>)"

definition getShard :: "hasher \<Rightarrow> 's shard_container \<Rightarrow> gostring \<Rightarrow> nat" where
  "getShard hash sc key = unat (hash key mod word_of_int (sc_shardCount sc))"

definition ShardContainer_Set ::
  "'s store_methods \<Rightarrow> env \<Rightarrow> hasher \<Rightarrow> 's shard_container \<Rightarrow> gostring \<Rightarrow> storage_entry
    \<Rightarrow> 's shard_container \<times> go_panic option" where
  "ShardContainer_Set m env hash sc key e =
     (let i = getShard hash sc key; (s, p) = m_Set m env (sc_shards sc ! i) key e
      in (sc\<lparr>sc_shards := (sc_shards sc)[i := s]\<rparr>, p))"

definition ShardContainer_Get ::
  "'s store_methods \<Rightarrow> env \<Rightarrow> hasher \<Rightarrow> 's shard_container \<Rightarrow> gostring
    \<Rightarrow> storage_entry option \<times> 's shard_container" where
  "ShardContainer_Get m env hash sc key =
     (let i = getShard hash sc key; (r, s) = m_Get m env (sc_shards sc ! i) key
      in (r, sc\<lparr>sc_shards := (sc_shards sc)[i := s]\<rparr>))"

definition ShardContainer_Delete ::
  "'s store_methods \<Rightarrow> hasher \<Rightarrow> 's shard_container \<Rightarrow> gostring
    \<Rightarrow> 's shard_container \<times> go_panic option" where
  "ShardContainer_Delete m hash sc key =
     (let i = getShard hash sc key; (s, p) = m_Delete m (sc_shards sc ! i) key
      in (sc\<lparr>sc_shards := (sc_shards sc)[i := s]\<rparr>, p))"

definition ShardContainer_Exists :: "'s store_methods \<Rightarrow> hasher \<Rightarrow> 's shard_container \<Rightarrow> gostring \<Rightarrow> bool" where
  "ShardContainer_Exists m hash sc key = m_Exists m (sc_shards sc ! getShard hash sc key) key"

text \<open>One goroutine per shard sends its keys on a channel; \<open>order\<close> is the order of arrival.\<close>

definition ShardContainer_Keys :: "'s store_methods \<Rightarrow> nat list \<Rightarrow> 's shard_container \<Rightarrow> gostring list" where
  "ShardContainer_Keys m order sc = concat (map (\<lambda>i. m_Keys m (sc_shards sc ! i)) order)"

definition ShardContainer_StartGC :: "'s store_methods \<Rightarrow> 's shard_container \<Rightarrow> 's shard_container" where
  "ShardContainer_StartGC m sc = sc\<lparr>sc_shards := map (m_StartGC m) (sc_shards sc)\<rparr>"

definition ShardContainer_StopGC :: "'s store_methods \<Rightarrow> 's shard_container \<Rightarrow> 's shard_container" where
  "ShardContainer_StopGC m sc = sc\<lparr>sc_shards := map (m_StopGC m) (sc_shards sc)\<rparr>"

definition ShardContainer_Close :: "'s store_methods \<Rightarrow> 's shard_container \<Rightarrow> 's shard_container" where
  "ShardContainer_Close m sc = sc\<lparr>sc_shards := map (m_StopGC m) (sc_shards sc)\<rparr>"

definition ShardContainer_Count :: "'s store_methods \<Rightarrow> 's shard_container \<Rightarrow> int" where
  "ShardContainer_Count m sc = foldl (\<lambda>total s. total + m_Count m s) 0 (sc_shards sc)"

definition ShardContainer_Usage :: "'s store_methods \<Rightarrow> 's shard_container \<Rightarrow> int" where
  "ShardContainer_Usage m sc = foldl (\<lambda>total s. total + m_Usage m s) 0 (sc_shards sc)"

section \<open>The contract of a store\<close>

text \<open>\<open>amap\<close> is the finite map a store stands for, \<open>ok\<close> its invariant and \<open>acc\<close> says that its
  counters agree with its contents.\<close>

locale store_laws =
  fixes m :: "'s store_methods" and amap :: "'s \<Rightarrow> gostring \<rightharpoonup> storage_entry"
    and ok :: "'s \<Rightarrow> bool" and acc :: "'s \<Rightarrow> bool"
  assumes set_law: "\<lbrakk>ok s; m_Set m env s k v = (s', p)\<rbrakk> \<Longrightarrow>
      ok s' \<and> amap s' = (amap s)(k \<mapsto> stamped env v) \<and> (acc s \<longrightarrow> acc s')"
    and get_law: "\<lbrakk>ok s; m_Get m env s k = (r, s')\<rbrakk> \<Longrightarrow>
      ok s' \<and> r = Option.bind (amap s k) (read_entry env) \<and>
      amap s' = (case r of None \<Rightarrow> amap s | Some e \<Rightarrow> (amap s)(k \<mapsto> e)) \<and> (acc s \<longrightarrow> acc s')"
    and delete_law: "\<lbrakk>ok s; m_Delete m s k = (s', None); sizes_pos (amap s) {k}\<rbrakk> \<Longrightarrow>
      ok s' \<and> amap s' = (amap s)(k := None) \<and> (acc s \<longrightarrow> acc s')"
    and delete_any_law: "\<lbrakk>ok s; m_Delete m s k = (s', p)\<rbrakk> \<Longrightarrow>
      ok s' \<and> (amap s' = amap s \<or> p = None \<and> amap s' = (amap s)(k := None))"
    and exists_law: "ok s \<Longrightarrow> m_Exists m s k \<longleftrightarrow> amap s k \<noteq> None"
    and keys_law: "ok s \<Longrightarrow> distinct (m_Keys m s) \<and> set (m_Keys m s) = dom (amap s)"
    and count_law: "\<lbrakk>ok s; acc s\<rbrakk> \<Longrightarrow> m_Count m s = int (card (dom (amap s)))"
    and usage_law: "\<lbrakk>ok s; acc s\<rbrakk> \<Longrightarrow> m_Usage m s = (\<Sum>k \<in> dom (amap s). sizeOf k (the (amap s k)))"
    and gc_law: "ok s \<Longrightarrow> ok (m_StartGC m s) \<and> ok (m_StopGC m s) \<and>
      amap (m_StartGC m s) = amap s \<and> amap (m_StopGC m s) = amap s \<and>
      acc (m_StartGC m s) = acc s \<and> acc (m_StopGC m s) = acc s"

lemma sizes_pos_single: "0 < length k \<Longrightarrow> sizes_pos M {k}"
  by (auto simp: sizes_pos_def sizeOf_def add_pos_nonneg)

interpretation cow: store_laws "cow_methods hash" "store_map hash" "store_ok hash" counters_ok
  for hash
proof
  fix s s' :: memory_store and env k v p r
  note ms = cow_methods_def
  show "store_ok hash s' \<and> store_map hash s' = (store_map hash s)(k \<mapsto> stamped env v) \<and> (counters_ok s \<longrightarrow> counters_ok s')"
    if "store_ok hash s" "m_Set (cow_methods hash) env s k v = (s', p)"
    using MemoryStore_Set_correct(1-3) [OF that(1)] that(2) by (simp add: ms)
  show "store_ok hash s' \<and> r = Option.bind (store_map hash s k) (read_entry env) \<and>
      store_map hash s' = (case r of None \<Rightarrow> store_map hash s | Some e \<Rightarrow> (store_map hash s)(k \<mapsto> e)) \<and>
      (counters_ok s \<longrightarrow> counters_ok s')"
    if "store_ok hash s" "m_Get (cow_methods hash) env s k = (r, s')"
    using MemoryStore_Get_correct(1-4) [OF that(1)] that(2) by (simp add: ms)
  show "store_ok hash s' \<and> store_map hash s' = (store_map hash s)(k := None) \<and> (counters_ok s \<longrightarrow> counters_ok s')"
    if "store_ok hash s" "m_Delete (cow_methods hash) s k = (s', None)" "sizes_pos (store_map hash s) {k}"
  proof -
    have d: "deleteBatch hash s [k] = (s', None)" using that(2) by (simp add: ms MemoryStore_Delete_def)
    have "(store_map hash s) |` (- {k}) = (store_map hash s)(k := None)"
      by (auto simp: restrict_map_def fun_eq_iff)
    then show ?thesis using deleteBatch_correct(1-3) [OF that(1) d refl] that(3) by simp
  qed
  show "store_ok hash s' \<and> (store_map hash s' = store_map hash s \<or> q = None \<and> store_map hash s' = (store_map hash s)(k := None))"
    if "store_ok hash s" "m_Delete (cow_methods hash) s k = (s', q)" for q
  proof -
    have "(store_map hash s) |` (- {k}) = (store_map hash s)(k := None)"
      by (auto simp: restrict_map_def fun_eq_iff)
    then show ?thesis using deleteBatch_any [OF that(1), of "[k]" s' q] that(2) by (simp add: ms MemoryStore_Delete_def)
  qed
qed (use MemoryStore_Exists_correct MemoryStore_Keys_correct MemoryStore_counters in \<open>simp_all add: cow_methods_def\<close>)

section \<open>The container as one map\<close>

definition container_map ::
  "('s \<Rightarrow> gostring \<rightharpoonup> storage_entry) \<Rightarrow> hasher \<Rightarrow> 's shard_container \<Rightarrow> gostring \<rightharpoonup> storage_entry" where
  "container_map amap hash sc k = amap (sc_shards sc ! getShard hash sc k) k"

definition container_ok ::
  "('s \<Rightarrow> gostring \<rightharpoonup> storage_entry) \<Rightarrow> ('s \<Rightarrow> bool) \<Rightarrow> hasher \<Rightarrow> 's shard_container \<Rightarrow> bool" where
  "container_ok amap ok hash sc \<longleftrightarrow>
     0 < sc_shardCount sc \<and> sc_shardCount sc < 2 ^ 63 \<and> length (sc_shards sc) = nat (sc_shardCount sc) \<and>
     (\<forall>i < length (sc_shards sc). ok (sc_shards sc ! i) \<and>
        (\<forall>k \<in> dom (amap (sc_shards sc ! i)). getShard hash sc k = i))"

lemma getShard_less:
  assumes "container_ok amap ok hash sc"
  shows "getShard hash sc k < length (sc_shards sc)"
proof -
  let ?n = "nat (sc_shardCount sc)"
  have n: "0 < ?n" "?n < 2 ^ 64" using assms by (auto simp: container_ok_def)
  have "(word_of_int (sc_shardCount sc) :: 64 word) = word_of_nat ?n" using assms by (simp add: container_ok_def)
  then have "getShard hash sc k = segment_of hash ?n k" by (simp add: getShard_def segment_of_def)
  then show ?thesis using segment_of_less [OF n] assms by (simp add: container_ok_def)
qed

lemma container_okD:
  assumes "container_ok amap ok hash sc"
  shows "i < length (sc_shards sc) \<Longrightarrow> ok (sc_shards sc ! i)"
    "i < length (sc_shards sc) \<Longrightarrow> k \<in> dom (amap (sc_shards sc ! i)) \<Longrightarrow> getShard hash sc k = i"
  using assms by (auto simp: container_ok_def)

lemma getShard_shards [simp]: "getShard hash (sc\<lparr>sc_shards := ss\<rparr>) k = getShard hash sc k"
  by (simp add: getShard_def)

text \<open>Replacing the shard of \<open>k\<close> by one whose map differs at \<open>k\<close> only.\<close>

lemma container_replace:
  assumes c: "container_ok amap ok hash sc" and i: "getShard hash sc k = i" and s: "ok s"
    and m: "amap s = (amap (sc_shards sc ! i))(k := v)"
  shows "container_ok amap ok hash (sc\<lparr>sc_shards := (sc_shards sc)[i := s]\<rparr>)"
    "container_map amap hash (sc\<lparr>sc_shards := (sc_shards sc)[i := s]\<rparr>) = (container_map amap hash sc)(k := v)"
proof -
  let ?sc = "sc\<lparr>sc_shards := (sc_shards sc)[i := s]\<rparr>"
  have l: "i < length (sc_shards sc)" using getShard_less [OF c, of k] i by simp
  have di: "getShard hash sc k' = i" if "k' \<in> dom (amap s)" for k'
    using that container_okD(2) [OF c l] i unfolding m by (auto split: if_splits)
  have "ok (sc_shards ?sc ! j) \<and> (\<forall>k \<in> dom (amap (sc_shards ?sc ! j)). getShard hash ?sc k = j)"
    if "j < length (sc_shards sc)" for j
    using container_okD [OF c that] di s l by (cases "j = i") auto
  then show "container_ok amap ok hash ?sc"
    using c by (simp add: container_ok_def)
  show "container_map amap hash ?sc = (container_map amap hash sc)(k := v)"
  proof
    fix k'
    show "container_map amap hash ?sc k' = ((container_map amap hash sc)(k := v)) k'"
      using fun_cong [OF m, of k'] i l
      by (cases "k' = k"; cases "getShard hash sc k' = i") (simp_all add: container_map_def)
  qed
qed

lemma container_map_all:
  assumes c: "container_ok amap ok hash sc" and f: "\<And>s. ok s \<Longrightarrow> ok (f s) \<and> amap (f s) = amap s"
  shows "container_ok amap ok hash (sc\<lparr>sc_shards := map f (sc_shards sc)\<rparr>)"
    "container_map amap hash (sc\<lparr>sc_shards := map f (sc_shards sc)\<rparr>) = container_map amap hash sc"
proof -
  let ?sc = "sc\<lparr>sc_shards := map f (sc_shards sc)\<rparr>"
  have "ok (sc_shards ?sc ! j) \<and> (\<forall>k \<in> dom (amap (sc_shards ?sc ! j)). getShard hash ?sc k = j)"
    if "j < length (sc_shards sc)" for j
    using container_okD [OF c that] f that by simp
  then show "container_ok amap ok hash ?sc" using c by (simp add: container_ok_def)
  show "container_map amap hash ?sc = container_map amap hash sc"
    using getShard_less [OF c] container_okD(1) [OF c] f by (simp add: container_map_def fun_eq_iff)
qed

context store_laws
begin

lemma sharded_set:
  assumes c: "container_ok amap ok hash sc" and r: "ShardContainer_Set m env hash sc k v = (sc', p)"
  shows "container_ok amap ok hash sc'"
    "container_map amap hash sc' = (container_map amap hash sc)(k \<mapsto> stamped env v)"
    "list_all acc (sc_shards sc) \<Longrightarrow> list_all acc (sc_shards sc')"
proof -
  let ?i = "getShard hash sc k"
  obtain s where s: "m_Set m env (sc_shards sc ! ?i) k v = (s, p)"
    and sc': "sc' = sc\<lparr>sc_shards := (sc_shards sc)[?i := s]\<rparr>"
    using r by (auto simp: ShardContainer_Set_def Let_def split: prod.splits)
  note l = getShard_less [OF c, of k]
  note law = set_law [OF container_okD(1) [OF c l] s]
  show "container_ok amap ok hash sc'"
    "container_map amap hash sc' = (container_map amap hash sc)(k \<mapsto> stamped env v)"
    using container_replace [OF c refl] law by (simp_all add: sc')
  show "list_all acc (sc_shards sc')" if "list_all acc (sc_shards sc)"
    using that law l by (auto simp: sc' list_all_length nth_list_update)
qed

lemma sharded_get:
  assumes c: "container_ok amap ok hash sc" and r: "ShardContainer_Get m env hash sc k = (res, sc')"
  shows "container_ok amap ok hash sc'" "res = Option.bind (container_map amap hash sc k) (read_entry env)"
    "container_map amap hash sc' =
      (case res of None \<Rightarrow> container_map amap hash sc | Some e \<Rightarrow> (container_map amap hash sc)(k \<mapsto> e))"
    "list_all acc (sc_shards sc) \<Longrightarrow> list_all acc (sc_shards sc')"
proof -
  let ?i = "getShard hash sc k"
  obtain s where s: "m_Get m env (sc_shards sc ! ?i) k = (res, s)"
    and sc': "sc' = sc\<lparr>sc_shards := (sc_shards sc)[?i := s]\<rparr>"
    using r by (auto simp: ShardContainer_Get_def Let_def split: prod.splits)
  note l = getShard_less [OF c, of k]
  note law = get_law [OF container_okD(1) [OF c l] s]
  have m: "amap s = (amap (sc_shards sc ! ?i))(k := (case res of None \<Rightarrow> amap (sc_shards sc ! ?i) k | Some e \<Rightarrow> Some e))"
    using law by (auto split: option.splits)
  note rep = container_replace [OF c refl _ m]
  have "ok s" using law by blast
  note rep = rep [OF this]
  show "container_ok amap ok hash sc'" using rep(1) by (simp add: sc')
  show "res = Option.bind (container_map amap hash sc k) (read_entry env)"
    using law by (simp add: container_map_def)
  show "container_map amap hash sc' =
      (case res of None \<Rightarrow> container_map amap hash sc | Some e \<Rightarrow> (container_map amap hash sc)(k \<mapsto> e))"
    unfolding sc' rep(2) by (auto simp: container_map_def split: option.splits)
  show "list_all acc (sc_shards sc')" if "list_all acc (sc_shards sc)"
    using that law l by (auto simp: sc' list_all_length nth_list_update)
qed

lemma sharded_delete:
  assumes c: "container_ok amap ok hash sc" and r: "ShardContainer_Delete m hash sc k = (sc', None)"
    and pos: "sizes_pos (container_map amap hash sc) {k}"
  shows "container_ok amap ok hash sc'" "container_map amap hash sc' = (container_map amap hash sc)(k := None)"
    "list_all acc (sc_shards sc) \<Longrightarrow> list_all acc (sc_shards sc')"
proof -
  let ?i = "getShard hash sc k"
  obtain s where s: "m_Delete m (sc_shards sc ! ?i) k = (s, None)"
    and sc': "sc' = sc\<lparr>sc_shards := (sc_shards sc)[?i := s]\<rparr>"
    using r by (auto simp: ShardContainer_Delete_def Let_def split: prod.splits)
  note l = getShard_less [OF c, of k]
  have "sizes_pos (amap (sc_shards sc ! ?i)) {k}" using pos by (simp add: sizes_pos_def container_map_def)
  note law = delete_law [OF container_okD(1) [OF c l] s this]
  show "container_ok amap ok hash sc'" "container_map amap hash sc' = (container_map amap hash sc)(k := None)"
    using container_replace [OF c refl] law by (simp_all add: sc')
  show "list_all acc (sc_shards sc')" if "list_all acc (sc_shards sc)"
    using that law l by (auto simp: sc' list_all_length nth_list_update)
qed

lemma sharded_delete_any:
  assumes c: "container_ok amap ok hash sc" and r: "ShardContainer_Delete m hash sc k = (sc', p)"
  shows "container_ok amap ok hash sc'"
    "container_map amap hash sc' = container_map amap hash sc \<or>
     p = None \<and> container_map amap hash sc' = (container_map amap hash sc)(k := None)"
proof -
  let ?i = "getShard hash sc k"
  obtain s where s: "m_Delete m (sc_shards sc ! ?i) k = (s, p)"
    and sc': "sc' = sc\<lparr>sc_shards := (sc_shards sc)[?i := s]\<rparr>"
    using r by (auto simp: ShardContainer_Delete_def Let_def split: prod.splits)
  note l = getShard_less [OF c, of k]
  note law = delete_any_law [OF container_okD(1) [OF c l] s]
  have same: "(container_map amap hash sc)(k := amap (sc_shards sc ! ?i) k) = container_map amap hash sc"
    by (simp add: container_map_def fun_eq_iff)
  have upd: "amap s = (amap (sc_shards sc ! ?i))(k := amap s k)" using law by auto
  show "container_ok amap ok hash sc'" using container_replace [OF c refl _ upd] law by (simp add: sc')
  show "container_map amap hash sc' = container_map amap hash sc \<or>
     p = None \<and> container_map amap hash sc' = (container_map amap hash sc)(k := None)"
    using container_replace [OF c refl _ upd] law same by (auto simp: sc')
qed

lemma sharded_exists:
  "container_ok amap ok hash sc \<Longrightarrow>
    ShardContainer_Exists m hash sc k \<longleftrightarrow> container_map amap hash sc k \<noteq> None"
  using exists_law [OF container_okD(1) [OF _ getShard_less]]
  by (simp add: ShardContainer_Exists_def container_map_def)

lemma container_dom:
  assumes c: "container_ok amap ok hash sc"
  shows "dom (container_map amap hash sc) = (\<Union>i < length (sc_shards sc). dom (amap (sc_shards sc ! i)))"
proof (intro set_eqI)
  fix k
  show "k \<in> dom (container_map amap hash sc) \<longleftrightarrow> k \<in> (\<Union>i < length (sc_shards sc). dom (amap (sc_shards sc ! i)))"
    using getShard_less [OF c, of k] container_okD(2) [OF c, of _ k]
    by (auto simp: container_map_def domIff)
qed

text \<open>Whatever the order in which the goroutines answer, \<open>Keys\<close> lists each key once.\<close>

lemma sharded_keys:
  assumes c: "container_ok amap ok hash sc" and o: "mset order = mset [0..<length (sc_shards sc)]"
  shows "set (ShardContainer_Keys m order sc) = dom (container_map amap hash sc)"
    "distinct (ShardContainer_Keys m order sc)"
proof -
  have so: "set order = {..<length (sc_shards sc)}"
    using arg_cong [OF o, of set_mset] by (simp add: atLeast0LessThan)
  have do: "distinct order" using o by (metis distinct_upt mset_eq_imp_distinct_iff)
  have k: "distinct (m_Keys m (sc_shards sc ! i))" "set (m_Keys m (sc_shards sc ! i)) = dom (amap (sc_shards sc ! i))"
    if "i < length (sc_shards sc)" for i using keys_law [OF container_okD(1) [OF c that]] by simp_all
  show "set (ShardContainer_Keys m order sc) = dom (container_map amap hash sc)"
    unfolding container_dom [OF c] using so k by (auto simp: ShardContainer_Keys_def)
  have "distinct (concat (map f order))"
    if "\<forall>i \<in> set order. distinct (f i)" "\<forall>i \<in> set order. \<forall>x \<in> set (f i). getShard hash sc x = i" for f
    using do that by (induction order) fastforce+
  then show "distinct (ShardContainer_Keys m order sc)"
    unfolding ShardContainer_Keys_def using so k container_okD(2) [OF c] by auto
qed

lemma sharded_count:
  assumes c: "container_ok amap ok hash sc" and a: "list_all acc (sc_shards sc)"
  shows "ShardContainer_Count m sc = int (card (dom (container_map amap hash sc)))"
    "ShardContainer_Usage m sc = (\<Sum>k \<in> dom (container_map amap hash sc). sizeOf k (the (container_map amap hash sc k)))"
proof -
  let ?n = "length (sc_shards sc)" and ?s = "\<lambda>i. sc_shards sc ! i"
  have fold: "foldl (\<lambda>total s. total + f s) t xs = t + (\<Sum>i < length xs. f (xs ! i))" for f :: "'s \<Rightarrow> int" and t xs
    by (induction xs arbitrary: t) (simp_all add: sum.lessThan_Suc_shift del: sum.lessThan_Suc)
  have law: "m_Count m (?s i) = int (card (dom (amap (?s i))))"
      "m_Usage m (?s i) = (\<Sum>k \<in> dom (amap (?s i)). sizeOf k (the (amap (?s i) k)))" if "i < ?n" for i
    using count_law usage_law container_okD(1) [OF c that] a that by (simp_all add: list_all_length)
  have dj: "\<forall>i < ?n. \<forall>j < ?n. i \<noteq> j \<longrightarrow> dom (amap (?s i)) \<inter> dom (amap (?s j)) = {}"
    using container_okD(2) [OF c] by blast
  have f: "finite (dom (amap (?s i)))" if "i < ?n" for i
    using keys_law [OF container_okD(1) [OF c that]] by (metis List.finite_set)
  have at: "sizeOf k (the (amap (?s i) k)) = sizeOf k (the (container_map amap hash sc k))"
    if "i < ?n" "k \<in> dom (amap (?s i))" for i k
    using container_okD(2) [OF c that] by (simp add: container_map_def)
  show "ShardContainer_Count m sc = int (card (dom (container_map amap hash sc)))"
    unfolding ShardContainer_Count_def fold container_dom [OF c]
    using dj f by (simp add: law card_UN_disjoint)
  show "ShardContainer_Usage m sc = (\<Sum>k \<in> dom (container_map amap hash sc). sizeOf k (the (container_map amap hash sc k)))"
    unfolding ShardContainer_Usage_def fold container_dom [OF c]
    using dj f by (simp add: law sum.UNION_disjoint at)
qed

lemma sharded_gc:
  assumes c: "container_ok amap ok hash sc"
  shows "container_ok amap ok hash (ShardContainer_StartGC m sc)"
    "container_map amap hash (ShardContainer_StartGC m sc) = container_map amap hash sc"
    "container_ok amap ok hash (ShardContainer_StopGC m sc)"
    "container_map amap hash (ShardContainer_StopGC m sc) = container_map amap hash sc"
  using container_map_all [OF c, of "m_StartGC m"] container_map_all [OF c, of "m_StopGC m"] gc_law
  by (simp_all add: ShardContainer_StartGC_def ShardContainer_StopGC_def)

lemma sharded_new:
  assumes "ok (new now)" "amap (new now) = Map.empty" "n < 2 ^ 63"
  shows "container_ok amap ok hash (NewShardContainer new now n)"
    "container_map amap hash (NewShardContainer new now n) = Map.empty"
proof -
  show c: "container_ok amap ok hash (NewShardContainer new now n)"
    using assms by (auto simp: container_ok_def NewShardContainer_def Let_def)
  have "amap (sc_shards (NewShardContainer new now n) ! i) = Map.empty"
    if "i < length (sc_shards (NewShardContainer new now n))" for i
    using that assms(2) by (simp add: NewShardContainer_def Let_def)
  then show "container_map amap hash (NewShardContainer new now n) = Map.empty"
    using getShard_less [OF c] by (simp add: container_map_def fun_eq_iff)
qed

end

section \<open>Two levels of one hash\<close>

text \<open>The container and the store inside it reduce the same hash. With a number of shards that is
  a multiple of 64, the segment is determined by the shard.\<close>

lemma segment_of_shard:
  assumes c: "container_ok amap ok hash sc" and n: "sc_shardCount sc = 64 * int q"
  shows "segment_of hash 64 k = getShard hash sc k mod 64"
proof -
  have less: "64 * q < 2 ^ 63" "0 < 64 * q" using c n by (auto simp: container_ok_def)
  have "(word_of_int (sc_shardCount sc) :: 64 word) = word_of_nat (64 * q)" using n by simp
  then have "getShard hash sc k = unat (hash k) mod (64 * q)"
    using less by (simp only: getShard_def unat_mod_distrib unat_of_nat) (simp add: mod_less)
  moreover have "segment_of hash 64 k = unat (hash k) mod 64"
    by (simp add: segment_of_def unat_mod_distrib)
  ultimately show ?thesis by (simp add: mod_mod_cancel)
qed

lemma one_segment_per_shard:
  assumes c: "container_ok (store_map hash) (store_ok hash) hash sc" and n: "sc_shardCount sc = 64 * int q"
    and i: "i < length (sc_shards sc)" and l: "length (ms_segments (sc_shards sc ! i)) = 64"
    and j: "j < 64" "j \<noteq> i mod 64"
  shows "seg_keys (ms_segments (sc_shards sc ! i) ! j) = []"
proof (rule ccontr)
  let ?segs = "ms_segments (sc_shards sc ! i)"
  assume "seg_keys (?segs ! j) \<noteq> []"
  then obtain k where k: "k \<in> set (seg_keys (?segs ! j))" using hd_in_set by blast
  have io: "index_ok hash ?segs" using container_okD(1) [OF c i] by (simp add: store_ok_def)
  have jl: "j < length ?segs" using j l by simp
  have sj: "segment_of hash 64 k = j" using index_okD(3) [OF io jl k] l by simp
  have "k \<in> dom (seg_map (?segs ! j))" using dom_seg_map [OF index_okD(2) [OF io jl]] k by simp
  then have "k \<in> dom (store_map hash (sc_shards sc ! i))"
    using sj l by (auto simp: store_map_def index_map_def)
  then have "getShard hash sc k = i" by (rule container_okD(2) [OF c i])
  then show False using segment_of_shard [OF c n, of k] sj j(2) by simp
qed

section \<open>Properties\<close>

text \<open>A container over time, with the calls that reach it; empty keys and what follows a panic of a
  delete are left out.\<close>

inductive sc_reachable :: "hasher \<Rightarrow> memory_store shard_container \<Rightarrow> bool" for hash where
  sc_new: "n < 2 ^ 63 \<Longrightarrow> sc_reachable hash (NewShardContainer NewMemoryStore now n)"
| sc_set: "sc_reachable hash sc \<Longrightarrow> k \<noteq> [] \<Longrightarrow> ShardContainer_Set (cow_methods hash) env hash sc k v = (sc', p) \<Longrightarrow> sc_reachable hash sc'"
| sc_get: "sc_reachable hash sc \<Longrightarrow> ShardContainer_Get (cow_methods hash) env hash sc k = (r, sc') \<Longrightarrow> sc_reachable hash sc'"
| sc_delete: "sc_reachable hash sc \<Longrightarrow> k \<noteq> [] \<Longrightarrow> ShardContainer_Delete (cow_methods hash) hash sc k = (sc', None) \<Longrightarrow> sc_reachable hash sc'"
| sc_start: "sc_reachable hash sc \<Longrightarrow> sc_reachable hash (ShardContainer_StartGC (cow_methods hash) sc)"
| sc_stop: "sc_reachable hash sc \<Longrightarrow> sc_reachable hash (ShardContainer_StopGC (cow_methods hash) sc)"

abbreviation sc_map :: "hasher \<Rightarrow> memory_store shard_container \<Rightarrow> gostring \<rightharpoonup> storage_entry" where
  "sc_map hash \<equiv> container_map (store_map hash) hash"

abbreviation sc_ok :: "hasher \<Rightarrow> memory_store shard_container \<Rightarrow> bool" where
  "sc_ok hash \<equiv> container_ok (store_map hash) (store_ok hash) hash"

lemma sc_reachable_ok: "sc_reachable hash sc \<Longrightarrow> sc_ok hash sc \<and> list_all counters_ok (sc_shards sc)"
proof (induction rule: sc_reachable.induct)
  case (sc_new n now)
  have "sc_ok hash (NewShardContainer NewMemoryStore now n)"
    using sc_new by (intro cow.sharded_new) simp_all
  then show ?case by (simp add: NewShardContainer_def Let_def list_all_length)
next
  case (sc_set sc k env v sc' p)
  then show ?case using cow.sharded_set [of hash hash sc env k v sc' p] by blast
next
  case (sc_get sc env k r sc')
  then show ?case using cow.sharded_get [of hash hash sc env k r sc'] by blast
next
  case (sc_delete sc k sc')
  have "sizes_pos (sc_map hash sc) {k}" using sc_delete(2) by (simp add: sizes_pos_single)
  with sc_delete cow.sharded_delete [of hash hash sc k sc'] show ?case by blast
next
  case (sc_start sc)
  have "list_all counters_ok (map (m_StartGC (cow_methods hash)) (sc_shards sc))"
    using sc_start.IH by (simp add: list_all_length cow_methods_def)
  then show ?case using sc_start.IH cow.sharded_gc(1) by (simp add: ShardContainer_StartGC_def)
next
  case (sc_stop sc)
  have "list_all counters_ok (map (m_StopGC (cow_methods hash)) (sc_shards sc))"
    using sc_stop.IH by (simp add: list_all_length cow_methods_def)
  then show ?case using sc_stop.IH cow.sharded_gc(3) by (simp add: ShardContainer_StopGC_def)
qed

text \<open>The operations of a container are those of the one map, whichever shard serves them.\<close>

theorem container_operations:
  assumes "sc_reachable hash sc"
  shows "sc_map hash (fst (ShardContainer_Set (cow_methods hash) env hash sc k v)) = (sc_map hash sc)(k \<mapsto> stamped env v) \<and>
    fst (ShardContainer_Get (cow_methods hash) env hash sc k) = Option.bind (sc_map hash sc k) (read_entry env) \<and>
    (k \<noteq> [] \<and> snd (ShardContainer_Delete (cow_methods hash) hash sc k) = None \<longrightarrow>
      sc_map hash (fst (ShardContainer_Delete (cow_methods hash) hash sc k)) = (sc_map hash sc)(k := None))"
proof -
  have ok: "sc_ok hash sc" using sc_reachable_ok [OF assms] by blast
  have "sc_map hash (fst (ShardContainer_Delete (cow_methods hash) hash sc k)) = (sc_map hash sc)(k := None)"
    if "k \<noteq> []" "snd (ShardContainer_Delete (cow_methods hash) hash sc k) = None"
    using cow.sharded_delete(2) [OF ok, of k "fst (ShardContainer_Delete (cow_methods hash) hash sc k)"]
      that sizes_pos_single [of k] by (metis length_greater_0_conv prod.collapse)
  then show ?thesis
    using cow.sharded_set(2) [OF ok prod.collapse [symmetric]] cow.sharded_get(2) [OF ok prod.collapse [symmetric]] by blast
qed

theorem container_operations_witness:
  "sc_map (\<lambda>_. 0) (fst (ShardContainer_Set (cow_methods (\<lambda>_. 0)) sample_env (\<lambda>_. 0) (NewShardContainer NewMemoryStore 0 3) (str ''k'') (sample_entry [1] 0 False)))
    (str ''k'') = Some (stamped sample_env (sample_entry [1] 0 False))"
proof -
  have "sc_reachable (\<lambda>_. 0) (NewShardContainer NewMemoryStore 0 3)" by (rule sc_new) simp
  from container_operations [OF this, of sample_env "str ''k''" "sample_entry [1] 0 False"] show ?thesis by simp
qed

text \<open>The container and the store reduce the same hash, so with the default of 64 shards, or any
  multiple of 64, each shard keeps all its keys in one of its 64 segments.\<close>

theorem one_segment_used:
  assumes "sc_reachable hash sc" "sc_shardCount sc = 64 * int q"
    and "i < length (sc_shards sc)" "length (ms_segments (sc_shards sc ! i)) = 64" "j < 64" "j \<noteq> i mod 64"
  shows "seg_keys (ms_segments (sc_shards sc ! i) ! j) = []"
  by (rule one_segment_per_shard [OF _ assms(2-6)]) (use sc_reachable_ok [OF assms(1)] in blast)

theorem one_segment_used_witness:
  "seg_keys (ms_segments (sc_shards (NewShardContainer NewMemoryStore 0 64) ! 5) ! 6) = []"
proof -
  have r: "sc_reachable (\<lambda>_. 0) (NewShardContainer NewMemoryStore 0 64)" by (rule sc_new) simp
  show ?thesis by (rule one_segment_used [OF r, of 1]) (simp_all add: NewShardContainer_def)
qed

end
