(* ===== verification/Go_Crypto.thy ===== *)
theory Go_Crypto
  imports Bukt_Prelude
begin

text \<open>
  \<open>crypto/sha256\<close>, \<open>crypto/hmac\<close> and \<open>encoding/base64\<close> of Go's standard library, as far as
  \<open>internal/auth\<close> uses them: the SHA-256 digest, HMAC over it, and \<open>base64.RawURLEncoding\<close> with the
  round trip of its encoder and decoder.
\<close>

unbundle bit_operations_syntax

section \<open>SHA-256\<close>

text \<open>The round constants and the initial hash value of the standard.\<close>

definition sha256_K :: "32 word list" where
  "sha256_K =
     [1116352408, 1899447441, 3049323471, 3921009573, 961987163, 1508970993,
      2453635748, 2870763221, 3624381080, 310598401, 607225278, 1426881987,
      1925078388, 2162078206, 2614888103, 3248222580, 3835390401, 4022224774,
      264347078, 604807628, 770255983, 1249150122, 1555081692, 1996064986,
      2554220882, 2821834349, 2952996808, 3210313671, 3336571891, 3584528711,
      113926993, 338241895, 666307205, 773529912, 1294757372, 1396182291,
      1695183700, 1986661051, 2177026350, 2456956037, 2730485921, 2820302411,
      3259730800, 3345764771, 3516065817, 3600352804, 4094571909, 275423344,
      430227734, 506948616, 659060556, 883997877, 958139571, 1322822218,
      1537002063, 1747873779, 1955562222, 2024104815, 2227730452, 2361852424,
      2428436474, 2756734187, 3204031479, 3329325298]"

definition sha256_H0 :: "32 word list" where
  "sha256_H0 =
     [1779033703, 3144134277, 1013904242, 2773480762,
      1359893119, 2600822924, 528734635, 1541459225]"

definition Ch :: "32 word \<Rightarrow> 32 word \<Rightarrow> 32 word \<Rightarrow> 32 word" where
  "Ch x y z = (x AND y) XOR (NOT x AND z)"

definition Maj :: "32 word \<Rightarrow> 32 word \<Rightarrow> 32 word \<Rightarrow> 32 word" where
  "Maj x y z = (x AND y) XOR (x AND z) XOR (y AND z)"

definition big_sigma0 :: "32 word \<Rightarrow> 32 word" where
  "big_sigma0 x = word_rotr 2 x XOR word_rotr 13 x XOR word_rotr 22 x"

definition big_sigma1 :: "32 word \<Rightarrow> 32 word" where
  "big_sigma1 x = word_rotr 6 x XOR word_rotr 11 x XOR word_rotr 25 x"

definition small_sigma0 :: "32 word \<Rightarrow> 32 word" where
  "small_sigma0 x = word_rotr 7 x XOR word_rotr 18 x XOR drop_bit 3 x"

definition small_sigma1 :: "32 word \<Rightarrow> 32 word" where
  "small_sigma1 x = word_rotr 17 x XOR word_rotr 19 x XOR drop_bit 10 x"

definition sha256_pad :: "byte list \<Rightarrow> byte list" where
  "sha256_pad m =
     m @ [0x80] @ replicate ((119 - length m mod 64) mod 64) 0 @ be_bytes 8 (8 * length m)"

text \<open>The message schedule, extended one word at a time.\<close>

fun sha256_extend :: "nat \<Rightarrow> 32 word list \<Rightarrow> 32 word list" where
  "sha256_extend 0 ws = ws"
| "sha256_extend (Suc n) ws =
     (let t = length ws
      in sha256_extend n (ws @ [small_sigma1 (ws ! (t - 2)) + ws ! (t - 7) + small_sigma0 (ws ! (t - 15)) + ws ! (t - 16)]))"

definition sha256_words :: "byte list \<Rightarrow> 32 word list" where
  "sha256_words block = map (\<lambda>i. word_of_nat (be_nat (take 4 (drop (4 * i) block)))) [0..<16]"

fun sha256_round :: "32 word list \<Rightarrow> 32 word \<times> 32 word \<Rightarrow> 32 word list" where
  "sha256_round [a, b, c, d, e, f, g, h] (k, w) =
     (let t1 = h + big_sigma1 e + Ch e f g + k + w; t2 = big_sigma0 a + Maj a b c
      in [t1 + t2, a, b, c, d + t1, e, f, g])"
| "sha256_round hs kw = hs"

definition sha256_compress :: "32 word list \<Rightarrow> byte list \<Rightarrow> 32 word list" where
  "sha256_compress hs block =
     map2 (+) hs (foldl sha256_round hs (zip sha256_K (sha256_extend 48 (sha256_words block))))"

function sha256_blocks :: "32 word list \<Rightarrow> byte list \<Rightarrow> 32 word list" where
  "sha256_blocks hs m =
     (if length m < 64 then hs else sha256_blocks (sha256_compress hs (take 64 m)) (drop 64 m))"
  by pat_completeness auto
termination by (relation "measure (\<lambda>(hs, m). length m)") auto

declare sha256_blocks.simps [simp del]

definition sha256 :: "byte list \<Rightarrow> byte list" where
  "sha256 m = concat (map (\<lambda>w. be_bytes 4 (unat w)) (sha256_blocks sha256_H0 (sha256_pad m)))"

section \<open>HMAC\<close>

definition hmac_key :: "byte list \<Rightarrow> byte list" where
  "hmac_key k = (let k' = (if 64 < length k then sha256 k else k) in k' @ replicate (64 - length k') 0)"

definition hmac_sha256 :: "byte list \<Rightarrow> byte list \<Rightarrow> byte list" where
  "hmac_sha256 key msg =
     (let k = hmac_key key
      in sha256 (map (\<lambda>b. b XOR 0x5c) k @ sha256 (map (\<lambda>b. b XOR 0x36) k @ msg)))"

text \<open>\<open>hmac.Equal\<close> compares in constant time; its result is equality.\<close>

definition hmac_Equal :: "byte list \<Rightarrow> byte list \<Rightarrow> bool" where
  "hmac_Equal a b \<longleftrightarrow> a = b"

section \<open>Base64 without padding, URL alphabet\<close>

text \<open>Six bits as a character, and back.\<close>

definition b64_char :: "nat \<Rightarrow> byte" where
  "b64_char n = word_of_nat
     (if n < 26 then 65 + n else if n < 52 then 97 + (n - 26) else if n < 62 then 48 + (n - 52)
      else if n = 62 then 45 else 95)"

definition b64_value :: "byte \<Rightarrow> nat option" where
  "b64_value c =
     (let x = unat c
      in if 65 \<le> x \<and> x \<le> 90 then Some (x - 65) else if 97 \<le> x \<and> x \<le> 122 then Some (x - 71)
         else if 48 \<le> x \<and> x \<le> 57 then Some (x + 4) else if x = 45 then Some 62
         else if x = 95 then Some 63 else None)"

fun b64_encode :: "byte list \<Rightarrow> byte list" where
  "b64_encode (a # b # c # bs) =
     (let v = unat a * 65536 + unat b * 256 + unat c
      in b64_char (v div 262144) # b64_char (v div 4096 mod 64) # b64_char (v div 64 mod 64)
         # b64_char (v mod 64) # b64_encode bs)"
| "b64_encode [a, b] =
     (let v = unat a * 65536 + unat b * 256
      in [b64_char (v div 262144), b64_char (v div 4096 mod 64), b64_char (v div 64 mod 64)])"
| "b64_encode [a] =
     (let v = unat a * 65536 in [b64_char (v div 262144), b64_char (v div 4096 mod 64)])"
| "b64_encode [] = []"

text \<open>The three bytes of a quantum of four values; a short quantum gives the first of them. The
  decoder is not strict: it ignores the trailing bits of a short quantum.\<close>

definition b64_quantum :: "nat \<Rightarrow> nat \<Rightarrow> nat \<Rightarrow> nat \<Rightarrow> byte list" where
  "b64_quantum p q r s =
     (let v = p * 262144 + q * 4096 + r * 64 + s
      in [word_of_nat (v div 65536), word_of_nat (v div 256), word_of_nat v])"

fun b64_join :: "nat list \<Rightarrow> byte list option" where
  "b64_join (p # q # r # s # vs) = map_option (\<lambda>bs. b64_quantum p q r s @ bs) (b64_join vs)"
| "b64_join [p, q, r] = Some (take 2 (b64_quantum p q r 0))"
| "b64_join [p, q] = Some (take 1 (b64_quantum p q 0 0))"
| "b64_join [p] = None"
| "b64_join [] = Some []"

fun b64_values :: "byte list \<Rightarrow> nat list option" where
  "b64_values [] = Some []"
| "b64_values (c # cs) =
     (if c = 10 \<or> c = 13 then b64_values cs
      else case b64_value c of None \<Rightarrow> None | Some v \<Rightarrow> map_option ((#) v) (b64_values cs))"

definition b64_decode :: "byte list \<Rightarrow> byte list option" where
  "b64_decode cs = Option.bind (b64_values cs) b64_join"

section \<open>The base64 round trip\<close>

lemma b64_value_char: "n < 64 \<Longrightarrow> b64_value (b64_char n) = Some n"
  by (auto simp: b64_value_def b64_char_def Let_def unat_of_nat)

lemma b64_char_plain: "n < 64 \<Longrightarrow> b64_char n \<noteq> 10 \<and> b64_char n \<noteq> 13"
proof -
  assume n: "n < 64"
  have "b64_value 10 = None" "b64_value 13 = None" by (simp_all add: b64_value_def)
  then show ?thesis using b64_value_char [OF n] by auto
qed

lemma b64_values_char:
  "n < 64 \<Longrightarrow> b64_values (b64_char n # cs) = map_option ((#) n) (b64_values cs)"
  using b64_char_plain [of n] by (simp add: b64_value_char)

lemma sextets:
  fixes v :: nat
  shows "v div 262144 * 262144 + v div 4096 mod 64 * 4096 + v div 64 mod 64 * 64 + v mod 64 = v"
proof -
  have "v = v div 64 * 64 + v mod 64" "v div 64 = v div 4096 * 64 + v div 64 mod 64"
    "v div 4096 = v div 262144 * 64 + v div 4096 mod 64"
    by (simp_all add: div_mult2_eq [of v 64 64, simplified] div_mult2_eq [of v 4096 64, simplified])
  then show ?thesis by linarith
qed

lemma unat_byte_less: "unat (b :: byte) < 256"
proof -
  have "unat b < 2 ^ LENGTH(8)" by (rule unsigned_less)
  then show ?thesis by simp
qed

lemma word_of_nat_low: "word_of_nat (x * 256 + unat b) = (b :: byte)"
proof -
  have "unat (word_of_nat (x * 256 + unat b) :: byte) = unat b"
    unfolding unat_of_nat using unat_byte_less [of b] by simp
  then show ?thesis by (simp only: word_unat_eq_iff)
qed

lemma low_bits_zero:
  "(n * 65536) mod 64 = (0::nat)" "(n * 65536) div 64 mod 64 = (0::nat)" "(n * 65536 + m * 256) mod 64 = (0::nat)"
proof -
  have e: "n * 65536 = 64 * (n * 1024)" "n * 1024 = 64 * (n * 16)" "n * 65536 + m * 256 = 64 * (n * 1024 + m * 4)"
    by simp_all
  show "(n * 65536) mod 64 = 0" unfolding e(1) by (rule mod_mult_self1_is_0)
  show "(n * 65536 + m * 256) mod 64 = 0" unfolding e(3) by (rule mod_mult_self1_is_0)
  have "(n * 65536) div 64 = n * 1024" unfolding e(1) by simp
  then show "(n * 65536) div 64 mod 64 = 0" unfolding e(2) by simp
qed

lemma quantum_of_bytes:
  fixes a b c :: byte
  assumes v_eq: "p * 262144 + q * 4096 + r * 64 + s = unat a * 65536 + unat b * 256 + unat c"
  shows "b64_quantum p q r s = [a, b, c]"
proof -
  let ?v = "unat a * 65536 + unat b * 256 + unat c"
  have lt: "unat b < 256" "unat c < 256" by (rule unat_byte_less)+
  have v: "?v div 65536 = unat a" using lt by linarith
  have w: "?v div 256 = unat a * 256 + unat b" using lt by linarith
  have "(word_of_nat (unat a * 256 + unat b) :: byte) = b" by (rule word_of_nat_low)
  moreover have "(word_of_nat ((unat a * 256 + unat b) * 256 + unat c) :: byte) = c" by (rule word_of_nat_low)
  then have "(word_of_nat ?v :: byte) = c" by (simp add: algebra_simps)
  ultimately show ?thesis unfolding b64_quantum_def Let_def v_eq v w by simp
qed

text \<open>The sextets of one, two or three bytes give the bytes back.\<close>

lemma quantum_three:
  fixes a b c :: byte
  defines "v \<equiv> unat a * 65536 + unat b * 256 + unat c"
  shows "b64_quantum (v div 262144) (v div 4096 mod 64) (v div 64 mod 64) (v mod 64) = [a, b, c]" "v div 262144 < 64"
  using quantum_of_bytes [OF sextets [of v, unfolded v_def]] unat_byte_less [of a] unat_byte_less [of b] unat_byte_less [of c]
  unfolding v_def by (blast, linarith)

lemma quantum_two:
  fixes a b :: byte
  defines "v \<equiv> unat a * 65536 + unat b * 256"
  shows "b64_quantum (v div 262144) (v div 4096 mod 64) (v div 64 mod 64) 0 = [a, b, 0]" "v div 262144 < 64"
  using quantum_three [of a b 0] low_bits_zero(3) [of "unat a" "unat b"] unfolding v_def by simp_all

lemma quantum_one:
  fixes a :: byte
  defines "v \<equiv> unat a * 65536"
  shows "b64_quantum (v div 262144) (v div 4096 mod 64) 0 0 = [a, 0, 0]" "v div 262144 < 64"
  using quantum_two [of a 0] low_bits_zero(2) [of "unat a"] unfolding v_def by simp_all

theorem b64_round_trip: "b64_decode (b64_encode bs) = Some bs"
proof -
  note eval = b64_encode.simps Let_def b64_values_char b64_values.simps(1) mod_less_divisor zero_less_numeral option.map
  have "\<exists>vs. b64_values (b64_encode bs) = Some vs \<and> b64_join vs = Some bs"
  proof (induction bs rule: b64_encode.induct)
    case (1 a b c bs)
    then obtain vs where vs: "b64_values (b64_encode bs) = Some vs" "b64_join vs = Some bs" by auto
    let ?v = "unat a * 65536 + unat b * 256 + unat c"
    have "b64_values (b64_encode (a # b # c # bs)) =
        Some (?v div 262144 # ?v div 4096 mod 64 # ?v div 64 mod 64 # ?v mod 64 # vs)"
      by (simp only: eval quantum_three(2) vs)
    then show ?case using vs(2) by (simp add: quantum_three(1))
  next
    case (2 a b)
    let ?v = "unat a * 65536 + unat b * 256"
    have "b64_values (b64_encode [a, b]) = Some [?v div 262144, ?v div 4096 mod 64, ?v div 64 mod 64]"
      by (simp only: eval quantum_two(2))
    moreover have "b64_join [?v div 262144, ?v div 4096 mod 64, ?v div 64 mod 64] = Some [a, b]"
      by (simp only: b64_join.simps quantum_two(1)) simp
    ultimately show ?case by blast
  next
    case (3 a)
    let ?v = "unat a * 65536"
    have "b64_values (b64_encode [a]) = Some [?v div 262144, ?v div 4096 mod 64]"
      by (simp only: eval quantum_one(2))
    moreover have "b64_join [?v div 262144, ?v div 4096 mod 64] = Some [a]"
      by (simp only: b64_join.simps quantum_one(1)) simp
    ultimately show ?case by blast
  qed simp
  then show ?thesis by (auto simp: b64_decode_def)
qed

end
