(* ===== verification/Auth_Token.thy ===== *)
theory Auth_Token
  imports Go_Crypto
begin

text \<open>
  The token manager of \<open>internal/auth/token.go\<close> and its singleton of \<open>internal/auth/manager.go\<close>. A
  token is \<open>base64(name . expiry . signature)\<close> with the expiry as eight raw bytes; the main lemma says
  exactly which strings \<open>ValidateToken\<close> accepts.
\<close>

section \<open>Tokens\<close>

record token_manager =
  tm_secretKey :: "byte list"

definition NewTokenManager :: "byte list \<Rightarrow> token_manager" where
  "NewTokenManager secretKey = \<lparr>tm_secretKey = secretKey\<rparr>"

abbreviation dot :: byte where "dot \<equiv> 46"

text \<open>\<open>binary.BigEndian.PutUint64\<close> of a converted \<open>int64\<close>, and back.\<close>

definition be64 :: "int \<Rightarrow> byte list" where
  "be64 x = be_bytes 8 (nat (x mod 2 ^ 64))"

definition int64_of_be :: "byte list \<Rightarrow> int" where
  "int64_of_be bs = i64 (int (be_nat bs))"

definition TokenManager_sign :: "token_manager \<Rightarrow> byte list \<Rightarrow> byte list" where
  "TokenManager_sign tm data = hmac_sha256 (tm_secretKey tm) data"

definition token_expiry :: "env \<Rightarrow> int \<Rightarrow> int" where
  "token_expiry env ttlSeconds = (if 0 < ttlSeconds then i64 (time_Unix (env_now env) + ttlSeconds) else 0)"

definition GenerateToken :: "env \<Rightarrow> token_manager \<Rightarrow> gostring \<Rightarrow> int \<Rightarrow> gostring" where
  "GenerateToken env tm bucketName ttlSeconds =
     (let expiryBytes = be64 (token_expiry env ttlSeconds);
          dataToSign = bucketName @ [dot] @ expiryBytes;
          signature = TokenManager_sign tm dataToSign
      in b64_encode (bucketName @ [dot] @ expiryBytes @ [dot] @ signature))"

text \<open>\<open>for i := from; i < len(bs); i++ { if bs[i] == '.' { ... break } }\<close>\<close>

definition find_dot :: "nat \<Rightarrow> byte list \<Rightarrow> nat option" where
  "find_dot from bs = find (\<lambda>i. bs ! i = dot) [from..<length bs]"

definition ValidateToken :: "env \<Rightarrow> token_manager \<Rightarrow> gostring \<Rightarrow> gostring \<Rightarrow> bool" where
  "ValidateToken env tm tokenStr expected =
     (if tokenStr = [] \<or> expected = [] then False
      else case b64_decode tokenStr of
        None \<Rightarrow> False
      | Some tokenBytes \<Rightarrow>
          (case find_dot 0 tokenBytes of
             None \<Rightarrow> False
           | Some firstSep \<Rightarrow>
               if firstSep = 0 then False
               else case find_dot (firstSep + 1) tokenBytes of
                 None \<Rightarrow> False
               | Some secondSep \<Rightarrow>
                   if secondSep - firstSep \<noteq> 9 then False
                   else let nameBytes = take firstSep tokenBytes;
                            expiryBytes = take (secondSep - (firstSep + 1)) (drop (firstSep + 1) tokenBytes);
                            providedSig = drop (secondSep + 1) tokenBytes
                        in if nameBytes \<noteq> expected then False
                           else let expiryUnix = int64_of_be expiryBytes
                                in if 0 < expiryUnix \<and> expiryUnix < time_Unix (env_now env) then False
                                   else hmac_Equal providedSig
                                          (TokenManager_sign tm (nameBytes @ [dot] @ expiryBytes))))"

section \<open>The singleton\<close>

text \<open>The package variable \<open>instance\<close>; \<open>instanceOnce\<close> has fired exactly when it is set.\<close>

type_synonym auth_state = "token_manager option"

definition auth_Initialize :: "byte list \<Rightarrow> auth_state \<Rightarrow> auth_state" where
  "auth_Initialize secretKey st = (case st of None \<Rightarrow> Some (NewTokenManager secretKey) | Some tm \<Rightarrow> Some tm)"

definition auth_Manager :: "auth_state \<Rightarrow> go_panic + token_manager" where
  "auth_Manager st = (case st of None \<Rightarrow> Inl NotInitialized | Some tm \<Rightarrow> Inr tm)"

section \<open>Separators\<close>

lemma find_dot_Some:
  "find_dot from bs = Some i \<longleftrightarrow>
    from \<le> i \<and> i < length bs \<and> bs ! i = dot \<and> (\<forall>j. from \<le> j \<and> j < i \<longrightarrow> bs ! j \<noteq> dot)"
proof
  assume "find_dot from bs = Some i"
  then obtain n where n: "n < length [from..<length bs]" "bs ! ([from..<length bs] ! n) = dot" "i = [from..<length bs] ! n"
    "\<forall>j < n. bs ! ([from..<length bs] ! j) \<noteq> dot"
    by (auto simp: find_dot_def find_Some_iff)
  have "bs ! j \<noteq> dot" if "from \<le> j" "j < i" for j
    using n(1,3,4) that spec [OF n(4), of "j - from"] by simp
  then show "from \<le> i \<and> i < length bs \<and> bs ! i = dot \<and> (\<forall>j. from \<le> j \<and> j < i \<longrightarrow> bs ! j \<noteq> dot)"
    using n(1-3) by simp
next
  assume a: "from \<le> i \<and> i < length bs \<and> bs ! i = dot \<and> (\<forall>j. from \<le> j \<and> j < i \<longrightarrow> bs ! j \<noteq> dot)"
  show "find_dot from bs = Some i"
    unfolding find_dot_def find_Some_iff
    by (rule exI [of _ "i - from"]) (use a in \<open>auto simp: less_diff_conv add.commute\<close>)
qed

text \<open>The first dot splits the list at the end of its dot-free prefix.\<close>

lemma find_dot_split:
  "find_dot (length ps) (ps @ xs) = Some i \<longleftrightarrow> (\<exists>a b. xs = a @ dot # b \<and> dot \<notin> set a \<and> i = length ps + length a)"
proof
  assume "find_dot (length ps) (ps @ xs) = Some i"
  then have f: "length ps \<le> i" "i < length (ps @ xs)" "(ps @ xs) ! i = dot"
    "\<And>j. length ps \<le> j \<Longrightarrow> j < i \<Longrightarrow> (ps @ xs) ! j \<noteq> dot" by (simp_all add: find_dot_Some)
  let ?n = "i - length ps"
  have n: "?n < length xs" "xs ! ?n = dot" using f by (simp_all add: nth_append)
  have "dot \<notin> set (take ?n xs)"
  proof
    assume "dot \<in> set (take ?n xs)"
    then obtain j where "j < ?n" "xs ! j = dot" using n(1) by (auto simp: in_set_conv_nth)
    moreover from this f(1) have "length ps + j < i" by linarith
    ultimately show False using f(4) [of "length ps + j"] by simp
  qed
  then show "\<exists>a b. xs = a @ dot # b \<and> dot \<notin> set a \<and> i = length ps + length a"
    using id_take_nth_drop [OF n(1)] n f(1)
    by (intro exI [of _ "take ?n xs"] exI [of _ "drop (Suc ?n) xs"]) simp
next
  assume "\<exists>a b. xs = a @ dot # b \<and> dot \<notin> set a \<and> i = length ps + length a"
  then obtain a b where ab: "xs = a @ dot # b" "dot \<notin> set a" "i = length ps + length a" by blast
  have "(ps @ xs) ! j \<noteq> dot" if "length ps \<le> j" "j < i" for j
    using that ab by (auto simp: nth_append in_set_conv_nth)
  then show "find_dot (length ps) (ps @ xs) = Some i"
    using ab by (auto simp: find_dot_Some nth_append)
qed

section \<open>What is accepted\<close>

lemma int64_be64: "- (2 ^ 63) \<le> x \<Longrightarrow> x < 2 ^ 63 \<Longrightarrow> int64_of_be (be64 x) = x"
proof -
  assume r: "- (2 ^ 63) \<le> x" "x < 2 ^ 63"
  have "int (be_nat (be64 x)) = x mod 2 ^ 64"
    unfolding be64_def be_nat_be_bytes by (simp add: nat_less_iff)
  moreover have "i64 (x mod 2 ^ 64) = i64 x"
    unfolding i64_def by (simp add: signed_take_bit_eq_iff_take_bit_eq take_bit_eq_mod)
  ultimately show ?thesis using i64_id [OF r] by (simp add: int64_of_be_def)
qed

lemma length_be64 [simp]: "length (be64 x) = 8"
  by (simp add: be64_def)

text \<open>The decoded form of a token that names \<open>expected\<close>, with its expiry and signature.\<close>

lemma ValidateToken_iff:
  "ValidateToken env tm tok expected \<longleftrightarrow>
    expected \<noteq> [] \<and> dot \<notin> set expected \<and>
    (\<exists>ex. b64_decode tok = Some (expected @ [dot] @ ex @ [dot] @ TokenManager_sign tm (expected @ [dot] @ ex)) \<and>
      length ex = 8 \<and> dot \<notin> set ex \<and> \<not> (0 < int64_of_be ex \<and> int64_of_be ex < time_Unix (env_now env)))"
  (is "?L \<longleftrightarrow> ?R")
proof
  assume ?L
  then obtain tb i j where e: "expected \<noteq> []" and d: "b64_decode tok = Some tb" and i: "find_dot 0 tb = Some i"
    and j: "find_dot (i + 1) tb = Some j" and n: "j - i = 9" and nm: "take i tb = expected"
    and t: "\<not> (0 < int64_of_be (take (j - (i + 1)) (drop (i + 1) tb)) \<and>
        int64_of_be (take (j - (i + 1)) (drop (i + 1) tb)) < time_Unix (env_now env))"
    and s: "drop (j + 1) tb = TokenManager_sign tm (take i tb @ [dot] @ take (j - (i + 1)) (drop (i + 1) tb))"
    by (auto simp: ValidateToken_def Let_def hmac_Equal_def split: if_splits option.splits)
  from i find_dot_split [of "[]" tb i] obtain a b where ab: "tb = a @ dot # b" "dot \<notin> set a" "i = length a" by auto
  have "find_dot (length (a @ [dot])) ((a @ [dot]) @ b) = Some j" using j ab by simp
  with find_dot_split [of "a @ [dot]" b j] obtain ex sg where
    es: "b = ex @ dot # sg" "dot \<notin> set ex" "j = length (a @ [dot]) + length ex" by blast
  have "a = expected" using nm ab by simp
  moreover have "length ex = 8" using n ab es by simp
  moreover have "sg = TokenManager_sign tm (a @ [dot] @ ex)" "\<not> (0 < int64_of_be ex \<and> int64_of_be ex < time_Unix (env_now env))"
    using s t ab es by simp_all
  ultimately show ?R using e d ab es by auto
next
  assume ?R
  then obtain ex where e: "expected \<noteq> []" "dot \<notin> set expected"
    and d: "b64_decode tok = Some (expected @ [dot] @ ex @ [dot] @ TokenManager_sign tm (expected @ [dot] @ ex))"
    and ex: "length ex = 8" "dot \<notin> set ex" "\<not> (0 < int64_of_be ex \<and> int64_of_be ex < time_Unix (env_now env))"
    by blast
  let ?tb = "expected @ [dot] @ ex @ [dot] @ TokenManager_sign tm (expected @ [dot] @ ex)"
  have i: "find_dot 0 ?tb = Some (length expected)" using find_dot_split [of "[]"] e by auto
  have "find_dot (length (expected @ [dot])) ((expected @ [dot]) @ ex @ [dot] @ TokenManager_sign tm (expected @ [dot] @ ex))
      = Some (length expected + 9)"
    unfolding find_dot_split using ex by (intro exI [of _ ex] exI [of _ "TokenManager_sign tm (expected @ [dot] @ ex)"]) simp
  then have j: "find_dot (length expected + 1) ?tb = Some (length expected + 9)" by simp
  have "tok \<noteq> []" using d e(1) by (auto simp: b64_decode_def)
  have parts: "take (length expected) ?tb = expected"
    "take (length expected + 9 - (length expected + 1)) (drop (length expected + 1) ?tb) = ex"
    "drop (length expected + 9 + 1) ?tb = TokenManager_sign tm (expected @ [dot] @ ex)"
    "length expected + 9 - length expected = 9" "length expected \<noteq> 0"
    using ex(1) e(1) by simp_all
  show ?L
    using e(1) ex(3) \<open>tok \<noteq> []\<close> unfolding ValidateToken_def d
    by (simp only: option.case i j parts if_True if_False Let_def hmac_Equal_def simp_thms)
qed

text \<open>A token validates for one bucket name only.\<close>

lemma dot_prefix_unique:
  assumes "a @ dot # x = b @ dot # y" "dot \<notin> set a" "dot \<notin> set b"
  shows "a = b"
proof -
  have "takeWhile (\<lambda>c. c \<noteq> dot) (a @ dot # x) = a" "takeWhile (\<lambda>c. c \<noteq> dot) (b @ dot # y) = b"
    using assms(2,3) by (simp_all add: takeWhile_tail) (metis takeWhile_eq_all_conv)+
  then show ?thesis using assms(1) by simp
qed

lemma ValidateToken_one_bucket:
  assumes "ValidateToken env tm tok a" "ValidateToken env' tm tok b"
  shows "a = b"
proof -
  from assms(1) obtain x where x: "b64_decode tok = Some (a @ dot # x)" "dot \<notin> set a"
    unfolding ValidateToken_iff by auto
  from assms(2) obtain y where y: "b64_decode tok = Some (b @ dot # y)" "dot \<notin> set b"
    unfolding ValidateToken_iff by auto
  show ?thesis by (rule dot_prefix_unique [where x = x and y = y, OF _ x(2) y(2)]) (use x y in simp)
qed

text \<open>A generated token is accepted exactly while it is fresh, when neither the name nor the bytes of
  the expiry contain a dot; otherwise never.\<close>

lemma GenerateToken_valid:
  "ValidateToken env' tm (GenerateToken env tm name ttl) expected \<longleftrightarrow>
    name = expected \<and> name \<noteq> [] \<and> dot \<notin> set name \<and> dot \<notin> set (be64 (token_expiry env ttl)) \<and>
    \<not> (0 < token_expiry env ttl \<and> token_expiry env ttl < time_Unix (env_now env'))"
  if "dot \<notin> set expected" "dot \<notin> set name"
proof -
  let ?ex = "be64 (token_expiry env ttl)"
  let ?tb = "\<lambda>nm ex. nm @ [dot] @ ex @ [dot] @ TokenManager_sign tm (nm @ [dot] @ ex)"
  have d: "b64_decode (GenerateToken env tm name ttl) = Some (?tb name ?ex)"
    by (simp add: GenerateToken_def Let_def b64_round_trip)
  have "- (2 ^ 63) \<le> token_expiry env ttl" "token_expiry env ttl < 2 ^ 63"
    using i64_lower i64_upper by (simp_all add: token_expiry_def)
  then have ii: "int64_of_be ?ex = token_expiry env ttl" by (rule int64_be64)
  have eq: "name = expected \<and> ?ex = ex" if "?tb name ?ex = ?tb expected ex" "length ex = 8" for ex
  proof -
    have "name = expected"
      by (rule dot_prefix_unique [OF _ \<open>dot \<notin> set name\<close> \<open>dot \<notin> set expected\<close>]) (use that(1) in simp)
    then show ?thesis using that by (simp add: append_eq_append_conv)
  qed
  show ?thesis
    unfolding ValidateToken_iff d option.inject using eq ii that by auto
qed

section \<open>Properties\<close>

text \<open>C9: \<open>ValidateToken\<close> accepts exactly the strings that decode to the expected name, an expiry of eight
  bytes that has not passed, and the signature over both under the manager's key; and only for names
  that contain no dot.\<close>

theorem validate_token_iff:
  "ValidateToken env tm tok expected \<longleftrightarrow>
    expected \<noteq> [] \<and> dot \<notin> set expected \<and>
    (\<exists>ex. b64_decode tok = Some (expected @ [dot] @ ex @ [dot] @ TokenManager_sign tm (expected @ [dot] @ ex)) \<and>
      length ex = 8 \<and> dot \<notin> set ex \<and> \<not> (0 < int64_of_be ex \<and> int64_of_be ex < time_Unix (env_now env)))"
  unfolding ValidateToken_iff by blast

text \<open>A token without expiry, as bucket creation makes it, is accepted for its bucket at any later
  time and for no other bucket.\<close>

theorem permanent_token_valid:
  assumes "name \<noteq> []" "dot \<notin> set name" "dot \<notin> set other"
  shows "ValidateToken env' tm (GenerateToken env tm name 0) other \<longleftrightarrow> other = name"
proof -
  have "dot \<notin> set (be64 0)"
    by (auto simp: be64_def be_bytes_def)
  then show ?thesis using GenerateToken_valid [OF assms(3,2)] assms(1,2) by (auto simp: token_expiry_def)
qed

theorem permanent_token_valid_witness:
  "\<forall>env env' tm. ValidateToken env' tm (GenerateToken env tm (str ''default'') 0) (str ''default'')"
  using permanent_token_valid [of "str ''default''" "str ''default''"] by (simp add: str_def)

text \<open>A token with a time-to-live is accepted for its bucket until its expiry second and not after,
  provided no byte of the expiry is a dot; if one is, the token is never accepted.\<close>

theorem expiring_token_valid:
  assumes "name \<noteq> []" "dot \<notin> set name" "0 < ttl"
  shows "ValidateToken env' tm (GenerateToken env tm name ttl) name \<longleftrightarrow>
    dot \<notin> set (be64 (i64 (time_Unix (env_now env) + ttl))) \<and>
    (0 < i64 (time_Unix (env_now env) + ttl) \<longrightarrow> time_Unix (env_now env') \<le> i64 (time_Unix (env_now env) + ttl))"
  using GenerateToken_valid [OF assms(2,2)] assms by (auto simp: token_expiry_def)

theorem expiring_token_valid_witness:
  "\<forall>tm. \<not> ValidateToken \<lparr>env_now = 1714290687000000000, env_cached = 0, env_rand = 0, env_coin = True\<rparr> tm
      (GenerateToken \<lparr>env_now = 1714290687000000000, env_cached = 0, env_rand = 0, env_coin = True\<rparr> tm (str ''b'') 1) (str ''b'')"
proof -
  let ?env = "\<lparr>env_now = 1714290687000000000, env_cached = 0, env_rand = 0, env_coin = True\<rparr>"
  have "i64 (time_Unix (env_now ?env) + 1) = 1714290688" by (simp add: time_Unix_def i64_id)
  moreover have "be64 1714290688 = [0, 0, 0, 0, 0x66, dot, 0, 0]"
    by (simp add: be64_def be_bytes_def upt_rec)
  ultimately have "dot \<in> set (be64 (i64 (time_Unix (env_now ?env) + 1)))" by simp
  moreover have "ValidateToken ?env tm (GenerateToken ?env tm (str ''b'') 1) (str ''b'') \<longrightarrow>
      dot \<notin> set (be64 (i64 (time_Unix (env_now ?env) + 1)))" for tm
    using expiring_token_valid [of "str ''b''" 1 ?env tm ?env] by (simp add: str_def)
  ultimately show ?thesis by blast
qed

end
