(* ===== verification/Bucket_Manager.thy ===== *)
theory Bucket_Manager
  imports Shard_Container Auth_Token
begin

text \<open>
  The errors of \<open>internal/errs/errs.go\<close> and the bucket manager of \<open>internal/bucket/bucket.go\<close>: an
  index from bucket names to metadata, replaced as a whole by every change, each bucket owning one
  shard container. Creation and deletion go through the token manager.
\<close>

section \<open>Errors and outcomes\<close>

datatype service_error =
    ErrKeyNotFound | ErrInvalidTTL | ErrKeyAlreadyExists | ErrKeyExpired | ErrMemoryLimit | ErrDeletion
  | ErrBucketNotFound | ErrBucketAlreadyExists | ErrInvalidBucketName | ErrUnauthorized
  | ErrCannotDeleteDefault | ErrInconsistentState

text \<open>A call returns a value, returns an error, or panics.\<close>

datatype 'a outcome = Ok 'a | Err service_error | Panic go_panic

section \<open>State\<close>

type_synonym bucket_store = "memory_store shard_container"

record bucket_metadata =
  bk_ID :: gostring
  bk_Name :: gostring
  bk_Description :: gostring
  bk_CreatedAt :: go_time
  bk_ShardCount :: int
  bk_KeyCount :: int
  bk_MemoryUsage :: int
  bk_store :: "bucket_store option"

text \<open>Go's map is a list of pairs with distinct keys; its iteration order is unspecified.\<close>

record bucket_manager =
  bm_buckets :: "(gostring \<times> bucket_metadata) list"
  bm_cfgShardCount :: int

definition bm_lookup :: "bucket_manager \<Rightarrow> gostring \<rightharpoonup> bucket_metadata" where
  "bm_lookup bm = map_of (bm_buckets bm)"

section \<open>Operations\<close>

definition meta_view :: "hasher \<Rightarrow> bucket_metadata \<Rightarrow> bucket_metadata" where
  "meta_view hash b =
     (let meta = \<lparr>bk_ID = bk_ID b, bk_Name = bk_Name b, bk_Description = bk_Description b,
                  bk_CreatedAt = bk_CreatedAt b, bk_ShardCount = bk_ShardCount b,
                  bk_KeyCount = 0, bk_MemoryUsage = 0, bk_store = None\<rparr>
      in case bk_store b of
           None \<Rightarrow> meta
         | Some sc \<Rightarrow> meta\<lparr>bk_KeyCount := ShardContainer_Count (cow_methods hash) sc,
                           bk_MemoryUsage := ShardContainer_Usage (cow_methods hash) sc\<rparr>)"

definition GetBucket :: "hasher \<Rightarrow> bucket_manager \<Rightarrow> gostring \<Rightarrow> bucket_metadata option" where
  "GetBucket hash bm name =
     (case bm_lookup bm name of None \<Rightarrow> None | Some b \<Rightarrow> Some (meta_view hash b))"

text \<open>\<open>GetStore\<close> returns the store pointer; the outer \<open>None\<close> is the missing bucket.\<close>

definition GetStore :: "bucket_manager \<Rightarrow> gostring \<Rightarrow> bucket_store option option" where
  "GetStore bm name = (case bm_lookup bm name of None \<Rightarrow> None | Some b \<Rightarrow> Some (bk_store b))"

definition CreateBucket ::
  "env \<Rightarrow> auth_state \<Rightarrow> gostring \<Rightarrow> bucket_manager \<Rightarrow> gostring \<Rightarrow> gostring \<Rightarrow> int
    \<Rightarrow> gostring outcome \<times> bucket_manager" where
  "CreateBucket env auth uid bm name description shardCount0 =
     (if name = [] then (Err ErrInvalidBucketName, bm)
      else let shardCount = (if shardCount0 \<le> 0 then bm_cfgShardCount bm else shardCount0)
           in if bm_lookup bm name \<noteq> None then (Err ErrBucketAlreadyExists, bm)
              else let meta = \<lparr>bk_ID = uid, bk_Name = name, bk_Description = description,
                               bk_CreatedAt = env_now env, bk_ShardCount = shardCount,
                               bk_KeyCount = 0, bk_MemoryUsage = 0,
                               bk_store = Some (NewShardContainer NewMemoryStore (env_now env) shardCount)\<rparr>;
                       bm' = bm\<lparr>bm_buckets := bm_buckets bm @ [(name, meta)]\<rparr>
                   in case auth_Manager auth of
                        Inl p \<Rightarrow> (Panic p, bm')
                      | Inr tm \<Rightarrow> (Ok (GenerateToken env tm name 0), bm'))"

definition NewBucketManager ::
  "env \<Rightarrow> auth_state \<Rightarrow> gostring \<Rightarrow> int \<Rightarrow> gostring outcome \<times> bucket_manager" where
  "NewBucketManager env auth uid cfgShardCount =
     CreateBucket env auth uid \<lparr>bm_buckets = [], bm_cfgShardCount = cfgShardCount\<rparr>
       (str ''default'') (str ''Default bucket'') cfgShardCount"

definition DeleteBucket ::
  "env \<Rightarrow> auth_state \<Rightarrow> bucket_manager \<Rightarrow> gostring \<Rightarrow> gostring \<Rightarrow> unit outcome \<times> bucket_manager" where
  "DeleteBucket env auth bm name token =
     (if name = str ''default'' then (Err ErrCannotDeleteDefault, bm)
      else case auth_Manager auth of
        Inl p \<Rightarrow> (Panic p, bm)
      | Inr tm \<Rightarrow>
          if \<not> ValidateToken env tm token name then (Err ErrUnauthorized, bm)
          else if bm_lookup bm name = None then (Err ErrBucketNotFound, bm)
          else (Ok (), bm\<lparr>bm_buckets := filter (\<lambda>(k, v). k \<noteq> name) (bm_buckets bm)\<rparr>))"

definition ListBuckets :: "hasher \<Rightarrow> bucket_manager \<Rightarrow> bucket_metadata list" where
  "ListBuckets hash bm = map (\<lambda>(k, b). meta_view hash b) (bm_buckets bm)"

definition BucketExists :: "bucket_manager \<Rightarrow> gostring \<Rightarrow> bool" where
  "BucketExists bm name \<longleftrightarrow> bm_lookup bm name \<noteq> None"

definition closed :: "hasher \<Rightarrow> bucket_metadata \<Rightarrow> bucket_metadata" where
  "closed hash b = b\<lparr>bk_store := map_option (ShardContainer_Close (cow_methods hash)) (bk_store b)\<rparr>"

definition Shutdown :: "hasher \<Rightarrow> bucket_manager \<Rightarrow> bucket_manager" where
  "Shutdown hash bm = bm\<lparr>bm_buckets := map (\<lambda>(k, b). (k, closed hash b)) (bm_buckets bm)\<rparr>"

text \<open>A call on the store of a bucket changes it in place.\<close>

definition set_store :: "gostring \<Rightarrow> bucket_store \<Rightarrow> bucket_manager \<Rightarrow> bucket_manager" where
  "set_store name sc bm =
     bm\<lparr>bm_buckets := map (\<lambda>(k, b). (k, if k = name then b\<lparr>bk_store := Some sc\<rparr> else b)) (bm_buckets bm)\<rparr>"

section \<open>The invariant\<close>

abbreviation bucket_ok :: "hasher \<Rightarrow> bucket_store \<Rightarrow> bool" where
  "bucket_ok hash \<equiv> container_ok (store_map hash) (store_ok hash) hash"

abbreviation bucket_map :: "hasher \<Rightarrow> bucket_store \<Rightarrow> gostring \<rightharpoonup> storage_entry" where
  "bucket_map hash \<equiv> container_map (store_map hash) hash"

definition meta_ok :: "hasher \<Rightarrow> gostring \<Rightarrow> bucket_metadata \<Rightarrow> bool" where
  "meta_ok hash name b \<longleftrightarrow> name \<noteq> [] \<and> bk_Name b = name \<and> (\<exists>sc. bk_store b = Some sc \<and> bucket_ok hash sc)"

definition bm_ok :: "hasher \<Rightarrow> bucket_manager \<Rightarrow> bool" where
  "bm_ok hash bm \<longleftrightarrow> distinct (map fst (bm_buckets bm)) \<and> bm_cfgShardCount bm < 2 ^ 63 \<and>
     (\<forall>(name, b) \<in> set (bm_buckets bm). meta_ok hash name b)"

lemma bm_ok_lookup:
  assumes "bm_ok hash bm" "bm_lookup bm name = Some b"
  shows "meta_ok hash name b"
proof -
  have "(name, b) \<in> set (bm_buckets bm)" using assms(2) by (simp add: bm_lookup_def map_of_SomeD)
  then show ?thesis using assms(1) by (auto simp only: bm_ok_def)
qed

lemma GetStore_ok:
  assumes "bm_ok hash bm" "GetStore bm name = Some so"
  shows "\<exists>sc. so = Some sc \<and> bucket_ok hash sc"
proof -
  obtain b where b: "bm_lookup bm name = Some b" "so = bk_store b"
    using assms(2) by (auto simp: GetStore_def split: option.splits)
  from bm_ok_lookup [OF assms(1) b(1)] show ?thesis unfolding meta_ok_def b(2) by blast
qed

lemma NewMemoryStore_container:
  assumes "n < 2 ^ 63"
  shows "bucket_ok hash (NewShardContainer NewMemoryStore now n)"
    "bucket_map hash (NewShardContainer NewMemoryStore now n) = Map.empty"
  using cow.sharded_new [of hash NewMemoryStore now n hash] assms by simp_all

text \<open>Each operation on the lookup function.\<close>

lemma CreateBucket_lookup:
  assumes "CreateBucket env auth uid bm name desc n = (out, bm')"
  shows "bm_lookup bm' =
    (if name = [] \<or> bm_lookup bm name \<noteq> None then bm_lookup bm
     else (bm_lookup bm)(name \<mapsto> \<lparr>bk_ID = uid, bk_Name = name, bk_Description = desc, bk_CreatedAt = env_now env,
       bk_ShardCount = (if n \<le> 0 then bm_cfgShardCount bm else n), bk_KeyCount = 0, bk_MemoryUsage = 0,
       bk_store = Some (NewShardContainer NewMemoryStore (env_now env) (if n \<le> 0 then bm_cfgShardCount bm else n))\<rparr>))"
  using assms map_of_append_new [of "bm_buckets bm" name]
  by (auto simp: CreateBucket_def Let_def bm_lookup_def split: if_splits sum.splits)

lemma CreateBucket_ok:
  assumes ok: "bm_ok hash bm" and n: "n < 2 ^ 63" and r: "CreateBucket env auth uid bm name desc n = (out, bm')"
  shows "bm_ok hash bm'" "bm_cfgShardCount bm' = bm_cfgShardCount bm"
proof -
  have c: "bm_cfgShardCount bm < 2 ^ 63" using ok by (simp add: bm_ok_def)
  have new: "bucket_ok hash (NewShardContainer NewMemoryStore (env_now env) (if n \<le> 0 then bm_cfgShardCount bm else n))"
    by (rule NewMemoryStore_container(1)) (use c n in simp)
  have fresh: "name \<notin> fst ` set (bm_buckets bm)" if "bm_lookup bm name = None"
    using that by (simp add: bm_lookup_def map_of_eq_None_iff)
  show "bm_ok hash bm'"
    using r ok new fresh
    by (auto simp: CreateBucket_def Let_def bm_ok_def meta_ok_def split: if_splits sum.splits)
  show "bm_cfgShardCount bm' = bm_cfgShardCount bm"
    using r by (auto simp: CreateBucket_def Let_def split: if_splits sum.splits)
qed

lemma DeleteBucket_lookup:
  assumes "DeleteBucket env auth bm name token = (out, bm')"
  shows "bm_lookup bm' = (if out = Ok () then (bm_lookup bm)(name := None) else bm_lookup bm)"
  using assms
  by (auto simp: DeleteBucket_def bm_lookup_def map_of_filter_key split: if_splits sum.splits)

lemma DeleteBucket_ok:
  assumes "bm_ok hash bm" "DeleteBucket env auth bm name token = (out, bm')"
  shows "bm_ok hash bm'"
  using assms
  by (auto simp: DeleteBucket_def bm_ok_def distinct_map_filter split: if_splits sum.splits)

lemma bm_ok_values:
  assumes "bm_ok hash bm" "\<And>k b. meta_ok hash k b \<Longrightarrow> meta_ok hash k (f k b)"
  shows "bm_ok hash (bm\<lparr>bm_buckets := map (\<lambda>(k, b). (k, f k b)) (bm_buckets bm)\<rparr>)"
proof -
  have "distinct (map fst (map (\<lambda>(k, b). (k, f k b)) (bm_buckets bm)))"
    unfolding map_fst_values using assms(1) by (simp add: bm_ok_def)
  moreover have "\<forall>(k, b) \<in> set (map (\<lambda>(k, b). (k, f k b)) (bm_buckets bm)). meta_ok hash k b"
    using assms by (auto simp: bm_ok_def)
  ultimately show ?thesis using assms(1) by (simp only: bm_ok_def bucket_manager.simps) simp
qed

lemma set_store_lookup:
  "bm_lookup (set_store name sc bm) = (\<lambda>k. map_option (\<lambda>b. if k = name then b\<lparr>bk_store := Some sc\<rparr> else b) (bm_lookup bm k))"
  by (simp add: bm_lookup_def set_store_def map_of_values [of "\<lambda>k b. if k = name then b\<lparr>bk_store := Some sc\<rparr> else b"]
      fun_eq_iff)

lemma set_store_ok:
  assumes "bm_ok hash bm" "bucket_ok hash sc"
  shows "bm_ok hash (set_store name sc bm)"
proof -
  have "meta_ok hash k (if k = name then b\<lparr>bk_store := Some sc\<rparr> else b)" if "meta_ok hash k b" for k b
    using that assms(2) by (simp add: meta_ok_def)
  from bm_ok_values [OF assms(1), OF this] show ?thesis by (simp only: set_store_def)
qed

lemma GetStore_set_store:
  "GetStore (set_store name sc bm) k = (if k = name \<and> GetStore bm k \<noteq> None then Some (Some sc) else GetStore bm k)"
  by (auto simp: GetStore_def set_store_lookup split: option.splits)

lemma Shutdown_ok:
  assumes "bm_ok hash bm"
  shows "bm_ok hash (Shutdown hash bm)"
proof -
  have "bucket_ok hash (ShardContainer_Close (cow_methods hash) sc)" if "bucket_ok hash sc" for sc
    using cow.sharded_gc(3) [OF that] by (simp only: ShardContainer_Close_def ShardContainer_StopGC_def)
  then have "meta_ok hash k (closed hash b)" if "meta_ok hash k b" for k b
    using that unfolding meta_ok_def closed_def by auto
  from bm_ok_values [OF assms, OF this] show ?thesis by (simp only: Shutdown_def)
qed

section \<open>The index over time\<close>

text \<open>The life of a manager: every operation that changes it, with calls on the stores of its buckets
  as \<open>set_store\<close>.\<close>

inductive bm_reachable :: "hasher \<Rightarrow> auth_state \<Rightarrow> bucket_manager \<Rightarrow> bool" for hash auth where
  bm_new: "NewBucketManager env auth uid n = (Ok tok, bm) \<Longrightarrow> n < 2 ^ 63 \<Longrightarrow> bm_reachable hash auth bm"
| bm_create: "bm_reachable hash auth bm \<Longrightarrow> CreateBucket env auth uid bm name desc n = (out, bm') \<Longrightarrow> n < 2 ^ 63 \<Longrightarrow>
    bm_reachable hash auth bm'"
| bm_delete: "bm_reachable hash auth bm \<Longrightarrow> DeleteBucket env auth bm name token = (out, bm') \<Longrightarrow> bm_reachable hash auth bm'"
| bm_store: "bm_reachable hash auth bm \<Longrightarrow> bucket_ok hash sc \<Longrightarrow> bm_reachable hash auth (set_store name sc bm)"
| bm_shutdown: "bm_reachable hash auth bm \<Longrightarrow> bm_reachable hash auth (Shutdown hash bm)"

lemma bm_reachable_ok: "bm_reachable hash auth bm \<Longrightarrow> bm_ok hash bm"
proof (induction rule: bm_reachable.induct)
  case (bm_new env uid n tok bm)
  have "bm_ok hash \<lparr>bm_buckets = [], bm_cfgShardCount = n\<rparr>" using bm_new(2) by (simp add: bm_ok_def)
  then show ?case using CreateBucket_ok(1) bm_new unfolding NewBucketManager_def by blast
qed (auto intro: CreateBucket_ok DeleteBucket_ok set_store_ok Shutdown_ok)

lemma Shutdown_lookup:
  "bm_lookup (Shutdown hash bm) k = map_option (closed hash) (bm_lookup bm k)"
  by (simp add: bm_lookup_def Shutdown_def map_of_values [of "\<lambda>k. closed hash"])

lemma DeleteBucket_default:
  "DeleteBucket env auth bm (str ''default'') token = (Err ErrCannotDeleteDefault, bm)"
  by (simp add: DeleteBucket_def)

lemma bm_reachable_default: "bm_reachable hash auth bm \<Longrightarrow> BucketExists bm (str ''default'')"
proof (induction rule: bm_reachable.induct)
  case (bm_new env uid n tok bm)
  have "str ''default'' \<noteq> []" by (simp add: str_def)
  with bm_new CreateBucket_lookup [OF bm_new(1) [unfolded NewBucketManager_def]]
  show ?case by (simp add: BucketExists_def bm_lookup_def)
next
  case (bm_create bm env uid name desc n out bm')
  then show ?case using CreateBucket_lookup [OF bm_create(2)] by (simp add: BucketExists_def)
next
  case (bm_delete bm env name token out bm')
  have "out \<noteq> Ok ()" if "name = str ''default''"
    using bm_delete(2) that by (auto simp: DeleteBucket_default)
  then show ?case using DeleteBucket_lookup [OF bm_delete(2)] bm_delete.IH
    by (auto simp: BucketExists_def)
next
  case (bm_store bm sc name)
  then show ?case by (simp add: BucketExists_def set_store_lookup)
next
  case (bm_shutdown bm)
  then show ?case by (simp add: BucketExists_def Shutdown_lookup)
qed

section \<open>Properties\<close>

text \<open>In every reachable manager the default bucket exists, no bucket is listed under two entries,
  and every bucket carries its own name and a well-formed store.\<close>

theorem manager_invariant:
  assumes "bm_reachable hash auth bm"
  shows "BucketExists bm (str ''default'') \<and> distinct (map fst (bm_buckets bm)) \<and>
    (\<forall>name b. bm_lookup bm name = Some b \<longrightarrow> name \<noteq> [] \<and> bk_Name b = name \<and> (\<exists>sc. bk_store b = Some sc \<and> bucket_ok hash sc))"
  using bm_reachable_default [OF assms] bm_reachable_ok [OF assms] bm_ok_lookup [OF bm_reachable_ok [OF assms]]
  by (simp add: bm_ok_def meta_ok_def)

definition manager0 :: bucket_manager where
  "manager0 = snd (NewBucketManager sample_env (Some \<lparr>tm_secretKey = str ''secret''\<rparr>) (str ''id'') 64)"

lemma manager0_reachable: "bm_reachable hash (Some \<lparr>tm_secretKey = str ''secret''\<rparr>) manager0"
proof -
  have "\<exists>tok. NewBucketManager sample_env (Some \<lparr>tm_secretKey = str ''secret''\<rparr>) (str ''id'') 64 = (Ok tok, manager0)"
    unfolding manager0_def
    by (simp add: NewBucketManager_def CreateBucket_def Let_def auth_Manager_def bm_lookup_def str_def)
  then show ?thesis using bm_new [of sample_env _ "str ''id''" 64] by auto
qed

theorem manager_invariant_witness: "BucketExists manager0 (str ''default'')"
  using manager_invariant [OF manager0_reachable] by blast

text \<open>C35: creating a bucket fails without effect for an empty name or a name in use; otherwise it adds an
  empty store with at least one shard under that name, leaves every other bucket alone, and returns a
  token that opens this bucket from then on when the name has no dot.\<close>

theorem create_bucket_spec:
  assumes "bm_reachable hash (Some tm) bm" "n < 2 ^ 63" "CreateBucket env (Some tm) uid bm name desc n = (out, bm')"
  shows "(name = [] \<and> out = Err ErrInvalidBucketName \<and> bm' = bm) \<or>
    (name \<noteq> [] \<and> BucketExists bm name \<and> out = Err ErrBucketAlreadyExists \<and> bm' = bm) \<or>
    (name \<noteq> [] \<and> \<not> BucketExists bm name \<and>
      (\<exists>tok b sc. out = Ok tok \<and> bm_lookup bm' = (bm_lookup bm)(name \<mapsto> b) \<and> bk_store b = Some sc \<and>
        bucket_map hash sc = Map.empty \<and> 0 < sc_shardCount sc \<and>
        (dot \<notin> set name \<longrightarrow> (\<forall>env'. ValidateToken env' tm tok name))))"
proof -
  let ?n = "if n \<le> 0 then bm_cfgShardCount bm else n"
  have c: "?n < 2 ^ 63" using assms(2) bm_reachable_ok [OF assms(1)] by (simp add: bm_ok_def)
  note new = NewMemoryStore_container [OF c, of hash "env_now env"]
  have pos: "0 < sc_shardCount (NewShardContainer NewMemoryStore (env_now env) ?n)" by (simp add: NewShardContainer_def Let_def)
  have nd: "dot \<notin> set (be64 0)" by (auto simp: be64_def be_bytes_def)
  have tok: "ValidateToken env' tm (GenerateToken env tm name 0) name" if "name \<noteq> []" "dot \<notin> set name" for env'
    using GenerateToken_valid [OF that(2,2)] that nd by (simp add: token_expiry_def)
  show ?thesis
  proof (cases "name = [] \<or> bm_lookup bm name \<noteq> None")
    case True
    then show ?thesis using assms(3) by (auto simp: CreateBucket_def BucketExists_def split: if_splits)
  next
    case False
    have "out = Ok (GenerateToken env tm name 0)"
      using assms(3) False by (simp add: CreateBucket_def Let_def auth_Manager_def)
    then show ?thesis
      using False CreateBucket_lookup [OF assms(3)] new(2) pos tok by (auto simp: BucketExists_def)
  qed
qed

theorem create_bucket_spec_witness:
  "\<exists>tok b. fst (CreateBucket sample_env (Some \<lparr>tm_secretKey = str ''secret''\<rparr>) (str ''x'') manager0 (str ''b'') [] 0) = Ok tok \<and>
    bm_lookup (snd (CreateBucket sample_env (Some \<lparr>tm_secretKey = str ''secret''\<rparr>) (str ''x'') manager0 (str ''b'') [] 0)) (str ''b'') = Some b"
proof -
  let ?c = "CreateBucket sample_env (Some \<lparr>tm_secretKey = str ''secret''\<rparr>) (str ''x'') manager0 (str ''b'') [] 0"
  have "\<not> BucketExists manager0 (str ''b'')"
    by (simp add: manager0_def NewBucketManager_def CreateBucket_def Let_def auth_Manager_def bm_lookup_def BucketExists_def str_def)
  moreover have c: "?c = (fst ?c, snd ?c)" by simp
  have z: "(0 :: int) < 2 ^ 63" by simp
  note create_bucket_spec [OF manager0_reachable [of "\<lambda>_. 0"] z c]
  ultimately obtain tok b where "fst ?c = Ok tok" "bm_lookup (snd ?c) = (bm_lookup manager0)(str ''b'' \<mapsto> b)"
    using str_nonempty by blast
  then show ?thesis by simp
qed

text \<open>C36: a bucket is deleted only when it is not the default one, exists, and the token validates for its
  name; then exactly that bucket goes. In every other case nothing changes.\<close>

theorem delete_bucket_spec:
  assumes "bm_reachable hash (Some tm) bm" "DeleteBucket env (Some tm) bm name token = (out, bm')"
  shows "(out = Ok () \<longleftrightarrow> name \<noteq> str ''default'' \<and> ValidateToken env tm token name \<and> BucketExists bm name) \<and>
    bm_lookup bm' = (if out = Ok () then (bm_lookup bm)(name := None) else bm_lookup bm) \<and>
    (name \<noteq> str ''default'' \<and> \<not> ValidateToken env tm token name \<longrightarrow> out = Err ErrUnauthorized) \<and>
    BucketExists bm' (str ''default'')"
proof -
  have "(out = Ok () \<longleftrightarrow> name \<noteq> str ''default'' \<and> ValidateToken env tm token name \<and> BucketExists bm name) \<and>
    (name \<noteq> str ''default'' \<and> \<not> ValidateToken env tm token name \<longrightarrow> out = Err ErrUnauthorized)"
    using assms(2) by (auto simp: DeleteBucket_def auth_Manager_def BucketExists_def split: if_splits)
  then show ?thesis
    using DeleteBucket_lookup [OF assms(2)] bm_reachable_default [OF bm_delete [OF assms]] by blast
qed

theorem delete_bucket_spec_witness:
  "bm_lookup (snd (DeleteBucket sample_env (Some \<lparr>tm_secretKey = str ''secret''\<rparr>) manager0 (str ''default'') [])) = bm_lookup manager0"
  using delete_bucket_spec [OF manager0_reachable [of "\<lambda>_. 0"] prod.collapse [symmetric], of sample_env "str ''default''" "[]"] by simp

text \<open>Tokens are not revoked: the token of a deleted bucket is the token of any later bucket of the
  same name, and opens it.\<close>

theorem token_survives_recreation:
  assumes "CreateBucket env1 (Some tm) uid1 bm1 name desc1 n1 = (Ok tok, bm1')"
    and "DeleteBucket env2 (Some tm) bm2 name tok = (Ok (), bm3)"
    and "CreateBucket env3 (Some tm) uid2 bm3 name desc2 n2 = (Ok tok', bm4)"
  shows "tok' = tok \<and> ValidateToken env2 tm tok name \<and>
    (\<forall>env. ValidateToken env tm tok name \<and> (name \<noteq> str ''default'' \<longrightarrow> fst (DeleteBucket env (Some tm) bm4 name tok) = Ok ()))"
proof -
  have t: "tok = GenerateToken env1 tm name 0" "tok' = GenerateToken env3 tm name 0" "name \<noteq> []" "bm_lookup bm4 name \<noteq> None"
    using assms(1,3) CreateBucket_lookup [OF assms(3)]
    by (auto simp: CreateBucket_def Let_def auth_Manager_def split: if_splits)
  have v2: "ValidateToken env2 tm tok name" using assms(2) by (auto simp: DeleteBucket_def auth_Manager_def split: if_splits)
  then have dn: "dot \<notin> set name" by (simp add: ValidateToken_iff)
  have nd: "dot \<notin> set (be64 0)" by (auto simp: be64_def be_bytes_def)
  have v: "ValidateToken env tm tok name" for env
    using GenerateToken_valid [OF dn dn] t(1,3) dn nd by (simp add: token_expiry_def)
  have "tok' = tok" using t by (simp add: GenerateToken_def token_expiry_def)
  moreover have "fst (DeleteBucket env (Some tm) bm4 name tok) = Ok ()" if "name \<noteq> str ''default''" for env
    using that v t(4) by (simp add: DeleteBucket_def auth_Manager_def)
  ultimately show ?thesis using v v2 by blast
qed

theorem token_survives_recreation_witness:
  "\<forall>env. ValidateToken env \<lparr>tm_secretKey = []\<rparr> (GenerateToken sample_env \<lparr>tm_secretKey = []\<rparr> (str ''b'') 0) (str ''b'')"
proof -
  let ?tm = "\<lparr>tm_secretKey = []\<rparr>" and ?m = "\<lparr>bm_buckets = [], bm_cfgShardCount = 1\<rparr>"
  let ?tok = "GenerateToken sample_env ?tm (str ''b'') 0"
  have c: "CreateBucket sample_env (Some ?tm) [] ?m (str ''b'') [] 1 = (Ok ?tok, snd (CreateBucket sample_env (Some ?tm) [] ?m (str ''b'') [] 1))"
    by (simp add: CreateBucket_def Let_def auth_Manager_def bm_lookup_def str_def)
  let ?m1 = "snd (CreateBucket sample_env (Some ?tm) [] ?m (str ''b'') [] 1)"
  have nd: "dot \<notin> set (be64 0)" "dot \<notin> set (str ''b'')" "str ''b'' \<noteq> str ''default''" "str ''b'' \<noteq> []"
    by (auto simp: be64_def be_bytes_def str_def)
  have v: "ValidateToken sample_env ?tm ?tok (str ''b'')"
    using GenerateToken_valid [OF nd(2,2)] nd by (simp add: token_expiry_def)
  have d: "DeleteBucket sample_env (Some ?tm) ?m1 (str ''b'') ?tok = (Ok (), ?m)"
    using v nd(3,4) by (simp add: DeleteBucket_def auth_Manager_def CreateBucket_def Let_def bm_lookup_def)
  show ?thesis using token_survives_recreation [OF c d c] by blast
qed

end
