(* ===== verification/Services.thy ===== *)
theory Services
  imports Bucket_Manager
begin

text \<open>
  The storage and bucket services of \<open>internal/service/storage_service.go\<close> and
  \<open>internal/service/bucket_service.go\<close>, the operations the transports call, and the abstract state they
  refine: a finite map of entries for every bucket.
\<close>

section \<open>The storage service\<close>

definition duration_seconds :: "int \<Rightarrow> int" where
  "duration_seconds ttl = i64 (ttl * 1000000000)"

definition new_entry :: "env \<Rightarrow> gostring \<Rightarrow> byte list \<Rightarrow> int \<Rightarrow> bool \<Rightarrow> storage_entry" where
  "new_entry env key value ttl singleRead =
     \<lparr>se_Key = key, se_Value = value, se_OriginalSize = int (length value), se_TTL = ttl,
      se_CreatedAt = env_now env,
      se_ExpiresAt = (if 0 < ttl then time_Add (env_now env) (duration_seconds ttl) else zero_time),
      se_SingleRead = singleRead, se_AccessCount = 0, se_LastAccess = 0\<rparr>"

definition StorageService_Set ::
  "env \<Rightarrow> hasher \<Rightarrow> bucket_manager \<Rightarrow> gostring \<Rightarrow> gostring \<Rightarrow> byte list \<Rightarrow> int \<Rightarrow> bool
    \<Rightarrow> storage_entry outcome \<times> bucket_manager" where
  "StorageService_Set env hash bm bucketName key value ttl singleRead =
     (if ttl < 0 then (Err ErrInvalidTTL, bm)
      else case GetStore bm bucketName of
        None \<Rightarrow> (Err ErrBucketNotFound, bm)
      | Some None \<Rightarrow> (Panic NilDereference, bm)
      | Some (Some sc) \<Rightarrow>
          let entry = new_entry env key value ttl singleRead;
              (sc', p) = ShardContainer_Set (cow_methods hash) env hash sc key entry
          in (case p of None \<Rightarrow> Ok entry | Some p \<Rightarrow> Panic p, set_store bucketName sc' bm))"

definition StorageService_Get ::
  "env \<Rightarrow> hasher \<Rightarrow> bucket_manager \<Rightarrow> gostring \<Rightarrow> gostring \<Rightarrow> storage_entry outcome \<times> bucket_manager" where
  "StorageService_Get env hash bm bucketName key =
     (case GetStore bm bucketName of
        None \<Rightarrow> (Err ErrBucketNotFound, bm)
      | Some None \<Rightarrow> (Panic NilDereference, bm)
      | Some (Some sc) \<Rightarrow>
          let (r, sc') = ShardContainer_Get (cow_methods hash) env hash sc key
          in (case r of None \<Rightarrow> Err ErrKeyNotFound | Some e \<Rightarrow> Ok e, set_store bucketName sc' bm))"

definition StorageService_Delete ::
  "hasher \<Rightarrow> bucket_manager \<Rightarrow> gostring \<Rightarrow> gostring \<Rightarrow> unit outcome \<times> bucket_manager" where
  "StorageService_Delete hash bm bucketName key =
     (case GetStore bm bucketName of
        None \<Rightarrow> (Err ErrBucketNotFound, bm)
      | Some None \<Rightarrow> (Panic NilDereference, bm)
      | Some (Some sc) \<Rightarrow>
          let (sc', p) = ShardContainer_Delete (cow_methods hash) hash sc key
          in (case p of None \<Rightarrow> Ok () | Some p \<Rightarrow> Panic p, set_store bucketName sc' bm))"

section \<open>The bucket service\<close>

record create_bucket_result =
  cbr_Metadata :: bucket_metadata
  cbr_AuthToken :: gostring

definition BucketService_CreateBucket ::
  "env \<Rightarrow> auth_state \<Rightarrow> hasher \<Rightarrow> gostring \<Rightarrow> bucket_manager \<Rightarrow> gostring \<Rightarrow> gostring \<Rightarrow> int
    \<Rightarrow> create_bucket_result outcome \<times> bucket_manager" where
  "BucketService_CreateBucket env auth hash uid bm name description shardCount =
     (case CreateBucket env auth uid bm name description shardCount of
        (Ok token, bm') \<Rightarrow>
          (case GetBucket hash bm' name of
             None \<Rightarrow> (Err ErrBucketNotFound, bm')
           | Some meta \<Rightarrow> (Ok \<lparr>cbr_Metadata = meta, cbr_AuthToken = token\<rparr>, bm'))
      | (Err e, bm') \<Rightarrow> (Err e, bm')
      | (Panic p, bm') \<Rightarrow> (Panic p, bm'))"

definition BucketService_GetBucket :: "hasher \<Rightarrow> bucket_manager \<Rightarrow> gostring \<Rightarrow> bucket_metadata outcome" where
  "BucketService_GetBucket hash bm name =
     (case GetBucket hash bm name of None \<Rightarrow> Err ErrBucketNotFound | Some meta \<Rightarrow> Ok meta)"

definition BucketService_DeleteBucket ::
  "env \<Rightarrow> auth_state \<Rightarrow> bucket_manager \<Rightarrow> gostring \<Rightarrow> gostring \<Rightarrow> unit outcome \<times> bucket_manager" where
  "BucketService_DeleteBucket env auth bm name token =
     (case DeleteBucket env auth bm name token of
        (Err e, bm') \<Rightarrow> (Err e, bm') | (Panic p, bm') \<Rightarrow> (Panic p, bm') | (Ok u, bm') \<Rightarrow> (Ok (), bm'))"

definition BucketService_ListBuckets :: "hasher \<Rightarrow> bucket_manager \<Rightarrow> bucket_metadata list outcome" where
  "BucketService_ListBuckets hash bm = Ok (ListBuckets hash bm)"

section \<open>The abstract state\<close>

text \<open>What the services stand for: the entries of every bucket.\<close>

definition kv_view :: "hasher \<Rightarrow> bucket_manager \<Rightarrow> gostring \<rightharpoonup> (gostring \<rightharpoonup> storage_entry)" where
  "kv_view hash bm name = (case GetStore bm name of Some (Some sc) \<Rightarrow> Some (bucket_map hash sc) | _ \<Rightarrow> None)"

lemma kv_view_Some:
  assumes "bm_ok hash bm" "kv_view hash bm name = Some M"
  obtains sc where "GetStore bm name = Some (Some sc)" "bucket_ok hash sc" "bucket_map hash sc = M"
proof -
  obtain sc where sc: "GetStore bm name = Some (Some sc)" "bucket_map hash sc = M"
    using assms(2) by (auto simp: kv_view_def split: option.splits)
  then show thesis using GetStore_ok [OF assms(1) sc(1)] that by blast
qed

lemma kv_view_None:
  assumes "bm_ok hash bm"
  shows "kv_view hash bm name = None \<longleftrightarrow> GetStore bm name = None"
proof -
  have "\<exists>sc. so = Some sc" if "GetStore bm name = Some so" for so
    using GetStore_ok [OF assms that] by blast
  then show ?thesis by (auto simp: kv_view_def split: option.splits)
qed

lemma kv_view_set_store:
  assumes "GetStore bm name \<noteq> None"
  shows "kv_view hash (set_store name sc bm) = (kv_view hash bm)(name \<mapsto> bucket_map hash sc)"
  using assms by (auto simp: kv_view_def GetStore_set_store fun_eq_iff)

text \<open>The operations on the abstract state.\<close>

lemma StorageService_Set_view:
  assumes ok: "bm_ok hash bm" and r: "StorageService_Set env hash bm b k v ttl sr = (out, bm')"
    and M: "kv_view hash bm b = Some M" and ttl: "0 \<le> ttl"
  shows "kv_view hash bm' = (kv_view hash bm)(b \<mapsto> M(k \<mapsto> stamped env (new_entry env k v ttl sr)))"
    "bm_ok hash bm'" "out = Ok (new_entry env k v ttl sr) \<or> (\<exists>p. out = Panic p)"
proof -
  obtain sc where sc: "GetStore bm b = Some (Some sc)" "bucket_ok hash sc" "bucket_map hash sc = M"
    by (rule kv_view_Some [OF ok M])
  obtain sc' p where s: "ShardContainer_Set (cow_methods hash) env hash sc k (new_entry env k v ttl sr) = (sc', p)"
    by fastforce
  have bm': "bm' = set_store b sc' bm" and out: "out = (case p of None \<Rightarrow> Ok (new_entry env k v ttl sr) | Some p \<Rightarrow> Panic p)"
    using r sc(1) s ttl by (auto simp: StorageService_Set_def Let_def)
  note c = cow.sharded_set [OF sc(2) s]
  show "kv_view hash bm' = (kv_view hash bm)(b \<mapsto> M(k \<mapsto> stamped env (new_entry env k v ttl sr)))"
    using kv_view_set_store [of bm b hash sc'] sc(1,3) c(2) by (simp add: bm')
  show "bm_ok hash bm'" unfolding bm' by (rule set_store_ok [OF ok c(1)])
  show "out = Ok (new_entry env k v ttl sr) \<or> (\<exists>p. out = Panic p)" unfolding out by (cases p) auto
qed

lemma StorageService_Get_view:
  assumes ok: "bm_ok hash bm" and r: "StorageService_Get env hash bm b k = (out, bm')"
    and M: "kv_view hash bm b = Some M"
  shows "out = (case Option.bind (M k) (read_entry env) of None \<Rightarrow> Err ErrKeyNotFound | Some e \<Rightarrow> Ok e)"
    "kv_view hash bm' = (kv_view hash bm)(b \<mapsto>
      (case Option.bind (M k) (read_entry env) of None \<Rightarrow> M | Some e \<Rightarrow> M(k \<mapsto> e)))"
    "bm_ok hash bm'"
proof -
  obtain sc where sc: "GetStore bm b = Some (Some sc)" "bucket_ok hash sc" "bucket_map hash sc = M"
    by (rule kv_view_Some [OF ok M])
  obtain res sc' where s: "ShardContainer_Get (cow_methods hash) env hash sc k = (res, sc')" by fastforce
  have bm': "bm' = set_store b sc' bm" and out: "out = (case res of None \<Rightarrow> Err ErrKeyNotFound | Some e \<Rightarrow> Ok e)"
    using r sc(1) s by (auto simp: StorageService_Get_def Let_def)
  note c = cow.sharded_get [OF sc(2) s]
  have res: "res = Option.bind (M k) (read_entry env)" using c(2) sc(3) by simp
  show "out = (case Option.bind (M k) (read_entry env) of None \<Rightarrow> Err ErrKeyNotFound | Some e \<Rightarrow> Ok e)"
    by (simp only: out res)
  show "kv_view hash bm' = (kv_view hash bm)(b \<mapsto>
      (case Option.bind (M k) (read_entry env) of None \<Rightarrow> M | Some e \<Rightarrow> M(k \<mapsto> e)))"
    using kv_view_set_store [of bm b hash sc'] sc(1) unfolding bm' by (simp add: c(3) [unfolded sc(3) res])
  show "bm_ok hash bm'" unfolding bm' by (rule set_store_ok [OF ok c(1)])
qed

lemma StorageService_Delete_view:
  assumes ok: "bm_ok hash bm" and r: "StorageService_Delete hash bm b k = (Ok (), bm')"
    and M: "kv_view hash bm b = Some M" and pos: "sizes_pos M {k}"
  shows "kv_view hash bm' = (kv_view hash bm)(b \<mapsto> M(k := None))" "bm_ok hash bm'"
proof -
  obtain sc where sc: "GetStore bm b = Some (Some sc)" "bucket_ok hash sc" "bucket_map hash sc = M"
    by (rule kv_view_Some [OF ok M])
  obtain sc' p where s: "ShardContainer_Delete (cow_methods hash) hash sc k = (sc', p)" by fastforce
  have bm': "bm' = set_store b sc' bm" and p: "p = None"
    using r sc(1) s by (auto simp: StorageService_Delete_def Let_def split: option.splits)
  have "sizes_pos (bucket_map hash sc) {k}" using pos sc(3) by simp
  note c = cow.sharded_delete [OF sc(2) s [unfolded p] this]
  show "kv_view hash bm' = (kv_view hash bm)(b \<mapsto> M(k := None))"
    using kv_view_set_store [of bm b hash sc'] sc(1,3) c(2) by (simp add: bm')
  show "bm_ok hash bm'" unfolding bm' by (rule set_store_ok [OF ok c(1)])
qed

text \<open>Without the bucket nothing happens and the error says so.\<close>

lemma StorageService_no_bucket:
  assumes "GetStore bm b = None"
  shows "0 \<le> ttl \<Longrightarrow> StorageService_Set env hash bm b k v ttl sr = (Err ErrBucketNotFound, bm)"
    "StorageService_Get env hash bm b k = (Err ErrBucketNotFound, bm)"
    "StorageService_Delete hash bm b k = (Err ErrBucketNotFound, bm)"
  using assms by (simp_all add: StorageService_Set_def StorageService_Get_def StorageService_Delete_def)

text \<open>In every case, errors and panics included, an operation leaves every other bucket as it was.\<close>

lemma StorageService_Delete_any:
  assumes ok: "bm_ok hash bm" and r: "StorageService_Delete hash bm b k = (out, bm')" and M: "kv_view hash bm b = Some M"
  shows "bm_ok hash bm'" "out = Ok () \<or> (\<exists>p. out = Panic p)"
    "kv_view hash bm' = kv_view hash bm \<or> out = Ok () \<and> kv_view hash bm' = (kv_view hash bm)(b \<mapsto> M(k := None))"
proof -
  obtain sc where sc: "GetStore bm b = Some (Some sc)" "bucket_ok hash sc" "bucket_map hash sc = M"
    by (rule kv_view_Some [OF ok M])
  obtain sc' p where s: "ShardContainer_Delete (cow_methods hash) hash sc k = (sc', p)" by fastforce
  have bm': "bm' = set_store b sc' bm" and out: "out = (case p of None \<Rightarrow> Ok () | Some p \<Rightarrow> Panic p)"
    using r sc(1) s by (auto simp: StorageService_Delete_def Let_def)
  note c = cow.sharded_delete_any [OF sc(2) s]
  show "bm_ok hash bm'" unfolding bm' by (rule set_store_ok [OF ok c(1)])
  show "out = Ok () \<or> (\<exists>p. out = Panic p)" using out by (auto split: option.splits)
  have "kv_view hash bm' = (kv_view hash bm)(b \<mapsto> bucket_map hash sc')"
    using kv_view_set_store [of bm b hash sc'] sc(1) by (simp add: bm')
  moreover have "(kv_view hash bm)(b \<mapsto> M) = kv_view hash bm" using M by auto
  ultimately show "kv_view hash bm' = kv_view hash bm \<or> out = Ok () \<and> kv_view hash bm' = (kv_view hash bm)(b \<mapsto> M(k := None))"
    using c(2) sc(3) out by auto
qed

lemma StorageService_Set_negative: "ttl < 0 \<Longrightarrow> StorageService_Set env hash bm b k v ttl sr = (Err ErrInvalidTTL, bm)"
  by (simp add: StorageService_Set_def)

lemma StorageService_frame:
  assumes ok: "bm_ok hash bm" and other: "b' \<noteq> b"
  shows "StorageService_Set env hash bm b k v ttl sr = (out, bm') \<Longrightarrow> bm_ok hash bm' \<and> kv_view hash bm' b' = kv_view hash bm b'"
    "StorageService_Get env hash bm b k = (out1, bm') \<Longrightarrow> bm_ok hash bm' \<and> kv_view hash bm' b' = kv_view hash bm b'"
    "StorageService_Delete hash bm b k = (out2, bm') \<Longrightarrow> bm_ok hash bm' \<and> kv_view hash bm' b' = kv_view hash bm b'"
proof -
  note none = kv_view_None [OF ok, of b]
  show "bm_ok hash bm' \<and> kv_view hash bm' b' = kv_view hash bm b'"
    if r: "StorageService_Set env hash bm b k v ttl sr = (out, bm')"
  proof (cases "ttl < 0")
    case True
    then show ?thesis using r ok by (simp add: StorageService_Set_negative)
  next
    case False
    then show ?thesis
      using StorageService_Set_view(1,2) [OF ok r] StorageService_no_bucket(1) [of bm b ttl] none r ok other
      by (cases "kv_view hash bm b") auto
  qed
  show "bm_ok hash bm' \<and> kv_view hash bm' b' = kv_view hash bm b'"
    if r: "StorageService_Get env hash bm b k = (out1, bm')"
    using StorageService_Get_view(2,3) [OF ok r] StorageService_no_bucket(2) none r ok other
    by (cases "kv_view hash bm b") auto
  show "bm_ok hash bm' \<and> kv_view hash bm' b' = kv_view hash bm b'"
    if r: "StorageService_Delete hash bm b k = (out2, bm')"
    using StorageService_Delete_any(1,3) [OF ok r] StorageService_no_bucket(3) none r ok other
    by (cases "kv_view hash bm b") auto
qed

text \<open>Creating or deleting a bucket leaves the entries of the others.\<close>

lemma CreateBucket_keeps:
  assumes "CreateBucket env auth uid bm name desc n = (out, bm')" "kv_view hash bm b = Some M"
  shows "kv_view hash bm' b = Some M"
proof -
  have "bm_lookup bm b \<noteq> None" using assms(2) by (auto simp: kv_view_def GetStore_def split: option.splits)
  then have "bm_lookup bm' b = bm_lookup bm b" using CreateBucket_lookup [OF assms(1)] by auto
  then show ?thesis using assms(2) by (simp add: kv_view_def GetStore_def)
qed

lemma DeleteBucket_keeps:
  assumes "DeleteBucket env auth bm name token = (out, bm')" "name \<noteq> b"
  shows "kv_view hash bm' b = kv_view hash bm b"
  using DeleteBucket_lookup [OF assms(1)] assms(2) by (simp add: kv_view_def GetStore_def)

section \<open>Reading what was written\<close>

lemma read_stamped:
  "read_entry env (stamped env0 (new_entry env0 k v ttl sr)) =
    (if IsExpired (env_now env) (new_entry env0 k v ttl sr) then None
     else Some ((new_entry env0 k v ttl sr)\<lparr>se_AccessCount := 1,
       se_LastAccess := (if sr then env_cached env0 else env_cached env)\<rparr>))"
  by (simp add: read_entry_def stamped_def new_entry_def IsExpired_def i32_def signed_take_bit_eq_if_positive)

text \<open>A time-to-live of 9223372037 seconds or more wraps: for the smallest one the entry expires before
  it is stored.\<close>

lemma duration_wraps: "duration_seconds 9223372037 < 0"
  by code_simp

lemma duration_exact: "0 \<le> ttl \<Longrightarrow> ttl \<le> 9223372036 \<Longrightarrow> duration_seconds ttl = ttl * 1000000000"
  by (simp add: duration_seconds_def i64_id)

section \<open>Properties\<close>

text \<open>The storage service writes what a finite map per bucket would: \<open>Set\<close> in an existing bucket with a
  non-negative time-to-live binds the key in that bucket only and returns the entry, or it panics
  with the new entry already in place.\<close>

theorem service_set_refines:
  assumes "bm_reachable hash auth bm" "kv_view hash bm b = Some M" "0 \<le> ttl"
    and "StorageService_Set env hash bm b k v ttl sr = (out, bm')"
  shows "kv_view hash bm' = (kv_view hash bm)(b \<mapsto> M(k \<mapsto> (new_entry env k v ttl sr)\<lparr>se_LastAccess := env_cached env\<rparr>)) \<and>
    (out = Ok (new_entry env k v ttl sr) \<or> (\<exists>p. out = Panic p))"
proof -
  have "stamped env (new_entry env k v ttl sr) = (new_entry env k v ttl sr)\<lparr>se_LastAccess := env_cached env\<rparr>"
    by (simp add: stamped_def new_entry_def)
  then show ?thesis using StorageService_Set_view [OF bm_reachable_ok [OF assms(1)] assms(4,2,3)] by simp
qed

definition sample_manager :: bucket_manager where
  "sample_manager = snd (NewBucketManager sample_env (Some \<lparr>tm_secretKey = str ''secret''\<rparr>) (str ''id'') 4)"

lemma sample_manager_reachable: "bm_reachable hash (Some \<lparr>tm_secretKey = str ''secret''\<rparr>) sample_manager"
proof -
  have "\<exists>tok. NewBucketManager sample_env (Some \<lparr>tm_secretKey = str ''secret''\<rparr>) (str ''id'') 4 = (Ok tok, sample_manager)"
    unfolding sample_manager_def
    by (simp add: NewBucketManager_def CreateBucket_def Let_def auth_Manager_def bm_lookup_def str_def)
  then show ?thesis using bm_new [of sample_env _ "str ''id''" 4] by auto
qed

lemma sample_manager_view: "kv_view hash sample_manager (str ''default'') = Some Map.empty"
  unfolding sample_manager_def
  by (simp add: NewBucketManager_def CreateBucket_def Let_def auth_Manager_def kv_view_def GetStore_def bm_lookup_def
      NewMemoryStore_container(2) str_nonempty)

definition sample_token :: gostring where
  "sample_token = GenerateToken sample_env \<lparr>tm_secretKey = str ''secret''\<rparr> (str ''default'') 0"

lemma sample_token_valid: "ValidateToken env \<lparr>tm_secretKey = str ''secret''\<rparr> sample_token (str ''default'')"
proof -
  have "dot \<notin> set (be64 0)" "dot \<notin> set (str ''default'')" "str ''default'' \<noteq> []" by (auto simp: be64_def be_bytes_def str_def)
  then show ?thesis unfolding sample_token_def using GenerateToken_valid by (simp add: token_expiry_def)
qed

theorem service_set_refines_witness:
  "kv_view (\<lambda>_. 0) (snd (StorageService_Set sample_env (\<lambda>_. 0) sample_manager (str ''default'') (str ''k'') [1] 5 False)) (str ''default'')
    = Some [str ''k'' \<mapsto> (new_entry sample_env (str ''k'') [1] 5 False)\<lparr>se_LastAccess := env_cached sample_env\<rparr>]"
proof -
  let ?r = "StorageService_Set sample_env (\<lambda>_. 0) sample_manager (str ''default'') (str ''k'') [1] 5 False"
  have "?r = (fst ?r, snd ?r)" by simp
  from service_set_refines [OF sample_manager_reachable sample_manager_view _ this] show ?thesis by simp
qed

text \<open>C1: read your writes: after a \<open>Set\<close> that returned, every \<open>Get\<close> of the key in that bucket until the
  entry expires returns the value written, with the time-to-live and times of the entry; from the
  expiry on it answers that the key is not found.\<close>

theorem service_read_your_writes:
  assumes "bm_reachable hash auth bm" "kv_view hash bm b = Some M" "0 \<le> ttl"
    and "StorageService_Set env hash bm b k v ttl sr = (Ok e, bm1)" "StorageService_Get env' hash bm1 b k = (out, bm2)"
  shows "out = (if 0 < ttl \<and> env_now env + duration_seconds ttl \<noteq> zero_time \<and> env_now env + duration_seconds ttl < env_now env'
    then Err ErrKeyNotFound
    else Ok (e\<lparr>se_AccessCount := 1, se_LastAccess := (if sr then env_cached env else env_cached env')\<rparr>))"
proof -
  note s = StorageService_Set_view [OF bm_reachable_ok [OF assms(1)] assms(4,2,3)]
  have e: "e = new_entry env k v ttl sr" using s(3) by simp
  have M: "kv_view hash bm1 b = Some (M(k \<mapsto> stamped env e))" using s(1) by (simp add: e)
  note g = StorageService_Get_view(1) [OF s(2) assms(5) M]
  have x: "IsExpired (env_now env') e \<longleftrightarrow> 0 < ttl \<and> env_now env + duration_seconds ttl \<noteq> zero_time \<and> env_now env + duration_seconds ttl < env_now env'"
    by (auto simp: e IsExpired_def new_entry_def time_IsZero_def time_Add_def)
  show ?thesis using g unfolding fun_upd_same bind.bind_lunit e read_stamped x [unfolded e] by simp
qed

lemma sample_set_ok:
  "StorageService_Set sample_env (\<lambda>_. 0) sample_manager (str ''default'') (str ''k'') v 0 False =
    (Ok (new_entry sample_env (str ''k'') v 0 False),
     snd (StorageService_Set sample_env (\<lambda>_. 0) sample_manager (str ''default'') (str ''k'') v 0 False))"
proof -
  let ?e = "new_entry sample_env (str ''k'') v 0 False"
  let ?sc = "NewShardContainer NewMemoryStore (env_now sample_env) 4"
  have g: "GetStore sample_manager (str ''default'') = Some (Some ?sc)"
    by (simp add: sample_manager_def NewBucketManager_def CreateBucket_def Let_def auth_Manager_def GetStore_def
        bm_lookup_def str_nonempty)
  have sh: "sc_shards ?sc ! getShard (\<lambda>_. 0) ?sc k = NewMemoryStore (env_now sample_env)" for k
    by (simp add: NewShardContainer_def getShard_def)
  have n: "nq_index (gc_nearQueue (NewGarbageCollector (env_now sample_env))) k = None" for k
    by (simp add: NewGarbageCollector_def NewNearQueue_def)
  have "GC_Schedule sample_env (ms_gc (NewMemoryStore (env_now sample_env))) (str ''k'') (se_TTL ?e) (se_CreatedAt ?e) =
    Inr ((NewGarbageCollector (env_now sample_env))\<lparr>gc_wheel := HashedWheel_Remove (gc_wheel (NewGarbageCollector (env_now sample_env))) (str ''k'')\<rparr>)"
    using cancel_unknown [OF n] by (simp add: GC_Schedule_def new_entry_def NewMemoryStore_def)
  from MemoryStore_Set_gc(1) [OF this] have "snd (ShardContainer_Set (cow_methods (\<lambda>_. 0)) sample_env (\<lambda>_. 0) ?sc (str ''k'') ?e) = None"
    by (simp add: ShardContainer_Set_def Let_def cow_methods_def sh case_prod_unfold)
  then show ?thesis by (simp add: StorageService_Set_def g case_prod_unfold Let_def)
qed

theorem service_read_your_writes_witness:
  "\<exists>e. fst (StorageService_Get sample_env (\<lambda>_. 0)
     (snd (StorageService_Set sample_env (\<lambda>_. 0) sample_manager (str ''default'') (str ''k'') [1] 0 False)) (str ''default'') (str ''k''))
    = Ok e \<and> se_Value e = [1]"
  using service_read_your_writes [OF sample_manager_reachable sample_manager_view _ sample_set_ok prod.collapse [symmetric], of sample_env]
  by (simp add: new_entry_def)

text \<open>C11: a deleted key is gone: after a \<open>Delete\<close> that returned, of a key that is not empty, \<open>Get\<close> answers
  that the key is not found, and every other key and bucket is as before.\<close>

theorem service_delete_removes:
  assumes "bm_reachable hash auth bm" "kv_view hash bm b = Some M" "k \<noteq> []"
    and "StorageService_Delete hash bm b k = (Ok (), bm1)"
  shows "kv_view hash bm1 = (kv_view hash bm)(b \<mapsto> M(k := None)) \<and>
    fst (StorageService_Get env hash bm1 b k) = Err ErrKeyNotFound"
proof -
  note d = StorageService_Delete_view [OF bm_reachable_ok [OF assms(1)] assms(4,2) sizes_pos_single]
  have d: "kv_view hash bm1 = (kv_view hash bm)(b \<mapsto> M(k := None))" "bm_ok hash bm1" using d assms(3) by simp_all
  obtain out bm2 where g: "StorageService_Get env hash bm1 b k = (out, bm2)" by fastforce
  have "kv_view hash bm1 b = Some (M(k := None))" by (simp add: d(1))
  from StorageService_Get_view(1) [OF d(2) g this] show ?thesis by (simp add: d(1) g)
qed

theorem service_delete_removes_witness:
  "fst (StorageService_Get sample_env (\<lambda>_. 0) (snd (StorageService_Delete (\<lambda>_. 0) sample_manager (str ''default'') (str ''k'')))
    (str ''default'') (str ''k'')) = Err ErrKeyNotFound"
proof -
  have g: "GetStore sample_manager (str ''default'') = Some (Some (NewShardContainer NewMemoryStore (env_now sample_env) 4))"
    by (simp add: sample_manager_def NewBucketManager_def CreateBucket_def Let_def auth_Manager_def GetStore_def
        bm_lookup_def str_nonempty)
  have "fst (StorageService_Delete (\<lambda>_. 0) sample_manager (str ''default'') (str ''k'')) = Ok ()"
    by (simp add: StorageService_Delete_def g ShardContainer_Delete_def NewShardContainer_def Let_def cow_methods_def
        MemoryStore_Delete_def deleteBatch_def group_keys_def getShard_def NewMemoryStore_def BinarySearch_def
        segment_of_def bsearch_loop.simps)
  then have "StorageService_Delete (\<lambda>_. 0) sample_manager (str ''default'') (str ''k'') =
      (Ok (), snd (StorageService_Delete (\<lambda>_. 0) sample_manager (str ''default'') (str ''k'')))"
    by (metis prod.collapse)
  from service_delete_removes [OF sample_manager_reachable sample_manager_view str_nonempty this] show ?thesis by blast
qed

text \<open>C39: the conversion to a duration wraps. A value stored with a time-to-live of 9223372037 seconds
  (292 years) is already expired: the next \<open>Get\<close> does not find it.\<close>

theorem ttl_overflow_expires_at_once:
  assumes "bm_reachable hash auth bm" "kv_view hash bm b = Some M" "0 \<le> env_now env" "env_now env \<le> env_now env'"
    and "StorageService_Set env hash bm b k v 9223372037 sr = (Ok e, bm1)" "StorageService_Get env' hash bm1 b k = (out, bm2)"
  shows "out = Err ErrKeyNotFound"
proof -
  have "(0 :: int) \<le> 9223372037" by simp
  note s = StorageService_Set_view [OF bm_reachable_ok [OF assms(1)] assms(5,2) this]
  have e: "e = new_entry env k v 9223372037 sr" using s(3) by simp
  have M: "kv_view hash bm1 b = Some (M(k \<mapsto> stamped env (new_entry env k v 9223372037 sr)))" using s(1) by (simp add: e)
  note g = StorageService_Get_view(1) [OF s(2) assms(6) M]
  have "i64 (9223372037 * 1000000000) = - 9223372036709551616" by code_simp
  then have d: "duration_seconds 9223372037 = - 9223372036709551616" by (simp add: duration_seconds_def)
  have "IsExpired (env_now env') (new_entry env k v 9223372037 sr)"
    using assms(3,4) by (simp add: IsExpired_def new_entry_def time_IsZero_def time_Add_def d zero_time_def)
  then show ?thesis using g by (simp add: read_stamped)
qed

lemma sample_overflow_set:
  "StorageService_Set sample_env (\<lambda>_. 0) sample_manager (str ''default'') (str ''k'') [1] 9223372037 False =
    (Ok (new_entry sample_env (str ''k'') [1] 9223372037 False),
     snd (StorageService_Set sample_env (\<lambda>_. 0) sample_manager (str ''default'') (str ''k'') [1] 9223372037 False))"
proof -
  let ?e = "new_entry sample_env (str ''k'') [1] 9223372037 False"
  let ?sc = "NewShardContainer NewMemoryStore (env_now sample_env) 4"
  let ?gc = "NewGarbageCollector (env_now sample_env)"
  have g: "GetStore sample_manager (str ''default'') = Some (Some ?sc)"
    by (simp add: sample_manager_def NewBucketManager_def CreateBucket_def Let_def auth_Manager_def GetStore_def
        bm_lookup_def str_nonempty)
  have sh: "sc_shards ?sc ! getShard (\<lambda>_. 0) ?sc k = NewMemoryStore (env_now sample_env)" for k
    by (simp add: NewShardContainer_def getShard_def)
  have x: "gc_expireAt 9223372037 1700000000000000000 = 1700000009223372037"
    by (simp add: gc_expireAt_def time_UnixNano_def time_Add_def i64_id)
  have "GC_Schedule sample_env ?gc (str ''k'') 9223372037 1700000000000000000 =
    Inr (?gc\<lparr>gc_wheel := HashedWheel_Add sample_env (gc_wheel ?gc) (str ''k'') 1700000009223372037\<rparr>)"
    unfolding x [symmetric]
    by (rule GC_Schedule_far) (simp_all add: x sample_env_def NewGarbageCollector_def NewNearQueue_def defaultNearWindowMs_def to_ms_nonneg_eq)
  then have "GC_Schedule sample_env (ms_gc (NewMemoryStore (env_now sample_env))) (str ''k'') (se_TTL ?e) (se_CreatedAt ?e) =
    Inr (?gc\<lparr>gc_wheel := HashedWheel_Add sample_env (gc_wheel ?gc) (str ''k'') 1700000009223372037\<rparr>)"
    by (simp add: new_entry_def NewMemoryStore_def sample_env_def)
  from MemoryStore_Set_gc(1) [OF this] have "snd (ShardContainer_Set (cow_methods (\<lambda>_. 0)) sample_env (\<lambda>_. 0) ?sc (str ''k'') ?e) = None"
    by (simp add: ShardContainer_Set_def Let_def cow_methods_def sh case_prod_unfold)
  then show ?thesis by (simp add: StorageService_Set_def g case_prod_unfold Let_def)
qed

theorem ttl_overflow_expires_at_once_witness:
  "fst (StorageService_Get sample_env (\<lambda>_. 0)
     (snd (StorageService_Set sample_env (\<lambda>_. 0) sample_manager (str ''default'') (str ''k'') [1] 9223372037 False))
     (str ''default'') (str ''k'')) = Err ErrKeyNotFound"
  by (rule ttl_overflow_expires_at_once [OF sample_manager_reachable sample_manager_view _ order_refl sample_overflow_set prod.collapse [symmetric]])
    (simp add: sample_env_def)

text \<open>The collector reads the time-to-live in nanoseconds, the entry in seconds. Once the collector
  runs, an entry stored for \<open>ttl\<close> seconds is deleted at the first tick of the near queue and flush
  after \<open>ttl\<close> nanoseconds, long before it expires.\<close>

theorem collected_after_nanoseconds:
  assumes "ms_reachable hash s" "k \<noteq> []" "nq_index (gc_nearQueue (ms_gc s)) k = None" "0 < ttl" "ttl \<le> 2000000000"
    and now: "0 \<le> env_now env" "env_now env < 2 ^ 62" "env_cached env = env_now env" "nq_windowMs (gc_nearQueue (ms_gc s)) = 2000"
    and set: "MemoryStore_Set env hash s k (new_entry env k v ttl sr) = (s1, out)"
    and tick: "env_now env + ttl \<le> c"
    and flush: "MemoryStore_flush hash (s1\<lparr>ms_gc := GC_nearTick c (ms_gc s1)\<rparr>) = (s2, None)"
  shows "store_map hash s1 k = Some (stamped env (new_entry env k v ttl sr)) \<and>
    se_ExpiresAt (new_entry env k v ttl sr) = env_now env + ttl * 1000000000 \<and> store_map hash s2 k = None"
proof -
  let ?e = "new_entry env k v ttl sr" and ?d = "gc_expireAt ttl (env_now env)"
  have d: "?d = env_now env + ttl"
    using assms(4,5) now by (simp add: gc_expireAt_def time_UnixNano_def time_Add_def i64_id)
  have inv: "ms_inv hash s" by (rule ms_reachable_inv [OF assms(1)])
  then have ok: "store_ok hash s" and gok: "near_ok (gc_nearQueue (ms_gc s))"
    by (simp_all add: ms_inv_def store_ok_def gc_ok_def)
  have win: "to_ms ?d - to_ms (env_cached env) \<le> nq_windowMs (gc_nearQueue (ms_gc s))"
    using assms(4,5) now by (simp add: d to_ms_nonneg_eq)
  obtain q where a: "NearQueue_Add (env_cached env) (gc_nearQueue (ms_gc s)) k ?d = Inr (True, q)"
    using assms(3) win
    by (cases "heap_Push (nq_heap (gc_nearQueue (ms_gc s))) \<lparr>ne_key = k, ne_expireAt = ?d, ne_index = 0\<rparr>")
      (auto simp: NearQueue_Add_def Let_def)
  have sch: "GC_Schedule env (ms_gc s) k (se_TTL ?e) (se_CreatedAt ?e) = Inr ((ms_gc s)\<lparr>gc_nearQueue := q\<rparr>)"
    using near_route [OF assms(4) a] by (simp add: new_entry_def)
  have s1: "ms_gc s1 = (ms_gc s)\<lparr>gc_nearQueue := q\<rparr>" using MemoryStore_Set_gc(2) [OF sch, of hash] set by simp
  have r1: "ms_reachable hash s1" by (rule ms_set [OF assms(1,2) set])
  have g1: "gc_ok (ms_gc s1)" using ms_reachable_inv [OF r1] by (simp add: ms_inv_def store_ok_def)
  have "(k, ?d) \<in># nq_deadlines (gc_nearQueue (ms_gc s1))"
    using NearQueue_Add_new(2) [OF gok assms(3) a] by (simp add: s1)
  from near_tick_delivers [OF g1 this, of c] have p: "k \<in> gc_pending (GC_nearTick c (ms_gc s1))"
    using tick by (simp add: due_def d to_ms_mono)
  let ?s1 = "s1\<lparr>ms_gc := GC_nearTick c (ms_gc s1)\<rparr>"
  have "ms_inv hash ?s1" by (rule ms_reachable_inv [OF ms_near [OF r1]])
  then have ok1: "store_ok hash ?s1" "sizes_pos (store_map hash ?s1) (gc_pending (ms_gc ?s1))"
    by (simp_all only: ms_inv_def sizes_pos_nonempty)
  have "store_map hash s2 k = None" using MemoryStore_flush_correct(2) [OF ok1(1) flush ok1(2)] p by simp
  moreover have "se_ExpiresAt ?e = env_now env + ttl * 1000000000"
    using assms(4,5) duration_exact [of ttl] by (simp add: new_entry_def time_Add_def)
  ultimately show ?thesis using MemoryStore_Set_correct(2) [OF ok set] by simp
qed

lemma sample_flush:
  "snd (MemoryStore_flush (\<lambda>_. 0) ((fst (MemoryStore_Set sample_env (\<lambda>_. 0) (NewMemoryStore 0) (str ''k'') (new_entry sample_env (str ''k'') [1] 60 False)))
     \<lparr>ms_gc := GC_nearTick 1700000000001000000 (ms_gc (fst (MemoryStore_Set sample_env (\<lambda>_. 0) (NewMemoryStore 0) (str ''k'') (new_entry sample_env (str ''k'') [1] 60 False))))\<rparr>)) = None"
  by code_simp

theorem collected_after_nanoseconds_witness:
  "store_map (\<lambda>_. 0) (fst (MemoryStore_flush (\<lambda>_. 0) ((fst (MemoryStore_Set sample_env (\<lambda>_. 0) (NewMemoryStore 0) (str ''k'') (new_entry sample_env (str ''k'') [1] 60 False)))
     \<lparr>ms_gc := GC_nearTick 1700000000001000000 (ms_gc (fst (MemoryStore_Set sample_env (\<lambda>_. 0) (NewMemoryStore 0) (str ''k'') (new_entry sample_env (str ''k'') [1] 60 False))))\<rparr>))) (str ''k'') = None"
proof -
  let ?s1 = "fst (MemoryStore_Set sample_env (\<lambda>_. 0) (NewMemoryStore 0) (str ''k'') (new_entry sample_env (str ''k'') [1] 60 False))"
  let ?f = "MemoryStore_flush (\<lambda>_. 0) (?s1\<lparr>ms_gc := GC_nearTick 1700000000001000000 (ms_gc ?s1)\<rparr>)"
  have f: "?f = (fst ?f, None)" using sample_flush by (metis prod.collapse)
  have n: "nq_index (gc_nearQueue (ms_gc (NewMemoryStore 0))) (str ''k'') = None" "nq_windowMs (gc_nearQueue (ms_gc (NewMemoryStore 0))) = 2000"
    by (simp_all add: NewMemoryStore_def NewGarbageCollector_def NewNearQueue_def defaultNearWindowMs_def)
  from collected_after_nanoseconds [OF ms_new str_nonempty n(1) _ _ _ _ _ n(2) prod.collapse [symmetric] _ f]
  show ?thesis by (simp add: sample_env_def)
qed

end
