(* ===== verification/Cached_Clock.thy ===== *)
theory Cached_Clock
  imports Memory_Store
begin

text \<open>
  The cached clock of \<open>internal/util/time_cache.go\<close>: a goroutine stores the wall clock at every tick, \<open>CachedNow\<close>
  loads what was stored last. The component theories take both clocks from the record \<open>env\<close>; here is how they are related.
\<close>

text \<open>\<open>ck_since\<close> is how long ago the last tick was.\<close>

record cached_clock =
  ck_now :: go_time
  ck_cached :: int
  ck_since :: int

definition clock_init :: "go_time \<Rightarrow> cached_clock" where
  "clock_init now = \<lparr>ck_now = now, ck_cached = time_UnixNano now, ck_since = 0\<rparr>"

definition clock_tick :: "cached_clock \<Rightarrow> cached_clock" where
  "clock_tick ck = ck\<lparr>ck_cached := time_UnixNano (ck_now ck), ck_since := 0\<rparr>"

definition clock_pass :: "nat \<Rightarrow> cached_clock \<Rightarrow> cached_clock" where
  "clock_pass d ck = ck\<lparr>ck_now := ck_now ck + int d, ck_since := ck_since ck + int d\<rparr>"

definition CachedNow :: "cached_clock \<Rightarrow> int" where
  "CachedNow ck = ck_cached ck"

inductive clock_run :: "cached_clock \<Rightarrow> bool" where
  run_init: "clock_run (clock_init now)"
| run_tick: "clock_run ck \<Longrightarrow> clock_run (clock_tick ck)"
| run_pass: "clock_run ck \<Longrightarrow> clock_run (clock_pass d ck)"

text \<open>The cached time is the time of the last tick: never ahead, and as stale as the last tick is old.\<close>

lemma cached_is_last_tick:
  "clock_run ck \<Longrightarrow> 0 \<le> ck_since ck \<and> CachedNow ck = time_UnixNano (ck_now ck - ck_since ck)"
  by (induction rule: clock_run.induct) (simp_all add: clock_init_def clock_tick_def clock_pass_def CachedNow_def)

lemma cached_staleness:
  assumes "clock_run ck" "0 \<le> ck_now ck - ck_since ck" "ck_now ck < 2 ^ 63" "ck_since ck \<le> lag"
  shows "ck_now ck - lag \<le> CachedNow ck" "CachedNow ck \<le> ck_now ck"
  using cached_is_last_tick [OF assms(1)] assms(2-4) by (simp_all add: time_UnixNano_def i64_id)

text \<open>So the stamp of an entry that was just written is at most that much behind the clock.\<close>

lemma stamp_staleness:
  assumes "clock_run ck" "0 \<le> ck_now ck - ck_since ck" "ck_now ck < 2 ^ 63" "ck_since ck \<le> lag"
    and "env_now env = ck_now ck" "env_cached env = CachedNow ck"
  shows "env_now env - lag \<le> se_LastAccess (stamped env e) \<and> se_LastAccess (stamped env e) \<le> env_now env"
  using cached_staleness [OF assms(1-4)] assms(5,6) by (simp add: stamped_def)

end
