(* ===== verification/Tcp_Codec.thy ===== *)
theory Tcp_Codec
  imports Auth_Token
begin

text \<open>
  The payload codec of \<open>internal/transport/tcp/codec.go\<close>: length-prefixed strings written into and read
  from a buffer at an offset, and the payloads built from them. Writes outside the buffer are
  panics, short reads are errors. A field of a payload is the locale \<open>wire_field\<close>, interpreted on the
  four kinds of fields the code reads.
\<close>

datatype frame_error = ErrInvalidFrame | ErrPayloadTooLarge | ErrIncompleteFrame

section \<open>Writing\<close>

text \<open>\<open>binary.BigEndian.PutUintN(buf[offset:], x)\<close> for \<open>n\<close> bytes: the slice expression panics beyond the
  end, the bounds check inside it when fewer than \<open>n\<close> bytes are left.\<close>

definition put_be :: "nat \<Rightarrow> byte list \<Rightarrow> nat \<Rightarrow> nat \<Rightarrow> go_panic + byte list" where
  "put_be n buf offset x =
     (if length buf < offset then Inl SliceOutOfRange
      else if length buf - offset < n then Inl IndexOutOfRange
      else Inr (take offset buf @ be_bytes n (x mod 256 ^ n) @ drop (offset + n) buf))"

definition set_byte :: "byte list \<Rightarrow> nat \<Rightarrow> byte \<Rightarrow> go_panic + byte list" where
  "set_byte buf offset b = (if offset < length buf then Inr (buf[offset := b]) else Inl IndexOutOfRange)"

definition copy_at :: "byte list \<Rightarrow> nat \<Rightarrow> byte list \<Rightarrow> go_panic + byte list" where
  "copy_at buf offset src = (if length buf < offset then Inl SliceOutOfRange else Inr (go_copy buf offset src))"

definition uint64 :: "int \<Rightarrow> nat" where
  "uint64 x = nat (x mod 2 ^ 64)"

definition writeString :: "byte list \<Rightarrow> nat \<Rightarrow> gostring \<Rightarrow> go_panic + byte list \<times> nat" where
  "writeString buf offset s =
     gbind (put_be 2 buf offset (length s)) (\<lambda>buf.
     gbind (copy_at buf (offset + 2) s) (\<lambda>buf.
     Inr (buf, offset + 2 + length s)))"

definition EncodeSetPayload ::
  "gostring \<Rightarrow> gostring \<Rightarrow> gostring \<Rightarrow> int \<Rightarrow> bool \<Rightarrow> byte list \<Rightarrow> go_panic + byte list" where
  "EncodeSetPayload token bucket key ttl singleRead value =
     (let size = 2 + length token + 2 + length bucket + 2 + length key + 8 + 1 + 4 + length value;
          buf = replicate size 0
      in gbind (writeString buf 0 token) (\<lambda>(buf, offset).
         gbind (writeString buf offset bucket) (\<lambda>(buf, offset).
         gbind (writeString buf offset key) (\<lambda>(buf, offset).
         gbind (put_be 8 buf offset (uint64 ttl)) (\<lambda>buf.
         gbind (if singleRead then set_byte buf (offset + 8) 1 else Inr buf) (\<lambda>buf.
         gbind (put_be 4 buf (offset + 9) (length value)) (\<lambda>buf.
         copy_at buf (offset + 13) value)))))))"

definition EncodeGetPayload :: "gostring \<Rightarrow> gostring \<Rightarrow> gostring \<Rightarrow> go_panic + byte list" where
  "EncodeGetPayload token bucket key =
     (let size = 2 + length token + 2 + length bucket + 2 + length key; buf = replicate size 0
      in gbind (writeString buf 0 token) (\<lambda>(buf, offset).
         gbind (writeString buf offset bucket) (\<lambda>(buf, offset).
         gbind (writeString buf offset key) (\<lambda>(buf, offset). Inr buf))))"

definition EncodeDeletePayload :: "gostring \<Rightarrow> gostring \<Rightarrow> gostring \<Rightarrow> go_panic + byte list" where
  "EncodeDeletePayload token bucket key = EncodeGetPayload token bucket key"

definition EncodeValueResponse ::
  "gostring \<Rightarrow> int \<Rightarrow> int \<Rightarrow> int \<Rightarrow> bool \<Rightarrow> byte list \<Rightarrow> go_panic + byte list" where
  "EncodeValueResponse key ttl createdAt expiresAt singleRead value =
     (let size = 2 + length key + 8 + 8 + 8 + 1 + 4 + length value; buf = replicate size 0
      in gbind (writeString buf 0 key) (\<lambda>(buf, offset).
         gbind (put_be 8 buf offset (uint64 ttl)) (\<lambda>buf.
         gbind (put_be 8 buf (offset + 8) (uint64 createdAt)) (\<lambda>buf.
         gbind (put_be 8 buf (offset + 16) (uint64 expiresAt)) (\<lambda>buf.
         gbind (if singleRead then set_byte buf (offset + 24) 1 else Inr buf) (\<lambda>buf.
         gbind (put_be 4 buf (offset + 25) (length value)) (\<lambda>buf.
         copy_at buf (offset + 29) value)))))))"

section \<open>Reading\<close>

definition get_be :: "nat \<Rightarrow> byte list \<Rightarrow> nat \<Rightarrow> nat" where
  "get_be n data offset = be_nat (take n (drop offset data))"

definition readString :: "byte list \<Rightarrow> nat \<Rightarrow> frame_error + gostring \<times> nat" where
  "readString data offset =
     (if length data < offset + 2 then Inl ErrInvalidFrame
      else let strLen = get_be 2 data offset
           in if length data < offset + 2 + strLen then Inl ErrInvalidFrame
              else Inr (take strLen (drop (offset + 2) data), offset + 2 + strLen))"

text \<open>The inline reads of \<open>DecodeSetPayload\<close>: the \<open>int64\<close>, the flag, and the value with its length.\<close>

definition readInt64 :: "byte list \<Rightarrow> nat \<Rightarrow> frame_error + int \<times> nat" where
  "readInt64 data offset =
     (if length data < offset + 8 then Inl ErrInvalidFrame
      else Inr (i64 (int (get_be 8 data offset)), offset + 8))"

definition readFlag :: "byte list \<Rightarrow> nat \<Rightarrow> frame_error + bool \<times> nat" where
  "readFlag data offset =
     (if length data < offset + 1 then Inl ErrInvalidFrame else Inr (data ! offset = 1, offset + 1))"

definition readValue :: "byte list \<Rightarrow> nat \<Rightarrow> frame_error + byte list \<times> nat" where
  "readValue data offset =
     (if length data < offset + 4 then Inl ErrInvalidFrame
      else let valueLen = get_be 4 data offset
           in if length data < offset + 4 + valueLen then Inl ErrInvalidFrame
              else Inr (go_copy (replicate valueLen 0) 0 (take valueLen (drop (offset + 4) data)), offset + 4 + valueLen))"

definition DecodeSetPayload ::
  "byte list \<Rightarrow> frame_error + gostring \<times> gostring \<times> gostring \<times> int \<times> bool \<times> byte list" where
  "DecodeSetPayload data =
     gbind (readString data 0) (\<lambda>(token, offset).
     gbind (readString data offset) (\<lambda>(bucket, offset).
     gbind (readString data offset) (\<lambda>(key, offset).
     gbind (readInt64 data offset) (\<lambda>(ttl, offset).
     gbind (readFlag data offset) (\<lambda>(singleRead, offset).
     gbind (readValue data offset) (\<lambda>(value, offset).
     Inr (token, bucket, key, ttl, singleRead, value)))))))"

definition DecodeGetPayload :: "byte list \<Rightarrow> frame_error + gostring \<times> gostring \<times> gostring" where
  "DecodeGetPayload data =
     gbind (readString data 0) (\<lambda>(token, offset).
     gbind (readString data offset) (\<lambda>(bucket, offset).
     gbind (readString data offset) (\<lambda>(key, offset).
     Inr (token, bucket, key))))"

definition DecodeDeletePayload :: "byte list \<Rightarrow> frame_error + gostring \<times> gostring \<times> gostring" where
  "DecodeDeletePayload data = DecodeGetPayload data"

section \<open>The write cursor\<close>

text \<open>A buffer whose first part is written and whose rest is still zero.\<close>

lemma put_be_cursor:
  "put_be n (w @ replicate (n + m) 0) (length w) x = Inr (w @ be_bytes n (x mod 256 ^ n) @ replicate m 0)"
  by (simp add: put_be_def)

lemma copy_at_cursor:
  "copy_at (w @ replicate (length s + m) 0) (length w) s = Inr (w @ s @ replicate m 0)"
  by (simp add: copy_at_def go_copy_def Let_def)

lemma set_byte_cursor:
  "set_byte (w @ replicate (Suc m) 0) (length w) b = Inr (w @ b # replicate m 0)"
  by (simp add: set_byte_def list_update_append)

lemma writeString_cursor:
  "writeString (w @ replicate (2 + length s + m) 0) (length w) s =
    Inr (w @ be_bytes 2 (length s mod 65536) @ s @ replicate m 0, length w + 2 + length s)"
proof -
  have p: "put_be 2 (w @ replicate (2 + length s + m) 0) (length w) (length s) =
      Inr ((w @ be_bytes 2 (length s mod 65536)) @ replicate (length s + m) 0)"
    using put_be_cursor [of 2 w "length s + m" "length s"] by (simp add: add.assoc)
  have "copy_at ((w @ be_bytes 2 (length s mod 65536)) @ replicate (length s + m) 0) (length w + 2) s =
      Inr (w @ be_bytes 2 (length s mod 65536) @ s @ replicate m 0)"
    using copy_at_cursor [of "w @ be_bytes 2 (length s mod 65536)" s m] by simp
  then show ?thesis unfolding writeString_def p by simp
qed

section \<open>The format\<close>

definition str_field :: "gostring \<Rightarrow> byte list" where
  "str_field s = be_bytes 2 (length s mod 65536) @ s"

definition int_field :: "int \<Rightarrow> byte list" where
  "int_field x = be_bytes 8 (uint64 x)"

definition flag_field :: "bool \<Rightarrow> byte list" where
  "flag_field b = [if b then 1 else 0]"

definition value_field :: "byte list \<Rightarrow> byte list" where
  "value_field v = be_bytes 4 (length v mod 2 ^ 32) @ v"

lemma field_lengths [simp]:
  "length (str_field s) = 2 + length s" "length (int_field x) = 8" "length (flag_field b) = 1"
  "length (value_field v) = 4 + length v"
  by (simp_all add: str_field_def int_field_def flag_field_def value_field_def)

lemma uint64_less: "uint64 x < 256 ^ 8"
proof -
  have "x mod 2 ^ 64 < (2 ^ 64 :: int)" by simp
  then show ?thesis unfolding uint64_def by (simp add: nat_less_iff)
qed

text \<open>Each write moves the cursor over one field.\<close>

lemma write_fields:
  "off = length w \<Longrightarrow> writeString (w @ replicate (2 + length s + m) 0) off s =
    Inr ((w @ str_field s) @ replicate m 0, off + 2 + length s)"
  "off = length w \<Longrightarrow> put_be 8 (w @ replicate (8 + m) 0) off (uint64 x) = Inr ((w @ int_field x) @ replicate m 0)"
  "off = length w \<Longrightarrow> gbind (if b then set_byte (w @ replicate (1 + m) 0) off 1 else Inr (w @ replicate (1 + m) 0)) f =
    f ((w @ flag_field b) @ replicate m 0)"
  using writeString_cursor [of w s m] put_be_cursor [of 8 w m "uint64 x"] set_byte_cursor [of w m 1] uint64_less [of x]
  by (simp_all add: str_field_def int_field_def flag_field_def)

lemma write_value:
  assumes "off = length w"
  shows "gbind (put_be 4 (w @ replicate (4 + length v) 0) off (length v)) (\<lambda>buf. copy_at buf (off + 4) v) = Inr (w @ value_field v)"
proof -
  have p: "put_be 4 (w @ replicate (4 + length v) 0) off (length v) =
      Inr ((w @ be_bytes 4 (length v mod 2 ^ 32)) @ replicate (length v + 0) 0)"
    using put_be_cursor [of 4 w "length v" "length v"] by (simp add: assms)
  show ?thesis
    unfolding p gbind_Inr using copy_at_cursor [of "w @ be_bytes 4 (length v mod 2 ^ 32)" v 0]
    by (simp add: assms value_field_def)
qed

lemma EncodeGetPayload_eq:
  "EncodeGetPayload token bucket key = Inr (str_field token @ str_field bucket @ str_field key)"
proof -
  let ?n2 = "2 + length bucket + (2 + length key + 0)"
  let ?o1 = "2 + length token" and ?o2 = "2 + length token + 2 + length bucket"
  have b: "replicate (2 + length token + 2 + length bucket + 2 + length key) 0 = [] @ replicate (2 + length token + ?n2) (0 :: byte)"
    by (simp add: add.assoc)
  have 1: "writeString ([] @ replicate (2 + length token + ?n2) 0) 0 token =
      Inr (([] @ str_field token) @ replicate ?n2 0, 0 + 2 + length token)" by (rule write_fields(1)) simp
  have 2: "writeString (([] @ str_field token) @ replicate ?n2 0) (0 + 2 + length token) bucket =
      Inr ((([] @ str_field token) @ str_field bucket) @ replicate (2 + length key + 0) 0, 0 + 2 + length token + 2 + length bucket)"
    by (rule write_fields(1)) simp
  have 3: "writeString ((([] @ str_field token) @ str_field bucket) @ replicate (2 + length key + 0) 0)
      (0 + 2 + length token + 2 + length bucket) key =
      Inr (((([] @ str_field token) @ str_field bucket) @ str_field key) @ replicate 0 0,
        0 + 2 + length token + 2 + length bucket + 2 + length key)"
    by (rule write_fields(1)) simp
  show ?thesis unfolding EncodeGetPayload_def Let_def b 1 gbind_Inr prod.case 2 3 by simp
qed

lemma EncodeSetPayload_eq:
  "EncodeSetPayload token bucket key ttl sr value =
    Inr (str_field token @ str_field bucket @ str_field key @ int_field ttl @ flag_field sr @ value_field value)"
proof -
  let ?r6 = "4 + length value"
  let ?r5 = "1 + ?r6"
  let ?r4 = "8 + ?r5"
  let ?r3 = "2 + length key + ?r4"
  let ?r2 = "2 + length bucket + ?r3"
  let ?w1 = "[] @ str_field token"
  let ?w2 = "?w1 @ str_field bucket"
  let ?w3 = "?w2 @ str_field key"
  let ?w4 = "?w3 @ int_field ttl"
  let ?w5 = "?w4 @ flag_field sr"
  let ?o1 = "0 + 2 + length token"
  let ?o2 = "?o1 + 2 + length bucket"
  let ?o3 = "?o2 + 2 + length key"
  have b: "replicate (2 + length token + 2 + length bucket + 2 + length key + 8 + 1 + 4 + length value) 0 =
      [] @ replicate (2 + length token + ?r2) (0 :: byte)"
    by (simp add: add.assoc)
  have 1: "writeString ([] @ replicate (2 + length token + ?r2) 0) 0 token = Inr (?w1 @ replicate ?r2 0, ?o1)"
    by (rule write_fields(1)) simp
  have 2: "writeString (?w1 @ replicate ?r2 0) ?o1 bucket = Inr (?w2 @ replicate ?r3 0, ?o2)"
    by (rule write_fields(1)) simp
  have 3: "writeString (?w2 @ replicate ?r3 0) ?o2 key = Inr (?w3 @ replicate ?r4 0, ?o3)"
    by (rule write_fields(1)) simp
  have 4: "put_be 8 (?w3 @ replicate ?r4 0) ?o3 (uint64 ttl) = Inr (?w4 @ replicate ?r5 0)"
    by (rule write_fields(2)) simp
  have 5: "gbind (if sr then set_byte (?w4 @ replicate ?r5 0) (?o3 + 8) 1 else Inr (?w4 @ replicate ?r5 0)) f =
      f (?w5 @ replicate ?r6 0)" for f :: "byte list \<Rightarrow> go_panic + byte list"
    by (rule write_fields(3)) simp
  have 6: "gbind (put_be 4 (?w5 @ replicate ?r6 0) (?o3 + 9) (length value)) (\<lambda>buf. copy_at buf (?o3 + 9 + 4) value) =
      Inr (?w5 @ value_field value)"
    by (rule write_value) simp
  have o: "?o3 + 13 = ?o3 + 9 + 4" by simp
  show ?thesis unfolding EncodeSetPayload_def Let_def b 1 gbind_Inr prod.case 2 3 4 5 o 6 by simp
qed

lemma EncodeValueResponse_eq:
  "EncodeValueResponse key ttl createdAt expiresAt sr value =
    Inr (str_field key @ int_field ttl @ int_field createdAt @ int_field expiresAt @ flag_field sr @ value_field value)"
proof -
  let ?r6 = "4 + length value"
  let ?r5 = "1 + ?r6"
  let ?r4 = "8 + ?r5"
  let ?r3 = "8 + ?r4"
  let ?r2 = "8 + ?r3"
  let ?w1 = "[] @ str_field key"
  let ?w2 = "?w1 @ int_field ttl"
  let ?w3 = "?w2 @ int_field createdAt"
  let ?w4 = "?w3 @ int_field expiresAt"
  let ?w5 = "?w4 @ flag_field sr"
  let ?o1 = "0 + 2 + length key"
  have b: "replicate (2 + length key + 8 + 8 + 8 + 1 + 4 + length value) 0 =
      [] @ replicate (2 + length key + ?r2) (0 :: byte)"
    by (simp add: add.assoc)
  have 1: "writeString ([] @ replicate (2 + length key + ?r2) 0) 0 key = Inr (?w1 @ replicate ?r2 0, ?o1)"
    by (rule write_fields(1)) simp
  have 2: "put_be 8 (?w1 @ replicate ?r2 0) ?o1 (uint64 ttl) = Inr (?w2 @ replicate ?r3 0)"
    by (rule write_fields(2)) simp
  have 3: "put_be 8 (?w2 @ replicate ?r3 0) (?o1 + 8) (uint64 createdAt) = Inr (?w3 @ replicate ?r4 0)"
    by (rule write_fields(2)) simp
  have 4: "put_be 8 (?w3 @ replicate ?r4 0) (?o1 + 16) (uint64 expiresAt) = Inr (?w4 @ replicate ?r5 0)"
    by (rule write_fields(2)) simp
  have 5: "gbind (if sr then set_byte (?w4 @ replicate ?r5 0) (?o1 + 24) 1 else Inr (?w4 @ replicate ?r5 0)) f =
      f (?w5 @ replicate ?r6 0)" for f :: "byte list \<Rightarrow> go_panic + byte list"
    by (rule write_fields(3)) simp
  have 6: "gbind (put_be 4 (?w5 @ replicate ?r6 0) (?o1 + 25) (length value)) (\<lambda>buf. copy_at buf (?o1 + 25 + 4) value) =
      Inr (?w5 @ value_field value)"
    by (rule write_value) simp
  have o: "?o1 + 29 = ?o1 + 25 + 4" by simp
  show ?thesis unfolding EncodeValueResponse_def Let_def b 1 gbind_Inr prod.case 2 3 4 5 o 6 by simp
qed

section \<open>Fields as an interface\<close>

text \<open>What a reader promises: it reads back what the writer wrote, wherever it stands in the data;
  what it reads lies inside the data, and more data after it changes nothing.\<close>

locale wire_field =
  fixes enc :: "'a \<Rightarrow> byte list" and dec :: "byte list \<Rightarrow> nat \<Rightarrow> frame_error + 'a \<times> nat"
    and fits :: "'a \<Rightarrow> bool" and size :: "'a \<Rightarrow> nat"
  assumes reads: "fits x \<Longrightarrow> off = length pre \<Longrightarrow> dec (pre @ enc x @ post) off = Inr (x, off + size x)"
    and inside: "dec data off = Inr (x, off') \<Longrightarrow> off' = off + size x \<and> off' \<le> length data"
    and extend: "dec data off = Inr (x, off') \<Longrightarrow> dec (data @ rest) off = Inr (x, off')"
    and error: "dec data off = Inl e \<Longrightarrow> e = ErrInvalidFrame"
begin

text \<open>One step of a decoder, forwards over an encoding and backwards from a result.\<close>

lemma read_step:
  "fits x \<Longrightarrow> off = length pre \<Longrightarrow> gbind (dec (pre @ enc x @ post) off) f = f (x, off + size x)"
  by (simp add: reads)

lemma read_inv:
  assumes "gbind (dec data off) f = Inr y"
  obtains x where "dec data off = Inr (x, off + size x)" "off + size x \<le> length data" "f (x, off + size x) = Inr y"
    "gbind (dec (data @ rest) off) g = g (x, off + size x)"
proof -
  from assms obtain x off' where d: "dec data off = Inr (x, off')" "f (x, off') = Inr y" by (auto simp: gbind_iff)
  with inside [OF d(1)] extend [OF d(1), of rest] show thesis by (intro that [of x]) simp_all
qed

lemma read_error: "gbind (dec data off) f = Inl e \<Longrightarrow> e = ErrInvalidFrame \<or> (\<exists>y. f y = Inl e)"
  by (auto simp: gbind_eq_Inl dest: error)

end

lemma get_be_field:
  "off = length pre \<Longrightarrow> x < 256 ^ n \<Longrightarrow> get_be n (pre @ be_bytes n x @ post) off = x"
  by (simp add: get_be_def)

lemma get_be_extend:
  "off + n \<le> length data \<Longrightarrow> get_be n (data @ rest) off = get_be n data off"
  by (simp add: get_be_def)

interpretation str_wire: wire_field str_field readString "\<lambda>s. length s < 65536" "\<lambda>s. 2 + length s"
proof
  fix s off pre post assume f: "length (s :: gostring) < 65536" "off = length (pre :: byte list)"
  have "get_be 2 (pre @ str_field s @ post) off = length s"
    using get_be_field [OF f(2), of "length s" 2 "s @ post"] f(1) by (simp add: str_field_def)
  then show "readString (pre @ str_field s @ post) off = Inr (s, off + (2 + length s))"
    using f by (simp add: readString_def str_field_def)
next
  fix data off x off' rest e
  show "off' = off + (2 + length x) \<and> off' \<le> length data" if "readString data off = Inr (x, off')"
    using that by (auto simp: readString_def Let_def split: if_splits)
  show "readString (data @ rest) off = Inr (x, off')" if "readString data off = Inr (x, off')"
    using that by (auto simp: readString_def Let_def get_be_extend split: if_splits)
  show "e = ErrInvalidFrame" if "readString data off = Inl e"
    using that by (auto simp: readString_def Let_def split: if_splits)
qed

abbreviation is_int64 :: "int \<Rightarrow> bool" where
  "is_int64 x \<equiv> - (2 ^ 63) \<le> x \<and> x < 2 ^ 63"

lemma i64_uint64: "is_int64 x \<Longrightarrow> i64 (int (uint64 x)) = x"
proof -
  assume r: "is_int64 x"
  have "int (uint64 x) = x mod 2 ^ 64" by (simp add: uint64_def)
  moreover have "i64 (x mod 2 ^ 64) = i64 x"
    unfolding i64_def by (simp add: signed_take_bit_eq_iff_take_bit_eq take_bit_eq_mod)
  ultimately show ?thesis using r by (simp add: i64_id)
qed

interpretation int_wire: wire_field int_field readInt64 is_int64 "\<lambda>_. 8"
proof
  fix x :: int and off and pre post :: "byte list" assume f: "is_int64 x" "off = length pre"
  have "get_be 8 (pre @ int_field x @ post) off = uint64 x"
    using get_be_field [OF f(2) uint64_less, of x post] by (simp add: int_field_def)
  then show "readInt64 (pre @ int_field x @ post) off = Inr (x, off + 8)"
    using f i64_uint64 [OF f(1)] by (simp add: readInt64_def)
qed (auto simp: readInt64_def get_be_extend split: if_splits)

interpretation flag_wire: wire_field flag_field readFlag "\<lambda>_. True" "\<lambda>_. 1"
  by unfold_locales (auto simp: readFlag_def flag_field_def nth_append split: if_splits)

interpretation value_wire: wire_field value_field readValue "\<lambda>v. length v < 2 ^ 32" "\<lambda>v. 4 + length v"
proof
  fix v off pre post assume f: "length (v :: byte list) < 2 ^ 32" "off = length (pre :: byte list)"
  have "get_be 4 (pre @ value_field v @ post) off = length v"
    using get_be_field [OF f(2), of "length v" 4 "v @ post"] f(1) by (simp add: value_field_def)
  then show "readValue (pre @ value_field v @ post) off = Inr (v, off + (4 + length v))"
    using f by (simp add: readValue_def value_field_def go_copy_def)
next
  fix data off x off' rest e
  show "off' = off + (4 + length x) \<and> off' \<le> length data" if "readValue data off = Inr (x, off')"
    using that by (auto simp: readValue_def Let_def split: if_splits)
  show "readValue (data @ rest) off = Inr (x, off')" if "readValue data off = Inr (x, off')"
    using that by (auto simp: readValue_def Let_def get_be_extend split: if_splits)
  show "e = ErrInvalidFrame" if "readValue data off = Inl e"
    using that by (auto simp: readValue_def Let_def split: if_splits)
qed

section \<open>Payload round trips and truncation\<close>

definition set_fits :: "gostring \<Rightarrow> gostring \<Rightarrow> gostring \<Rightarrow> int \<Rightarrow> byte list \<Rightarrow> bool" where
  "set_fits token bucket key ttl value \<longleftrightarrow>
     length token < 65536 \<and> length bucket < 65536 \<and> length key < 65536 \<and> is_int64 ttl \<and> length value < 2 ^ 32"

definition get_fits :: "gostring \<Rightarrow> gostring \<Rightarrow> gostring \<Rightarrow> bool" where
  "get_fits token bucket key \<longleftrightarrow> length token < 65536 \<and> length bucket < 65536 \<and> length key < 65536"

lemma DecodeGet_Encode:
  assumes "EncodeGetPayload token bucket key = Inr data" "get_fits token bucket key"
  shows "DecodeGetPayload (data @ rest) = Inr (token, bucket, key)"
proof -
  have f: "length token < 65536" "length bucket < 65536" "length key < 65536"
    using assms(2) by (simp_all add: get_fits_def)
  have d: "data = str_field token @ str_field bucket @ str_field key"
    using assms(1) by (simp add: EncodeGetPayload_eq)
  have 1: "readString (data @ rest) 0 = Inr (token, 0 + (2 + length token))"
    using str_wire.reads [OF f(1), of 0 "[]" "str_field bucket @ str_field key @ rest"] by (simp add: d)
  have 2: "readString (data @ rest) (0 + (2 + length token)) = Inr (bucket, 0 + (2 + length token) + (2 + length bucket))"
    using str_wire.reads [OF f(2), of _ "str_field token" "str_field key @ rest"] by (simp add: d)
  have 3: "readString (data @ rest) (0 + (2 + length token) + (2 + length bucket)) =
      Inr (key, 0 + (2 + length token) + (2 + length bucket) + (2 + length key))"
    using str_wire.reads [OF f(3), of _ "str_field token @ str_field bucket" rest] by (simp add: d)
  show ?thesis unfolding DecodeGetPayload_def 1 gbind_Inr prod.case 2 3 by simp
qed

lemma DecodeSet_Encode:
  assumes "EncodeSetPayload token bucket key ttl sr value = Inr data" "set_fits token bucket key ttl value"
  shows "DecodeSetPayload (data @ rest) = Inr (token, bucket, key, ttl, sr, value)"
proof -
  have f: "length token < 65536" "length bucket < 65536" "length key < 65536" "is_int64 ttl" "length value < 2 ^ 32"
    using assms(2) by (simp_all add: set_fits_def)
  let ?o1 = "0 + (2 + length token)"
  let ?o2 = "?o1 + (2 + length bucket)"
  let ?o3 = "?o2 + (2 + length key)"
  let ?w1 = "str_field token"
  let ?w2 = "?w1 @ str_field bucket"
  let ?w3 = "?w2 @ str_field key"
  let ?w4 = "?w3 @ int_field ttl"
  let ?w5 = "?w4 @ flag_field sr"
  have d: "data = ?w5 @ value_field value" using assms(1) by (simp add: EncodeSetPayload_eq)
  have 1: "readString (data @ rest) 0 = Inr (token, ?o1)"
    using str_wire.reads [OF f(1), of 0 "[]" "str_field bucket @ str_field key @ int_field ttl @ flag_field sr @ value_field value @ rest"]
    by (simp add: d)
  have 2: "readString (data @ rest) ?o1 = Inr (bucket, ?o2)"
    using str_wire.reads [OF f(2), of ?o1 ?w1 "str_field key @ int_field ttl @ flag_field sr @ value_field value @ rest"]
    by (simp add: d)
  have 3: "readString (data @ rest) ?o2 = Inr (key, ?o3)"
    using str_wire.reads [OF f(3), of ?o2 ?w2 "int_field ttl @ flag_field sr @ value_field value @ rest"] by (simp add: d)
  have 4: "readInt64 (data @ rest) ?o3 = Inr (ttl, ?o3 + 8)"
    using int_wire.reads [OF f(4), of ?o3 ?w3 "flag_field sr @ value_field value @ rest"] by (simp add: d)
  have 5: "readFlag (data @ rest) (?o3 + 8) = Inr (sr, ?o3 + 8 + 1)"
    using flag_wire.reads [OF TrueI, of "?o3 + 8" ?w4 sr "value_field value @ rest"] by (simp add: d)
  have 6: "readValue (data @ rest) (?o3 + 8 + 1) = Inr (value, ?o3 + 8 + 1 + (4 + length value))"
    using value_wire.reads [OF f(5), of "?o3 + 8 + 1" ?w5 rest] by (simp add: d)
  show ?thesis unfolding DecodeSetPayload_def 1 gbind_Inr prod.case 2 3 4 5 6 ..
qed

text \<open>A successful decoding lies inside the data and is not changed by more data.\<close>

lemma DecodeGet_inside:
  assumes "DecodeGetPayload data = Inr (token, bucket, key)"
  shows "2 + length token + (2 + length bucket) + (2 + length key) \<le> length data"
    "DecodeGetPayload (data @ rest) = Inr (token, bucket, key)"
proof -
  from assms obtain o1 o2 o3 where r: "readString data 0 = Inr (token, o1)" "readString data o1 = Inr (bucket, o2)"
    "readString data o2 = Inr (key, o3)"
    by (auto simp: DecodeGetPayload_def gbind_iff)
  show "2 + length token + (2 + length bucket) + (2 + length key) \<le> length data"
    using str_wire.inside [OF r(1)] str_wire.inside [OF r(2)] str_wire.inside [OF r(3)] by linarith
  show "DecodeGetPayload (data @ rest) = Inr (token, bucket, key)"
    by (simp add: DecodeGetPayload_def r [THEN str_wire.extend])
qed

lemma DecodeSet_inside:
  assumes "DecodeSetPayload data = Inr (token, bucket, key, ttl, sr, value)"
  shows "2 + length token + (2 + length bucket) + (2 + length key) + 8 + 1 + (4 + length value) \<le> length data"
    "DecodeSetPayload (data @ rest) = Inr (token, bucket, key, ttl, sr, value)"
proof -
  from assms obtain o1 o2 o3 o4 o5 o6 where r: "readString data 0 = Inr (token, o1)" "readString data o1 = Inr (bucket, o2)"
    "readString data o2 = Inr (key, o3)" and i: "readInt64 data o3 = Inr (ttl, o4)" and f: "readFlag data o4 = Inr (sr, o5)"
    and v: "readValue data o5 = Inr (value, o6)"
    by (auto simp: DecodeSetPayload_def gbind_iff)
  show "2 + length token + (2 + length bucket) + (2 + length key) + 8 + 1 + (4 + length value) \<le> length data"
    using str_wire.inside [OF r(1)] str_wire.inside [OF r(2)] str_wire.inside [OF r(3)]
      int_wire.inside [OF i] flag_wire.inside [OF f] value_wire.inside [OF v] by linarith
  show "DecodeSetPayload (data @ rest) = Inr (token, bucket, key, ttl, sr, value)"
    by (simp add: DecodeSetPayload_def r [THEN str_wire.extend] int_wire.extend [OF i] flag_wire.extend [OF f]
        value_wire.extend [OF v])
qed

lemma DecodeSet_error: "DecodeSetPayload data = Inl e \<Longrightarrow> e = ErrInvalidFrame"
  by (auto simp: DecodeSetPayload_def gbind_eq_Inl
      dest: str_wire.error int_wire.error flag_wire.error value_wire.error)

lemma DecodeGet_error: "DecodeGetPayload data = Inl e \<Longrightarrow> e = ErrInvalidFrame"
  by (auto simp: DecodeGetPayload_def gbind_eq_Inl dest: str_wire.error)

lemma DecodeSet_truncated:
  assumes "EncodeSetPayload token bucket key ttl sr value = Inr data" "set_fits token bucket key ttl value" "n < length data"
  shows "DecodeSetPayload (take n data) = Inl ErrInvalidFrame"
proof (cases "DecodeSetPayload (take n data)")
  case (Inl e)
  then show ?thesis using DecodeSet_error by simp
next
  case (Inr t)
  obtain to bu ke tt s v where t: "t = (to, bu, ke, tt, s, v)" by (metis surj_pair)
  note i = DecodeSet_inside [OF Inr [unfolded t]]
  have "DecodeSetPayload data = Inr (to, bu, ke, tt, s, v)" using i(2) [of "drop n data"] by simp
  moreover have "DecodeSetPayload data = Inr (token, bucket, key, ttl, sr, value)"
    using DecodeSet_Encode [OF assms(1,2), of "[]"] by simp
  moreover have "length data = 2 + length token + (2 + length bucket) + (2 + length key) + 8 + 1 + (4 + length value)"
    using assms(1) by (auto simp: EncodeSetPayload_eq)
  ultimately show ?thesis using i(1) assms(3) by simp
qed

lemma DecodeGet_truncated:
  assumes "EncodeGetPayload token bucket key = Inr data" "get_fits token bucket key" "n < length data"
  shows "DecodeGetPayload (take n data) = Inl ErrInvalidFrame"
proof (cases "DecodeGetPayload (take n data)")
  case (Inl e)
  then show ?thesis using DecodeGet_error by simp
next
  case (Inr t)
  obtain to bu ke where t: "t = (to, bu, ke)" by (metis surj_pair)
  note i = DecodeGet_inside [OF Inr [unfolded t]]
  have "DecodeGetPayload data = Inr (to, bu, ke)" using i(2) [of "drop n data"] by simp
  moreover have "DecodeGetPayload data = Inr (token, bucket, key)"
    using DecodeGet_Encode [OF assms(1,2), of "[]"] by simp
  moreover have "length data = 2 + length token + (2 + length bucket) + (2 + length key)"
    using assms(1) by (auto simp: EncodeGetPayload_eq)
  ultimately show ?thesis using i(1) assms(3) by simp
qed

text \<open>A string of 65536 bytes or more has its length truncated to 16 bits: it is read back short.\<close>

lemma readString_wraps:
  assumes "65536 \<le> length s"
  shows "readString (str_field s @ rest) 0 = Inr (take (length s mod 65536) s, 2 + length s mod 65536)"
proof -
  have "length s mod 65536 < 256 ^ 2" by simp
  from get_be_field [OF _ this, of 0 "[]" "s @ rest"]
  have g: "get_be 2 (str_field s @ rest) 0 = length s mod 65536" by (simp add: str_field_def)
  have l: "length s mod 65536 \<le> length s" by simp
  have t: "take (length s mod 65536) (drop (0 + 2) (str_field s @ rest)) = take (length s mod 65536) s"
    using l by (simp add: str_field_def)
  have "\<not> length (str_field s @ rest) < 0 + 2 + length s mod 65536" using l by simp
  then show ?thesis unfolding readString_def Let_def g t by simp
qed

section \<open>Properties\<close>

text \<open>C12: encoding a set request never writes outside its buffer, and decoding the result, whatever
  follows it, gives the request back, for strings below 64 KiB, a value below 4 GiB and any 64-bit
  time-to-live.\<close>

theorem set_payload_round_trip:
  assumes "set_fits token bucket key ttl value"
  shows "\<exists>data. EncodeSetPayload token bucket key ttl sr value = Inr data \<and>
    DecodeSetPayload (data @ rest) = Inr (token, bucket, key, ttl, sr, value)"
  using DecodeSet_Encode [OF EncodeSetPayload_eq assms] EncodeSetPayload_eq by blast

theorem set_payload_round_trip_witness:
  "\<exists>data. EncodeSetPayload [1] [2, 3] [4] (- 5) True [6, 7] = Inr data \<and>
    DecodeSetPayload (data @ []) = Inr ([1], [2, 3], [4], - 5, True, [6, 7])"
  by (rule set_payload_round_trip) (simp add: set_fits_def)

text \<open>The same for get and delete requests.\<close>

theorem get_payload_round_trip:
  assumes "get_fits token bucket key"
  shows "\<exists>data. EncodeGetPayload token bucket key = Inr data \<and> EncodeDeletePayload token bucket key = Inr data \<and>
    DecodeGetPayload (data @ rest) = Inr (token, bucket, key) \<and> DecodeDeletePayload (data @ rest) = Inr (token, bucket, key)"
  using DecodeGet_Encode [OF EncodeGetPayload_eq assms] EncodeGetPayload_eq
  by (auto simp: EncodeDeletePayload_def DecodeDeletePayload_def)

theorem get_payload_round_trip_witness:
  "\<exists>data. EncodeGetPayload [1] [2, 3] [4] = Inr data \<and> EncodeDeletePayload [1] [2, 3] [4] = Inr data \<and>
    DecodeGetPayload (data @ [9]) = Inr ([1], [2, 3], [4]) \<and> DecodeDeletePayload (data @ [9]) = Inr ([1], [2, 3], [4])"
  by (rule get_payload_round_trip) (simp add: get_fits_def)

text \<open>A request cut short anywhere is refused as an invalid frame, never read as another request.\<close>

theorem truncated_payload_rejected:
  assumes "set_fits token bucket key ttl value"
  shows "(EncodeSetPayload token bucket key ttl sr value = Inr data \<and> n < length data \<longrightarrow>
      DecodeSetPayload (take n data) = Inl ErrInvalidFrame) \<and>
    (EncodeGetPayload token bucket key = Inr data \<and> n < length data \<longrightarrow>
      DecodeGetPayload (take n data) = Inl ErrInvalidFrame)"
proof -
  have "get_fits token bucket key" using assms by (simp add: set_fits_def get_fits_def)
  then show ?thesis using DecodeSet_truncated [OF _ assms] DecodeGet_truncated by blast
qed

theorem truncated_payload_rejected_witness:
  "DecodeGetPayload (take 5 (str_field [1] @ str_field [2, 3] @ str_field [4])) = Inl ErrInvalidFrame"
proof -
  have "set_fits [1] [2, 3] [4] 0 []" by (simp add: set_fits_def)
  from truncated_payload_rejected [OF this, of True "str_field [1] @ str_field [2, 3] @ str_field [4]" 5]
  show ?thesis by (simp add: EncodeGetPayload_eq)
qed

text \<open>A string of 64 KiB or more has its length cut to 16 bits: it is written whole and read back
  short, and the rest of it is taken for the next field.\<close>

theorem long_string_misread:
  assumes "65536 \<le> length s"
  shows "writeString (replicate (2 + length s + m) 0) 0 s =
      Inr (str_field s @ replicate m 0, 2 + length s) \<and>
    (\<exists>s' n. readString (str_field s @ replicate m 0) 0 = Inr (s', n) \<and> s' = take (length s mod 65536) s \<and>
      length s' < length s \<and> n < 2 + length s)"
proof -
  have "length s mod 65536 < 65536" by simp
  then have l: "length s mod 65536 < length s" using assms by linarith
  show ?thesis
    using writeString_cursor [of "[]" s m] readString_wraps [OF assms, of "replicate m 0"] l
    by (simp add: str_field_def)
qed

theorem long_string_misread_witness:
  "\<exists>s' n. readString (str_field (replicate 65536 7) @ replicate 0 0) 0 = Inr (s', n) \<and> length s' < 65536"
  using long_string_misread [of "replicate 65536 7" 0] by auto

end
