(* ===== verification/Be_Words.thy ===== *)
theory Be_Words
  imports Tcp_Codec
begin

text \<open>
  The two readers of big-endian words at the end of \<open>internal/transport/tcp/server.go\<close>, with the shifts and ors of
  the code, and that they compute the number \<open>get_be\<close> that the connection loop of \<open>Tcp_Server\<close> uses.
\<close>

unbundle bit_operations_syntax

definition binaryBEUint32 :: "byte list \<Rightarrow> 32 word" where
  "binaryBEUint32 b =
     push_bit 24 (ucast (b ! 0)) OR push_bit 16 (ucast (b ! 1)) OR push_bit 8 (ucast (b ! 2)) OR ucast (b ! 3)"

definition binaryBEUint64 :: "byte list \<Rightarrow> 64 word" where
  "binaryBEUint64 b =
     push_bit 56 (ucast (b ! 0)) OR push_bit 48 (ucast (b ! 1)) OR push_bit 40 (ucast (b ! 2)) OR push_bit 32 (ucast (b ! 3)) OR
     push_bit 24 (ucast (b ! 4)) OR push_bit 16 (ucast (b ! 5)) OR push_bit 8 (ucast (b ! 6)) OR ucast (b ! 7)"

text \<open>A byte below a shifted word is added to it.\<close>

lemma push_or_byte: "push_bit 8 (w :: 'a :: len word) OR ucast (x :: byte) = w * 256 + ucast x"
proof -
  have "push_bit 8 w + ucast x = push_bit 8 w OR ucast x"
    by (rule disjunctive_add) (auto simp: bit_simps dest: bit_imp_le_length)
  then show ?thesis by (simp add: push_bit_eq_mult)
qed

lemma word_of_nat_byte: "(word_of_nat (unat (x :: byte)) :: 'a :: len word) = ucast x"
  by simp

lemma be32_horner: "binaryBEUint32 [a, b, c, d] = word_of_nat (be_nat [a, b, c, d])"
proof -
  have "binaryBEUint32 [a, b, c, d] = push_bit 8 (push_bit 8 (push_bit 8 (ucast a) OR ucast b) OR ucast c) OR ucast d"
    by (simp add: binaryBEUint32_def push_bit_or ac_simps)
  then show ?thesis by (simp add: push_or_byte be_nat_def word_of_nat_byte)
qed

lemma be64_horner: "binaryBEUint64 [a, b, c, d, e, f, g, h] = word_of_nat (be_nat [a, b, c, d, e, f, g, h])"
proof -
  have "binaryBEUint64 [a, b, c, d, e, f, g, h] =
      push_bit 8 (push_bit 8 (push_bit 8 (push_bit 8 (push_bit 8 (push_bit 8 (push_bit 8 (ucast a) OR ucast b) OR ucast c) OR ucast d)
        OR ucast e) OR ucast f) OR ucast g) OR ucast h"
    by (simp add: binaryBEUint64_def push_bit_or ac_simps)
  then show ?thesis by (simp add: push_or_byte be_nat_def word_of_nat_byte)
qed

lemma take_four: "4 \<le> length b \<Longrightarrow> take 4 b = [b ! 0, b ! 1, b ! 2, b ! 3]"
  by (rule nth_equalityI) (auto simp: less_Suc_eq numeral_eq_Suc)

lemma take_eight: "8 \<le> length b \<Longrightarrow> take 8 b = [b ! 0, b ! 1, b ! 2, b ! 3, b ! 4, b ! 5, b ! 6, b ! 7]"
  by (rule nth_equalityI) (auto simp: less_Suc_eq numeral_eq_Suc)

text \<open>The words read at the front of a buffer and behind its command byte.\<close>

lemma binaryBEUint32_get_be:
  assumes "4 \<le> length buf"
  shows "unat (binaryBEUint32 (take 4 buf)) = get_be 4 buf 0"
proof -
  have "be_nat (take 4 buf) < 2 ^ 32" using be_nat_less [of "take 4 buf"] assms by simp
  then show ?thesis
    unfolding get_be_def take_four [OF assms] be32_horner drop_0 by (simp add: take_bit_nat_eq_self unsigned_of_nat)
qed

lemma binaryBEUint64_get_be:
  assumes "off + 8 \<le> length buf"
  shows "binaryBEUint64 (take 8 (drop off buf)) = word_of_nat (get_be 8 buf off)"
  using assms take_eight [of "drop off buf"] be64_horner by (simp add: get_be_def)

end
