(* ===== verification/Tcp_Protocol.thy ===== *)
theory Tcp_Protocol
  imports Tcp_Codec
begin

text \<open>
  The frames of \<open>internal/transport/tcp/protocol.go\<close>: a 13-byte header with total length, command and
  request identifier, then the payload; and the response and error frames built on it.
\<close>

definition HeaderSize :: nat where "HeaderSize = 13"
definition MaxPayloadSize :: nat where "MaxPayloadSize = 16 * 1024 * 1024"

definition CmdSet :: byte where "CmdSet = 0x01"
definition CmdGet :: byte where "CmdGet = 0x02"
definition CmdDelete :: byte where "CmdDelete = 0x03"
definition CmdAuth :: byte where "CmdAuth = 0x20"
definition CmdResponse :: byte where "CmdResponse = 0xF0"
definition CmdError :: byte where "CmdError = 0xFF"

definition StatusOK :: byte where "StatusOK = 0x00"
definition StatusCreated :: byte where "StatusCreated = 0x01"
definition StatusNoContent :: byte where "StatusNoContent = 0x02"
definition StatusBadRequest :: byte where "StatusBadRequest = 0x10"
definition StatusUnauthorized :: byte where "StatusUnauthorized = 0x11"
definition StatusNotFound :: byte where "StatusNotFound = 0x12"
definition StatusConflict :: byte where "StatusConflict = 0x13"
definition StatusInternalError :: byte where "StatusInternalError = 0x20"
definition StatusInvalidTTL :: byte where "StatusInvalidTTL = 0x21"
definition StatusKeyExpired :: byte where "StatusKeyExpired = 0x22"

text \<open>\<open>Length\<close> is a \<open>uint32\<close>, kept as its value.\<close>

record frame =
  fr_Length :: nat
  fr_Command :: byte
  fr_RequestID :: "64 word"
  fr_Payload :: "byte list"

definition Frame_Encode :: "frame \<Rightarrow> go_panic + byte list" where
  "Frame_Encode f =
     (let totalLen = HeaderSize + length (fr_Payload f); buf = replicate totalLen 0
      in gbind (put_be 4 buf 0 totalLen) (\<lambda>buf.
         gbind (set_byte buf 4 (fr_Command f)) (\<lambda>buf.
         gbind (put_be 8 buf 5 (unat (fr_RequestID f))) (\<lambda>buf.
         if 0 < length (fr_Payload f) then copy_at buf 13 (fr_Payload f) else Inr buf))))"

definition DecodeFrame :: "byte list \<Rightarrow> frame_error + frame" where
  "DecodeFrame data =
     (if length data < HeaderSize then Inl ErrIncompleteFrame
      else let len = get_be 4 data 0
           in if MaxPayloadSize + HeaderSize < len then Inl ErrPayloadTooLarge
              else if length data mod 2 ^ 32 < len then Inl ErrIncompleteFrame
              else let command = data ! 4; requestID = word_of_nat (get_be 8 data 5);
                       payload = (if HeaderSize < len
                                  then go_copy (replicate (len - HeaderSize) 0) 0 (take (len - 13) (drop 13 data))
                                  else [])
                   in Inr \<lparr>fr_Length = len, fr_Command = command, fr_RequestID = requestID, fr_Payload = payload\<rparr>)"

definition NewFrame :: "byte \<Rightarrow> 64 word \<Rightarrow> byte list \<Rightarrow> frame" where
  "NewFrame command requestID payload =
     \<lparr>fr_Length = (HeaderSize + length payload) mod 2 ^ 32, fr_Command = command,
      fr_RequestID = requestID, fr_Payload = payload\<rparr>"

definition NewResponseFrame :: "64 word \<Rightarrow> byte \<Rightarrow> byte list \<Rightarrow> frame" where
  "NewResponseFrame requestID status data =
     (let payload = (replicate (1 + length data) 0)[0 := status];
          payload' = (if 0 < length data then go_copy payload 1 data else payload)
      in NewFrame CmdResponse requestID payload')"

definition NewErrorFrame :: "64 word \<Rightarrow> byte \<Rightarrow> gostring \<Rightarrow> frame" where
  "NewErrorFrame requestID status message =
     (let payload = (replicate (1 + length message) 0)[0 := status]
      in NewFrame CmdError requestID (go_copy payload 1 message))"

definition ParseResponsePayload :: "byte list \<Rightarrow> frame_error + byte \<times> byte list" where
  "ParseResponsePayload payload =
     (if length payload < 1 then Inl ErrInvalidFrame
      else Inr (payload ! 0, if 1 < length payload then drop 1 payload else []))"

section \<open>The shape of frames\<close>

definition frame_bytes :: "byte \<Rightarrow> 64 word \<Rightarrow> byte list \<Rightarrow> byte list" where
  "frame_bytes command requestID payload =
     be_bytes 4 ((HeaderSize + length payload) mod 2 ^ 32) @ [command] @ be_bytes 8 (unat requestID) @ payload"

lemma unat_uint64: "unat (x :: 64 word) < 256 ^ 8"
proof -
  have "unat x < 2 ^ LENGTH(64)" by (rule unsigned_less)
  then show ?thesis by simp
qed

lemma Frame_Encode_eq:
  "Frame_Encode f = Inr (frame_bytes (fr_Command f) (fr_RequestID f) (fr_Payload f))"
proof -
  let ?p = "fr_Payload f" and ?n = "HeaderSize + length (fr_Payload f)"
  let ?len = "be_bytes 4 (?n mod 256 ^ 4)" and ?rid = "be_bytes 8 (unat (fr_RequestID f))"
  have b: "replicate ?n 0 = [] @ replicate (4 + (1 + (8 + length ?p))) (0 :: byte)" by (simp add: HeaderSize_def)
  have 1: "put_be 4 ([] @ replicate (4 + (1 + (8 + length ?p))) 0) 0 ?n = Inr ([] @ ?len @ replicate (1 + (8 + length ?p)) 0)"
    using put_be_cursor [of 4 "[]" "1 + (8 + length ?p)" ?n] by simp
  have 2: "set_byte ([] @ ?len @ replicate (1 + (8 + length ?p)) 0) 4 (fr_Command f) =
      Inr (?len @ fr_Command f # replicate (8 + length ?p) 0)"
    using set_byte_cursor [of ?len "8 + length ?p" "fr_Command f"] by simp
  have u: "unat (fr_RequestID f) mod 256 ^ 8 = unat (fr_RequestID f)"
    by (rule mod_less [OF unat_uint64])
  have 3: "put_be 8 (?len @ fr_Command f # replicate (8 + length ?p) 0) 5 (unat (fr_RequestID f)) =
      Inr ((?len @ fr_Command f # ?rid) @ replicate (length ?p + 0) 0)"
    using put_be_cursor [of 8 "?len @ [fr_Command f]" "length ?p" "unat (fr_RequestID f)"] u by simp
  have 4: "copy_at ((?len @ fr_Command f # ?rid) @ replicate (length ?p + 0) 0) 13 ?p = Inr ((?len @ fr_Command f # ?rid) @ ?p)"
    using copy_at_cursor [of "?len @ fr_Command f # ?rid" ?p 0] by simp
  show ?thesis
    unfolding Frame_Encode_def Let_def b 1 gbind_Inr 2 3 4 by (simp add: frame_bytes_def)
qed

lemma NewResponseFrame_eq: "NewResponseFrame rid status data = NewFrame CmdResponse rid (status # data)"
  by (simp add: NewResponseFrame_def Let_def go_copy_def)

lemma NewErrorFrame_eq: "NewErrorFrame rid status message = NewFrame CmdError rid (status # message)"
  by (simp add: NewErrorFrame_def Let_def go_copy_def)

lemma frame_bytes_get:
  assumes "length payload \<le> MaxPayloadSize"
  shows "get_be 4 (frame_bytes c rid payload @ rest) 0 = HeaderSize + length payload"
    "(frame_bytes c rid payload @ rest) ! 4 = c" "word_of_nat (get_be 8 (frame_bytes c rid payload @ rest) 5) = rid"
    "length (frame_bytes c rid payload) = HeaderSize + length payload"
    "drop 13 (frame_bytes c rid payload @ rest) = payload @ rest"
proof -
  have n: "(HeaderSize + length payload) mod 2 ^ 32 = HeaderSize + length payload"
    using assms by (simp add: HeaderSize_def MaxPayloadSize_def)
  have "HeaderSize + length payload < 256 ^ 4" using assms by (simp add: HeaderSize_def MaxPayloadSize_def)
  from get_be_field [OF _ this, of 0 "[]" "[c] @ be_bytes 8 (unat rid) @ payload @ rest"]
  show "get_be 4 (frame_bytes c rid payload @ rest) 0 = HeaderSize + length payload"
    by (simp only: frame_bytes_def n append_Nil append_assoc list.size)
  show "(frame_bytes c rid payload @ rest) ! 4 = c" by (simp add: frame_bytes_def nth_append)
  from get_be_field [OF _ unat_uint64, of 5 "be_bytes 4 (HeaderSize + length payload) @ [c]" rid "payload @ rest"]
  have "get_be 8 (frame_bytes c rid payload @ rest) 5 = unat rid"
    unfolding frame_bytes_def n by simp
  then show "word_of_nat (get_be 8 (frame_bytes c rid payload @ rest) 5) = rid" by simp
  show "length (frame_bytes c rid payload) = HeaderSize + length payload" by (simp add: frame_bytes_def HeaderSize_def)
  show "drop 13 (frame_bytes c rid payload @ rest) = payload @ rest" by (simp add: frame_bytes_def)
qed

text \<open>Decoding an encoded frame gives it back, also from the front of a longer buffer.\<close>

lemma DecodeFrame_bytes:
  assumes "length payload \<le> MaxPayloadSize" "length (frame_bytes c rid payload @ rest) < 2 ^ 32"
  shows "DecodeFrame (frame_bytes c rid payload @ rest) = Inr (NewFrame c rid payload)"
proof -
  note g = frame_bytes_get(1,2,3,5) [where c = c and rid = rid and rest = rest, OF assms(1)]
  note g4 = frame_bytes_get(4) [OF assms(1), of c rid]
  have n: "(HeaderSize + length payload) mod 2 ^ 32 = HeaderSize + length payload"
    using assms by (simp add: HeaderSize_def MaxPayloadSize_def)
  have l: "length (frame_bytes c rid payload @ rest) mod 2 ^ 32 = HeaderSize + length payload + length rest"
    using assms(2) g4 by (simp add: mod_less)
  show ?thesis
    using assms(1) g4 n l unfolding DecodeFrame_def Let_def g NewFrame_def
    by (auto simp: HeaderSize_def go_copy_def)
qed

lemma DecodeFrame_short:
  assumes "length payload \<le> MaxPayloadSize" "n < length (frame_bytes c rid payload)"
  shows "DecodeFrame (take n (frame_bytes c rid payload)) = Inl ErrIncompleteFrame"
proof (cases "n < 13")
  case True
  then have "length (take n (frame_bytes c rid payload)) < HeaderSize" by (simp add: HeaderSize_def)
  then show ?thesis by (simp only: DecodeFrame_def if_True)
next
  case False
  let ?d = "frame_bytes c rid payload"
  note g = frame_bytes_get(1,2,3,5) [where c = c and rid = rid and rest = "[]", OF assms(1)]
  note g4 = frame_bytes_get(4) [OF assms(1), of c rid]
  have "get_be 4 (take n ?d @ drop n ?d) 0 = get_be 4 (take n ?d) 0"
    using False assms(2) by (intro get_be_extend) simp
  then have ln: "get_be 4 (take n ?d) 0 = HeaderSize + length payload" using g(1) by simp
  have "length (take n ?d) mod 2 ^ 32 < HeaderSize + length payload"
    using assms(2) g4 by (intro le_less_trans [OF mod_less_eq_dividend]) simp
  then show ?thesis using False assms g4 ln by (simp add: DecodeFrame_def HeaderSize_def)
qed

section \<open>Properties\<close>

text \<open>Encoding a frame does not panic, and decoding the bytes gives the frame back with its length
  filled in, for a payload within the limit and also from the front of a longer buffer.\<close>

theorem frame_round_trip:
  assumes "length (fr_Payload f) \<le> MaxPayloadSize" "HeaderSize + length (fr_Payload f) + length rest < 2 ^ 32"
  shows "\<exists>data. Frame_Encode f = Inr data \<and>
    DecodeFrame (data @ rest) = Inr (f\<lparr>fr_Length := HeaderSize + length (fr_Payload f)\<rparr>)"
proof -
  let ?d = "frame_bytes (fr_Command f) (fr_RequestID f) (fr_Payload f)"
  have "length (?d @ rest) < 2 ^ 32" using assms frame_bytes_get(4) [OF assms(1)] by simp
  from DecodeFrame_bytes [OF assms(1) this]
  have "DecodeFrame (?d @ rest) = Inr (NewFrame (fr_Command f) (fr_RequestID f) (fr_Payload f))" .
  moreover have "NewFrame (fr_Command f) (fr_RequestID f) (fr_Payload f) = f\<lparr>fr_Length := HeaderSize + length (fr_Payload f)\<rparr>"
    using assms(1) by (cases f) (simp add: NewFrame_def HeaderSize_def MaxPayloadSize_def)
  ultimately show ?thesis using Frame_Encode_eq [of f] by auto
qed

theorem frame_round_trip_witness:
  "\<exists>data. Frame_Encode \<lparr>fr_Length = 0, fr_Command = CmdGet, fr_RequestID = 7, fr_Payload = [1, 2]\<rparr> = Inr data \<and>
    DecodeFrame (data @ [3]) = Inr (\<lparr>fr_Length = 15, fr_Command = CmdGet, fr_RequestID = 7, fr_Payload = [1, 2]\<rparr>)"
  using frame_round_trip [of "\<lparr>fr_Length = 0, fr_Command = CmdGet, fr_RequestID = 7, fr_Payload = [1, 2]\<rparr>" "[3]"]
  by (simp add: MaxPayloadSize_def HeaderSize_def)

text \<open>A frame cut short anywhere is reported as incomplete, so that a reader waits for more.\<close>

theorem short_frame_incomplete:
  assumes "length (fr_Payload f) \<le> MaxPayloadSize" "Frame_Encode f = Inr data" "n < length data"
  shows "DecodeFrame (take n data) = Inl ErrIncompleteFrame"
  using DecodeFrame_short [OF assms(1), of n "fr_Command f" "fr_RequestID f"] assms(2,3) by (auto simp: Frame_Encode_eq)

theorem short_frame_incomplete_witness:
  "DecodeFrame (take 14 (frame_bytes CmdGet 7 [1, 2])) = Inl ErrIncompleteFrame"
  using short_frame_incomplete [of "\<lparr>fr_Length = 0, fr_Command = CmdGet, fr_RequestID = 7, fr_Payload = [1, 2]\<rparr>" "frame_bytes CmdGet 7 [1, 2]" 14]
  by (simp add: Frame_Encode_eq MaxPayloadSize_def frame_bytes_def)

text \<open>Response and error frames carry the status first, and parsing their payload gives the status
  and the data back.\<close>

theorem response_round_trip:
  "ParseResponsePayload (fr_Payload (NewResponseFrame rid status data)) = Inr (status, data) \<and>
   ParseResponsePayload (fr_Payload (NewErrorFrame rid status msg)) = Inr (status, msg) \<and>
   fr_Command (NewResponseFrame rid status data) = CmdResponse \<and> fr_Command (NewErrorFrame rid status msg) = CmdError \<and>
   fr_RequestID (NewResponseFrame rid status data) = rid \<and> fr_RequestID (NewErrorFrame rid status msg) = rid"
  by (simp add: NewResponseFrame_eq NewErrorFrame_eq NewFrame_def ParseResponsePayload_def)

end
