(* ===== verification/Tcp_Server.thy ===== *)
theory Tcp_Server
  imports Services Tcp_Protocol
begin

text \<open>
  The request handler of \<open>internal/transport/tcp/handler.go\<close> and the connection loop of
  \<open>internal/transport/tcp/server.go\<close>: chunks of bytes are appended to a buffer, complete frames are taken
  from its front, handled, and answered in order. A panic in the loop ends the process: no
  goroutine of the TCP server recovers.
\<close>

section \<open>The handler\<close>

definition handleServiceError :: "64 word \<Rightarrow> service_error \<Rightarrow> frame" where
  "handleServiceError requestID err =
     (case err of
        ErrInvalidTTL \<Rightarrow> NewErrorFrame requestID StatusInvalidTTL (str ''Invalid TTL'')
      | ErrKeyNotFound \<Rightarrow> NewErrorFrame requestID StatusNotFound (str ''Key not found'')
      | ErrKeyExpired \<Rightarrow> NewErrorFrame requestID StatusKeyExpired (str ''Key expired'')
      | ErrUnauthorized \<Rightarrow> NewErrorFrame requestID StatusUnauthorized (str ''Unauthorized'')
      | _ \<Rightarrow> NewErrorFrame requestID StatusInternalError (str ''Internal server error''))"

type_synonym 's handled = "(go_panic + frame) \<times> 's"

definition handleSet :: "env \<Rightarrow> auth_state \<Rightarrow> hasher \<Rightarrow> frame \<Rightarrow> bucket_manager \<Rightarrow> bucket_manager handled" where
  "handleSet env auth hash f bm =
     (case DecodeSetPayload (fr_Payload f) of
        Inl err \<Rightarrow> (Inr (NewErrorFrame (fr_RequestID f) StatusBadRequest (str ''Invalid payload'')), bm)
      | Inr (token, bucket, key, ttl, singleRead, value) \<Rightarrow>
          (case auth_Manager auth of
             Inl p \<Rightarrow> (Inl p, bm)
           | Inr tm \<Rightarrow>
               if \<not> ValidateToken env tm token bucket
               then (Inr (NewErrorFrame (fr_RequestID f) StatusUnauthorized (str ''Invalid token'')), bm)
               else case StorageService_Set env hash bm bucket key value ttl singleRead of
                 (Err err, bm') \<Rightarrow> (Inr (handleServiceError (fr_RequestID f) err), bm')
               | (Panic p, bm') \<Rightarrow> (Inl p, bm')
               | (Ok e, bm') \<Rightarrow> (Inr (NewResponseFrame (fr_RequestID f) StatusCreated []), bm')))"

definition handleGet :: "env \<Rightarrow> auth_state \<Rightarrow> hasher \<Rightarrow> frame \<Rightarrow> bucket_manager \<Rightarrow> bucket_manager handled" where
  "handleGet env auth hash f bm =
     (case DecodeGetPayload (fr_Payload f) of
        Inl err \<Rightarrow> (Inr (NewErrorFrame (fr_RequestID f) StatusBadRequest (str ''Invalid payload'')), bm)
      | Inr (token, bucket, key) \<Rightarrow>
          (case auth_Manager auth of
             Inl p \<Rightarrow> (Inl p, bm)
           | Inr tm \<Rightarrow>
               if \<not> ValidateToken env tm token bucket
               then (Inr (NewErrorFrame (fr_RequestID f) StatusUnauthorized (str ''Invalid token'')), bm)
               else case StorageService_Get env hash bm bucket key of
                 (Err err, bm') \<Rightarrow> (Inr (handleServiceError (fr_RequestID f) err), bm')
               | (Panic p, bm') \<Rightarrow> (Inl p, bm')
               | (Ok e, bm') \<Rightarrow>
                   (case EncodeValueResponse (se_Key e) (se_TTL e) (time_Unix (se_CreatedAt e))
                           (time_Unix (se_ExpiresAt e)) (se_SingleRead e) (se_Value e) of
                      Inl p \<Rightarrow> (Inl p, bm')
                    | Inr data \<Rightarrow> (Inr (NewResponseFrame (fr_RequestID f) StatusOK data), bm'))))"

definition handleDelete :: "env \<Rightarrow> auth_state \<Rightarrow> hasher \<Rightarrow> frame \<Rightarrow> bucket_manager \<Rightarrow> bucket_manager handled" where
  "handleDelete env auth hash f bm =
     (case DecodeDeletePayload (fr_Payload f) of
        Inl err \<Rightarrow> (Inr (NewErrorFrame (fr_RequestID f) StatusBadRequest (str ''Invalid payload'')), bm)
      | Inr (token, bucket, key) \<Rightarrow>
          (case auth_Manager auth of
             Inl p \<Rightarrow> (Inl p, bm)
           | Inr tm \<Rightarrow>
               if \<not> ValidateToken env tm token bucket
               then (Inr (NewErrorFrame (fr_RequestID f) StatusUnauthorized (str ''Invalid token'')), bm)
               else case StorageService_Delete hash bm bucket key of
                 (Err err, bm') \<Rightarrow> (Inr (handleServiceError (fr_RequestID f) err), bm')
               | (Panic p, bm') \<Rightarrow> (Inl p, bm')
               | (Ok u, bm') \<Rightarrow> (Inr (NewResponseFrame (fr_RequestID f) StatusNoContent []), bm')))"

definition HandleFrame :: "env \<Rightarrow> auth_state \<Rightarrow> hasher \<Rightarrow> frame \<Rightarrow> bucket_manager \<Rightarrow> bucket_manager handled" where
  "HandleFrame env auth hash f bm =
     (if fr_Command f = CmdSet then handleSet env auth hash f bm
      else if fr_Command f = CmdGet then handleGet env auth hash f bm
      else if fr_Command f = CmdDelete then handleDelete env auth hash f bm
      else (Inr (NewErrorFrame (fr_RequestID f) StatusBadRequest (str ''Unknown command'')), bm))"

section \<open>The connection\<close>

definition MaxConnectionBuffSize :: nat where "MaxConnectionBuffSize = 17 * 2 ^ 20"
definition readChunkSize :: nat where "readChunkSize = 64 * 2 ^ 10"

text \<open>Where a connection stands after some reads: waiting for the next read with what is left in the
  buffer, closed, or ended by a panic.\<close>

datatype conn_status = Waiting "byte list" | Closed | Crashed go_panic

text \<open>The inner loop. \<open>h i\<close> handles the \<open>i\<close>-th frame of the connection, \<open>wr i\<close> says whether writing its
  response succeeds; the responses written are collected.\<close>

function serve_frames ::
  "(nat \<Rightarrow> frame \<Rightarrow> 's \<Rightarrow> 's handled) \<Rightarrow> (nat \<Rightarrow> bool) \<Rightarrow> nat \<Rightarrow> byte list \<Rightarrow> 's
    \<Rightarrow> byte list list \<times> conn_status \<times> nat \<times> 's" where
  "serve_frames h wr i buf s =
     (if length buf < HeaderSize then ([], Waiting buf, i, s)
      else let frameLen = get_be 4 buf 0
           in if HeaderSize + MaxPayloadSize < frameLen then ([], Closed, i, s)
              else if length buf < frameLen then ([], Waiting buf, i, s)
              else if frameLen < HeaderSize then ([], Crashed SliceOutOfRange, i, s)
              else let f = \<lparr>fr_Length = frameLen mod 2 ^ 32, fr_Command = buf ! 4,
                            fr_RequestID = word_of_nat (get_be 8 buf 5),
                            fr_Payload = take (frameLen - HeaderSize) (drop HeaderSize buf)\<rparr>
                   in case h i f s of
                        (Inl p, s') \<Rightarrow> ([], Crashed p, i, s')
                      | (Inr resp, s') \<Rightarrow>
                          (case Frame_Encode resp of
                             Inl p \<Rightarrow> ([], Crashed p, i, s')
                           | Inr bytes \<Rightarrow>
                               if \<not> wr i then ([], Closed, i, s')
                               else let (out, st, j, s'') = serve_frames h wr (Suc i) (drop frameLen buf) s'
                                    in (bytes # out, st, j, s'')))"
  by pat_completeness auto
termination
  by (relation "measure (\<lambda>(h, wr, i, buf, s). length buf)") (auto simp: HeaderSize_def)

declare serve_frames.simps [simp del]

datatype read_result = Data "byte list" | ReadError

text \<open>The outer loop over the results of \<open>br.Read\<close>.\<close>

fun handleConn ::
  "(nat \<Rightarrow> frame \<Rightarrow> 's \<Rightarrow> 's handled) \<Rightarrow> (nat \<Rightarrow> bool) \<Rightarrow> nat \<Rightarrow> byte list \<Rightarrow> read_result list \<Rightarrow> 's
    \<Rightarrow> byte list list \<times> conn_status \<times> nat \<times> 's" where
  "handleConn h wr i buf [] s = ([], Waiting buf, i, s)"
| "handleConn h wr i buf (ReadError # rs) s = ([], Closed, i, s)"
| "handleConn h wr i buf (Data chunk # rs) s =
     (if MaxConnectionBuffSize < length buf + length chunk then ([], Closed, i, s)
      else case serve_frames h wr i (buf @ chunk) s of
             (out, Waiting buf', j, s') \<Rightarrow>
               let (out', st, j', s'') = handleConn h wr j buf' rs s' in (out @ out', st, j', s'')
           | (out, st, j, s') \<Rightarrow> (out, st, j, s'))"

section \<open>What one handled frame does\<close>

text \<open>The request a frame carries, as far as authorisation goes: its token and bucket.\<close>

definition frame_credentials :: "frame \<Rightarrow> (gostring \<times> gostring) option" where
  "frame_credentials f =
     (if fr_Command f = CmdSet
      then case DecodeSetPayload (fr_Payload f) of Inl e \<Rightarrow> None | Inr (t, b, k, ttl, sr, v) \<Rightarrow> Some (t, b)
      else if fr_Command f = CmdGet \<or> fr_Command f = CmdDelete
      then case DecodeGetPayload (fr_Payload f) of Inl e \<Rightarrow> None | Inr (t, b, k) \<Rightarrow> Some (t, b)
      else None)"

lemma commands_distinct [simp]:
  "CmdSet \<noteq> CmdGet" "CmdGet \<noteq> CmdSet" "CmdSet \<noteq> CmdDelete" "CmdDelete \<noteq> CmdSet" "CmdGet \<noteq> CmdDelete"
  "CmdDelete \<noteq> CmdGet"
  by (simp_all add: CmdSet_def CmdGet_def CmdDelete_def)

text \<open>Without a valid token no bucket changes and an error frame is the answer.\<close>

lemma HandleFrame_unauthorized:
  assumes "auth = Some tm" "\<And>t b. frame_credentials f = Some (t, b) \<Longrightarrow> \<not> ValidateToken env tm t b"
  shows "\<exists>status msg. HandleFrame env auth hash f bm = (Inr (NewErrorFrame (fr_RequestID f) status msg), bm) \<and>
    (frame_credentials f \<noteq> None \<longrightarrow> status = StatusUnauthorized) \<and> (frame_credentials f = None \<longrightarrow> status = StatusBadRequest)"
  using assms
  by (auto simp: HandleFrame_def handleSet_def handleGet_def handleDelete_def DecodeDeletePayload_def
      frame_credentials_def auth_Manager_def split: sum.splits if_splits)

text \<open>With a valid token and an existing bucket each command does its operation on the entries of
  that bucket.\<close>

lemma handleSet_view:
  assumes ok: "bm_ok hash bm" and d: "DecodeSetPayload (fr_Payload f) = Inr (t, b, k, ttl, sr, v)"
    and c: "fr_Command f = CmdSet" and v: "ValidateToken env tm t b" and M: "kv_view hash bm b = Some M" and ttl: "0 \<le> ttl"
    and r: "HandleFrame env (Some tm) hash f bm = (res, bm')"
  shows "kv_view hash bm' = (kv_view hash bm)(b \<mapsto> M(k \<mapsto> stamped env (new_entry env k v ttl sr)))" "bm_ok hash bm'"
    "res = Inr (NewResponseFrame (fr_RequestID f) StatusCreated []) \<or> (\<exists>p. res = Inl p)"
proof -
  obtain o1 bm1 where s: "StorageService_Set env hash bm b k v ttl sr = (o1, bm1)" by fastforce
  note w = StorageService_Set_view [OF ok s M ttl]
  have e: "(res, bm') = (case (o1, bm1) of (Err err, bm') \<Rightarrow> (Inr (handleServiceError (fr_RequestID f) err), bm')
               | (Panic p, bm') \<Rightarrow> (Inl p, bm')
               | (Ok e, bm') \<Rightarrow> (Inr (NewResponseFrame (fr_RequestID f) StatusCreated []), bm'))"
    using r c d v s by (simp add: HandleFrame_def handleSet_def auth_Manager_def)
  have b: "bm' = bm1" using e by (cases o1) auto
  show "kv_view hash bm' = (kv_view hash bm)(b \<mapsto> M(k \<mapsto> stamped env (new_entry env k v ttl sr)))" "bm_ok hash bm'"
    using w(1,2) by (simp_all only: b)
  show "res = Inr (NewResponseFrame (fr_RequestID f) StatusCreated []) \<or> (\<exists>p. res = Inl p)"
    using e w(3) by auto
qed

definition value_response :: "storage_entry \<Rightarrow> byte list" where
  "value_response e =
     str_field (se_Key e) @ int_field (se_TTL e) @ int_field (time_Unix (se_CreatedAt e)) @
     int_field (time_Unix (se_ExpiresAt e)) @ flag_field (se_SingleRead e) @ value_field (se_Value e)"

lemma handleGet_view:
  assumes ok: "bm_ok hash bm" and d: "DecodeGetPayload (fr_Payload f) = Inr (t, b, k)"
    and c: "fr_Command f = CmdGet" and v: "ValidateToken env tm t b" and M: "kv_view hash bm b = Some M"
  shows "\<exists>bm'. HandleFrame env (Some tm) hash f bm =
      (Inr (case Option.bind (M k) (read_entry env) of
              None \<Rightarrow> NewErrorFrame (fr_RequestID f) StatusNotFound (str ''Key not found'')
            | Some e \<Rightarrow> NewResponseFrame (fr_RequestID f) StatusOK (value_response e)), bm') \<and>
    kv_view hash bm' = (kv_view hash bm)(b \<mapsto> (case Option.bind (M k) (read_entry env) of None \<Rightarrow> M | Some e \<Rightarrow> M(k \<mapsto> e))) \<and>
    bm_ok hash bm'"
proof -
  obtain o1 bm1 where s: "StorageService_Get env hash bm b k = (o1, bm1)" by fastforce
  note w = StorageService_Get_view [OF ok s M]
  have "HandleFrame env (Some tm) hash f bm =
      (Inr (case Option.bind (M k) (read_entry env) of
              None \<Rightarrow> NewErrorFrame (fr_RequestID f) StatusNotFound (str ''Key not found'')
            | Some e \<Rightarrow> NewResponseFrame (fr_RequestID f) StatusOK (value_response e)), bm1)"
    using c d v s w(1)
    by (cases "Option.bind (M k) (read_entry env)")
      (simp_all add: HandleFrame_def handleGet_def auth_Manager_def handleServiceError_def EncodeValueResponse_eq value_response_def)
  then show ?thesis using w(2,3) by blast
qed

lemma handleDelete_view:
  assumes ok: "bm_ok hash bm" and d: "DecodeDeletePayload (fr_Payload f) = Inr (t, b, k)"
    and c: "fr_Command f = CmdDelete" and v: "ValidateToken env tm t b" and M: "kv_view hash bm b = Some M"
    and pos: "sizes_pos M {k}"
    and r: "HandleFrame env (Some tm) hash f bm = (Inr resp, bm')"
  shows "kv_view hash bm' = (kv_view hash bm)(b \<mapsto> M(k := None))" "bm_ok hash bm'"
    "resp = NewResponseFrame (fr_RequestID f) StatusNoContent []"
proof -
  obtain o1 bm1 where s: "StorageService_Delete hash bm b k = (o1, bm1)" by fastforce
  obtain sc where sc: "GetStore bm b = Some (Some sc)" using kv_view_Some [OF ok M] by blast
  have oo: "(\<exists>p. o1 = Panic p) \<or> o1 = Ok ()"
    using s sc by (auto simp: StorageService_Delete_def Let_def split: prod.splits option.splits)
  have e: "(Inr resp, bm') = (case (o1, bm1) of (Err err, bm') \<Rightarrow> (Inr (handleServiceError (fr_RequestID f) err), bm')
               | (Panic p, bm') \<Rightarrow> (Inl p, bm')
               | (Ok u, bm') \<Rightarrow> (Inr (NewResponseFrame (fr_RequestID f) StatusNoContent []), bm'))"
    using r c d v s by (simp add: HandleFrame_def handleDelete_def auth_Manager_def)
  with oo have o1: "o1 = Ok ()" by auto
  then have b: "bm' = bm1" "resp = NewResponseFrame (fr_RequestID f) StatusNoContent []" using e by auto
  note w = StorageService_Delete_view [OF ok s [unfolded o1] M pos]
  show "kv_view hash bm' = (kv_view hash bm)(b \<mapsto> M(k := None))" "bm_ok hash bm'"
    using w by (simp_all only: b(1))
  show "resp = NewResponseFrame (fr_RequestID f) StatusNoContent []" by (rule b(2))
qed

section \<open>The connection loop\<close>

text \<open>What the front of the buffer is: incomplete, too large, shorter than a header, or a frame and
  what follows it.\<close>

datatype front = Incomplete | Oversized | Undersized | Complete frame "byte list"

definition front_of :: "byte list \<Rightarrow> front" where
  "front_of buf =
     (let n = get_be 4 buf 0
      in if length buf < HeaderSize then Incomplete
         else if HeaderSize + MaxPayloadSize < n then Oversized
         else if length buf < n then Incomplete
         else if n < HeaderSize then Undersized
         else Complete \<lparr>fr_Length = n mod 2 ^ 32, fr_Command = buf ! 4, fr_RequestID = word_of_nat (get_be 8 buf 5),
                fr_Payload = take (n - HeaderSize) (drop HeaderSize buf)\<rparr> (drop n buf))"

definition answer :: "frame \<Rightarrow> byte list" where
  "answer f = frame_bytes (fr_Command f) (fr_RequestID f) (fr_Payload f)"

lemma serve_frames_front:
  "serve_frames h wr i buf s =
    (case front_of buf of
       Incomplete \<Rightarrow> ([], Waiting buf, i, s)
     | Oversized \<Rightarrow> ([], Closed, i, s)
     | Undersized \<Rightarrow> ([], Crashed SliceOutOfRange, i, s)
     | Complete f rest \<Rightarrow>
         (case h i f s of
            (Inl p, s') \<Rightarrow> ([], Crashed p, i, s')
          | (Inr resp, s') \<Rightarrow>
              if \<not> wr i then ([], Closed, i, s')
              else let (out, st, j, s'') = serve_frames h wr (Suc i) rest s' in (answer resp # out, st, j, s'')))"
  unfolding serve_frames.simps [of h wr i buf s]
  by (auto simp: front_of_def Let_def Frame_Encode_eq answer_def split: prod.splits sum.splits)

lemma front_shorter: "front_of buf = Complete f rest \<Longrightarrow> length rest < length buf"
  by (auto simp: front_of_def Let_def HeaderSize_def split: if_splits)

lemma front_append:
  "front_of buf \<noteq> Incomplete \<Longrightarrow>
    front_of (buf @ xs) = (case front_of buf of Complete f rest \<Rightarrow> Complete f (rest @ xs) | fr \<Rightarrow> fr)"
proof -
  assume a: "front_of buf \<noteq> Incomplete"
  then have hd: "HeaderSize \<le> length buf" by (auto simp: front_of_def Let_def split: if_splits)
  then have n: "get_be 4 (buf @ xs) 0 = get_be 4 buf 0" "get_be 8 (buf @ xs) 5 = get_be 8 buf 5" "(buf @ xs) ! 4 = buf ! 4"
    by (simp_all add: get_be_extend HeaderSize_def nth_append)
  show ?thesis using a hd unfolding front_of_def Let_def n by (auto split: if_splits)
qed

lemma front_incomplete: "front_of buf = Incomplete \<Longrightarrow> length buf < HeaderSize + MaxPayloadSize"
  by (auto simp: front_of_def Let_def HeaderSize_def MaxPayloadSize_def split: if_splits)

lemma front_of_bytes:
  assumes "length payload \<le> MaxPayloadSize"
  shows "front_of (frame_bytes c rid payload @ rest) = Complete (NewFrame c rid payload) rest"
proof -
  note g = frame_bytes_get(1,2,3,5) [where c = c and rid = rid and rest = rest, OF assms]
  note g4 = frame_bytes_get(4) [OF assms, of c rid]
  have d: "drop HeaderSize (frame_bytes c rid payload @ rest) = payload @ rest" using g(4) by (simp add: HeaderSize_def)
  show ?thesis using assms g4 unfolding front_of_def Let_def g d NewFrame_def by simp
qed

text \<open>What is left in the buffer while waiting is an incomplete frame.\<close>

lemma serve_frames_residual:
  "serve_frames h wr i buf s = (out, Waiting r, j, s') \<Longrightarrow> front_of r = Incomplete"
proof (induction "length buf" arbitrary: buf i s out rule: less_induct)
  case less
  show ?case
  proof (cases "front_of buf")
    case (Complete f rest)
    obtain res s1 where h: "h i f s = (res, s1)" by fastforce
    from less.prems obtain resp out' where "res = Inr resp" "serve_frames h wr (Suc i) rest s1 = (out', Waiting r, j, s')"
      unfolding serve_frames_front [of h wr i buf s] Complete front.case h
      by (cases res) (auto split: prod.splits if_splits)
    then show ?thesis using less.hyps [OF front_shorter [OF Complete]] by blast
  qed (use less.prems in \<open>auto simp: serve_frames_front [of h wr i buf s]\<close>)
qed

text \<open>Serving a longer buffer is serving its front, and what was left of it with the rest.\<close>

lemma serve_frames_append:
  "serve_frames h wr i (buf @ xs) s =
    (case serve_frames h wr i buf s of
       (out, Waiting r, j, s') \<Rightarrow>
         (let (out', st, j', s'') = serve_frames h wr j (r @ xs) s' in (out @ out', st, j', s''))
     | (out, st, j, s') \<Rightarrow> (out, st, j, s'))"
proof (induction "length buf" arbitrary: buf i s rule: less_induct)
  case less
  note sb = serve_frames_front [of h wr i buf s] and sx = serve_frames_front [of h wr i "buf @ xs" s]
  show ?case
  proof (cases "front_of buf")
    case Incomplete
    then show ?thesis by (simp add: sb split: prod.splits)
  next
    case (Complete f rest)
    then have fx: "front_of (buf @ xs) = Complete f (rest @ xs)" using front_append [of buf xs] by simp
    obtain res s1 where h: "h i f s = (res, s1)" by fastforce
    show ?thesis
    proof (cases res)
      case (Inl p)
      then show ?thesis unfolding sb sx Complete fx front.case h by simp
    next
      case (Inr resp)
      show ?thesis
        unfolding sb sx Complete fx front.case h Inr
        by (simp add: less.hyps [OF front_shorter [OF Complete]] split: prod.splits conn_status.splits)
    qed
  qed (use front_append [of buf xs] in \<open>simp_all add: sb sx\<close>)
qed

text \<open>How the bytes are cut into reads does not matter, and the limit on the buffer is never hit.\<close>

lemma handleConn_chunks:
  assumes "\<forall>c \<in> set cs. length c \<le> readChunkSize" "front_of buf = Incomplete"
  shows "handleConn h wr i buf (map Data cs) s = serve_frames h wr i (buf @ concat cs) s"
  using assms
proof (induction cs arbitrary: i buf s)
  case Nil
  then show ?case by (simp add: serve_frames_front [of h wr i buf s])
next
  case (Cons c cs)
  have l: "\<not> MaxConnectionBuffSize < length buf + length c"
    using Cons.prems(1) front_incomplete [OF Cons.prems(2)]
    by (simp add: MaxConnectionBuffSize_def readChunkSize_def HeaderSize_def MaxPayloadSize_def)
  obtain out st j s' where r: "serve_frames h wr i (buf @ c) s = (out, st, j, s')" by (metis surj_pair)
  note ap = serve_frames_append [of h wr i "buf @ c" "concat cs" s, unfolded r]
  show ?case
  proof (cases st)
    case (Waiting w)
    have "front_of w = Incomplete" by (rule serve_frames_residual [OF r [unfolded Waiting]])
    then have "handleConn h wr j w (map Data cs) s' = serve_frames h wr j (w @ concat cs) s'"
      using Cons.prems(1) by (intro Cons.IH) simp_all
    then show ?thesis using l r Waiting ap by (simp split: prod.splits)
  qed (use l r ap in simp_all)
qed

text \<open>Frames in sequence are answered in sequence.\<close>

fun serve_all :: "(nat \<Rightarrow> frame \<Rightarrow> 's \<Rightarrow> 's handled) \<Rightarrow> nat \<Rightarrow> frame list \<Rightarrow> 's \<Rightarrow> (frame list \<times> 's) option" where
  "serve_all h i [] s = Some ([], s)"
| "serve_all h i (f # fs) s =
     (case h i f s of
        (Inl p, s') \<Rightarrow> None
      | (Inr resp, s') \<Rightarrow> map_option (\<lambda>(rs, s''). (resp # rs, s'')) (serve_all h (Suc i) fs s'))"

lemma serve_frames_pipeline:
  assumes "serve_all h i (map (\<lambda>(c, rid, p). NewFrame c rid p) reqs) s = Some (rs, s')"
    "\<forall>(c, rid, p) \<in> set reqs. length p \<le> MaxPayloadSize"
  shows "serve_frames h (\<lambda>_. True) i (concat (map (\<lambda>(c, rid, p). frame_bytes c rid p) reqs)) s =
    (map answer rs, Waiting [], i + length reqs, s')"
  using assms
proof (induction reqs arbitrary: i s rs)
  case Nil
  then show ?case by (simp add: serve_frames_front [of h _ i "[]"] front_of_def HeaderSize_def)
next
  case (Cons x reqs)
  obtain c rid p where x: "x = (c, rid, p)" by (metis surj_pair)
  obtain res s1 where h: "h i (NewFrame c rid p) s = (res, s1)" by fastforce
  from Cons.prems(1) obtain resp rs' where r: "res = Inr resp" "rs = resp # rs'"
    "serve_all h (Suc i) (map (\<lambda>(c, rid, p). NewFrame c rid p) reqs) s1 = Some (rs', s')"
    by (cases res) (auto simp: x h)
  have p: "length p \<le> MaxPayloadSize" using Cons.prems(2) by (simp add: x)
  have "serve_frames h (\<lambda>_. True) (Suc i) (concat (map (\<lambda>(c, rid, p). frame_bytes c rid p) reqs)) s1 =
      (map answer rs', Waiting [], Suc i + length reqs, s')"
    by (rule Cons.IH [OF r(3)]) (use Cons.prems(2) in simp)
  then show ?case
    using h r by (simp add: x serve_frames_front [of h _ i "frame_bytes c rid p @ _"] front_of_bytes [OF p])
qed

text \<open>A header that announces fewer bytes than a header has ends the process.\<close>

lemma undersized_crashes:
  assumes "HeaderSize \<le> length buf" "get_be 4 buf 0 < HeaderSize"
  shows "serve_frames h wr i buf s = ([], Crashed SliceOutOfRange, i, s)"
  using assms by (simp add: serve_frames_front [of h wr i buf s] front_of_def Let_def)

section \<open>Properties\<close>

text \<open>A TCP request that does not carry a token valid for its bucket changes nothing: the answer is an
  error frame with the identifier of the request, unauthorised when the request could be read and bad
  request when it could not.\<close>

theorem tcp_unauthorized_no_effect:
  assumes "\<And>t b. frame_credentials f = Some (t, b) \<Longrightarrow> \<not> ValidateToken env tm t b"
  shows "\<exists>status msg. HandleFrame env (Some tm) hash f bm = (Inr (NewErrorFrame (fr_RequestID f) status msg), bm) \<and>
    status = (if frame_credentials f = None then StatusBadRequest else StatusUnauthorized)"
  using HandleFrame_unauthorized [OF refl assms] by fastforce

theorem tcp_unauthorized_no_effect_witness:
  "\<exists>data msg. EncodeGetPayload [1] [46] [4] = Inr data \<and>
    HandleFrame sample_env (Some \<lparr>tm_secretKey = []\<rparr>) (\<lambda>_. 0) (NewFrame CmdGet 3 data) sample_manager =
      (Inr (NewErrorFrame 3 StatusUnauthorized msg), sample_manager)"
proof -
  obtain data where e: "EncodeGetPayload [1] [46] [4] = Inr data" using EncodeGetPayload_eq by blast
  have "DecodeGetPayload data = Inr ([1], [46], [4])"
    using DecodeGet_Encode [OF e, of "[]"] by (simp add: get_fits_def)
  then have "frame_credentials (NewFrame CmdGet 3 data) = Some ([1], [46])"
    by (simp add: frame_credentials_def NewFrame_def)
  moreover have "\<not> ValidateToken sample_env \<lparr>tm_secretKey = []\<rparr> [1] [46]" by (simp add: ValidateToken_iff)
  ultimately show ?thesis
    using tcp_unauthorized_no_effect [of "NewFrame CmdGet 3 data" sample_env "\<lparr>tm_secretKey = []\<rparr>" "\<lambda>_. 0" sample_manager] e
    by (auto simp: NewFrame_def)
qed

text \<open>A set request over TCP, encoded by the client codec and carrying a valid token for an existing
  bucket, is answered with status created and stores the entry in that bucket only; the handler may
  only fail by a panic of the store, with the entry already stored.\<close>

theorem tcp_set_stores:
  assumes "bm_reachable hash auth bm" "kv_view hash bm b = Some M" "ValidateToken env tm t b" "0 \<le> ttl"
    and "set_fits t b k ttl v" "EncodeSetPayload t b k ttl sr v = Inr data"
    and "HandleFrame env (Some tm) hash (NewFrame CmdSet rid data) bm = (res, bm')"
  shows "kv_view hash bm' = (kv_view hash bm)(b \<mapsto> M(k \<mapsto> stamped env (new_entry env k v ttl sr))) \<and>
    (res = Inr (NewResponseFrame rid StatusCreated []) \<or> (\<exists>p. res = Inl p))"
proof -
  let ?f = "NewFrame CmdSet rid data"
  have f: "fr_Payload ?f = data" "fr_Command ?f = CmdSet" "fr_RequestID ?f = rid" by (simp_all add: NewFrame_def)
  have d: "DecodeSetPayload (fr_Payload ?f) = Inr (t, b, k, ttl, sr, v)"
    using DecodeSet_Encode [OF assms(6,5), of "[]"] by (simp add: f)
  from handleSet_view(1,3) [OF bm_reachable_ok [OF assms(1)] d f(2) assms(3,2,4,7)] show ?thesis by (simp add: f)
qed

text \<open>The length of a base64 text and of a digest, for the size of the sample requests.\<close>

lemma length_b64_encode: "length (b64_encode bs) \<le> 2 * length bs + 2"
  by (induction bs rule: b64_encode.induct) (simp_all add: Let_def)

lemma length_map_concat4: "length (concat (map (\<lambda>w. be_bytes 4 (unat w)) ws)) = 4 * length ws"
  by (induction ws) simp_all

lemma length_sha256_round: "length (sha256_round hs kw) = length hs"
  by (cases "(hs, kw)" rule: sha256_round.cases) (simp_all add: Let_def)

lemma length_sha256_blocks: "length (sha256_blocks hs m) = length hs"
proof (induction hs m rule: sha256_blocks.induct)
  case (1 hs m)
  have f: "length (foldl sha256_round a xs) = length a" for a xs
    by (induction xs arbitrary: a) (simp_all add: length_sha256_round)
  show ?case using 1 by (simp add: sha256_blocks.simps [of hs m] sha256_compress_def f)
qed

lemma length_sha256 [simp]: "length (sha256 m) = 32"
  by (simp add: sha256_def length_map_concat4 length_sha256_blocks sha256_H0_def)

lemma length_sample_token: "length sample_token < 65536" "length sample_token \<le> 100"
proof -
  have l: "length sample_token \<le> 2 * 49 + 2"
    unfolding sample_token_def GenerateToken_def Let_def
    by (rule order_trans [OF length_b64_encode]) (simp add: TokenManager_sign_def hmac_sha256_def Let_def str_def)
  then show "length sample_token < 65536" "length sample_token \<le> 100" by simp_all
qed

theorem tcp_set_stores_witness:
  "\<exists>data. EncodeSetPayload sample_token (str ''default'') (str ''k'') 0 False [1] = Inr data \<and>
    kv_view (\<lambda>_. 0) (snd (HandleFrame sample_env (Some \<lparr>tm_secretKey = str ''secret''\<rparr>) (\<lambda>_. 0) (NewFrame CmdSet 9 data) sample_manager))
      (str ''default'') = Some [str ''k'' \<mapsto> stamped sample_env (new_entry sample_env (str ''k'') [1] 0 False)]"
proof -
  have fits: "set_fits sample_token (str ''default'') (str ''k'') 0 [1]"
    using length_sample_token by (simp add: set_fits_def str_def)
  obtain data where e: "EncodeSetPayload sample_token (str ''default'') (str ''k'') 0 False [1] = Inr data"
    using EncodeSetPayload_eq by blast
  from tcp_set_stores [OF sample_manager_reachable sample_manager_view sample_token_valid _ fits e prod.collapse [symmetric]]
  show ?thesis using e by simp
qed

text \<open>A get request over TCP with a valid token answers from the entry: not found when there is none
  to deliver, otherwise the encoded key, times, flag and value, which the client codec's format
  determines byte by byte.\<close>

theorem tcp_get_answers:
  assumes "bm_reachable hash auth bm" "kv_view hash bm b = Some M" "ValidateToken env tm t b" "get_fits t b k"
    and "EncodeGetPayload t b k = Inr data"
  shows "fst (HandleFrame env (Some tm) hash (NewFrame CmdGet rid data) bm) =
    Inr (case Option.bind (M k) (read_entry env) of
           None \<Rightarrow> NewErrorFrame rid StatusNotFound (str ''Key not found'')
         | Some e \<Rightarrow> NewResponseFrame rid StatusOK
             (str_field (se_Key e) @ int_field (se_TTL e) @ int_field (time_Unix (se_CreatedAt e)) @
              int_field (time_Unix (se_ExpiresAt e)) @ flag_field (se_SingleRead e) @ value_field (se_Value e)))"
proof -
  let ?f = "NewFrame CmdGet rid data"
  have f: "fr_Payload ?f = data" "fr_Command ?f = CmdGet" "fr_RequestID ?f = rid" by (simp_all add: NewFrame_def)
  have d: "DecodeGetPayload (fr_Payload ?f) = Inr (t, b, k)" using DecodeGet_Encode [OF assms(5,4), of "[]"] by (simp add: f)
  from handleGet_view [OF bm_reachable_ok [OF assms(1)] d f(2) assms(3,2)] obtain bm'
    where "HandleFrame env (Some tm) hash ?f bm = (Inr (case Option.bind (M k) (read_entry env) of
              None \<Rightarrow> NewErrorFrame (fr_RequestID ?f) StatusNotFound (str ''Key not found'')
            | Some e \<Rightarrow> NewResponseFrame (fr_RequestID ?f) StatusOK (value_response e)), bm')" by blast
  then show ?thesis by (simp add: f value_response_def cong: option.case_cong)
qed

theorem tcp_get_answers_witness:
  "\<exists>data. EncodeGetPayload sample_token (str ''default'') (str ''k'') = Inr data \<and>
    fst (HandleFrame sample_env (Some \<lparr>tm_secretKey = str ''secret''\<rparr>) (\<lambda>_. 0) (NewFrame CmdGet 9 data) sample_manager) =
      Inr (NewErrorFrame 9 StatusNotFound (str ''Key not found''))"
proof -
  have fits: "get_fits sample_token (str ''default'') (str ''k'')"
    using length_sample_token by (simp add: get_fits_def str_def)
  obtain data where e: "EncodeGetPayload sample_token (str ''default'') (str ''k'') = Inr data"
    using EncodeGetPayload_eq by blast
  from tcp_get_answers [OF sample_manager_reachable sample_manager_view sample_token_valid fits e] e show ?thesis by simp
qed

text \<open>C4: the framing of a connection does not depend on how the bytes arrive: whatever the reads, of up
  to 64 KiB each, the answers, the state and what is left in the buffer are those of the whole
  stream, and the limit on the buffer is never reached.\<close>

theorem framing_independent_of_reads:
  assumes "\<forall>c \<in> set cs. length c \<le> readChunkSize"
  shows "handleConn h wr 0 [] (map Data cs) s = serve_frames h wr 0 (concat cs) s"
  using handleConn_chunks [OF assms, of "[]"] by (simp add: front_of_def HeaderSize_def)

theorem framing_independent_of_reads_witness:
  "handleConn (\<lambda>i f s. (Inr f, s)) (\<lambda>_. True) 0 [] (map Data [[0, 0], [0, 14, 1], [0, 0, 0, 0, 0, 0, 0, 5], [42, 0]]) () =
    serve_frames (\<lambda>i f s. (Inr f, s)) (\<lambda>_. True) 0 [0, 0, 0, 14, 1, 0, 0, 0, 0, 0, 0, 0, 5, 42, 0] ()"
  using framing_independent_of_reads [of "[[0, 0], [0, 14, 1], [0, 0, 0, 0, 0, 0, 0, 5], [42, 0]]" "\<lambda>i f s. (Inr f, s)" "\<lambda>_. True" "()"]
  by (simp add: readChunkSize_def)

text \<open>Pipelined requests are all answered, in their order, one response each, and the buffer is
  empty afterwards, as long as the handler does not panic and the writes succeed.\<close>

theorem pipelined_in_order:
  assumes "serve_all h 0 (map (\<lambda>(c, rid, p). NewFrame c rid p) reqs) s = Some (rs, s')"
    and "\<forall>(c, rid, p) \<in> set reqs. length p \<le> MaxPayloadSize"
  shows "\<exists>out. serve_frames h (\<lambda>_. True) 0 (concat (map (\<lambda>(c, rid, p). frame_bytes c rid p) reqs)) s =
      (out, Waiting [], length reqs, s') \<and> map Inr out = map Frame_Encode rs \<and> length out = length reqs"
proof -
  have l: "length rs = length reqs"
    using assms(1)
  proof -
    have "serve_all h i fs s = Some (rs, s') \<Longrightarrow> length rs = length fs" for i fs s rs
      by (induction fs arbitrary: i s rs) (auto split: prod.splits sum.splits)
    from this [OF assms(1)] show ?thesis by simp
  qed
  have "map Inr (map answer rs) = map Frame_Encode rs" by (simp add: Frame_Encode_eq answer_def)
  then show ?thesis using serve_frames_pipeline [OF assms] l by auto
qed

theorem pipelined_in_order_witness:
  "\<exists>out. serve_frames (\<lambda>i f s. (Inr (NewFrame CmdResponse (fr_RequestID f) []), s + 1)) (\<lambda>_. True) 0
      (concat (map (\<lambda>(c, rid, p). frame_bytes c rid p) [(CmdGet, 1, [5]), (CmdGet, 2, [])])) (0 :: nat) = (out, Waiting [], 2, 2) \<and> length out = 2"
  using pipelined_in_order [of "\<lambda>i f s. (Inr (NewFrame CmdResponse (fr_RequestID f) []), s + 1)" "[(CmdGet, 1, [5]), (CmdGet, 2, [])]" "0 :: nat"]
  by (auto simp: MaxPayloadSize_def numeral_2_eq_2)

text \<open>C38: a header announcing fewer bytes than a header has ends the process, with no token needed: the
  payload slice has its bounds crossed, in the connection goroutine, which nothing recovers.\<close>

theorem undersized_frame_crashes:
  assumes "n < HeaderSize" "length tail = 9" "length (be_bytes 4 n @ tail @ rest) \<le> readChunkSize"
  shows "handleConn h wr 0 [] [Data (be_bytes 4 n @ tail @ rest)] s = ([], Crashed SliceOutOfRange, 0, s)"
proof -
  have l: "HeaderSize \<le> length (be_bytes 4 n @ tail @ rest)" using assms(2) by (simp add: HeaderSize_def)
  have "n < 256 ^ 4" using assms(1) by (simp add: HeaderSize_def)
  from get_be_field [OF _ this, of 0 "[]" "tail @ rest"] have "get_be 4 (be_bytes 4 n @ tail @ rest) 0 = n" by simp
  then have "serve_frames h wr 0 (be_bytes 4 n @ tail @ rest) s = ([], Crashed SliceOutOfRange, 0, s)"
    using undersized_crashes [OF l] assms(1) by simp
  then show ?thesis using assms(3) by (simp add: MaxConnectionBuffSize_def readChunkSize_def)
qed

theorem undersized_frame_crashes_witness:
  "handleConn (\<lambda>i f s. (Inr f, s)) (\<lambda>_. True) 0 [] [Data (be_bytes 4 0 @ replicate 9 0 @ [])] () = ([], Crashed SliceOutOfRange, 0, ())"
  by (rule undersized_frame_crashes) (simp_all add: HeaderSize_def readChunkSize_def)

end
