(* ===== verification/Tcp_Buffers.thy ===== *)
theory Tcp_Buffers
  imports Tcp_Server
begin

text \<open>
  The memory under the connection loop of \<open>internal/transport/tcp/server.go\<close>: the buffer of a connection
  is a slice of a backing array, taken from a pool, grown by \<open>append\<close>, cut at the front as frames are
  handled, and given back. The strings of a decoded request are views of that array
  (\<open>internal/util/bytes.go\<close>), and the store keeps the key. The theory shows when such a key stays what it
  was, and when it does not.
\<close>

section \<open>Slices and backing arrays\<close>

type_synonym arrays = "byte list list"

record slice =
  sl_arr :: nat
  sl_off :: nat
  sl_len :: nat
  sl_cap :: nat

text \<open>The bytes of a slice; \<open>util.BytesToString\<close> makes a string of the same view, which is read at the
  time it is used.\<close>

definition slice_bytes :: "arrays \<Rightarrow> slice \<Rightarrow> byte list" where
  "slice_bytes mem s = take (sl_len s) (drop (sl_off s) (mem ! sl_arr s))"

definition BytesToString :: "slice \<Rightarrow> slice" where
  "BytesToString s = s"

text \<open>\<open>append\<close> writes in place while the capacity lasts, and else copies to a new array whose capacity the
  runtime chooses (\<open>grow\<close>), at least what is needed.\<close>

definition go_append :: "(nat \<Rightarrow> nat \<Rightarrow> nat) \<Rightarrow> arrays \<Rightarrow> slice \<Rightarrow> byte list \<Rightarrow> arrays \<times> slice" where
  "go_append grow mem s data =
     (let n = sl_len s + length data
      in if n \<le> sl_cap s
         then (mem[sl_arr s := go_copy (mem ! sl_arr s) (sl_off s + sl_len s) data], s\<lparr>sl_len := n\<rparr>)
         else let c = max n (grow (sl_cap s) n)
              in (mem @ [slice_bytes mem s @ data @ replicate (c - n) 0],
                  \<lparr>sl_arr = length mem, sl_off = 0, sl_len = n, sl_cap = c\<rparr>))"

text \<open>\<open>util.StringToBytes\<close>: the same view as a slice, with no capacity beyond the string. Whatever is appended to it is
  written to a new array, so the string keeps its bytes.\<close>

definition StringToBytes :: "slice \<Rightarrow> slice" where
  "StringToBytes s = s\<lparr>sl_cap := sl_len s\<rparr>"

lemma StringToBytes_append:
  assumes "data \<noteq> []" "sl_arr s < length mem" "sl_off s + sl_len s \<le> length (mem ! sl_arr s)"
    and "go_append grow mem (StringToBytes s) data = (mem', t)"
  shows "slice_bytes mem' (BytesToString t) = slice_bytes mem s @ data" "slice_bytes mem' s = slice_bytes mem s"
  using assms by (auto simp: go_append_def StringToBytes_def BytesToString_def slice_bytes_def Let_def nth_append)

text \<open>\<open>buf[n:]\<close> and \<open>buf[:0]\<close>\<close>

definition slice_from :: "nat \<Rightarrow> slice \<Rightarrow> slice" where
  "slice_from n s = s\<lparr>sl_off := sl_off s + n, sl_len := sl_len s - n, sl_cap := sl_cap s - n\<rparr>"

definition slice_empty :: "slice \<Rightarrow> slice" where
  "slice_empty s = s\<lparr>sl_len := 0\<rparr>"

section \<open>Connections and the pool\<close>

definition readerBufSize :: nat where "readerBufSize = 32 * 2 ^ 10"

text \<open>\<open>tm_kept\<close> records every key that a handler was given, as a view, with the bytes it had then.\<close>

record tcp_memory =
  tm_arrays :: arrays
  tm_pool :: "slice list"
  tm_conns :: "nat \<rightharpoonup> slice"
  tm_kept :: "(slice \<times> byte list) list"

definition initial_memory :: tcp_memory where
  "initial_memory = \<lparr>tm_arrays = [], tm_pool = [], tm_conns = Map.empty, tm_kept = []\<rparr>"

text \<open>\<open>bufPool.Get\<close>: some buffer of the pool, or a new one.\<close>

definition pool_Get :: "nat option \<Rightarrow> tcp_memory \<Rightarrow> slice \<times> tcp_memory" where
  "pool_Get choice m =
     (case choice of
        Some i \<Rightarrow> (tm_pool m ! i, m\<lparr>tm_pool := take i (tm_pool m) @ drop (Suc i) (tm_pool m)\<rparr>)
      | None \<Rightarrow> (\<lparr>sl_arr = length (tm_arrays m), sl_off = 0, sl_len = 0, sl_cap = readerBufSize\<rparr>,
                 m\<lparr>tm_arrays := tm_arrays m @ [replicate readerBufSize 0]\<rparr>))"

definition conn_open :: "nat \<Rightarrow> nat option \<Rightarrow> tcp_memory \<Rightarrow> tcp_memory" where
  "conn_open c choice m = (let (s, m') = pool_Get choice m in m'\<lparr>tm_conns := (tm_conns m')(c \<mapsto> s)\<rparr>)"

text \<open>The deferred function: the buffer as it is then goes back to the pool.\<close>

definition conn_close :: "nat \<Rightarrow> slice \<Rightarrow> tcp_memory \<Rightarrow> tcp_memory" where
  "conn_close c buf m = m\<lparr>tm_conns := (tm_conns m)(c := None), tm_pool := slice_empty buf # tm_pool m\<rparr>"

definition conn_read :: "(nat \<Rightarrow> nat \<Rightarrow> nat) \<Rightarrow> nat \<Rightarrow> slice \<Rightarrow> byte list \<Rightarrow> tcp_memory \<Rightarrow> tcp_memory" where
  "conn_read grow c buf chunk m =
     (if MaxConnectionBuffSize < sl_len buf + length chunk then conn_close c buf m
      else let (mem, buf') = go_append grow (tm_arrays m) buf chunk
           in m\<lparr>tm_arrays := mem, tm_conns := (tm_conns m)(c \<mapsto> buf')\<rparr>)"

text \<open>Where the key lies in a payload: after the token and the bucket.\<close>

definition key_range :: "byte list \<Rightarrow> (nat \<times> nat) option" where
  "key_range payload =
     (case readString payload 0 of
        Inl e \<Rightarrow> None
      | Inr (token, n1) \<Rightarrow>
          (case readString payload n1 of
             Inl e \<Rightarrow> None
           | Inr (bucket, n2) \<Rightarrow>
               (case readString payload n2 of Inl e \<Rightarrow> None | Inr (key, n3) \<Rightarrow> Some (n2 + 2, length key))))"

definition key_view :: "slice \<Rightarrow> nat \<times> nat \<Rightarrow> slice" where
  "key_view buf r =
     BytesToString \<lparr>sl_arr = sl_arr buf, sl_off = sl_off buf + HeaderSize + fst r, sl_len = snd r, sl_cap = snd r\<rparr>"

text \<open>One complete frame at the front of the buffer: the handler gets its key, then the response is written
  and the frame is cut off, or the write fails and the loop returns.\<close>

definition conn_frame :: "nat \<Rightarrow> slice \<Rightarrow> bool \<Rightarrow> frame \<Rightarrow> tcp_memory \<Rightarrow> tcp_memory" where
  "conn_frame c buf wrote f m =
     (let kept = (case key_range (fr_Payload f) of
                    None \<Rightarrow> tm_kept m
                  | Some r \<Rightarrow> (key_view buf r, slice_bytes (tm_arrays m) (key_view buf r)) # tm_kept m);
          m' = m\<lparr>tm_kept := kept\<rparr>
      in if \<not> wrote then conn_close c buf m'
         else m'\<lparr>tm_conns := (tm_conns m)(c \<mapsto> slice_from (HeaderSize + length (fr_Payload f)) buf)\<rparr>)"

text \<open>Any number of connections, in any order. \<open>failing\<close> says whether writes may fail.\<close>

inductive tcp_run :: "(nat \<Rightarrow> nat \<Rightarrow> nat) \<Rightarrow> bool \<Rightarrow> tcp_memory \<Rightarrow> bool" for grow failing where
  run_start: "tcp_run grow failing initial_memory"
| run_open: "tcp_run grow failing m \<Longrightarrow> tm_conns m c = None \<Longrightarrow> (\<forall>i. choice = Some i \<longrightarrow> i < length (tm_pool m)) \<Longrightarrow>
    tcp_run grow failing (conn_open c choice m)"
| run_read: "tcp_run grow failing m \<Longrightarrow> tm_conns m c = Some buf \<Longrightarrow> tcp_run grow failing (conn_read grow c buf chunk m)"
| run_frame: "tcp_run grow failing m \<Longrightarrow> tm_conns m c = Some buf \<Longrightarrow>
    front_of (slice_bytes (tm_arrays m) buf) = Complete f rest \<Longrightarrow> wrote \<or> failing \<Longrightarrow>
    tcp_run grow failing (conn_frame c buf wrote f m)"
| run_close: "tcp_run grow failing m \<Longrightarrow> tm_conns m c = Some buf \<Longrightarrow> tcp_run grow failing (conn_close c buf m)"

section \<open>Slices that do not touch\<close>

definition apart :: "slice \<Rightarrow> slice \<Rightarrow> bool" where
  "apart s t \<longleftrightarrow> sl_arr s \<noteq> sl_arr t \<or> sl_off s + sl_cap s \<le> sl_off t \<or> sl_off t + sl_cap t \<le> sl_off s"

definition slice_ok :: "arrays \<Rightarrow> slice \<Rightarrow> bool" where
  "slice_ok mem s \<longleftrightarrow> sl_arr s < length mem \<and> sl_len s \<le> sl_cap s \<and> sl_off s + sl_cap s \<le> length (mem ! sl_arr s)"

lemma apart_sym: "apart s t \<longleftrightarrow> apart t s"
  by (auto simp: apart_def)

lemma apart_part:
  assumes "apart s t" "sl_arr s' = sl_arr s" "sl_off s \<le> sl_off s'" "sl_off s' + sl_cap s' \<le> sl_off s + sl_cap s"
  shows "apart s' t"
  using assms by (auto simp: apart_def)

lemma slice_part_simps:
  "sl_arr (slice_from n s) = sl_arr s" "sl_off (slice_from n s) = sl_off s + n"
  "sl_cap (slice_from n s) = sl_cap s - n" "sl_len (slice_from n s) = sl_len s - n"
  "sl_arr (slice_empty s) = sl_arr s" "sl_off (slice_empty s) = sl_off s"
  "sl_cap (slice_empty s) = sl_cap s" "sl_len (slice_empty s) = 0"
  by (simp_all add: slice_from_def slice_empty_def)

lemma length_slice_bytes: "slice_ok mem s \<Longrightarrow> length (slice_bytes mem s) = sl_len s"
  by (auto simp: slice_ok_def slice_bytes_def min_def)

lemma take_drop_cong:
  assumes "length xs = length ys" "\<And>i. k \<le> i \<Longrightarrow> i < k + n \<Longrightarrow> i < length ys \<Longrightarrow> xs ! i = ys ! i"
  shows "take n (drop k xs) = take n (drop k ys)"
  using assms by (intro nth_equalityI) auto

lemma nth_go_copy:
  assumes "off + length src \<le> length xs" "i < length xs"
  shows "go_copy xs off src ! i = (if off \<le> i \<and> i < off + length src then src ! (i - off) else xs ! i)"
proof -
  have "go_copy xs off src = take off xs @ src @ drop (off + length src) xs"
    using assms(1) by (simp add: go_copy_def Let_def)
  then show ?thesis using assms by (auto simp: nth_append min_def)
qed

text \<open>\<open>append\<close> appends, and leaves everything apart from its slice alone.\<close>

lemma go_append_bytes:
  assumes ok: "slice_ok mem s" and r: "go_append grow mem s data = (mem', s')"
  shows "slice_bytes mem' s' = slice_bytes mem s @ data" "slice_ok mem' s'"
proof -
  let ?n = "sl_len s + length data"
  show b: "slice_bytes mem' s' = slice_bytes mem s @ data"
  proof (cases "?n \<le> sl_cap s")
    case True
    have l: "sl_off s + sl_len s + length data \<le> length (mem ! sl_arr s)" "sl_arr s < length mem"
      using True ok by (auto simp: slice_ok_def)
    have "slice_bytes mem' s' = take ?n (drop (sl_off s) (take (sl_off s + sl_len s) (mem ! sl_arr s) @ data @
        drop (sl_off s + sl_len s + length data) (mem ! sl_arr s)))"
      using True r l by (auto simp: go_append_def Let_def slice_bytes_def go_copy_def)
    then show ?thesis using l(1) by (simp add: slice_bytes_def drop_take)
  next
    case False
    then show ?thesis using r length_slice_bytes [OF ok] by (auto simp: go_append_def Let_def slice_bytes_def nth_append)
  qed
  show "slice_ok mem' s'"
    using r ok length_slice_bytes [OF ok] by (auto simp: go_append_def Let_def slice_ok_def nth_append split: if_splits)
qed

lemma go_append_frame:
  assumes ok: "slice_ok mem s" "slice_ok mem t" and ap: "apart t s" and r: "go_append grow mem s data = (mem', s')"
  shows "slice_bytes mem' t = slice_bytes mem t" "slice_ok mem' t" "apart t s'"
proof -
  let ?n = "sl_len s + length data"
  have all: "slice_bytes mem' t = slice_bytes mem t \<and> slice_ok mem' t \<and> apart t s'"
  proof (cases "?n \<le> sl_cap s")
    case True
    let ?arr = "go_copy (mem ! sl_arr s) (sl_off s + sl_len s) data"
    have l: "sl_off s + sl_len s + length data \<le> length (mem ! sl_arr s)" "sl_arr s < length mem"
      using True ok(1) by (auto simp: slice_ok_def)
    have m: "mem' = mem[sl_arr s := ?arr]" "s' = s\<lparr>sl_len := ?n\<rparr>" using True r by (simp_all add: go_append_def Let_def)
    have "take (sl_len t) (drop (sl_off t) ?arr) = take (sl_len t) (drop (sl_off t) (mem ! sl_arr s))" if "sl_arr t = sl_arr s"
    proof (rule take_drop_cong)
      fix i assume "sl_off t \<le> i" "i < sl_off t + sl_len t" "i < length (mem ! sl_arr s)"
      then show "?arr ! i = (mem ! sl_arr s) ! i"
        using nth_go_copy [OF l(1)] ap that True ok(2) by (auto simp: apart_def slice_ok_def)
    qed simp
    then have "slice_bytes mem' t = slice_bytes mem t"
      using l(2) by (cases "sl_arr t = sl_arr s") (simp_all add: slice_bytes_def m(1))
    moreover have "slice_ok mem' t" using ok(2) l(2) by (cases "sl_arr t = sl_arr s") (simp_all add: slice_ok_def m(1))
    moreover have "apart t s'" using ap by (simp add: m(2) apart_def)
    ultimately show ?thesis by blast
  next
    case False
    then show ?thesis using r ok(2) by (auto simp: go_append_def Let_def slice_bytes_def slice_ok_def apart_def nth_append)
  qed
  then show "slice_bytes mem' t = slice_bytes mem t" "slice_ok mem' t" "apart t s'" by blast+
qed

section \<open>Kept keys\<close>

text \<open>Every buffer in use or in the pool lies apart from every other, and every kept key lies apart from all
  of them and has the bytes it was given with.\<close>

definition kept_ok :: "tcp_memory \<Rightarrow> slice \<Rightarrow> bool" where
  "kept_ok m s \<longleftrightarrow> slice_ok (tm_arrays m) s \<and> (\<forall>x \<in> set (tm_kept m). apart s (fst x))"

definition conns_ok :: "tcp_memory \<Rightarrow> bool" where
  "conns_ok m \<longleftrightarrow>
     (\<forall>c s. tm_conns m c = Some s \<longrightarrow> kept_ok m s \<and> (\<forall>t \<in> set (tm_pool m). apart s t)) \<and>
     (\<forall>c d s t. tm_conns m c = Some s \<longrightarrow> tm_conns m d = Some t \<longrightarrow> c \<noteq> d \<longrightarrow> apart s t)"

definition pool_ok :: "tcp_memory \<Rightarrow> bool" where
  "pool_ok m \<longleftrightarrow> (\<forall>s \<in> set (tm_pool m). kept_ok m s) \<and> sorted_wrt apart (tm_pool m)"

definition keys_ok :: "tcp_memory \<Rightarrow> bool" where
  "keys_ok m \<longleftrightarrow>
     (\<forall>x \<in> set (tm_kept m). slice_ok (tm_arrays m) (fst x) \<and> slice_bytes (tm_arrays m) (fst x) = snd x)"

definition mem_ok :: "tcp_memory \<Rightarrow> bool" where
  "mem_ok m \<longleftrightarrow> conns_ok m \<and> pool_ok m \<and> keys_ok m"

lemma conns_okD:
  assumes "conns_ok m" "tm_conns m c = Some s"
  shows conns_ok_kept: "kept_ok m s" and conns_ok_pool: "t \<in> set (tm_pool m) \<Longrightarrow> apart s t"
    and conns_ok_other: "tm_conns m d = Some t \<Longrightarrow> c \<noteq> d \<Longrightarrow> apart s t"
  using assms by (simp_all add: conns_ok_def)

lemma key_range_bound: "key_range p = Some (off, n) \<Longrightarrow> off + n \<le> length p"
  by (auto simp: key_range_def readString_def Let_def split: if_splits)

text \<open>A slice that shrinks stays apart from what its larger version was apart from.\<close>

lemma apart_shrink: "apart s t \<Longrightarrow> n \<le> sl_cap s \<Longrightarrow> apart (slice_from n s) t" "apart s t \<Longrightarrow> apart (slice_empty s) t"
  by (auto simp: apart_def slice_part_simps)

lemma slice_ok_shrink: "slice_ok mem s \<Longrightarrow> n \<le> sl_len s \<Longrightarrow> slice_ok mem (slice_from n s)"
  "slice_ok mem s \<Longrightarrow> slice_ok mem (slice_empty s)"
  by (auto simp: slice_ok_def slice_part_simps)

lemma mem_ok_close:
  assumes ok: "mem_ok m" and c: "tm_conns m c = Some buf"
  shows "mem_ok (conn_close c buf m)"
proof -
  have co: "conns_ok m" and po: "pool_ok m" and ke: "keys_ok m" using ok by (simp_all add: mem_ok_def)
  have k: "kept_ok m (slice_empty buf)"
    using conns_ok_kept [OF co c] by (simp add: kept_ok_def slice_ok_shrink apart_shrink)
  have p: "apart (slice_empty buf) t" if "t \<in> set (tm_pool m)" for t
    using conns_ok_pool [OF co c that] by (rule apart_shrink)
  have o: "apart s (slice_empty buf)" if "tm_conns m d = Some s" "d \<noteq> c" for d s
    using conns_ok_other [OF co c that(1)] that(2) by (simp add: apart_shrink apart_sym [of s])
  have kept: "kept_ok (conn_close c buf m) = kept_ok m" by (simp add: fun_eq_iff kept_ok_def conn_close_def)
  have "conns_ok (conn_close c buf m)"
    using co o unfolding conns_ok_def kept by (simp add: conn_close_def)
  moreover have "pool_ok (conn_close c buf m)" using po k p unfolding pool_ok_def kept by (simp add: conn_close_def)
  moreover have "keys_ok (conn_close c buf m)" using ke by (simp add: keys_ok_def conn_close_def)
  ultimately show ?thesis by (simp add: mem_ok_def)
qed

lemma sorted_wrt_apart_nth:
  assumes "sorted_wrt apart xs" "i < length xs"
  shows "t \<in> set (take i xs @ drop (Suc i) xs) \<Longrightarrow> apart (xs ! i) t" "sorted_wrt apart (take i xs @ drop (Suc i) xs)"
proof -
  have x: "sorted_wrt apart (take i xs @ xs ! i # drop (Suc i) xs)" using assms(1,2) by (simp add: id_take_nth_drop [symmetric])
  show "apart (xs ! i) t" if "t \<in> set (take i xs @ drop (Suc i) xs)"
    using that x by (auto simp: sorted_wrt_append apart_sym [of "xs ! i"])
  show "sorted_wrt apart (take i xs @ drop (Suc i) xs)" using x by (simp add: sorted_wrt_append)
qed

text \<open>A new array touches nothing.\<close>

lemma slice_new_array:
  assumes "slice_ok mem s"
  shows "slice_ok (mem @ [xs]) s" "slice_bytes (mem @ [xs]) s = slice_bytes mem s" "sl_arr s < length mem"
  using assms by (simp_all add: slice_ok_def slice_bytes_def nth_append)

text \<open>A connection gets a buffer, others keep theirs.\<close>

lemma conns_ok_upd:
  assumes co: "conns_ok m" and m': "tm_conns m' = (tm_conns m)(c \<mapsto> s)" and s: "kept_ok m' s" "\<forall>t \<in> set (tm_pool m'). apart s t"
    and d: "\<And>d t. d \<noteq> c \<Longrightarrow> tm_conns m d = Some t \<Longrightarrow> kept_ok m' t \<and> (\<forall>u \<in> set (tm_pool m'). apart t u) \<and> apart t s"
  shows "conns_ok m'"
proof -
  have "kept_ok m' t \<and> (\<forall>u \<in> set (tm_pool m'). apart t u)" if "tm_conns m' e = Some t" for e t
    using that s d [of e t] by (cases "e = c") (simp_all add: m')
  moreover have "apart t u" if "tm_conns m' e = Some t" "tm_conns m' f = Some u" "e \<noteq> f" for e f t u
  proof (cases "e = c")
    case True
    then show ?thesis using that d [of f u] by (simp add: m' apart_sym [of t])
  next
    case False
    then have e: "tm_conns m e = Some t" using that(1) by (simp add: m')
    show ?thesis
    proof (cases "f = c")
      case True
      then show ?thesis using that(2) d [OF False e] by (simp add: m')
    next
      case False
      then show ?thesis using that(2,3) conns_ok_other [OF co e, of f u] by (simp add: m')
    qed
  qed
  ultimately show ?thesis unfolding conns_ok_def by blast
qed

lemma mem_ok_open:
  assumes ok: "mem_ok m" and c: "tm_conns m c = None" and ch: "\<And>i. choice = Some i \<Longrightarrow> i < length (tm_pool m)"
  shows "mem_ok (conn_open c choice m)"
proof (cases choice)
  case (Some i)
  let ?rest = "take i (tm_pool m) @ drop (Suc i) (tm_pool m)" and ?m = "conn_open c choice m"
  have i: "i < length (tm_pool m)" using ch Some by blast
  have co: "conns_ok m" and po: "pool_ok m" and ke: "keys_ok m" using ok by (simp_all add: mem_ok_def)
  have m: "?m = m\<lparr>tm_pool := ?rest, tm_conns := (tm_conns m)(c \<mapsto> tm_pool m ! i)\<rparr>"
    by (simp add: Some conn_open_def pool_Get_def)
  have kept: "kept_ok ?m = kept_ok m" by (simp add: fun_eq_iff kept_ok_def m)
  have rest: "set ?rest \<subseteq> set (tm_pool m)" using set_take_subset set_drop_subset by fastforce
  have new: "kept_ok m (tm_pool m ! i)" "\<forall>t \<in> set ?rest. apart (tm_pool m ! i) t"
    using po i sorted_wrt_apart_nth [OF _ i] by (auto simp: pool_ok_def)
  have old: "apart s (tm_pool m ! i)" "apart (tm_pool m ! i) s" if "tm_conns m d = Some s" for d s
    using conns_ok_pool [OF co that nth_mem [OF i]] by (simp_all add: apart_sym [of "tm_pool m ! i"])
  have "conns_ok ?m"
  proof (rule conns_ok_upd [OF co])
    show "tm_conns ?m = (tm_conns m)(c \<mapsto> tm_pool m ! i)" by (simp add: m)
    show "kept_ok ?m (tm_pool m ! i)" using new(1) by (simp add: kept)
    show "\<forall>t \<in> set (tm_pool ?m). apart (tm_pool m ! i) t" using new(2) by (simp add: m)
    fix d t assume t: "tm_conns m d = Some t"
    have "tm_pool ?m = ?rest" by (simp add: m)
    then show "kept_ok ?m t \<and> (\<forall>u \<in> set (tm_pool ?m). apart t u) \<and> apart t (tm_pool m ! i)"
      using conns_ok_kept [OF co t] conns_ok_pool [OF co t] old [OF t] rest unfolding kept by (metis subsetD)
  qed
  moreover have "pool_ok ?m"
  proof -
    have "sorted_wrt apart ?rest"
      using po sorted_wrt_apart_nth(2) [OF _ i] by (simp add: pool_ok_def)
    moreover have "tm_pool ?m = ?rest" by (simp add: m)
    moreover have "\<forall>s \<in> set ?rest. kept_ok m s" using po rest unfolding pool_ok_def by blast
    ultimately show ?thesis unfolding pool_ok_def kept by simp
  qed
  moreover have "keys_ok ?m" using ke by (simp add: keys_ok_def m)
  ultimately show ?thesis by (simp add: mem_ok_def)
next
  case None
  let ?m = "conn_open c choice m" and ?s = "\<lparr>sl_arr = length (tm_arrays m), sl_off = 0, sl_len = 0, sl_cap = readerBufSize\<rparr>"
  have co: "conns_ok m" and po: "pool_ok m" and ke: "keys_ok m" using ok by (simp_all add: mem_ok_def)
  have m: "?m = m\<lparr>tm_arrays := tm_arrays m @ [replicate readerBufSize 0], tm_conns := (tm_conns m)(c \<mapsto> ?s)\<rparr>"
    by (simp add: None conn_open_def pool_Get_def)
  have old: "apart ?s s" "apart s ?s" if "slice_ok (tm_arrays m) s" for s
    using slice_new_array(3) [OF that] by (simp_all add: apart_def)
  have kept: "kept_ok ?m s" if "kept_ok m s" for s
    using that slice_new_array(1) by (simp add: kept_ok_def m)
  have new: "kept_ok ?m ?s" using ke old by (simp add: kept_ok_def keys_ok_def m slice_ok_def nth_append)
  have "conns_ok ?m"
  proof (rule conns_ok_upd [OF co])
    show "tm_conns ?m = (tm_conns m)(c \<mapsto> ?s)" by (simp add: m)
    show "kept_ok ?m ?s" by (rule new)
    show "\<forall>t \<in> set (tm_pool ?m). apart ?s t" using po old by (simp add: m pool_ok_def kept_ok_def)
    fix d t assume t: "tm_conns m d = Some t"
    then show "kept_ok ?m t \<and> (\<forall>u \<in> set (tm_pool ?m). apart t u) \<and> apart t ?s"
      using kept [OF conns_ok_kept [OF co t]] conns_ok_pool [OF co t] conns_ok_kept [OF co t] old by (simp add: m kept_ok_def)
  qed
  moreover have "pool_ok ?m" using po kept unfolding pool_ok_def by (simp add: m)
  moreover have "keys_ok ?m" using ke slice_new_array by (simp add: keys_ok_def m)
  ultimately show ?thesis by (simp add: mem_ok_def)
qed

text \<open>A read writes behind the bytes of its own buffer only, or into a new array.\<close>

lemma mem_ok_read:
  assumes ok: "mem_ok m" and c: "tm_conns m c = Some buf"
  shows "mem_ok (conn_read grow c buf chunk m)"
proof (cases "MaxConnectionBuffSize < sl_len buf + length chunk")
  case True
  then show ?thesis using mem_ok_close [OF ok c] by (simp add: conn_read_def)
next
  case False
  obtain mem buf' where r: "go_append grow (tm_arrays m) buf chunk = (mem, buf')" by fastforce
  let ?m = "conn_read grow c buf chunk m"
  have m: "?m = m\<lparr>tm_arrays := mem, tm_conns := (tm_conns m)(c \<mapsto> buf')\<rparr>" using False r by (simp add: conn_read_def)
  have co: "conns_ok m" and po: "pool_ok m" and ke: "keys_ok m" using ok by (simp_all add: mem_ok_def)
  have b: "slice_ok (tm_arrays m) buf" "\<forall>x \<in> set (tm_kept m). apart buf (fst x)"
    using conns_ok_kept [OF co c] by (simp_all add: kept_ok_def)
  note fr = go_append_frame [OF b(1) _ _ r]
  have kept: "kept_ok ?m t" if "kept_ok m t" "apart t buf" for t
    using that fr(2) [of t] by (simp add: kept_ok_def m)
  have apk: "apart (fst x) buf" "slice_ok (tm_arrays m) (fst x)" if "x \<in> set (tm_kept m)" for x
    using that b(2) ke by (simp_all add: keys_ok_def apart_sym [of _ buf])
  have new: "kept_ok ?m buf'"
    using go_append_bytes(2) [OF b(1) r] fr(3) [OF apk(2) apk(1)] by (simp add: kept_ok_def m apart_sym [of buf'])
  have pool: "kept_ok m t" "apart t buf" "apart buf' t" if t: "t \<in> set (tm_pool m)" for t
  proof -
    show k: "kept_ok m t" using po t by (simp add: pool_ok_def)
    show a: "apart t buf" using conns_ok_pool [OF co c t] by (simp add: apart_sym)
    show "apart buf' t" using fr(3) [of t] k a by (simp add: kept_ok_def apart_sym [of buf'])
  qed
  have "conns_ok ?m"
  proof (rule conns_ok_upd [OF co])
    show "tm_conns ?m = (tm_conns m)(c \<mapsto> buf')" by (simp add: m)
    show "kept_ok ?m buf'" by (rule new)
    show "\<forall>t \<in> set (tm_pool ?m). apart buf' t" using pool(3) by (simp add: m)
    fix d t assume t: "d \<noteq> c" "tm_conns m d = Some t"
    have a: "apart t buf" using conns_ok_other [OF co t(2) c t(1)] .
    have k: "kept_ok m t" by (rule conns_ok_kept [OF co t(2)])
    have "tm_pool ?m = tm_pool m" by (simp add: m)
    then show "kept_ok ?m t \<and> (\<forall>u \<in> set (tm_pool ?m). apart t u) \<and> apart t buf'"
      using kept [OF k a] conns_ok_pool [OF co t(2)] fr(3) [OF _ a] k by (simp add: kept_ok_def)
  qed
  moreover have "pool_ok ?m"
  proof -
    have "tm_pool ?m = tm_pool m" by (simp add: m)
    then show ?thesis using po kept pool unfolding pool_ok_def by simp
  qed
  moreover have "keys_ok ?m"
  proof -
    have "slice_ok mem (fst x) \<and> slice_bytes mem (fst x) = snd x" if "x \<in> set (tm_kept m)" for x
      using fr(1,2) [OF apk(2,1) [OF that]] ke that apk(2,1) [OF that] by (simp add: keys_ok_def)
    then show ?thesis by (simp add: keys_ok_def m)
  qed
  ultimately show ?thesis by (simp add: mem_ok_def)
qed

text \<open>A handled frame, once it is cut off, is outside every buffer.\<close>

lemma front_complete_length:
  "front_of bs = Complete f rest \<Longrightarrow> HeaderSize + length (fr_Payload f) \<le> length bs"
  by (auto simp: front_of_def Let_def HeaderSize_def split: if_splits)

lemma front_complete_bytes:
  "front_of bs = Complete f rest \<Longrightarrow> fr_Payload f = take (length (fr_Payload f)) (drop HeaderSize bs) \<and>
     rest = drop (HeaderSize + length (fr_Payload f)) bs"
  by (auto simp: front_of_def Let_def HeaderSize_def min_def split: if_splits)

lemma mem_ok_frame:
  assumes ok: "mem_ok m" and c: "tm_conns m c = Some buf" and f: "front_of (slice_bytes (tm_arrays m) buf) = Complete f rest"
  shows "mem_ok (conn_frame c buf True f m)"
proof -
  let ?n = "HeaderSize + length (fr_Payload f)" and ?m = "conn_frame c buf True f m"
  let ?buf = "slice_from ?n buf"
  have co: "conns_ok m" and po: "pool_ok m" and ke: "keys_ok m" using ok by (simp_all add: mem_ok_def)
  have b: "slice_ok (tm_arrays m) buf" "\<forall>x \<in> set (tm_kept m). apart buf (fst x)"
    using conns_ok_kept [OF co c] by (simp_all add: kept_ok_def)
  have n: "?n \<le> sl_len buf" "?n \<le> sl_cap buf"
    using front_complete_length [OF f] b(1) by (simp_all add: length_slice_bytes slice_ok_def)
  define new where "new = (case key_range (fr_Payload f) of None \<Rightarrow> []
    | Some r \<Rightarrow> [(key_view buf r, slice_bytes (tm_arrays m) (key_view buf r))])"
  have m: "?m = m\<lparr>tm_kept := new @ tm_kept m, tm_conns := (tm_conns m)(c \<mapsto> ?buf)\<rparr>"
    by (simp add: conn_frame_def new_def Let_def split: option.splits)
  have view: "slice_ok (tm_arrays m) (fst x) \<and> slice_bytes (tm_arrays m) (fst x) = snd x \<and>
      apart ?buf (fst x) \<and> (\<forall>t. apart buf t \<longrightarrow> apart t (fst x))" if x: "x \<in> set new" for x
  proof -
    obtain off k where k: "key_range (fr_Payload f) = Some (off, k)"
        "x = (key_view buf (off, k), slice_bytes (tm_arrays m) (key_view buf (off, k)))"
    proof -
      obtain r where "key_range (fr_Payload f) = Some r" "x = (key_view buf r, slice_bytes (tm_arrays m) (key_view buf r))"
        using x by (cases "key_range (fr_Payload f)") (simp_all add: new_def)
      then show thesis using that [of "fst r" "snd r"] by simp
    qed
    have "off + k \<le> length (fr_Payload f)" by (rule key_range_bound [OF k(1)])
    then show ?thesis using b(1) n by (auto simp: k(2) key_view_def BytesToString_def slice_ok_def apart_def slice_part_simps)
  qed
  have kept: "kept_ok ?m t" if "kept_ok m t" "apart buf t" for t
    using that view by (auto simp: kept_ok_def m)
  have pool: "tm_pool ?m = tm_pool m" by (simp add: m)
  have "kept_ok ?m ?buf"
    using slice_ok_shrink(1) [OF b(1) n(1)] b(2) n(2) view by (auto simp: kept_ok_def m intro: apart_shrink(1))
  have "conns_ok ?m"
  proof (rule conns_ok_upd [OF co])
    show "tm_conns ?m = (tm_conns m)(c \<mapsto> ?buf)" by (simp add: m)
    show "kept_ok ?m ?buf" by fact
    show "\<forall>t \<in> set (tm_pool ?m). apart ?buf t"
      using conns_ok_pool [OF co c] n(2) unfolding pool by (simp add: apart_shrink(1))
    fix d t assume t: "d \<noteq> c" "tm_conns m d = Some t"
    have a: "apart buf t" using conns_ok_other [OF co c t(2)] t(1) by blast
    show "kept_ok ?m t \<and> (\<forall>u \<in> set (tm_pool ?m). apart t u) \<and> apart t ?buf"
      using kept [OF conns_ok_kept [OF co t(2)] a] conns_ok_pool [OF co t(2)] apart_shrink(1) [OF a n(2)]
      unfolding pool by (simp add: apart_sym [of t])
  qed
  moreover have "pool_ok ?m"
    using po kept conns_ok_pool [OF co c] unfolding pool_ok_def pool by blast
  moreover have "keys_ok ?m" using ke view by (auto simp: keys_ok_def m)
  ultimately show ?thesis by (simp add: mem_ok_def)
qed

lemma tcp_run_mem_ok: "tcp_run grow False m \<Longrightarrow> mem_ok m"
proof (induction rule: tcp_run.induct)
  case run_start
  show ?case by (simp add: initial_memory_def mem_ok_def conns_ok_def pool_ok_def keys_ok_def)
next
  case (run_open m c choice)
  show ?case by (rule mem_ok_open [OF run_open.IH run_open.hyps(2)]) (use run_open.hyps(3) in blast)
next
  case (run_read m c buf chunk)
  then show ?case by (intro mem_ok_read)
next
  case (run_frame m c buf f rest wrote)
  then show ?case using mem_ok_frame by simp
next
  case (run_close m c buf)
  then show ?case by (intro mem_ok_close)
qed

lemma slice_bytes_part:
  "slice_ok mem s \<Longrightarrow> k + n \<le> sl_len s \<Longrightarrow>
    take n (drop k (slice_bytes mem s)) = take n (drop (sl_off s + k) (mem ! sl_arr s))"
  by (simp add: slice_bytes_def drop_take min_def add.commute)

lemma front_complete_part:
  assumes "front_of bs = Complete f rest" "off + n \<le> length (fr_Payload f)"
  shows "take n (drop off (fr_Payload f)) = take n (drop (HeaderSize + off) bs)"
proof -
  have "take n (drop off (fr_Payload f)) = take n (drop off (take (length (fr_Payload f)) (drop HeaderSize bs)))"
    using front_complete_bytes [OF assms(1)] by simp
  then show ?thesis using assms(2) by (simp add: drop_take min_def add.commute)
qed

section \<open>A connection with one request\<close>

lemma one_request_run:
  assumes "length data \<le> readerBufSize"
  shows "\<exists>m buf. tcp_run grow False m \<and> tm_conns m = [0 \<mapsto> buf] \<and> tm_kept m = [] \<and> tm_pool m = [] \<and>
    slice_bytes (tm_arrays m) buf = data \<and> sl_cap buf = readerBufSize"
proof -
  let ?s = "\<lparr>sl_arr = 0, sl_off = 0, sl_len = 0, sl_cap = readerBufSize\<rparr>"
  define m1 where "m1 = conn_open 0 None initial_memory"
  define m2 where "m2 = conn_read grow 0 ?s data m1"
  have 1: "m1 = \<lparr>tm_arrays = [replicate readerBufSize 0], tm_pool = [], tm_conns = [0 \<mapsto> ?s], tm_kept = []\<rparr>"
    by (simp add: m1_def conn_open_def pool_Get_def initial_memory_def)
  have ok: "slice_ok (tm_arrays m1) ?s" by (simp add: 1 slice_ok_def)
  obtain mem buf where r: "go_append grow (tm_arrays m1) ?s data = (mem, buf)" by fastforce
  have b: "slice_bytes mem buf = data" using go_append_bytes(1) [OF ok r] by (simp add: slice_bytes_def)
  have cap: "sl_cap buf = readerBufSize" using r assms by (auto simp: go_append_def Let_def)
  have 2: "m2 = m1\<lparr>tm_arrays := mem, tm_conns := [0 \<mapsto> buf]\<rparr>"
    using assms r by (simp add: m2_def conn_read_def readerBufSize_def MaxConnectionBuffSize_def 1)
  have "tcp_run grow False m1"
    unfolding m1_def by (rule run_open [OF run_start]) (simp_all add: initial_memory_def)
  then have "tcp_run grow False m2" unfolding m2_def by (rule run_read) (simp add: 1)
  then show ?thesis using b cap by (intro exI [of _ m2] exI [of _ buf]) (simp add: 2 1)
qed

lemma key_range_fields:
  assumes "length t < 65536" "length b < 65536" "length k < 65536"
  shows "key_range (str_field t @ str_field b @ str_field k @ rest) = Some (length t + length b + 6, length k)"
proof -
  have 1: "readString (str_field t @ str_field b @ str_field k @ rest) 0 = Inr (t, 2 + length t)"
    using str_wire.reads [OF assms(1), of 0 "[]" "str_field b @ str_field k @ rest"] by simp
  have 2: "readString (str_field t @ str_field b @ str_field k @ rest) (2 + length t) = Inr (b, 2 + length t + (2 + length b))"
    using str_wire.reads [OF assms(2), of _ "str_field t" "str_field k @ rest"] by simp
  have 3: "readString (str_field t @ str_field b @ str_field k @ rest) (2 + length t + (2 + length b)) =
      Inr (k, 2 + length t + (2 + length b) + (2 + length k))"
    using str_wire.reads [OF assms(3), of _ "str_field t @ str_field b" rest] by simp
  show ?thesis unfolding key_range_def 1 sum.case prod.case 2 3 by simp
qed

definition sample_request :: "byte list" where
  "sample_request = str_field (str ''t'') @ str_field (str ''b'') @ str_field (str ''k'') @ replicate 13 0"

lemma sample_request_facts:
  "key_range sample_request = Some (8, 1)" "length sample_request = 22" "take 1 (drop 8 sample_request) = str ''k''"
  using key_range_fields [of "str ''t''" "str ''b''" "str ''k''" "replicate 13 0"]
  by (simp_all add: sample_request_def str_field_def be_bytes_def str_def)

lemma sample_frame:
  "front_of (frame_bytes CmdSet 1 sample_request) = Complete (NewFrame CmdSet 1 sample_request) []"
  "length (frame_bytes CmdSet 1 sample_request) = 35" "fr_Payload (NewFrame CmdSet 1 sample_request) = sample_request"
  using front_of_bytes [of sample_request CmdSet 1 "[]"]
  by (simp_all add: sample_request_facts MaxPayloadSize_def frame_bytes_def NewFrame_def)

section \<open>Properties\<close>

text \<open>C10: As long as every response is written, a key kept by the store keeps its bytes: over any
  connections, reads, frames, pool reuse and growth of the buffers, the memory a kept string points to
  still holds what the request said.\<close>

theorem tcp_keys_stable:
  assumes "tcp_run grow False m" "(v, bs) \<in> set (tm_kept m)"
  shows "slice_bytes (tm_arrays m) v = bs"
  using tcp_run_mem_ok [OF assms(1)] assms(2) by (force simp: mem_ok_def keys_ok_def)

theorem tcp_keys_stable_witness:
  "\<exists>m v. tcp_run (\<lambda>c n. n) False m \<and> (v, str ''k'') \<in> set (tm_kept m) \<and> slice_bytes (tm_arrays m) v = str ''k''"
proof -
  let ?f = "NewFrame CmdSet 1 sample_request" and ?g = "\<lambda>c n. n"
  obtain m buf where m: "tcp_run ?g False m" "tm_conns m = [0 \<mapsto> buf]"
      "slice_bytes (tm_arrays m) buf = frame_bytes CmdSet 1 sample_request" "tm_kept m = []"
    using one_request_run [of "frame_bytes CmdSet 1 sample_request" ?g] by (auto simp: sample_frame readerBufSize_def)
  let ?m = "conn_frame 0 buf True ?f m" and ?v = "key_view buf (8, 1)"
  have ok: "slice_ok (tm_arrays m) buf"
    using tcp_run_mem_ok [OF m(1)] m(2) by (simp add: mem_ok_def conns_ok_def kept_ok_def)
  have run: "tcp_run ?g False ?m"
    by (rule run_frame [OF m(1)]) (simp_all add: m sample_frame)
  have len: "sl_len buf = 35" using length_slice_bytes [OF ok] by (simp add: m(3) sample_frame)
  have "slice_bytes (tm_arrays m) ?v = take 1 (drop (HeaderSize + 8) (slice_bytes (tm_arrays m) buf))"
    using slice_bytes_part [OF ok, of "HeaderSize + 8" 1] len
    by (simp add: slice_bytes_def key_view_def BytesToString_def HeaderSize_def add.commute)
  also have "\<dots> = str ''k''"
    using front_complete_part [OF sample_frame(1), of 8 1] sample_request_facts(2,3)
    unfolding m(3) sample_frame(3) by simp
  finally have "(?v, str ''k'') \<in> set (tm_kept ?m)"
    by (simp add: conn_frame_def sample_frame(3) sample_request_facts(1))
  then show ?thesis using run tcp_keys_stable [OF run] by blast
qed

lemma tcp_run_failing: "tcp_run grow False m \<Longrightarrow> tcp_run grow True m"
  by (induction rule: tcp_run.induct) (auto intro: tcp_run.intros)

text \<open>The next connection gets the buffer back from its start.\<close>

lemma read_into_pooled:
  assumes "slice_ok mem buf" "length chunk \<le> sl_cap buf" "k + n \<le> length chunk"
  shows "take n (drop (sl_off buf + k) (go_copy (mem ! sl_arr buf) (sl_off buf) chunk)) = take n (drop k chunk)"
proof -
  have l: "sl_off buf + length chunk \<le> length (mem ! sl_arr buf)" using assms(1,2) by (simp add: slice_ok_def)
  then have "go_copy (mem ! sl_arr buf) (sl_off buf) chunk =
      take (sl_off buf) (mem ! sl_arr buf) @ chunk @ drop (sl_off buf + length chunk) (mem ! sl_arr buf)"
    by (simp add: go_copy_def Let_def)
  then show ?thesis using l assms(3) by simp
qed

text \<open>C23: A write that fails after a key was stored leaves the key in a buffer that goes back to the pool:
  the next connection that gets this buffer overwrites the stored key with the bytes it receives.\<close>

theorem failed_write_corrupts_key:
  assumes "tcp_run grow False m" "tm_conns m c = Some buf"
    and "front_of (slice_bytes (tm_arrays m) buf) = Complete f rest" "key_range (fr_Payload f) = Some (off, n)"
    and "tm_conns m d = None" "length chunk \<le> sl_cap buf" "length chunk \<le> MaxConnectionBuffSize"
    and "HeaderSize + off + n \<le> length chunk"
  shows "\<exists>m'. tcp_run grow True m' \<and>
    (key_view buf (off, n), take n (drop off (fr_Payload f))) \<in> set (tm_kept m') \<and>
    slice_bytes (tm_arrays m') (key_view buf (off, n)) = take n (drop (HeaderSize + off) chunk)"
proof -
  let ?v = "key_view buf (off, n)" and ?p = "slice_empty buf"
  have b: "slice_ok (tm_arrays m) buf"
    using tcp_run_mem_ok [OF assms(1)] assms(2) conns_ok_kept [of m c buf] by (simp add: mem_ok_def kept_ok_def)
  have on: "off + n \<le> length (fr_Payload f)" by (rule key_range_bound [OF assms(4)])
  have key: "slice_bytes (tm_arrays m) ?v = take n (drop off (fr_Payload f))"
  proof -
    have "HeaderSize + off + n \<le> sl_len buf" using front_complete_length [OF assms(3)] b on by (simp add: length_slice_bytes)
    then show ?thesis using front_complete_part [OF assms(3) on] slice_bytes_part [OF b]
      by (simp add: slice_bytes_def key_view_def BytesToString_def add.assoc)
  qed
  define m1 where "m1 = conn_frame c buf False f m"
  define m2 where "m2 = conn_open d (Some 0) m1"
  define m3 where "m3 = conn_read grow d ?p chunk m2"
  have 1: "m1 = m\<lparr>tm_kept := (?v, take n (drop off (fr_Payload f))) # tm_kept m,
      tm_conns := (tm_conns m)(c := None), tm_pool := ?p # tm_pool m\<rparr>"
    by (simp add: m1_def conn_frame_def assms(4) key conn_close_def Let_def)
  have 2: "m2 = m1\<lparr>tm_pool := tm_pool m, tm_conns := (tm_conns m1)(d \<mapsto> ?p)\<rparr>"
    by (simp add: m2_def conn_open_def pool_Get_def 1)
  have 3: "tm_arrays m3 = (tm_arrays m)[sl_arr buf := go_copy (tm_arrays m ! sl_arr buf) (sl_off buf) chunk]"
      "tm_kept m3 = tm_kept m1"
    using assms(6,7) by (simp_all add: m3_def conn_read_def go_append_def slice_part_simps 2 1)
  have "tcp_run grow True m1"
    unfolding m1_def by (rule run_frame [OF tcp_run_failing [OF assms(1)] assms(2,3)]) simp
  then have "tcp_run grow True m2"
    unfolding m2_def by (rule run_open) (use assms(5) in \<open>simp_all add: 1\<close>)
  then have run: "tcp_run grow True m3" unfolding m3_def by (rule run_read) (simp add: 2)
  have "sl_arr buf < length (tm_arrays m)" using b by (simp add: slice_ok_def)
  then have "slice_bytes (tm_arrays m3) ?v = take n (drop (HeaderSize + off) chunk)"
    using read_into_pooled [OF b assms(6,8)] by (simp add: 3 slice_bytes_def key_view_def BytesToString_def add.assoc)
  then show ?thesis using run by (intro exI [of _ m3]) (simp add: 3 1)
qed

theorem failed_write_corrupts_key_witness:
  "\<exists>m v. tcp_run (\<lambda>c n. n) True m \<and> (v, str ''k'') \<in> set (tm_kept m) \<and> slice_bytes (tm_arrays m) v = str ''x''"
proof -
  let ?f = "NewFrame CmdSet 1 sample_request" and ?g = "\<lambda>c n. n"
  obtain m buf where m: "tcp_run ?g False m" "tm_conns m = [0 \<mapsto> buf]"
      "slice_bytes (tm_arrays m) buf = frame_bytes CmdSet 1 sample_request" "sl_cap buf = readerBufSize"
    using one_request_run [of "frame_bytes CmdSet 1 sample_request" ?g] by (auto simp: sample_frame readerBufSize_def)
  have "\<exists>m'. tcp_run ?g True m' \<and>
      (key_view buf (8, 1), take 1 (drop 8 (fr_Payload ?f))) \<in> set (tm_kept m') \<and>
      slice_bytes (tm_arrays m') (key_view buf (8, 1)) = take 1 (drop (HeaderSize + 8) (replicate 35 (hd (str ''x''))))"
    by (rule failed_write_corrupts_key [where c = 0 and d = 1 and rest = "[]" and m = m])
       (simp_all add: m sample_frame sample_request_facts readerBufSize_def MaxConnectionBuffSize_def HeaderSize_def)
  moreover have "take 1 (drop (HeaderSize + 8) (replicate 35 (hd (str ''x'')))) = str ''x''"
    by (simp add: HeaderSize_def str_def)
  ultimately show ?thesis by (metis sample_frame(3) sample_request_facts(3))
qed

end
