(* ===== verification/Tcp_Lifecycle.thy ===== *)
theory Tcp_Lifecycle
  imports Bukt_Prelude
begin

text \<open>
  Start and stop of the TCP server (\<open>internal/transport/tcp/server.go\<close>, lines 19 to 106): the listener, the
  accept loop, the connection goroutines and the wait group, with \<open>Start\<close> and \<open>Stop\<close> cut into the pieces
  between which another goroutine may run. What a connection does is \<open>Tcp_Server\<close>; here it only ends some time.
\<close>

section \<open>The server\<close>

text \<open>Where a call of \<open>Start\<close> is: listening, the listener stored, returned, or returned with the error of
  \<open>net.Listen\<close>.\<close>

datatype start_pc = Listened nat | Published nat | Started | StartFailed

datatype stop_result = Stopped | CtxDone | AlreadyStopped

text \<open>Where a call of \<open>Stop\<close> is: about to close the listener it read, waiting, the wait group seen at zero,
  or returned.\<close>

datatype stop_pc = Closing "nat option" | Waiting_group | Drained | StopReturned stop_result

record std_server =
  ss_ln :: "nat option"
  ss_stop :: bool
  ss_wg :: int
  ss_listeners :: nat
  ss_open :: "nat list"
  ss_starts :: "start_pc list"
  ss_stops :: "stop_pc list"
  ss_loops :: "nat list"
  ss_conns :: nat

definition NewServer :: std_server where
  "NewServer = \<lparr>ss_ln = None, ss_stop = False, ss_wg = 0, ss_listeners = 0, ss_open = [], ss_starts = [],
     ss_stops = [], ss_loops = [], ss_conns = 0\<rparr>"

definition pc_at :: "'a list \<Rightarrow> nat \<Rightarrow> 'a option" where
  "pc_at pcs i = (if i < length pcs then Some (pcs ! i) else None)"

text \<open>\<open>Start\<close>: bind, store the listener under the mutex, start the accept loop.\<close>

definition Start_listen :: "bool \<Rightarrow> std_server \<Rightarrow> std_server option" where
  "Start_listen ok s = Some
     (if \<not> ok then s\<lparr>ss_starts := ss_starts s @ [StartFailed]\<rparr>
      else s\<lparr>ss_listeners := Suc (ss_listeners s), ss_open := ss_listeners s # ss_open s,
             ss_starts := ss_starts s @ [Listened (ss_listeners s)]\<rparr>)"

definition Start_publish :: "nat \<Rightarrow> std_server \<Rightarrow> std_server option" where
  "Start_publish i s =
     (case pc_at (ss_starts s) i of
        Some (Listened n) \<Rightarrow> Some (s\<lparr>ss_ln := Some n, ss_starts := (ss_starts s)[i := Published n]\<rparr>)
      | _ \<Rightarrow> None)"

definition Start_spawn :: "nat \<Rightarrow> std_server \<Rightarrow> std_server option" where
  "Start_spawn i s =
     (case pc_at (ss_starts s) i of
        Some (Published n) \<Rightarrow>
          Some (s\<lparr>ss_wg := ss_wg s + 1, ss_loops := ss_loops s @ [n], ss_starts := (ss_starts s)[i := Started]\<rparr>)
      | _ \<Rightarrow> None)"

text \<open>One turn of an accept loop: a connection, a timeout of the accept deadline, or an error, after which
  the loop ends whether or not the server is stopping. A closed listener gives only errors.\<close>

datatype accept_result = Accepted | AcceptTimeout | AcceptFailed

definition accept_turn :: "nat \<Rightarrow> accept_result \<Rightarrow> std_server \<Rightarrow> std_server option" where
  "accept_turn j res s =
     (case pc_at (ss_loops s) j of
        None \<Rightarrow> None
      | Some n \<Rightarrow>
          (case res of
             Accepted \<Rightarrow> if n \<in> set (ss_open s) then Some (s\<lparr>ss_wg := ss_wg s + 1, ss_conns := Suc (ss_conns s)\<rparr>) else None
           | AcceptTimeout \<Rightarrow> if n \<in> set (ss_open s) then Some s else None
           | AcceptFailed \<Rightarrow> Some (s\<lparr>ss_wg := ss_wg s - 1, ss_loops := take j (ss_loops s) @ drop (Suc j) (ss_loops s)\<rparr>)))"

definition conn_done :: "std_server \<Rightarrow> std_server option" where
  "conn_done s = (if ss_conns s = 0 then None else Some (s\<lparr>ss_wg := ss_wg s - 1, ss_conns := ss_conns s - 1\<rparr>))"

text \<open>\<open>Stop\<close>: the flag and the listener under the mutex, the close, the goroutine that waits, the \<open>select\<close>.\<close>

definition Stop_enter :: "std_server \<Rightarrow> std_server option" where
  "Stop_enter s = Some
     (if ss_stop s then s\<lparr>ss_stops := ss_stops s @ [StopReturned AlreadyStopped]\<rparr>
      else s\<lparr>ss_stop := True, ss_stops := ss_stops s @ [Closing (ss_ln s)]\<rparr>)"

definition Stop_close :: "nat \<Rightarrow> std_server \<Rightarrow> std_server option" where
  "Stop_close i s =
     (case pc_at (ss_stops s) i of
        Some (Closing ln) \<Rightarrow>
          Some (s\<lparr>ss_open := (case ln of None \<Rightarrow> ss_open s | Some n \<Rightarrow> removeAll n (ss_open s)),
                  ss_stops := (ss_stops s)[i := Waiting_group]\<rparr>)
      | _ \<Rightarrow> None)"

definition Stop_wait :: "nat \<Rightarrow> std_server \<Rightarrow> std_server option" where
  "Stop_wait i s =
     (if pc_at (ss_stops s) i = Some Waiting_group \<and> ss_wg s = 0 then Some (s\<lparr>ss_stops := (ss_stops s)[i := Drained]\<rparr>)
      else None)"

definition Stop_select :: "nat \<Rightarrow> bool \<Rightarrow> std_server \<Rightarrow> std_server option" where
  "Stop_select i expired s =
     (case pc_at (ss_stops s) i of
        Some Waiting_group \<Rightarrow> if expired then Some (s\<lparr>ss_stops := (ss_stops s)[i := StopReturned CtxDone]\<rparr>) else None
      | Some Drained \<Rightarrow> Some (s\<lparr>ss_stops := (ss_stops s)[i := StopReturned (if expired then CtxDone else Stopped)]\<rparr>)
      | _ \<Rightarrow> None)"

text \<open>A schedule of such pieces; \<open>None\<close> when a piece is not due.\<close>

datatype server_action =
    StartListen bool | StartPublish nat | StartSpawn nat | AcceptTurn nat accept_result | ConnDone
  | StopEnter | StopClose nat | StopWait nat | StopSelect nat bool

fun server_step :: "server_action \<Rightarrow> std_server \<Rightarrow> std_server option" where
  "server_step (StartListen ok) s = Start_listen ok s"
| "server_step (StartPublish i) s = Start_publish i s"
| "server_step (StartSpawn i) s = Start_spawn i s"
| "server_step (AcceptTurn j r) s = accept_turn j r s"
| "server_step ConnDone s = conn_done s"
| "server_step StopEnter s = Stop_enter s"
| "server_step (StopClose i) s = Stop_close i s"
| "server_step (StopWait i) s = Stop_wait i s"
| "server_step (StopSelect i e) s = Stop_select i e s"

fun server_run :: "server_action list \<Rightarrow> std_server \<Rightarrow> std_server option" where
  "server_run [] s = Some s"
| "server_run (a # as) s = Option.bind (server_step a s) (server_run as)"

lemmas server_defs = Start_listen_def Start_publish_def Start_spawn_def accept_turn_def conn_done_def
  Stop_enter_def Stop_close_def Stop_wait_def Stop_select_def pc_at_def

lemmas server_splits = if_splits option.splits start_pc.splits stop_pc.splits accept_result.splits

lemma pc_at_set: "pc_at pcs i = Some pc \<Longrightarrow> pc \<in> set pcs"
  by (auto simp: pc_at_def split: if_splits)

text \<open>An invariant of the pieces is an invariant of every schedule of them.\<close>

lemma server_run_invariant:
  assumes "server_run as s = Some s'" "I s" "\<And>a s s'. a \<in> set as \<Longrightarrow> I s \<Longrightarrow> server_step a s = Some s' \<Longrightarrow> I s'"
  shows "I s'"
  using assms
proof (induction as arbitrary: s)
  case (Cons a as)
  then obtain t where t: "server_step a s = Some t" "server_run as t = Some s'" by (auto simp: bind_eq_Some_conv)
  have "I t" using Cons.prems(2,3) t(1) by (metis list.set_intros(1))
  then show ?case using Cons.IH [OF t(2)] Cons.prems(3) by (metis list.set_intros(2))
qed simp

lemma server_run_append: "server_run (as @ bs) s = Option.bind (server_run as s) (server_run bs)"
  by (induction as arbitrary: s) (auto split: bind_splits)

section \<open>The wait group\<close>

definition wg_ok :: "std_server \<Rightarrow> bool" where
  "wg_ok s \<longleftrightarrow> ss_wg s = int (length (ss_loops s)) + int (ss_conns s) \<and> (\<not> ss_stop s \<longrightarrow> ss_stops s = [])"

lemma wg_ok_step: "wg_ok s \<Longrightarrow> server_step a s = Some s' \<Longrightarrow> wg_ok s'"
  by (cases a) (auto simp: wg_ok_def server_defs of_nat_diff min_def split: server_splits)

lemma wg_ok_run:
  assumes "server_run as NewServer = Some s"
  shows "wg_ok s"
proof -
  have "wg_ok NewServer" by (simp add: wg_ok_def NewServer_def)
  then show ?thesis by (rule server_run_invariant [OF assms]) (rule wg_ok_step)
qed

section \<open>One start, then stop\<close>

text \<open>While at most one \<open>Start\<close> was called there is at most the listener 0, and it is stored when that call
  has returned.\<close>

definition start_view :: "start_pc list \<Rightarrow> nat option \<Rightarrow> nat \<Rightarrow> nat list \<Rightarrow> bool" where
  "start_view pcs ln n opens \<longleftrightarrow>
     pcs \<in> {[], [StartFailed]} \<and> ln = None \<and> n = 0 \<and> opens = [] \<or>
     pcs = [Listened 0] \<and> ln = None \<or> pcs = [Published 0] \<and> ln = Some 0 \<or> pcs = [Started] \<and> ln = Some 0"

definition one_start :: "std_server \<Rightarrow> bool" where
  "one_start s \<longleftrightarrow> length (ss_starts s) \<le> 1 \<longrightarrow>
     set (ss_open s) \<subseteq> {0} \<and> set (ss_loops s) \<subseteq> {0} \<and>
     start_view (ss_starts s) (ss_ln s) (ss_listeners s) (ss_open s)"

lemma accept_turn_frame:
  assumes "accept_turn j r s = Some s'"
  shows "ss_starts s' = ss_starts s \<and> ss_ln s' = ss_ln s \<and> ss_listeners s' = ss_listeners s \<and> ss_open s' = ss_open s \<and>
    set (ss_loops s') \<subseteq> set (ss_loops s)"
  using assms by (cases r) (auto simp: accept_turn_def split: option.splits if_splits dest: in_set_takeD in_set_dropD)

lemma one_start_step:
  assumes "one_start s" "server_step a s = Some s'"
  shows "one_start s'"
proof (cases a)
  case (StartListen ok)
  then show ?thesis using assms by (cases "ss_starts s") (auto simp: one_start_def start_view_def Start_listen_def split: if_splits)
next
  case (StartPublish i)
  then obtain n where n: "i < length (ss_starts s)" "ss_starts s ! i = Listened n"
      "s' = s\<lparr>ss_ln := Some n, ss_starts := (ss_starts s)[i := Published n]\<rparr>"
    using assms(2) by (auto simp: Start_publish_def pc_at_def split: if_splits start_pc.splits)
  show ?thesis
  proof (cases "length (ss_starts s) \<le> 1")
    case True
    then have "i = 0" "ss_starts s = [Listened n]" using n(1,2) by (cases "ss_starts s"; simp)+
    then show ?thesis using assms(1) by (auto simp: one_start_def start_view_def n(3))
  qed (simp add: one_start_def n(3))
next
  case (StartSpawn i)
  then obtain n where n: "i < length (ss_starts s)" "ss_starts s ! i = Published n"
      "s' = s\<lparr>ss_wg := ss_wg s + 1, ss_loops := ss_loops s @ [n], ss_starts := (ss_starts s)[i := Started]\<rparr>"
    using assms(2) by (auto simp: Start_spawn_def pc_at_def split: if_splits start_pc.splits)
  show ?thesis
  proof (cases "length (ss_starts s) \<le> 1")
    case True
    then have "i = 0" "ss_starts s = [Published n]" using n(1,2) by (cases "ss_starts s"; simp)+
    then show ?thesis using assms(1) by (auto simp: one_start_def start_view_def n(3))
  qed (simp add: one_start_def n(3))
next
  case (AcceptTurn j r)
  then have t: "accept_turn j r s = Some s'" using assms(2) by simp
  have "ss_starts s' = ss_starts s \<and> ss_ln s' = ss_ln s \<and> ss_listeners s' = ss_listeners s \<and> ss_open s' = ss_open s \<and>
      set (ss_loops s') \<subseteq> set (ss_loops s)"
    by (rule accept_turn_frame [OF t])
  then show ?thesis using assms(1) unfolding one_start_def by (metis subset_trans)
next
  case ConnDone
  then show ?thesis using assms by (auto simp: one_start_def conn_done_def split: if_splits)
next
  case StopEnter
  then show ?thesis using assms by (auto simp: one_start_def Stop_enter_def split: if_splits)
next
  case (StopClose i)
  then show ?thesis using assms
    by (auto simp: one_start_def start_view_def Stop_close_def pc_at_def split: if_splits stop_pc.splits option.splits)
next
  case (StopWait i)
  then show ?thesis using assms by (auto simp: one_start_def Stop_wait_def split: if_splits)
next
  case (StopSelect i e)
  then show ?thesis using assms by (auto simp: one_start_def Stop_select_def pc_at_def split: if_splits stop_pc.splits)
qed

text \<open>After that: the flag is set, and once the first \<open>Stop\<close> has closed the listener nothing is open, once it
  has seen the wait group at zero nothing runs.\<close>

definition stopping :: "std_server \<Rightarrow> bool" where
  "stopping s \<longleftrightarrow> ss_stop s \<and> ss_starts s = [Started] \<and> set (ss_open s) \<subseteq> {0} \<and> set (ss_loops s) \<subseteq> {0} \<and>
     ss_wg s = int (length (ss_loops s)) + int (ss_conns s) \<and>
     (\<exists>p rest. ss_stops s = p # rest \<and> set rest \<subseteq> {StopReturned AlreadyStopped} \<and>
        (p = Closing (Some 0) \<or> p \<in> {Waiting_group, StopReturned CtxDone} \<and> ss_open s = [] \<or>
         p \<in> {Drained, StopReturned Stopped} \<and> ss_open s = [] \<and> ss_loops s = [] \<and> ss_conns s = 0))"

definition calls_Start :: "server_action \<Rightarrow> bool" where
  "calls_Start a \<longleftrightarrow> (\<exists>ok. a = StartListen ok)"

lemma one_start_run: "server_run as NewServer = Some s \<Longrightarrow> one_start s"
proof -
  assume r: "server_run as NewServer = Some s"
  have "one_start NewServer" by (simp add: one_start_def start_view_def NewServer_def)
  then show ?thesis by (rule server_run_invariant [OF r]) (rule one_start_step)
qed

lemma stopping_enter:
  assumes "one_start s" "wg_ok s" "\<not> ss_stop s" "ss_starts s = [Started]" "server_step StopEnter s = Some s'"
  shows "stopping s'"
  using assms by (auto simp: one_start_def start_view_def wg_ok_def Stop_enter_def stopping_def)

text \<open>The pieces of \<open>Stop\<close> act on the first call; a later one has already returned.\<close>

lemma stopping_pc:
  assumes "ss_stops s = p # rest" "set rest \<subseteq> {StopReturned AlreadyStopped}" "pc_at (ss_stops s) i = Some pc"
    "pc \<noteq> StopReturned AlreadyStopped"
  shows "i = 0 \<and> pc = p"
proof (cases i)
  case (Suc j)
  then have "pc \<in> set rest" using assms(1,3) by (auto simp: pc_at_def split: if_splits)
  then show ?thesis using assms(2,4) by blast
qed (use assms(1,3) in \<open>simp add: pc_at_def\<close>)

lemma stopping_step:
  assumes st: "stopping s" and ns: "\<not> calls_Start a" and r: "server_step a s = Some s'"
  shows "stopping s'"
proof -
  obtain p rest where p: "ss_stops s = p # rest" "set rest \<subseteq> {StopReturned AlreadyStopped}" using st by (auto simp: stopping_def)
  note at = stopping_pc [OF p]
  show ?thesis
  proof (cases a)
    case (StartListen ok)
    then show ?thesis using ns by (simp add: calls_Start_def)
  next
    case (StartPublish i)
    then show ?thesis using st r by (auto simp: stopping_def Start_publish_def pc_at_def split: if_splits)
  next
    case (StartSpawn i)
    then show ?thesis using st r by (auto simp: stopping_def Start_spawn_def pc_at_def split: if_splits)
  next
    case (AcceptTurn j res)
    then have "set (ss_loops s') \<subseteq> set (ss_loops s)" using r accept_turn_frame [of j res s s'] by simp
    moreover have "set (take j xs) \<subseteq> set xs" "set (drop (Suc j) xs) \<subseteq> set xs" for xs :: "nat list"
      by (simp_all add: set_take_subset set_drop_subset)
    ultimately show ?thesis using st r AcceptTurn
      by (cases res) (auto simp: stopping_def accept_turn_def pc_at_def min_def of_nat_diff split: if_splits)
  next
    case ConnDone
    then show ?thesis using st r by (auto simp: stopping_def conn_done_def split: if_splits)
  next
    case StopEnter
    then show ?thesis using st r by (auto simp: stopping_def Stop_enter_def)
  next
    case (StopClose i)
    then obtain ln where ln: "pc_at (ss_stops s) i = Some (Closing ln)"
      using r by (auto simp: Stop_close_def split: option.splits stop_pc.splits)
    have "p = Closing ln" "i = 0" using at [OF ln] by simp_all
    moreover have "removeAll 0 xs = []" if "set xs \<subseteq> {0}" for xs :: "nat list"
      using that by (auto simp: removeAll_filter_not_eq filter_empty_conv)
    ultimately show ?thesis using st r StopClose ln p by (auto simp: stopping_def Stop_close_def)
  next
    case (StopWait i)
    then have w: "pc_at (ss_stops s) i = Some Waiting_group" "ss_wg s = 0" using r by (auto simp: Stop_wait_def split: if_splits)
    have "int (length (ss_loops s) + ss_conns s) = 0" using st w(2) by (simp add: stopping_def)
    then have "length (ss_loops s) + ss_conns s = 0" by linarith
    then have "ss_loops s = []" "ss_conns s = 0" by simp_all
    moreover have "p = Waiting_group" "i = 0" using at [OF w(1)] by simp_all
    ultimately show ?thesis using st r StopWait w p by (auto simp: stopping_def Stop_wait_def)
  next
    case (StopSelect i e)
    then obtain pc where w: "pc_at (ss_stops s) i = Some pc" "pc \<in> {Waiting_group, Drained}"
      using r by (auto simp: Stop_select_def split: option.splits stop_pc.splits)
    have "p = pc" "i = 0" using at [OF w(1)] w(2) by auto
    then show ?thesis using st r StopSelect w p by (cases e) (fastforce simp: stopping_def Stop_select_def)+
  qed
qed

lemma stopping_run:
  assumes "server_run as NewServer = Some s" "\<not> ss_stop s" "ss_starts s = [Started]"
    and "server_run (StopEnter # bs) s = Some s'" "\<not> list_ex calls_Start bs"
  shows "stopping s'"
proof -
  obtain t where t: "server_step StopEnter s = Some t" "server_run bs t = Some s'"
    using assms(4) by (auto simp: bind_eq_Some_conv)
  have "stopping t" by (rule stopping_enter [OF one_start_run wg_ok_run assms(2,3) t(1)]) (rule assms(1))+
  then show ?thesis
    by (rule server_run_invariant [OF t(2)]) (use assms(5) stopping_step in \<open>auto simp: list_ex_iff\<close>)
qed

section \<open>How long it takes\<close>

text \<open>How many pieces are left when nothing is listening and no call is made.\<close>

fun stop_left :: "stop_pc \<Rightarrow> nat" where
  "stop_left (Closing ln) = 3"
| "stop_left Waiting_group = 2"
| "stop_left Drained = 1"
| "stop_left (StopReturned r) = 0"

definition pieces_left :: "std_server \<Rightarrow> nat" where
  "pieces_left s = length (ss_loops s) + ss_conns s + sum_list (map stop_left (ss_stops s))"

definition start_over :: "start_pc \<Rightarrow> bool" where
  "start_over pc \<longleftrightarrow> pc \<in> {Started, StartFailed}"

definition closed_down :: "std_server \<Rightarrow> bool" where
  "closed_down s \<longleftrightarrow> ss_open s = [] \<and> list_all start_over (ss_starts s) \<and> wg_ok s"

definition is_call :: "server_action \<Rightarrow> bool" where
  "is_call a \<longleftrightarrow> calls_Start a \<or> a = StopEnter"

lemma sum_stop_left:
  assumes "pc_at pcs i = Some pc"
  shows "sum_list (map stop_left (pcs[i := pc'])) + stop_left pc = sum_list (map stop_left pcs) + stop_left pc'"
  using assms
proof (induction pcs arbitrary: i)
  case (Cons x xs)
  then show ?case by (cases i) (auto simp: pc_at_def split: if_splits)
qed (simp add: pc_at_def)

lemma closed_down_step:
  assumes cd: "closed_down s" and nc: "\<not> is_call a" and r: "server_step a s = Some s'"
  shows "closed_down s' \<and> pieces_left s' < pieces_left s"
proof -
  have wg: "wg_ok s'" using cd r wg_ok_step by (auto simp: closed_down_def)
  have no_start: "start_over pc" if "pc_at (ss_starts s) i = Some pc" for i pc
    using cd pc_at_set [OF that] by (simp add: closed_down_def list_all_iff)
  show ?thesis
  proof (cases a)
    case (StartPublish i)
    then show ?thesis using r no_start [of i] by (auto simp: Start_publish_def start_over_def split: option.splits start_pc.splits)
  next
    case (StartSpawn i)
    then show ?thesis using r no_start [of i] by (auto simp: Start_spawn_def start_over_def split: option.splits start_pc.splits)
  next
    case (AcceptTurn j res)
    then show ?thesis using r cd wg
      by (cases res) (auto simp: closed_down_def accept_turn_def pc_at_def pieces_left_def min_def split: if_splits)
  next
    case ConnDone
    then show ?thesis using r cd wg by (auto simp: closed_down_def conn_done_def pieces_left_def split: if_splits)
  next
    case (StopClose i)
    then obtain ln where ln: "pc_at (ss_stops s) i = Some (Closing ln)"
        "s' = s\<lparr>ss_open := (case ln of None \<Rightarrow> ss_open s | Some n \<Rightarrow> removeAll n (ss_open s)), ss_stops := (ss_stops s)[i := Waiting_group]\<rparr>"
      using r by (auto simp: Stop_close_def split: option.splits stop_pc.splits)
    then show ?thesis using cd wg sum_stop_left [OF ln(1), of Waiting_group]
      by (auto simp: closed_down_def pieces_left_def split: option.splits)
  next
    case (StopWait i)
    then have w: "pc_at (ss_stops s) i = Some Waiting_group" "s' = s\<lparr>ss_stops := (ss_stops s)[i := Drained]\<rparr>"
      using r by (auto simp: Stop_wait_def split: if_splits)
    then show ?thesis using cd wg sum_stop_left [OF w(1), of Drained] by (auto simp: closed_down_def pieces_left_def)
  next
    case (StopSelect i e)
    then obtain pc res where w: "pc_at (ss_stops s) i = Some pc" "pc \<in> {Waiting_group, Drained}"
        "s' = s\<lparr>ss_stops := (ss_stops s)[i := StopReturned res]\<rparr>"
      using r by (auto simp: Stop_select_def split: option.splits stop_pc.splits if_splits)
    then show ?thesis using cd wg sum_stop_left [OF w(1), of "StopReturned res"]
      by (auto simp: closed_down_def pieces_left_def)
  qed (use nc in \<open>auto simp: is_call_def calls_Start_def\<close>)
qed

text \<open>Something is always due until nothing is left.\<close>

lemma closed_down_due:
  assumes "pieces_left s \<noteq> 0"
  shows "\<exists>a s'. \<not> is_call a \<and> server_step a s = Some s'"
proof (cases "ss_loops s = [] \<and> ss_conns s = 0")
  case True
  then obtain i where i: "i < length (ss_stops s)" "stop_left (ss_stops s ! i) \<noteq> 0"
    using assms by (auto simp: pieces_left_def sum_list_eq_0_iff in_set_conv_nth)
  then have at: "pc_at (ss_stops s) i = Some (ss_stops s ! i)" by (simp add: pc_at_def)
  show ?thesis
  proof (cases "ss_stops s ! i")
    case (Closing ln)
    then have "server_step (StopClose i) s \<noteq> None" using at by (simp add: Stop_close_def)
    then show ?thesis by (intro exI [of _ "StopClose i"]) (auto simp: is_call_def calls_Start_def)
  next
    case (StopReturned r)
    then show ?thesis using i(2) by simp
  qed (use at in \<open>intro exI [of _ "StopSelect i True"]; simp add: Stop_select_def is_call_def calls_Start_def\<close>)+
next
  case False
  show ?thesis
  proof (cases "ss_conns s = 0")
    case True
    then show ?thesis using False
      by (intro exI [of _ "AcceptTurn 0 AcceptFailed"]) (simp add: accept_turn_def pc_at_def is_call_def calls_Start_def)
  next
    case False
    then show ?thesis by (intro exI [of _ ConnDone]) (simp add: conn_done_def is_call_def calls_Start_def)
  qed
qed

lemma closed_down_bound:
  assumes "server_run as s = Some s'" "closed_down s" "\<not> list_ex is_call as"
  shows "length as + pieces_left s' \<le> pieces_left s"
  using assms
proof (induction as arbitrary: s)
  case (Cons a as)
  then obtain t where t: "server_step a s = Some t" "server_run as t = Some s'" by (auto simp: bind_eq_Some_conv)
  have "closed_down t \<and> pieces_left t < pieces_left s" using closed_down_step [OF _ _ t(1)] Cons.prems(2,3) by simp
  then show ?case using Cons.IH [OF t(2)] Cons.prems(3) by simp
qed simp

lemma closed_down_finish:
  assumes "closed_down s"
  shows "\<exists>as s'. \<not> list_ex is_call as \<and> server_run as s = Some s' \<and> pieces_left s' = 0"
  using assms
proof (induction "pieces_left s" arbitrary: s rule: less_induct)
  case less
  show ?case
  proof (cases "pieces_left s = 0")
    case True
    then show ?thesis by (intro exI [of _ "[]"] exI [of _ s]) simp
  next
    case False
    then obtain a t where a: "\<not> is_call a" "server_step a s = Some t" using closed_down_due by blast
    have "closed_down t \<and> pieces_left t < pieces_left s" by (rule closed_down_step [OF less.prems a])
    then obtain as s' where "\<not> list_ex is_call as" "server_run as t = Some s'" "pieces_left s' = 0" using less.hyps by blast
    then show ?thesis using a by (intro exI [of _ "a # as"] exI [of _ s']) simp
  qed
qed

text \<open>A listener that no \<open>Stop\<close> is about to close stays open once the flag is set.\<close>

definition never_closed :: "nat \<Rightarrow> std_server \<Rightarrow> bool" where
  "never_closed n s \<longleftrightarrow> ss_stop s \<and> n \<in> set (ss_open s) \<and> Closing (Some n) \<notin> set (ss_stops s)"

lemma never_closed_step:
  assumes "never_closed n s" "server_step a s = Some s'"
  shows "never_closed n s'"
proof (cases a)
  case (StopClose i)
  then obtain ln where ln: "pc_at (ss_stops s) i = Some (Closing ln)"
      "s' = s\<lparr>ss_open := (case ln of None \<Rightarrow> ss_open s | Some n \<Rightarrow> removeAll n (ss_open s)), ss_stops := (ss_stops s)[i := Waiting_group]\<rparr>"
    using assms(2) by (auto simp: Stop_close_def split: option.splits stop_pc.splits)
  then have "ln \<noteq> Some n" using assms(1) pc_at_set by (fastforce simp: never_closed_def)
  then show ?thesis using assms(1) set_update_subset_insert [of "ss_stops s" i Waiting_group]
    by (auto simp: never_closed_def ln(2) split: option.splits)
next
  case (AcceptTurn j r)
  then show ?thesis using assms by (cases r) (auto simp: never_closed_def accept_turn_def split: option.splits if_splits)
qed (use assms set_update_subset_insert in \<open>fastforce simp: never_closed_def Start_listen_def Start_publish_def Start_spawn_def
      conn_done_def Stop_enter_def Stop_wait_def Stop_select_def split: option.splits if_splits start_pc.splits stop_pc.splits\<close>)+

section \<open>Properties\<close>

text \<open>In every interleaving the wait group counts exactly the accept loops and connections that run, so
  it never goes below zero, which would panic, and a wait on it is a wait for all of them.\<close>

theorem wait_group_counts:
  assumes "server_run as NewServer = Some s"
  shows "ss_wg s = int (length (ss_loops s)) + int (ss_conns s) \<and> 0 \<le> ss_wg s"
  using wg_ok_run [OF assms] by (simp add: wg_ok_def)

definition started_server :: std_server where
  "started_server = \<lparr>ss_ln = Some 0, ss_stop = False, ss_wg = 2, ss_listeners = 1, ss_open = [0], ss_starts = [Started],
     ss_stops = [], ss_loops = [0], ss_conns = 1\<rparr>"

lemma started_server_run:
  "server_run [StartListen True, StartPublish 0, StartSpawn 0, AcceptTurn 0 Accepted] NewServer = Some started_server"
  by (simp add: NewServer_def started_server_def server_defs)

theorem wait_group_counts_witness: "ss_wg started_server = int (length (ss_loops started_server)) + int (ss_conns started_server)"
  using wait_group_counts [OF started_server_run] by simp

text \<open>When \<open>Start\<close> has returned before the first \<open>Stop\<close> is called and \<open>Stop\<close> returns without an
  error, the listener is closed and neither the accept loop nor any connection is running, whatever else was
  interleaved and whatever still happens.\<close>

theorem stop_leaves_nothing:
  assumes "server_run as NewServer = Some s" "\<not> ss_stop s" "ss_starts s = [Started]"
    and "server_run (StopEnter # bs) s = Some s'" "\<not> list_ex calls_Start bs" "StopReturned Stopped \<in> set (ss_stops s')"
  shows "ss_open s' = [] \<and> ss_loops s' = [] \<and> ss_conns s' = 0 \<and> ss_wg s' = 0"
  using stopping_run [OF assms(1-5)] assms(6) by (auto simp: stopping_def)

theorem stop_leaves_nothing_witness:
  "\<exists>s'. server_run (StopEnter # [StopClose 0, ConnDone, AcceptTurn 0 AcceptFailed, StopWait 0, StopSelect 0 False]) started_server =
     Some s' \<and> ss_stops s' = [StopReturned Stopped] \<and> ss_loops s' = []"
proof -
  let ?bs = "[StopClose 0, ConnDone, AcceptTurn 0 AcceptFailed, StopWait 0, StopSelect 0 False]"
  obtain s' where r: "server_run (StopEnter # ?bs) started_server = Some s'" "ss_stops s' = [StopReturned Stopped]"
    by (simp add: started_server_def server_defs)
  have "ss_loops s' = []"
    using stop_leaves_nothing [OF started_server_run _ _ r(1)] r(2) by (simp add: started_server_def calls_Start_def)
  then show ?thesis using r by blast
qed

text \<open>Once the listener is closed and no further call comes, every schedule ends within as many pieces as
  there are loops, connections and steps of pending \<open>Stop\<close> calls, and can be completed until none is left.\<close>

theorem shutdown_terminates:
  assumes "closed_down s"
  shows "(\<forall>as s'. \<not> list_ex is_call as \<and> server_run as s = Some s' \<longrightarrow> length as + pieces_left s' \<le> pieces_left s) \<and>
    (\<exists>as s'. \<not> list_ex is_call as \<and> server_run as s = Some s' \<and> pieces_left s' = 0)"
  using closed_down_bound [OF _ assms] closed_down_finish [OF assms] by blast

theorem shutdown_terminates_witness:
  "\<exists>as s'. server_run as (started_server\<lparr>ss_stop := True, ss_open := [], ss_stops := [Waiting_group]\<rparr>) = Some s' \<and> pieces_left s' = 0"
proof -
  have "closed_down (started_server\<lparr>ss_stop := True, ss_open := [], ss_stops := [Waiting_group]\<rparr>)"
    by (simp add: closed_down_def started_server_def start_over_def wg_ok_def)
  then show ?thesis using shutdown_terminates by blast
qed

text \<open>C40: \<open>Stop\<close> may overtake \<open>Start\<close>, which the program runs in a goroutine of its own: it then returns
  without an error, the accept loop starts afterwards, and no later call ever closes its listener.\<close>

theorem stop_overtakes_start:
  "\<exists>as s. server_run as NewServer = Some s \<and> ss_starts s = [Started] \<and> ss_stops s = [StopReturned Stopped] \<and>
     ss_loops s = [0] \<and>
     (\<forall>bs. case server_run bs s of None \<Rightarrow> True | Some s' \<Rightarrow> 0 \<in> set (ss_open s'))"
proof -
  let ?as = "[StartListen True, StopEnter, StopClose 0, StopWait 0, StopSelect 0 False, StartPublish 0, StartSpawn 0]"
  let ?s = "\<lparr>ss_ln = Some 0, ss_stop = True, ss_wg = 1, ss_listeners = 1, ss_open = [0], ss_starts = [Started],
     ss_stops = [StopReturned Stopped], ss_loops = [0], ss_conns = 0\<rparr>"
  have r: "server_run ?as NewServer = Some ?s" by (simp add: NewServer_def server_defs)
  have nc: "never_closed 0 ?s" by (simp add: never_closed_def)
  have "0 \<in> set (ss_open s')" if "server_run bs ?s = Some s'" for bs s'
  proof -
    have "never_closed 0 s'" by (rule server_run_invariant [where I = "never_closed 0", OF that nc]) (rule never_closed_step)
    then show ?thesis by (simp add: never_closed_def)
  qed
  then show ?thesis using r by (intro exI [of _ ?as] exI [of _ ?s]) (auto split: option.splits)
qed

end
