(* ===== verification/Go_Text.thy ===== *)
theory Go_Text
  imports Go_Crypto
begin

text \<open>
  The text functions of Go's standard library that the configuration and the HTTP layer use:
  \<open>strings.TrimSpace\<close> and \<open>strings.ToLower\<close>, \<open>strconv.Itoa\<close> and \<open>strconv.Atoi\<close>, the coercion to valid
  UTF-8 done by the JSON encoder, the padded base64 that stands for a \<open>[]byte\<close> in JSON, and
  \<open>time.Format(time.RFC3339)\<close>.
\<close>

section \<open>Trimming and case\<close>

text \<open>The UTF-8 encodings of the runes that \<open>unicode.IsSpace\<close> accepts.\<close>

definition space_runes :: "gostring list" where
  "space_runes =
     [[9], [10], [11], [12], [13], [32], [0xC2, 0x85], [0xC2, 0xA0], [0xE1, 0x9A, 0x80],
      [0xE2, 0x80, 0x80], [0xE2, 0x80, 0x81], [0xE2, 0x80, 0x82], [0xE2, 0x80, 0x83], [0xE2, 0x80, 0x84],
      [0xE2, 0x80, 0x85], [0xE2, 0x80, 0x86], [0xE2, 0x80, 0x87], [0xE2, 0x80, 0x88], [0xE2, 0x80, 0x89],
      [0xE2, 0x80, 0x8A], [0xE2, 0x80, 0xA8], [0xE2, 0x80, 0xA9], [0xE2, 0x80, 0xAF], [0xE2, 0x81, 0x9F],
      [0xE3, 0x80, 0x80]]"

definition starts_with :: "gostring \<Rightarrow> gostring \<Rightarrow> bool" where
  "starts_with s r \<longleftrightarrow> r \<noteq> [] \<and> take (length r) s = r"

function trim_left :: "gostring list \<Rightarrow> gostring \<Rightarrow> gostring" where
  "trim_left rs s =
     (case find (starts_with s) rs of None \<Rightarrow> s | Some r \<Rightarrow> trim_left rs (drop (length r) s))"
  by pat_completeness auto
termination
proof (relation "measure (\<lambda>(rs, s). length s)")
  fix rs s r assume "find (starts_with s) rs = Some r"
  then have "starts_with s r" by (auto simp: find_Some_iff)
  then have "r \<noteq> []" "s \<noteq> []" by (auto simp: starts_with_def)
  then show "((rs, drop (length r) s), rs, s) \<in> measure (\<lambda>(rs, s). length s)" by simp
qed simp

declare trim_left.simps [simp del]

text \<open>An encoding at the end of a string is the reversed encoding at the front of the reversed string.\<close>

definition TrimSpace :: "gostring \<Rightarrow> gostring" where
  "TrimSpace s = rev (trim_left (map rev space_runes) (rev (trim_left space_runes s)))"

text \<open>On ASCII strings \<open>ToLower\<close> maps letters; on others it consults the Unicode tables, which are the
  parameter \<open>unicode_lower\<close>.\<close>

definition ascii_lower :: "byte \<Rightarrow> byte" where
  "ascii_lower b = (if 65 \<le> b \<and> b \<le> 90 then b + 32 else b)"

definition ToLower :: "(gostring \<Rightarrow> gostring) \<Rightarrow> gostring \<Rightarrow> gostring" where
  "ToLower unicode_lower s = (if list_all (\<lambda>b. b < 128) s then map ascii_lower s else unicode_lower s)"

lemma trim_left_suffix: "\<exists>p. s = p @ trim_left rs s"
proof (induction rs s rule: trim_left.induct)
  case (1 rs s)
  show ?case
  proof (cases "find (starts_with s) rs")
    case None
    then show ?thesis by (simp add: trim_left.simps [of rs s])
  next
    case (Some r)
    then obtain p where "drop (length r) s = p @ trim_left rs (drop (length r) s)" using 1 by blast
    then have "s = (take (length r) s @ p) @ trim_left rs s"
      using Some by (metis append_assoc append_take_drop_id option.simps(5) trim_left.simps)
    then show ?thesis by blast
  qed
qed

lemma trim_left_none: "find (starts_with (trim_left rs s)) rs = None"
proof (induction rs s rule: trim_left.induct)
  case (1 rs s)
  then show ?case by (cases "find (starts_with s) rs") (simp_all add: trim_left.simps [of rs s])
qed

lemma trim_left_id: "find (starts_with s) rs = None \<Longrightarrow> trim_left rs s = s"
  by (simp add: trim_left.simps [of rs s])

lemma starts_with_append: "starts_with s r \<Longrightarrow> starts_with (s @ t) r"
  by (auto simp: starts_with_def) (metis append_Nil2 append_eq_append_conv_if take_all_iff nle_le take_append)

lemma TrimSpace_no_space:
  "find (starts_with (TrimSpace s)) space_runes = None"
  "find (starts_with (rev (TrimSpace s))) (map rev space_runes) = None"
proof -
  show r: "find (starts_with (rev (TrimSpace s))) (map rev space_runes) = None"
    by (simp add: TrimSpace_def trim_left_none)
  let ?l = "trim_left space_runes s"
  obtain p where "rev ?l = p @ trim_left (map rev space_runes) (rev ?l)" using trim_left_suffix by blast
  then have "?l = TrimSpace s @ rev p" by (metis TrimSpace_def rev_append rev_rev_ident)
  then show "find (starts_with (TrimSpace s)) space_runes = None"
    using trim_left_none [of space_runes s] starts_with_append by (metis find_None_iff)
qed

lemma TrimSpace_idem [simp]: "TrimSpace (TrimSpace s) = TrimSpace s"
  using TrimSpace_no_space [of s] by (simp add: TrimSpace_def [of "TrimSpace s"] trim_left_id)

lemma TrimSpace_infix: "\<exists>p q. s = p @ TrimSpace s @ q"
proof -
  let ?l = "trim_left space_runes s"
  obtain p where p: "s = p @ ?l" using trim_left_suffix by blast
  obtain q where "rev ?l = q @ trim_left (map rev space_runes) (rev ?l)" using trim_left_suffix by blast
  then have "?l = TrimSpace s @ rev q" by (metis TrimSpace_def rev_append rev_rev_ident)
  then show ?thesis using p by metis
qed

lemma TrimSpace_plain:
  assumes "s \<noteq> []" "33 \<le> hd s" "hd s < 128" "33 \<le> last s" "last s < 128"
  shows "TrimSpace s = s"
proof -
  have d: "\<not> starts_with t r" if "t \<noteq> []" "33 \<le> hd t" "hd t < 128" "r \<in> set space_runes \<union> set (map rev space_runes)" for t r
    using that by (cases t) (auto simp: starts_with_def space_runes_def word_le_nat_alt word_less_nat_alt)
  have "find (starts_with s) space_runes = None" "find (starts_with (rev s)) (map rev space_runes) = None"
    using d [of s] d [of "rev s"] assms by (auto simp: find_None_iff hd_rev)
  then show ?thesis by (simp add: TrimSpace_def trim_left_id)
qed

section \<open>Decimal numbers\<close>

fun digits :: "nat \<Rightarrow> gostring" where
  "digits n = (if n < 10 then [48 + word_of_nat n] else digits (n div 10) @ [48 + word_of_nat (n mod 10)])"

declare digits.simps [simp del]

definition Itoa :: "int \<Rightarrow> gostring" where
  "Itoa x = (if x < 0 then 45 # digits (nat (- x)) else digits (nat x))"

definition is_digit :: "byte \<Rightarrow> bool" where
  "is_digit b \<longleftrightarrow> 48 \<le> b \<and> b \<le> 57"

text \<open>\<open>parse_uint\<close> is the digit loop of \<open>strconv.Atoi\<close>, on an unbounded accumulator; the range check is
  done on the result.\<close>

fun parse_uint :: "nat \<Rightarrow> gostring \<Rightarrow> nat option" where
  "parse_uint n [] = Some n"
| "parse_uint n (b # bs) = (if is_digit b then parse_uint (10 * n + (unat b - 48)) bs else None)"

definition Atoi :: "gostring \<Rightarrow> int option" where
  "Atoi s =
     (let (neg, ds) = (case s of [] \<Rightarrow> (False, [])
                       | b # bs \<Rightarrow> if b = 45 then (True, bs) else if b = 43 then (False, bs) else (False, s))
      in if ds = [] then None
         else case parse_uint 0 ds of
           None \<Rightarrow> None
         | Some n \<Rightarrow> let x = (if neg then - int n else int n)
                     in if - (2 ^ 63) \<le> x \<and> x < 2 ^ 63 then Some x else None)"

lemma parse_uint_append:
  "parse_uint n (bs @ cs) = Option.bind (parse_uint n bs) (\<lambda>m. parse_uint m cs)"
  by (induction bs arbitrary: n) simp_all

lemma digit_byte: "n < 10 \<Longrightarrow> is_digit (48 + word_of_nat n) \<and> unat (48 + word_of_nat n :: byte) - 48 = n"
proof -
  assume n: "n < 10"
  have "unat (48 + word_of_nat n :: byte) = 48 + n"
    using n by (simp add: unat_word_ariths(1) unat_of_nat)
  then show ?thesis using n by (simp add: is_digit_def word_le_nat_alt)
qed

lemma parse_digits: "parse_uint 0 (digits n) = Some n"
proof (induction n rule: digits.induct)
  case (1 n)
  show ?case
  proof (cases "n < 10")
    case True
    then show ?thesis using digit_byte [of n] by (simp add: digits.simps [of n])
  next
    case False
    then show ?thesis using 1 digit_byte [of "n mod 10"]
      by (simp add: digits.simps [of n] parse_uint_append)
  qed
qed

lemma digits_head: "\<exists>b bs. digits n = b # bs \<and> is_digit b"
proof (induction n rule: digits.induct)
  case (1 n)
  then show ?case using digit_byte [of n] by (cases "n < 10") (auto simp: digits.simps [of n])
qed

lemma digits_last: "is_digit (last (digits n))"
  using digit_byte [of n] digit_byte [of "n mod 10"] by (simp add: digits.simps [of n])

lemma Atoi_Itoa:
  assumes "- (2 ^ 63) \<le> x" "x < 2 ^ 63"
  shows "Atoi (Itoa x) = Some x"
proof -
  obtain b bs where d: "digits (nat x) = b # bs" "is_digit b" using digits_head by blast
  have "b \<noteq> 45" "b \<noteq> 43" using d(2) by (auto simp: is_digit_def)
  then show ?thesis
    using parse_digits [of "nat x"] parse_digits [of "nat (- x)"] digits_head [of "nat (- x)"] d assms
    by (auto simp: Atoi_def Itoa_def)
qed

lemma Atoi_range: "Atoi s = Some x \<Longrightarrow> - (2 ^ 63) \<le> x \<and> x < 2 ^ 63"
  by (auto simp: Atoi_def Let_def split: prod.splits option.splits if_splits)

lemma TrimSpace_Itoa [simp]: "TrimSpace (Itoa x) = Itoa x"
proof (rule TrimSpace_plain)
  have h: "33 \<le> b \<and> b < 128" if "is_digit b" for b
    using that by (auto simp: is_digit_def word_le_nat_alt word_less_nat_alt)
  obtain b bs where d: "digits (nat x) = b # bs" "is_digit b" using digits_head by blast
  obtain b' bs' where d': "digits (nat (- x)) = b' # bs'" using digits_head by blast
  show "Itoa x \<noteq> []" "33 \<le> hd (Itoa x)" "hd (Itoa x) < 128" using d h by (auto simp: Itoa_def)
  show "33 \<le> last (Itoa x)" "last (Itoa x) < 128"
    using h [OF digits_last [of "nat x"]] h [OF digits_last [of "nat (- x)"]] d' by (auto simp: Itoa_def)
qed

section \<open>Valid UTF-8\<close>

definition cont :: "byte \<Rightarrow> bool" where
  "cont b \<longleftrightarrow> 0x80 \<le> b \<and> b \<le> 0xBF"

definition between :: "byte \<Rightarrow> byte \<Rightarrow> byte \<Rightarrow> bool" where
  "between lo hi b \<longleftrightarrow> lo \<le> b \<and> b \<le> hi"

text \<open>The number of bytes of the rune at the front, 0 when it is not a valid encoding
  (\<open>utf8.DecodeRune\<close> then returns \<open>RuneError\<close> with size 1).\<close>

fun rune_len :: "gostring \<Rightarrow> nat" where
  "rune_len [] = 0"
| "rune_len (a # bs) =
     (if a < 0x80 then 1
      else if between 0xC2 0xDF a then (case bs of b # _ \<Rightarrow> if cont b then 2 else 0 | _ \<Rightarrow> 0)
      else if between 0xE0 0xEF a then
        (case bs of b # c # _ \<Rightarrow>
           if (if a = 0xE0 then between 0xA0 0xBF b else if a = 0xED then between 0x80 0x9F b else cont b) \<and> cont c
           then 3 else 0
         | _ \<Rightarrow> 0)
      else if between 0xF0 0xF4 a then
        (case bs of b # c # d # _ \<Rightarrow>
           if (if a = 0xF0 then between 0x90 0xBF b else if a = 0xF4 then between 0x80 0x8F b else cont b) \<and> cont c \<and> cont d
           then 4 else 0
         | _ \<Rightarrow> 0)
      else 0)"

function to_valid_utf8 :: "gostring \<Rightarrow> gostring" where
  "to_valid_utf8 s =
     (if s = [] then []
      else if rune_len s = 0 then [0xEF, 0xBF, 0xBD] @ to_valid_utf8 (tl s)
      else take (rune_len s) s @ to_valid_utf8 (drop (rune_len s) s))"
  by pat_completeness auto
termination by (relation "measure length") auto

function valid_utf8 :: "gostring \<Rightarrow> bool" where
  "valid_utf8 s \<longleftrightarrow> (if s = [] then True else if rune_len s = 0 then False else valid_utf8 (drop (rune_len s) s))"
  by pat_completeness auto
termination by (relation "measure length") auto

declare to_valid_utf8.simps [simp del] valid_utf8.simps [simp del]

lemma utf8_steps:
  "to_valid_utf8 [] = []" "valid_utf8 []"
  "s \<noteq> [] \<Longrightarrow> rune_len s = 0 \<Longrightarrow> to_valid_utf8 s = [0xEF, 0xBF, 0xBD] @ to_valid_utf8 (tl s)"
  "s \<noteq> [] \<Longrightarrow> rune_len s = 0 \<Longrightarrow> \<not> valid_utf8 s"
  "rune_len s \<noteq> 0 \<Longrightarrow> to_valid_utf8 s = take (rune_len s) s @ to_valid_utf8 (drop (rune_len s) s)"
  "rune_len s \<noteq> 0 \<Longrightarrow> valid_utf8 s \<longleftrightarrow> valid_utf8 (drop (rune_len s) s)"
  by (subst to_valid_utf8.simps valid_utf8.simps, force)+

lemma to_valid_utf8_id: "to_valid_utf8 s = s \<longleftrightarrow> valid_utf8 s"
proof (induction s rule: valid_utf8.induct)
  case (1 s)
  have r3: "rune_len ([0xEF, 0xBF, 0xBD] @ t) = 3" for t
    by (simp add: between_def cont_def word_le_nat_alt word_less_nat_alt)
  consider "s = []" | "s \<noteq> []" "rune_len s = 0" | "s \<noteq> []" "rune_len s \<noteq> 0" by blast
  then show ?case
  proof cases
    case 1
    then show ?thesis by (simp add: utf8_steps)
  next
    case 2
    have "to_valid_utf8 s \<noteq> s"
    proof
      assume "to_valid_utf8 s = s"
      then have "rune_len s = rune_len ([0xEF, 0xBF, 0xBD] @ to_valid_utf8 (tl s))" using utf8_steps(3) [OF 2] by simp
      then show False using 2(2) r3 by simp
    qed
    then show ?thesis using utf8_steps(4) [OF 2] by simp
  next
    case 3
    have "take (rune_len s) s @ t = s \<longleftrightarrow> t = drop (rune_len s) s" for t
      by (metis append_take_drop_id same_append_eq)
    then show ?thesis using 1 3 utf8_steps(5,6) [OF 3(2)] by simp
  qed
qed

section \<open>Base64 with padding, standard alphabet\<close>

text \<open>How JSON carries a \<open>[]byte\<close>. Line breaks are skipped; padding is required and ends the input.\<close>

definition std_char :: "nat \<Rightarrow> byte" where
  "std_char n = (if n = 62 then 43 else if n = 63 then 47 else b64_char n)"

definition std_value :: "byte \<Rightarrow> nat option" where
  "std_value c = (if c = 43 then Some 62 else if c = 47 then Some 63 else if c = 45 \<or> c = 95 then None else b64_value c)"

fun std_quads :: "byte list \<Rightarrow> byte list option" where
  "std_quads [] = Some []"
| "std_quads (a # b # c # d # cs) =
     (case (std_value a, std_value b) of
        (Some p, Some q) \<Rightarrow>
          if c = 61 then if d = 61 \<and> cs = [] then Some (take 1 (b64_quantum p q 0 0)) else None
          else (case std_value c of
                  None \<Rightarrow> None
                | Some r \<Rightarrow>
                    if d = 61 then if cs = [] then Some (take 2 (b64_quantum p q r 0)) else None
                    else (case std_value d of
                            None \<Rightarrow> None
                          | Some s \<Rightarrow> map_option (\<lambda>bs. b64_quantum p q r s @ bs) (std_quads cs)))
      | _ \<Rightarrow> None)"
| "std_quads cs = None"

definition b64std_decode :: "byte list \<Rightarrow> byte list option" where
  "b64std_decode s = std_quads (filter (\<lambda>c. c \<noteq> 10 \<and> c \<noteq> 13) s)"

text \<open>What a client sends.\<close>

fun b64std_encode :: "byte list \<Rightarrow> byte list" where
  "b64std_encode (a # b # c # bs) =
     (let v = unat a * 65536 + unat b * 256 + unat c
      in std_char (v div 262144) # std_char (v div 4096 mod 64) # std_char (v div 64 mod 64)
         # std_char (v mod 64) # b64std_encode bs)"
| "b64std_encode [a, b] =
     (let v = unat a * 65536 + unat b * 256
      in [std_char (v div 262144), std_char (v div 4096 mod 64), std_char (v div 64 mod 64), 61])"
| "b64std_encode [a] =
     (let v = unat a * 65536 in [std_char (v div 262144), std_char (v div 4096 mod 64), 61, 61])"
| "b64std_encode [] = []"

lemma std_value_char: "n < 64 \<Longrightarrow> std_value (std_char n) = Some n"
  using b64_value_char [of n] by (auto simp: std_value_def std_char_def b64_value_def Let_def split: if_splits)

lemma std_char_plain:
  assumes "n < 64"
  shows "std_char n \<noteq> 10" "std_char n \<noteq> 13" "std_char n \<noteq> 61"
proof -
  have "std_value 10 = None" "std_value 13 = None" "std_value 61 = None" by (simp_all add: std_value_def b64_value_def)
  then show "std_char n \<noteq> 10" "std_char n \<noteq> 13" "std_char n \<noteq> 61" using std_value_char [OF assms] by auto
qed

lemma b64std_round_trip: "b64std_decode (b64std_encode bs) = Some bs"
proof -
  have m: "x mod 64 < (64 :: nat)" for x by simp
  note eval = b64std_encode.simps Let_def std_value_char std_char_plain std_quads.simps filter.simps if_True if_False m
    option.case option.map prod.case not_False_eq_True HOL.simp_thms
  show ?thesis
    unfolding b64std_decode_def
  proof (induction bs rule: b64std_encode.induct)
    case (1 a b c bs)
    then show ?case by (simp only: eval quantum_three) simp
  next
    case (2 a b)
    have "(61 :: byte) \<noteq> 10" "(61 :: byte) \<noteq> 13" by simp_all
    then show ?case by (simp only: eval quantum_two) simp
  next
    case (3 a)
    have "(61 :: byte) \<noteq> 10" "(61 :: byte) \<noteq> 13" by simp_all
    then show ?case by (simp only: eval quantum_one) simp
  qed simp
qed

section \<open>RFC 3339\<close>

text \<open>Year, month and day of a day counted from 1970-01-01, in the proleptic Gregorian calendar, by the
  400-year eras that start on March 1st.\<close>

definition civil_of_days :: "int \<Rightarrow> int \<times> int \<times> int" where
  "civil_of_days days =
     (let z = days + 719468; era = z div 146097; doe = z mod 146097;
          yoe = (doe - doe div 1460 + doe div 36524 - doe div 146096) div 365;
          doy = doe - (365 * yoe + yoe div 4 - yoe div 100);
          mp = (5 * doy + 2) div 153;
          d = doy - (153 * mp + 2) div 5 + 1;
          m = (if mp < 10 then mp + 3 else mp - 9)
      in (yoe + era * 400 + (if m \<le> 2 then 1 else 0), m, d))"

definition pad :: "nat \<Rightarrow> int \<Rightarrow> gostring" where
  "pad w x = (let ds = digits (nat x) in replicate (w - length ds) 48 @ ds)"

text \<open>\<open>t.Format(time.RFC3339)\<close>; \<open>zone\<close> is the offset of the local time zone in minutes. The zero time is
  in UTC, every other time of the program is a local one.\<close>

definition Format_RFC3339 :: "int \<Rightarrow> go_time \<Rightarrow> gostring" where
  "Format_RFC3339 zone t =
     (let off = (if time_IsZero t then 0 else zone);
          s = t div 1000000000 + 60 * off;
          (y, m, d) = civil_of_days (s div 86400); r = s mod 86400
      in (if y < 0 then 45 # pad 4 (- y) else pad 4 y) @ str ''-'' @ pad 2 m @ str ''-'' @ pad 2 d @ str ''T'' @
         pad 2 (r div 3600) @ str '':'' @ pad 2 (r mod 3600 div 60) @ str '':'' @ pad 2 (r mod 60) @
         (if off = 0 then str ''Z''
          else (if off < 0 then str ''-'' else str ''+'') @ pad 2 (\<bar>off\<bar> div 60) @ str '':'' @ pad 2 (\<bar>off\<bar> mod 60)))"

lemma Format_examples:
  "Format_RFC3339 0 0 = str ''1970-01-01T00:00:00Z''"
  "Format_RFC3339 180 zero_time = str ''0001-01-01T00:00:00Z''"
  "Format_RFC3339 (- 330) 1709251199000000000 = str ''2024-02-29T18:29:59-05:30''"
  by code_simp+

end
