(* ===== verification/Configuration.thy ===== *)
theory Configuration
  imports Go_Text
begin

text \<open>
  The configuration of \<open>internal/config/config.go\<close>, read from environment variables with defaults, and the
  choice of log handler and level of \<open>internal/logger/logger.go\<close>. The process environment is a map
  (\<open>os.LookupEnv\<close>), the result of \<open>crypto/rand.Read\<close> on 32 bytes is an argument, \<open>None\<close> when it fails.
\<close>

section \<open>Variables and defaults\<close>

definition EnvTokenSecret :: gostring where "EnvTokenSecret = str ''TOKEN_SECRET''"
definition EnvServerPort :: gostring where "EnvServerPort = str ''SERVER_PORT''"
definition EnvTCPPort :: gostring where "EnvTCPPort = str ''TCP_PORT''"
definition EnvLoggingEnvironment :: gostring where "EnvLoggingEnvironment = str ''LOGGING_ENVIRONMENT''"
definition EnvLoggingLevel :: gostring where "EnvLoggingLevel = str ''LOGGING_LEVEL''"
definition EnvShardCount :: gostring where "EnvShardCount = str ''SHARD_COUNT''"

definition DefaultTokenSecret :: gostring where "DefaultTokenSecret = []"
definition DefaultServerPort :: int where "DefaultServerPort = 8080"
definition DefaultTCPPort :: int where "DefaultTCPPort = 9090"
definition DefaultLoggingEnvironment :: gostring where "DefaultLoggingEnvironment = str ''production''"
definition DefaultLoggingLevel :: gostring where "DefaultLoggingLevel = str ''info''"
definition DefaultShardCount :: int where "DefaultShardCount = 64"

section \<open>The configuration\<close>

record auth_config = ac_TokenSecret :: "byte list"
record server_config = sv_Port :: int  sv_TCPPort :: int
record logging_config = lg_Environment :: gostring  lg_Level :: gostring
record store_config = st_ShardCount :: int

record configuration =
  cf_Auth :: auth_config
  cf_Server :: server_config
  cf_Logging :: logging_config
  cf_Store :: store_config

type_synonym environ = "gostring \<rightharpoonup> gostring"

definition getEnv :: "environ \<Rightarrow> gostring \<Rightarrow> gostring \<Rightarrow> gostring" where
  "getEnv os key defaultValue = (case os key of Some v \<Rightarrow> v | None \<Rightarrow> defaultValue)"

definition getEnvAsInt :: "environ \<Rightarrow> gostring \<Rightarrow> int \<Rightarrow> int" where
  "getEnvAsInt os key defaultValue =
     (case os key of
        Some v \<Rightarrow> (case Atoi (TrimSpace v) of Some x \<Rightarrow> x | None \<Rightarrow> defaultValue)
      | None \<Rightarrow> defaultValue)"

text \<open>\<open>strconv.ParseInt(s, 10, 64)\<close> accepts what \<open>Atoi\<close> accepts on a 64-bit machine.\<close>

definition getEnvAsInt64 :: "environ \<Rightarrow> gostring \<Rightarrow> int \<Rightarrow> int" where
  "getEnvAsInt64 os key defaultValue =
     (case os key of
        Some v \<Rightarrow> (case Atoi (TrimSpace v) of Some x \<Rightarrow> x | None \<Rightarrow> defaultValue)
      | None \<Rightarrow> defaultValue)"

definition generateRandomSecret :: "byte list option \<Rightarrow> byte list" where
  "generateRandomSecret rnd =
     (case rnd of None \<Rightarrow> str ''fallback-secret-key-not-secure-please-set-TOKEN_SECRET'' | Some secret \<Rightarrow> secret)"

definition NewConfig :: "environ \<Rightarrow> byte list option \<Rightarrow> configuration" where
  "NewConfig os rnd =
     (let tokenSecret = getEnv os EnvTokenSecret DefaultTokenSecret;
          tokenSecretBytes = (if tokenSecret = [] then generateRandomSecret rnd else tokenSecret)
      in \<lparr>cf_Auth = \<lparr>ac_TokenSecret = tokenSecretBytes\<rparr>,
          cf_Server = \<lparr>sv_Port = getEnvAsInt os EnvServerPort DefaultServerPort,
                       sv_TCPPort = getEnvAsInt os EnvTCPPort DefaultTCPPort\<rparr>,
          cf_Logging = \<lparr>lg_Environment = getEnv os EnvLoggingEnvironment DefaultLoggingEnvironment,
                        lg_Level = getEnv os EnvLoggingLevel DefaultLoggingLevel\<rparr>,
          cf_Store = \<lparr>st_ShardCount = getEnvAsInt os EnvShardCount DefaultShardCount\<rparr>\<rparr>)"

section \<open>The logger\<close>

datatype slog_level = LevelDebug | LevelInfo | LevelWarn | LevelError

definition getLogLevel :: "gostring \<Rightarrow> slog_level" where
  "getLogLevel logLevel =
     (if logLevel = str ''debug'' then LevelDebug
      else if logLevel = str ''info'' then LevelInfo
      else if logLevel = str ''warn'' then LevelWarn
      else if logLevel = str ''error'' then LevelError
      else LevelInfo)"

datatype log_format = JsonHandler | ConsoleHandler

record slog_handler =
  sh_format :: log_format
  sh_Level :: slog_level
  sh_AddSource :: bool

text \<open>The state is the default logger; \<open>sync.Once\<close> lets the first call decide.\<close>

definition logger_Initialize :: "gostring \<Rightarrow> gostring \<Rightarrow> slog_handler option \<Rightarrow> slog_handler option" where
  "logger_Initialize environment logLevel st =
     (case st of
        Some h \<Rightarrow> Some h
      | None \<Rightarrow>
          if environment = str ''production''
          then Some \<lparr>sh_format = JsonHandler, sh_Level = getLogLevel logLevel, sh_AddSource = False\<rparr>
          else Some \<lparr>sh_format = ConsoleHandler, sh_Level = getLogLevel logLevel, sh_AddSource = True\<rparr>)"

section \<open>What the configuration guarantees\<close>

lemma getEnvAsInt_Itoa:
  assumes "- (2 ^ 63) \<le> x" "x < 2 ^ 63" "os key = Some (p @ Itoa x @ q)" "TrimSpace (p @ Itoa x @ q) = Itoa x"
  shows "getEnvAsInt os key d = x" "getEnvAsInt64 os key d = x"
  using assms Atoi_Itoa by (simp_all add: getEnvAsInt_def getEnvAsInt64_def)

lemma getEnvAsInt_range:
  "- (2 ^ 63) \<le> d \<Longrightarrow> d < 2 ^ 63 \<Longrightarrow> - (2 ^ 63) \<le> getEnvAsInt os key d \<and> getEnvAsInt os key d < 2 ^ 63"
  using Atoi_range by (auto simp: getEnvAsInt_def split: option.splits)

lemma NewConfig_ranges:
  "\<forall>x \<in> {sv_Port (cf_Server (NewConfig os rnd)), sv_TCPPort (cf_Server (NewConfig os rnd)),
        st_ShardCount (cf_Store (NewConfig os rnd))}. - (2 ^ 63) \<le> x \<and> x < 2 ^ 63"
proof -
  have d: "- (2 ^ 63) \<le> x \<and> x < 2 ^ 63" if "x \<in> {DefaultServerPort, DefaultTCPPort, DefaultShardCount}" for x
    using that by (auto simp: DefaultServerPort_def DefaultTCPPort_def DefaultShardCount_def)
  show ?thesis using d getEnvAsInt_range by (simp add: NewConfig_def Let_def)
qed

lemma NewConfig_secret:
  assumes "\<And>s. rnd = Some s \<Longrightarrow> length s = 32"
  shows "ac_TokenSecret (cf_Auth (NewConfig os rnd)) \<noteq> []"
  using assms by (auto simp: NewConfig_def Let_def generateRandomSecret_def str_def split: option.splits)

section \<open>Properties\<close>

text \<open>Whatever the environment holds, the configuration is usable: the token secret is never empty,
  also when no secret is set or the system has no randomness, every number is a 64-bit integer, an
  integer variable has the value it spells out, and one that spells none is the default.\<close>

theorem config_total:
  assumes "\<And>s. rnd = Some s \<Longrightarrow> length s = 32"
  shows "ac_TokenSecret (cf_Auth (NewConfig os rnd)) \<noteq> [] \<and>
    (\<forall>x \<in> {sv_Port (cf_Server (NewConfig os rnd)), sv_TCPPort (cf_Server (NewConfig os rnd)),
        st_ShardCount (cf_Store (NewConfig os rnd))}. - (2 ^ 63) \<le> x \<and> x < 2 ^ 63) \<and>
    (\<forall>x. - (2 ^ 63) \<le> x \<and> x < 2 ^ 63 \<and> os EnvShardCount = Some (Itoa x) \<longrightarrow> st_ShardCount (cf_Store (NewConfig os rnd)) = x) \<and>
    (Option.bind (os EnvShardCount) (\<lambda>v. Atoi (TrimSpace v)) = None \<longrightarrow> st_ShardCount (cf_Store (NewConfig os rnd)) = 64)"
proof (intro conjI)
  show "ac_TokenSecret (cf_Auth (NewConfig os rnd)) \<noteq> []" by (rule NewConfig_secret [OF assms])
  show "\<forall>x \<in> {sv_Port (cf_Server (NewConfig os rnd)), sv_TCPPort (cf_Server (NewConfig os rnd)),
        st_ShardCount (cf_Store (NewConfig os rnd))}. - (2 ^ 63) \<le> x \<and> x < 2 ^ 63" by (rule NewConfig_ranges)
  have "getEnvAsInt os EnvShardCount DefaultShardCount = x" if "- (2 ^ 63) \<le> x" "x < 2 ^ 63" "os EnvShardCount = Some (Itoa x)" for x
    using getEnvAsInt_Itoa(1) [OF that(1,2), of os EnvShardCount "[]" "[]"] that(3) by simp
  then show "\<forall>x. - (2 ^ 63) \<le> x \<and> x < 2 ^ 63 \<and> os EnvShardCount = Some (Itoa x) \<longrightarrow> st_ShardCount (cf_Store (NewConfig os rnd)) = x"
    by (simp add: NewConfig_def Let_def)
  show "Option.bind (os EnvShardCount) (\<lambda>v. Atoi (TrimSpace v)) = None \<longrightarrow> st_ShardCount (cf_Store (NewConfig os rnd)) = 64"
    by (auto simp: NewConfig_def Let_def getEnvAsInt_def DefaultShardCount_def split: option.splits)
qed

theorem config_total_witness:
  "st_ShardCount (cf_Store (NewConfig [EnvShardCount \<mapsto> str '' 16x''] None)) = 64 \<and>
   st_ShardCount (cf_Store (NewConfig [EnvShardCount \<mapsto> Itoa 16] None)) = 16"
proof -
  have "Option.bind ([EnvShardCount \<mapsto> str '' 16x''] EnvShardCount) (\<lambda>v. Atoi (TrimSpace v)) = None" by code_simp
  then show ?thesis
    using config_total [of None "[EnvShardCount \<mapsto> str '' 16x'']"] config_total [of None "[EnvShardCount \<mapsto> Itoa 16]"] by simp
qed

end
