(* ===== verification/Http_Types.thy ===== *)
theory Http_Types
  imports Go_Text Bucket_Manager
begin

text \<open>
  The requests and responses of \<open>internal/transport/http/types.go\<close>: how a JSON body becomes a request
  (\<open>encoding/json\<close> on the parsed value, field by field), the validation of each request, and the
  responses as JSON values.
\<close>

section \<open>JSON values\<close>

text \<open>A number that is an integer literal is a \<open>JInt\<close>, any other a \<open>JFrac\<close>. A string is its content after
  unquoting.\<close>

datatype json =
  JNull | JBool bool | JInt int | JFrac | JStr gostring | JArr "json list" | JObj "(gostring \<times> json) list"

text \<open>Field names match up to case, and up to the two non-ASCII runes that fold to \<open>k\<close> and \<open>s\<close>.\<close>

fun fold_name :: "gostring \<Rightarrow> gostring" where
  "fold_name (a # b # c # bs) =
     (if a = 0xE2 \<and> b = 0x84 \<and> c = 0xAA then 107 # fold_name bs
      else if a = 0xC5 \<and> b = 0xBF then 115 # fold_name (c # bs)
      else ascii_lower a # fold_name (b # c # bs))"
| "fold_name [a, b] = (if a = 0xC5 \<and> b = 0xBF then [115] else [ascii_lower a, ascii_lower b])"
| "fold_name [a] = [ascii_lower a]"
| "fold_name [] = []"

text \<open>Decoding into a field that holds \<open>cur\<close>; \<open>null\<close> leaves it alone, except that it clears a slice. A type
  error makes the whole decoding fail.\<close>

fun dec_string :: "gostring \<Rightarrow> json \<Rightarrow> gostring option" where
  "dec_string cur (JStr s) = Some s"
| "dec_string cur JNull = Some cur"
| "dec_string cur _ = None"

fun dec_int :: "int \<Rightarrow> json \<Rightarrow> int option" where
  "dec_int cur (JInt n) = (if - (2 ^ 63) \<le> n \<and> n < 2 ^ 63 then Some n else None)"
| "dec_int cur JNull = Some cur"
| "dec_int cur _ = None"

fun dec_bool :: "bool \<Rightarrow> json \<Rightarrow> bool option" where
  "dec_bool cur (JBool b) = Some b"
| "dec_bool cur JNull = Some cur"
| "dec_bool cur _ = None"

fun dec_byte :: "json \<Rightarrow> byte option" where
  "dec_byte (JInt n) = (if 0 \<le> n \<and> n < 256 then Some (word_of_int n) else None)"
| "dec_byte JNull = Some 0"
| "dec_byte _ = None"

fun dec_bytes :: "json \<Rightarrow> byte list option" where
  "dec_bytes (JStr s) = b64std_decode s"
| "dec_bytes JNull = Some []"
| "dec_bytes (JArr xs) = (let bs = map dec_byte xs in if None \<in> set bs then None else Some (map the bs))"
| "dec_bytes _ = None"

section \<open>Requests\<close>

record create_kv_request =
  ck_Key :: gostring
  ck_Value :: "byte list"
  ck_TTL :: int
  ck_SingleRead :: bool

record create_bucket_request =
  cb_Name :: gostring
  cb_Description :: gostring
  cb_ShardCount :: int

record delete_bucket_request =
  db_AuthToken :: gostring

definition kv_member :: "gostring \<times> json \<Rightarrow> create_kv_request \<Rightarrow> create_kv_request option" where
  "kv_member = (\<lambda>(name, v) r.
     if fold_name name = str ''key'' then map_option (\<lambda>s. r\<lparr>ck_Key := s\<rparr>) (dec_string (ck_Key r) v)
     else if fold_name name = str ''value'' then map_option (\<lambda>s. r\<lparr>ck_Value := s\<rparr>) (dec_bytes v)
     else if fold_name name = str ''ttl'' then map_option (\<lambda>s. r\<lparr>ck_TTL := s\<rparr>) (dec_int (ck_TTL r) v)
     else if fold_name name = str ''single_read'' then map_option (\<lambda>s. r\<lparr>ck_SingleRead := s\<rparr>) (dec_bool (ck_SingleRead r) v)
     else Some r)"

definition bucket_member :: "gostring \<times> json \<Rightarrow> create_bucket_request \<Rightarrow> create_bucket_request option" where
  "bucket_member = (\<lambda>(name, v) r.
     if fold_name name = str ''name'' then map_option (\<lambda>s. r\<lparr>cb_Name := s\<rparr>) (dec_string (cb_Name r) v)
     else if fold_name name = str ''description'' then map_option (\<lambda>s. r\<lparr>cb_Description := s\<rparr>) (dec_string (cb_Description r) v)
     else if fold_name name = str ''shard_count'' then map_option (\<lambda>s. r\<lparr>cb_ShardCount := s\<rparr>) (dec_int (cb_ShardCount r) v)
     else Some r)"

definition delete_member :: "gostring \<times> json \<Rightarrow> delete_bucket_request \<Rightarrow> delete_bucket_request option" where
  "delete_member = (\<lambda>(name, v) r.
     if fold_name name = str ''auth_token'' then map_option (\<lambda>s. r\<lparr>db_AuthToken := s\<rparr>) (dec_string (db_AuthToken r) v)
     else Some r)"

fun decode_members :: "(gostring \<times> json \<Rightarrow> 'r \<Rightarrow> 'r option) \<Rightarrow> (gostring \<times> json) list \<Rightarrow> 'r \<Rightarrow> 'r option" where
  "decode_members f [] r = Some r"
| "decode_members f (m # ms) r = Option.bind (f m r) (decode_members f ms)"

fun decode_struct :: "(gostring \<times> json \<Rightarrow> 'r \<Rightarrow> 'r option) \<Rightarrow> 'r \<Rightarrow> json \<Rightarrow> 'r option" where
  "decode_struct f r0 (JObj ms) = decode_members f ms r0"
| "decode_struct f r0 JNull = Some r0"
| "decode_struct f r0 _ = None"

definition decode_create_kv :: "json \<Rightarrow> create_kv_request option" where
  "decode_create_kv = decode_struct kv_member \<lparr>ck_Key = [], ck_Value = [], ck_TTL = 0, ck_SingleRead = False\<rparr>"

definition decode_create_bucket :: "json \<Rightarrow> create_bucket_request option" where
  "decode_create_bucket = decode_struct bucket_member \<lparr>cb_Name = [], cb_Description = [], cb_ShardCount = 0\<rparr>"

definition decode_delete_bucket :: "json \<Rightarrow> delete_bucket_request option" where
  "decode_delete_bucket = decode_struct delete_member \<lparr>db_AuthToken = []\<rparr>"

section \<open>Validation\<close>

text \<open>\<open>Validate\<close> normalises its receiver and returns an error message or nothing: here the message, or the
  normalised request.\<close>

definition CreateKVRequest_Validate :: "create_kv_request \<Rightarrow> gostring + create_kv_request" where
  "CreateKVRequest_Validate r0 =
     (let r = r0\<lparr>ck_Key := TrimSpace (ck_Key r0)\<rparr>
      in if ck_Key r = [] then Inl (str ''key is required'')
         else if 255 < length (ck_Key r) then Inl (str ''key too long (max 255)'')
         else if length (ck_Value r) = 0 then Inl (str ''value is required'')
         else if ck_TTL r < 0 then Inl (str ''ttl must be non-negative'')
         else Inr r)"

definition name_byte :: "byte \<Rightarrow> bool" where
  "name_byte c \<longleftrightarrow> (97 \<le> c \<and> c \<le> 122) \<or> (48 \<le> c \<and> c \<le> 57) \<or> c = 45"

text \<open>The loop of the last check ranges over runes; a rune outside ASCII has only bytes outside ASCII, so
  it fails exactly when some byte is not a name byte.\<close>

definition CreateBucketRequest_Validate ::
  "(gostring \<Rightarrow> gostring) \<Rightarrow> create_bucket_request \<Rightarrow> gostring + create_bucket_request" where
  "CreateBucketRequest_Validate unicode_lower r0 =
     (let r = r0\<lparr>cb_Name := TrimSpace (ToLower unicode_lower (cb_Name r0)), cb_Description := TrimSpace (cb_Description r0)\<rparr>
      in if cb_Name r = [] then Inl (str ''bucket name is required'')
         else if 63 < length (cb_Name r) then Inl (str ''bucket name too long (max 63)'')
         else if 256 < length (cb_Description r) then Inl (str ''description too long (max 256)'')
         else if cb_ShardCount r < 0 then Inl (str ''shard count must be non-negative'')
         else if \<not> list_all name_byte (cb_Name r)
         then Inl (str ''bucket name must contain only lowercase letters, numbers, and hyphens'')
         else Inr r)"

definition DeleteBucketRequest_Validate :: "delete_bucket_request \<Rightarrow> gostring + delete_bucket_request" where
  "DeleteBucketRequest_Validate r = (if db_AuthToken r = [] then Inl (str ''auth token is required'') else Inr r)"

section \<open>Responses\<close>

record kv_response =
  kr_Key :: gostring
  kr_Value :: "byte list"
  kr_CreatedAt :: gostring
  kr_ExpiresAt :: gostring

record bucket_response =
  br_ID :: gostring
  br_Name :: gostring
  br_Description :: gostring
  br_CreatedAt :: gostring
  br_ShardCount :: int
  br_KeyCount :: int
  br_MemoryUsage :: int
  br_AuthToken :: gostring

record bucket_list_response =
  bl_Buckets :: "bucket_response list"
  bl_Count :: int

definition kvResponseFromEntry :: "int \<Rightarrow> storage_entry \<Rightarrow> kv_response" where
  "kvResponseFromEntry zone entry =
     \<lparr>kr_Key = se_Key entry, kr_Value = se_Value entry, kr_CreatedAt = Format_RFC3339 zone (se_CreatedAt entry),
      kr_ExpiresAt = Format_RFC3339 zone (se_ExpiresAt entry)\<rparr>"

definition bucketResponse :: "int \<Rightarrow> bucket_metadata \<Rightarrow> gostring \<Rightarrow> bucket_response" where
  "bucketResponse zone meta token =
     \<lparr>br_ID = bk_ID meta, br_Name = bk_Name meta, br_Description = bk_Description meta,
      br_CreatedAt = Format_RFC3339 zone (bk_CreatedAt meta), br_ShardCount = bk_ShardCount meta,
      br_KeyCount = bk_KeyCount meta, br_MemoryUsage = bk_MemoryUsage meta, br_AuthToken = token\<rparr>"

definition bucketListResponse :: "int \<Rightarrow> bucket_metadata list \<Rightarrow> bucket_list_response" where
  "bucketListResponse zone buckets =
     \<lparr>bl_Buckets = map (\<lambda>b. bucketResponse zone b []) buckets, bl_Count = int (length buckets)\<rparr>"

text \<open>The encoder writes strings as valid UTF-8 and leaves out empty fields that are tagged so.\<close>

definition json_string :: "gostring \<Rightarrow> json" where
  "json_string s = JStr (to_valid_utf8 s)"

definition omit_empty :: "gostring \<Rightarrow> gostring \<Rightarrow> (gostring \<times> json) list" where
  "omit_empty name s = (if s = [] then [] else [(name, json_string s)])"

definition kv_json :: "kv_response \<Rightarrow> json" where
  "kv_json r = JObj (omit_empty (str ''key'') (kr_Key r) @ omit_empty (str ''value'') (kr_Value r) @
     omit_empty (str ''created_at'') (kr_CreatedAt r) @ omit_empty (str ''expires_at'') (kr_ExpiresAt r))"

definition bucket_json :: "bucket_response \<Rightarrow> json" where
  "bucket_json r = JObj ([(str ''id'', json_string (br_ID r)), (str ''name'', json_string (br_Name r)),
     (str ''description'', json_string (br_Description r)), (str ''created_at'', json_string (br_CreatedAt r)),
     (str ''shard_count'', JInt (br_ShardCount r)), (str ''key_count'', JInt (br_KeyCount r)),
     (str ''memory_usage'', JInt (br_MemoryUsage r))] @ omit_empty (str ''auth_token'') (br_AuthToken r))"

definition bucket_list_json :: "bucket_list_response \<Rightarrow> json" where
  "bucket_list_json r = JObj [(str ''buckets'', JArr (map bucket_json (bl_Buckets r))), (str ''count'', JInt (bl_Count r))]"

section \<open>What validation guarantees\<close>

lemma kv_validate_Inr:
  "CreateKVRequest_Validate r0 = Inr r \<longleftrightarrow>
    r = r0\<lparr>ck_Key := TrimSpace (ck_Key r0)\<rparr> \<and> ck_Key r \<noteq> [] \<and> length (ck_Key r) \<le> 255 \<and> ck_Value r \<noteq> [] \<and> 0 \<le> ck_TTL r"
  by (auto simp: CreateKVRequest_Validate_def Let_def)

lemma bucket_validate_Inr:
  "CreateBucketRequest_Validate ul r0 = Inr r \<longleftrightarrow>
    r = r0\<lparr>cb_Name := TrimSpace (ToLower ul (cb_Name r0)), cb_Description := TrimSpace (cb_Description r0)\<rparr> \<and>
    cb_Name r \<noteq> [] \<and> length (cb_Name r) \<le> 63 \<and> length (cb_Description r) \<le> 256 \<and> 0 \<le> cb_ShardCount r \<and>
    list_all name_byte (cb_Name r)"
  by (auto simp: CreateBucketRequest_Validate_def Let_def)

lemma kv_validate_idem: "CreateKVRequest_Validate r0 = Inr r \<Longrightarrow> CreateKVRequest_Validate r = Inr r"
  by (auto simp: kv_validate_Inr)

lemma name_byte_ascii: "name_byte c \<Longrightarrow> c < 128 \<and> ascii_lower c = c \<and> 33 \<le> c \<and> c \<noteq> 46"
  by (auto simp: name_byte_def ascii_lower_def word_le_nat_alt word_less_nat_alt)

lemma ToLower_name: "list_all name_byte s \<Longrightarrow> ToLower ul s = s"
proof -
  assume n: "list_all name_byte s"
  then have "list_all (\<lambda>b. b < 128) s" "\<forall>b \<in> set s. ascii_lower b = b"
    using name_byte_ascii by (auto simp: list_all_iff)
  then show ?thesis by (simp add: ToLower_def map_idI)
qed

lemma TrimSpace_name: "list_all name_byte s \<Longrightarrow> s \<noteq> [] \<Longrightarrow> TrimSpace s = s"
  using name_byte_ascii by (intro TrimSpace_plain) (auto simp: list_all_iff)

lemma bucket_validate_idem:
  "CreateBucketRequest_Validate ul r0 = Inr r \<Longrightarrow> CreateBucketRequest_Validate ul r = Inr r"
  by (auto simp: bucket_validate_Inr ToLower_name TrimSpace_name)

text \<open>A key-value request as a client writes it is read back.\<close>

definition kv_request_json :: "create_kv_request \<Rightarrow> json" where
  "kv_request_json r = JObj [(str ''key'', JStr (ck_Key r)), (str ''value'', JStr (b64std_encode (ck_Value r))),
     (str ''ttl'', JInt (ck_TTL r)), (str ''single_read'', JBool (ck_SingleRead r))]"

lemma field_names:
  "fold_name (str ''key'') = str ''key''" "fold_name (str ''value'') = str ''value''"
  "fold_name (str ''ttl'') = str ''ttl''" "fold_name (str ''single_read'') = str ''single_read''"
  "str ''value'' \<noteq> str ''key''" "str ''ttl'' \<noteq> str ''key''" "str ''ttl'' \<noteq> str ''value''"
  "str ''single_read'' \<noteq> str ''key''" "str ''single_read'' \<noteq> str ''value''" "str ''single_read'' \<noteq> str ''ttl''"
  by (simp_all add: str_def ascii_lower_def)

lemma decode_kv_request:
  assumes "- (2 ^ 63) \<le> ck_TTL r" "ck_TTL r < 2 ^ 63"
  shows "decode_create_kv (kv_request_json r) = Some r"
  using assms by (simp add: decode_create_kv_def kv_request_json_def kv_member_def field_names b64std_round_trip)

end
