(* ===== verification/Http_Transport.thy ===== *)
theory Http_Transport
  imports Http_Types Services
begin

text \<open>
  What surrounds the HTTP handlers: the request and its context (\<open>internal/util/context.go\<close>), reading a JSON
  body (\<open>internal/util/http_request.go\<close>), writing a response (\<open>internal/util/http_response.go\<close>), and the
  middleware chain of \<open>internal/transport/http/middleware\<close>. A handler is a state transformer that may
  panic; \<open>Recovery\<close> is where panics end.
\<close>

section \<open>Requests, responses, state\<close>

text \<open>The target is \<open>*\<close> or the escaped path of the URL (\<open>URL.EscapedPath\<close>), cut at the slashes after the first: the path
  \<open>/\<close> is one empty segment, an empty path none. The body is the parsed JSON value with the number of
  bytes read for it, or nothing when it does not parse. Path values and the two context values are
  filled in on the way to the handler.\<close>

datatype request_target = Asterisk | UrlPath "gostring list"

record http_request =
  rq_Method :: gostring
  rq_Target :: request_target
  rq_Header :: "(gostring \<times> gostring) list"
  rq_Body :: "(nat \<times> json) option"
  rq_PathValues :: "(gostring \<times> gostring) list"
  rq_BucketName :: "gostring option"
  rq_CorrelationID :: "gostring option"

text \<open>A status of 0 means that no header was written yet. \<open>rw_Recorded\<close> is the status code that the
  logging wrapper remembers.\<close>

record response_writer =
  rw_Header :: "(gostring \<times> gostring) list"
  rw_Status :: int
  rw_Body :: "json list"
  rw_Recorded :: int

datatype log_event =
    LogRequest gostring gostring "gostring list"
  | LogResponse bool gostring int
  | LogPanic go_panic

record http_state =
  hs_bm :: bucket_manager
  hs_log :: "log_event list"

text \<open>What one request reads from its surroundings: the clocks and draws, the token manager, the hash
  function, the identifiers that the uuid module would give a new bucket and the request, the time zone
  and the Unicode tables.\<close>

record world =
  wd_env :: env
  wd_auth :: auth_state
  wd_hash :: hasher
  wd_bucketID :: gostring
  wd_corrID :: gostring
  wd_zone :: int
  wd_lower :: "gostring \<Rightarrow> gostring"

type_synonym http_result = "go_panic option \<times> response_writer \<times> http_state"
type_synonym http_handler = "http_request \<Rightarrow> response_writer \<Rightarrow> http_state \<Rightarrow> http_result"

section \<open>Headers, path values, context\<close>

text \<open>\<open>url.PathUnescape\<close>, with what \<open>ServeMux\<close> does for an invalid escape: the text as it is.\<close>

definition hex_digit :: "byte \<Rightarrow> byte option" where
  "hex_digit c =
     (if 48 \<le> c \<and> c \<le> 57 then Some (c - 48)
      else if 97 \<le> c \<and> c \<le> 102 then Some (c - 87)
      else if 65 \<le> c \<and> c \<le> 70 then Some (c - 55) else None)"

fun percent_decode :: "gostring \<Rightarrow> gostring option" where
  "percent_decode [] = Some []"
| "percent_decode (c # cs) =
     (if c \<noteq> 37 then map_option ((#) c) (percent_decode cs)
      else case cs of
        a # b # ds \<Rightarrow>
          (case (hex_digit a, hex_digit b) of
             (Some x, Some y) \<Rightarrow> map_option ((#) (16 * x + y)) (percent_decode ds)
           | _ \<Rightarrow> None)
      | _ \<Rightarrow> None)"

definition pathUnescape :: "gostring \<Rightarrow> gostring" where
  "pathUnescape s = (case percent_decode s of Some t \<Rightarrow> t | None \<Rightarrow> s)"

text \<open>The segments of \<open>r.URL.Path\<close>.\<close>

definition rq_Path :: "http_request \<Rightarrow> gostring list" where
  "rq_Path r = (case rq_Target r of Asterisk \<Rightarrow> [[42]] | UrlPath xs \<Rightarrow> map pathUnescape xs)"

text \<open>\<open>textproto.CanonicalMIMEHeaderKey\<close>: a capital after the start and after each hyphen.\<close>

fun canonical :: "bool \<Rightarrow> gostring \<Rightarrow> gostring" where
  "canonical up [] = []"
| "canonical up (c # cs) =
     (let c' = (if up \<and> 97 \<le> c \<and> c \<le> 122 then c - 32 else if \<not> up \<and> 65 \<le> c \<and> c \<le> 90 then c + 32 else c)
      in c' # canonical (c' = 45) cs)"

definition Header_Get :: "(gostring \<times> gostring) list \<Rightarrow> gostring \<Rightarrow> gostring" where
  "Header_Get hs name = (case map_of hs (canonical True name) of Some v \<Rightarrow> v | None \<Rightarrow> [])"

definition Header_Set :: "response_writer \<Rightarrow> gostring \<Rightarrow> gostring \<Rightarrow> response_writer" where
  "Header_Set w name v =
     w\<lparr>rw_Header := (canonical True name, v) # filter (\<lambda>(k, x). k \<noteq> canonical True name) (rw_Header w)\<rparr>"

definition PathValue :: "http_request \<Rightarrow> gostring \<Rightarrow> gostring" where
  "PathValue r name = (case map_of (rq_PathValues r) name of Some v \<Rightarrow> v | None \<Rightarrow> [])"

definition SetBucketName :: "http_request \<Rightarrow> gostring \<Rightarrow> http_request" where
  "SetBucketName r b = r\<lparr>rq_BucketName := Some b\<rparr>"

definition GetBucketName :: "http_request \<Rightarrow> gostring option" where
  "GetBucketName r = rq_BucketName r"

definition SetCorrelationID :: "http_request \<Rightarrow> gostring \<Rightarrow> http_request" where
  "SetCorrelationID r c = r\<lparr>rq_CorrelationID := Some c\<rparr>"

definition GetCorrelationID :: "http_request \<Rightarrow> gostring" where
  "GetCorrelationID r = (case rq_CorrelationID r of Some c \<Rightarrow> c | None \<Rightarrow> [])"

section \<open>Reading and writing JSON\<close>

definition DefaultMaxBodySize :: int where "DefaultMaxBodySize = 2 ^ 20"

definition ReadJSONBodyWithLimit :: "http_request \<Rightarrow> int \<Rightarrow> json option" where
  "ReadJSONBodyWithLimit r maxSize0 =
     (let maxSize = (if maxSize0 \<le> 0 then DefaultMaxBodySize else maxSize0)
      in case rq_Body r of
           None \<Rightarrow> None
         | Some (n, v) \<Rightarrow> if maxSize < int n then None else Some v)"

definition ReadJSONBody :: "http_request \<Rightarrow> json option" where
  "ReadJSONBody r = ReadJSONBodyWithLimit r DefaultMaxBodySize"

text \<open>Only the first status counts, and a 204 has no body.\<close>

definition WriteHeader :: "response_writer \<Rightarrow> int \<Rightarrow> response_writer" where
  "WriteHeader w code = w\<lparr>rw_Status := (if rw_Status w = 0 then code else rw_Status w), rw_Recorded := code\<rparr>"

definition write_JSON :: "response_writer \<Rightarrow> int \<Rightarrow> json \<Rightarrow> response_writer" where
  "write_JSON w0 status data =
     (let w = WriteHeader (Header_Set w0 (str ''Content-Type'') (str ''application/json'')) status
      in if rw_Status w = 204 then w else w\<lparr>rw_Body := rw_Body w @ [data]\<rparr>)"

definition write_JSONError :: "world \<Rightarrow> response_writer \<Rightarrow> int \<Rightarrow> gostring \<Rightarrow> response_writer" where
  "write_JSONError W w status message =
     write_JSON w status (JObj [(str ''error'', json_string message),
       (str ''timestamp'', json_string (Format_RFC3339 (wd_zone W) (env_now (wd_env W))))])"

definition WriteCreated :: "response_writer \<Rightarrow> json \<Rightarrow> response_writer" where
  "WriteCreated w data = write_JSON w 201 data"

definition WriteOK :: "response_writer \<Rightarrow> json \<Rightarrow> response_writer" where
  "WriteOK w data = write_JSON w 200 data"

definition WriteBadRequest :: "world \<Rightarrow> response_writer \<Rightarrow> gostring \<Rightarrow> response_writer" where
  "WriteBadRequest W w message = write_JSONError W w 400 message"

definition WriteNotFound :: "world \<Rightarrow> response_writer \<Rightarrow> gostring \<Rightarrow> response_writer" where
  "WriteNotFound W w message = write_JSONError W w 404 message"

definition WriteConflict :: "world \<Rightarrow> response_writer \<Rightarrow> gostring \<Rightarrow> response_writer" where
  "WriteConflict W w message = write_JSONError W w 409 message"

definition WriteInternalError :: "world \<Rightarrow> response_writer \<Rightarrow> response_writer" where
  "WriteInternalError W w = write_JSONError W w 500 (str ''Internal server error'')"

definition WriteUnauthorized :: "world \<Rightarrow> response_writer \<Rightarrow> gostring \<Rightarrow> response_writer" where
  "WriteUnauthorized W w message = write_JSONError W w 401 message"

definition WriteNoContent :: "response_writer \<Rightarrow> gostring \<Rightarrow> response_writer" where
  "WriteNoContent w message = write_JSON w 204 (json_string message)"

section \<open>Middleware\<close>

definition Recovery :: "world \<Rightarrow> http_handler \<Rightarrow> http_handler" where
  "Recovery W next r w s =
     (case next r w s of
        (Some p, w', s') \<Rightarrow> (None, WriteInternalError W w', s'\<lparr>hs_log := hs_log s' @ [LogPanic p]\<rparr>)
      | (None, w', s') \<Rightarrow> (None, w', s'))"

definition CorrelationIDHeader :: gostring where "CorrelationIDHeader = str ''X-Correlation-ID''"

definition Correlation :: "world \<Rightarrow> http_handler \<Rightarrow> http_handler" where
  "Correlation W next r w s =
     (let h = Header_Get (rq_Header r) CorrelationIDHeader;
          correlationID = (if h = [] then wd_corrID W else h)
      in next (SetCorrelationID r correlationID) (Header_Set w CorrelationIDHeader correlationID) s)"

text \<open>The response is logged when the wrapped handler returns; a panic passes by.\<close>

definition Logger :: "http_handler \<Rightarrow> http_handler" where
  "Logger next r w s =
     (let correlationID = GetCorrelationID r;
          s1 = s\<lparr>hs_log := hs_log s @ [LogRequest correlationID (rq_Method r) (rq_Path r)]\<rparr>
      in case next r (w\<lparr>rw_Recorded := 0\<rparr>) s1 of
           (Some p, w', s') \<Rightarrow> (Some p, w', s')
         | (None, w', s') \<Rightarrow>
             (None, w', s'\<lparr>hs_log := hs_log s' @ [LogResponse (500 \<le> rw_Recorded w') correlationID (rw_Recorded w')]\<rparr>))"

definition Auth :: "world \<Rightarrow> http_handler \<Rightarrow> http_handler" where
  "Auth W next r w s =
     (let bucketName = PathValue r (str ''bucket'')
      in if bucketName = [] then (None, WriteBadRequest W w (str ''Bucket name is required''), s)
         else let tokenStr = Header_Get (rq_Header r) (str ''X-Bucket-Token'')
              in if tokenStr = [] then (None, WriteUnauthorized W w (str ''X-Bucket-Token header is required''), s)
                 else case auth_Manager (wd_auth W) of
                   Inl p \<Rightarrow> (Some p, w, s)
                 | Inr tm \<Rightarrow>
                     if \<not> ValidateToken (wd_env W) tm tokenStr bucketName
                     then (None, WriteUnauthorized W w (str ''Invalid bucket token''), s)
                     else next (SetBucketName r bucketName) w s)"

definition ApplyMiddleware :: "http_handler \<Rightarrow> (http_handler \<Rightarrow> http_handler) list \<Rightarrow> http_handler" where
  "ApplyMiddleware h middlewares = foldr (\<lambda>m. m) middlewares h"

end
