(* ===== verification/Http_Server.thy ===== *)
theory Http_Server
  imports Http_Transport
begin

text \<open>
  The handlers of \<open>internal/transport/http/handlers.go\<close> and the routes of
  \<open>internal/transport/http/router.go\<close>, with what \<open>http.ServeMux\<close> does with them.
\<close>

section \<open>Key-value handlers\<close>

definition Handlers_CreateKV :: "world \<Rightarrow> http_handler" where
  "Handlers_CreateKV W r w s =
     (case GetBucketName r of
        None \<Rightarrow> (None, WriteUnauthorized W w (str ''Unauthorized''), s)
      | Some bucketName \<Rightarrow>
          (case Option.bind (ReadJSONBody r) decode_create_kv of
             None \<Rightarrow> (None, WriteBadRequest W w (str ''Invalid JSON''), s)
           | Some req0 \<Rightarrow>
               (case CreateKVRequest_Validate req0 of
                  Inl msg \<Rightarrow> (None, WriteBadRequest W w msg, s)
                | Inr req \<Rightarrow>
                    (case StorageService_Set (wd_env W) (wd_hash W) (hs_bm s) bucketName (ck_Key req) (ck_Value req)
                            (ck_TTL req) (ck_SingleRead req) of
                       (Panic p, bm) \<Rightarrow> (Some p, w, s\<lparr>hs_bm := bm\<rparr>)
                     | (Err e, bm) \<Rightarrow>
                         (None,
                          (case e of
                             ErrInvalidTTL \<Rightarrow> WriteBadRequest W w (str ''Invalid TTL'')
                           | ErrUnauthorized \<Rightarrow> WriteUnauthorized W w (str ''Invalid bucket auth token'')
                           | ErrBucketNotFound \<Rightarrow> WriteNotFound W w (str ''Bucket not found'')
                           | _ \<Rightarrow> WriteInternalError W w), s\<lparr>hs_bm := bm\<rparr>)
                     | (Ok e, bm) \<Rightarrow>
                         (None, WriteCreated w (json_string (str ''Key-value pair stored successfully'')), s\<lparr>hs_bm := bm\<rparr>)))))"

definition Handlers_GetKV :: "world \<Rightarrow> http_handler" where
  "Handlers_GetKV W r w s =
     (let key = PathValue r (str ''key'')
      in case GetBucketName r of
        None \<Rightarrow> (None, WriteUnauthorized W w (str ''Unauthorized''), s)
      | Some bucketName \<Rightarrow>
          if key = [] then (None, WriteBadRequest W w (str ''Key is required''), s)
          else case StorageService_Get (wd_env W) (wd_hash W) (hs_bm s) bucketName key of
            (Panic p, bm) \<Rightarrow> (Some p, w, s\<lparr>hs_bm := bm\<rparr>)
          | (Err e, bm) \<Rightarrow>
              (None,
               (case e of
                  ErrKeyNotFound \<Rightarrow> WriteNotFound W w (str ''Key not found'')
                | ErrKeyExpired \<Rightarrow> WriteNotFound W w (str ''Key expired'')
                | ErrUnauthorized \<Rightarrow> WriteUnauthorized W w (str ''Invalid bucket auth token'')
                | ErrBucketNotFound \<Rightarrow> WriteNotFound W w (str ''Bucket not found'')
                | _ \<Rightarrow> WriteInternalError W w), s\<lparr>hs_bm := bm\<rparr>)
          | (Ok entry, bm) \<Rightarrow>
              (None, WriteOK w (kv_json (kvResponseFromEntry (wd_zone W) entry)), s\<lparr>hs_bm := bm\<rparr>))"

definition Handlers_DeleteKV :: "world \<Rightarrow> http_handler" where
  "Handlers_DeleteKV W r w s =
     (let key = PathValue r (str ''key'')
      in case GetBucketName r of
        None \<Rightarrow> (None, WriteUnauthorized W w (str ''Unauthorized''), s)
      | Some bucketName \<Rightarrow>
          if key = [] then (None, WriteBadRequest W w (str ''Key is required''), s)
          else case StorageService_Delete (wd_hash W) (hs_bm s) bucketName key of
            (Panic p, bm) \<Rightarrow> (Some p, w, s\<lparr>hs_bm := bm\<rparr>)
          | (Err e, bm) \<Rightarrow>
              (None,
               (case e of
                  ErrUnauthorized \<Rightarrow> WriteUnauthorized W w (str ''Invalid bucket auth token'')
                | ErrBucketNotFound \<Rightarrow> WriteNotFound W w (str ''Bucket not found'')
                | _ \<Rightarrow> WriteInternalError W w), s\<lparr>hs_bm := bm\<rparr>)
          | (Ok u, bm) \<Rightarrow> (None, WriteNoContent w (str ''Key deleted successfully''), s\<lparr>hs_bm := bm\<rparr>))"

section \<open>Bucket handlers\<close>

definition Handlers_CreateBucket :: "world \<Rightarrow> http_handler" where
  "Handlers_CreateBucket W r w s =
     (case Option.bind (ReadJSONBody r) decode_create_bucket of
        None \<Rightarrow> (None, WriteBadRequest W w (str ''Invalid JSON''), s)
      | Some req0 \<Rightarrow>
          (case CreateBucketRequest_Validate (wd_lower W) req0 of
             Inl msg \<Rightarrow> (None, WriteBadRequest W w msg, s)
           | Inr req \<Rightarrow>
               (case BucketService_CreateBucket (wd_env W) (wd_auth W) (wd_hash W) (wd_bucketID W) (hs_bm s)
                       (cb_Name req) (cb_Description req) (cb_ShardCount req) of
                  (Panic p, bm) \<Rightarrow> (Some p, w, s\<lparr>hs_bm := bm\<rparr>)
                | (Err e, bm) \<Rightarrow>
                    (None,
                     (case e of
                        ErrBucketAlreadyExists \<Rightarrow> WriteConflict W w (str ''Bucket already exists'')
                      | ErrInvalidBucketName \<Rightarrow> WriteBadRequest W w (str ''Invalid bucket name'')
                      | _ \<Rightarrow> WriteInternalError W w), s\<lparr>hs_bm := bm\<rparr>)
                | (Ok result, bm) \<Rightarrow>
                    (None, WriteCreated w (bucket_json (bucketResponse (wd_zone W) (cbr_Metadata result) (cbr_AuthToken result))),
                     s\<lparr>hs_bm := bm\<rparr>))))"

definition Handlers_GetBucket :: "world \<Rightarrow> http_handler" where
  "Handlers_GetBucket W r w s =
     (let bucketName = PathValue r (str ''bucket'')
      in if bucketName = [] then (None, WriteBadRequest W w (str ''Bucket name is required''), s)
         else case BucketService_GetBucket (wd_hash W) (hs_bm s) bucketName of
           Panic p \<Rightarrow> (Some p, w, s)
         | Err e \<Rightarrow>
             (None,
              (case e of ErrBucketNotFound \<Rightarrow> WriteNotFound W w (str ''Bucket not found'') | _ \<Rightarrow> WriteInternalError W w), s)
         | Ok meta \<Rightarrow> (None, WriteOK w (bucket_json (bucketResponse (wd_zone W) meta [])), s))"

definition Handlers_DeleteBucket :: "world \<Rightarrow> http_handler" where
  "Handlers_DeleteBucket W r w s =
     (let bucketName = PathValue r (str ''bucket'')
      in if bucketName = [] then (None, WriteBadRequest W w (str ''Bucket name is required''), s)
         else case Option.bind (ReadJSONBody r) decode_delete_bucket of
           None \<Rightarrow> (None, WriteBadRequest W w (str ''Invalid JSON''), s)
         | Some req0 \<Rightarrow>
             (case DeleteBucketRequest_Validate req0 of
                Inl msg \<Rightarrow> (None, WriteBadRequest W w msg, s)
              | Inr req \<Rightarrow>
                  (case BucketService_DeleteBucket (wd_env W) (wd_auth W) (hs_bm s) bucketName (db_AuthToken req) of
                     (Panic p, bm) \<Rightarrow> (Some p, w, s\<lparr>hs_bm := bm\<rparr>)
                   | (Err e, bm) \<Rightarrow>
                       (None,
                        (case e of
                           ErrBucketNotFound \<Rightarrow> WriteNotFound W w (str ''Bucket not found'')
                         | ErrUnauthorized \<Rightarrow> WriteUnauthorized W w (str ''Invalid auth token'')
                         | ErrCannotDeleteDefault \<Rightarrow> WriteBadRequest W w (str ''Cannot delete default bucket'')
                         | _ \<Rightarrow> WriteInternalError W w), s\<lparr>hs_bm := bm\<rparr>)
                   | (Ok u, bm) \<Rightarrow> (None, WriteNoContent w (str ''Bucket deleted successfully''), s\<lparr>hs_bm := bm\<rparr>))))"

definition Handlers_ListBuckets :: "world \<Rightarrow> http_handler" where
  "Handlers_ListBuckets W r w s =
     (case BucketService_ListBuckets (wd_hash W) (hs_bm s) of
        Panic p \<Rightarrow> (Some p, w, s)
      | Err e \<Rightarrow> (None, WriteInternalError W w, s)
      | Ok buckets \<Rightarrow> (None, WriteOK w (bucket_list_json (bucketListResponse (wd_zone W) buckets)), s))"

section \<open>Routes\<close>

datatype path_seg = Lit gostring | Wild gostring

record route =
  rt_Method :: gostring
  rt_Pattern :: "path_seg list"
  rt_Handler :: http_handler

text \<open>A wildcard stands for one segment that is not empty.\<close>

fun match_path :: "path_seg list \<Rightarrow> gostring list \<Rightarrow> (gostring \<times> gostring) list option" where
  "match_path [] [] = Some []"
| "match_path (Lit l # ps) (x # xs) = (if l = x then match_path ps xs else None)"
| "match_path (Wild n # ps) (x # xs) = (if x = [] then None else map_option ((#) (n, x)) (match_path ps xs))"
| "match_path _ _ = None"

definition match_method :: "gostring \<Rightarrow> gostring \<Rightarrow> bool" where
  "match_method pat m \<longleftrightarrow> m = pat \<or> (pat = str ''GET'' \<and> m = str ''HEAD'')"

definition mw :: "world \<Rightarrow> (http_handler \<Rightarrow> http_handler) list" where
  "mw W = [Recovery W, Correlation W, Logger, Auth W]"

definition noAuthMw :: "world \<Rightarrow> (http_handler \<Rightarrow> http_handler) list" where
  "noAuthMw W = [Recovery W, Correlation W, Logger]"

definition NewRouter :: "world \<Rightarrow> route list" where
  "NewRouter W =
     (let api = Lit (str ''api''); buckets = Lit (str ''buckets''); kv = Lit (str ''kv'');
          bucket = Wild (str ''bucket''); key = Wild (str ''key'')
      in [\<lparr>rt_Method = str ''POST'', rt_Pattern = [api, buckets], rt_Handler = ApplyMiddleware (Handlers_CreateBucket W) (noAuthMw W)\<rparr>,
          \<lparr>rt_Method = str ''GET'', rt_Pattern = [api, buckets], rt_Handler = ApplyMiddleware (Handlers_ListBuckets W) (mw W)\<rparr>,
          \<lparr>rt_Method = str ''GET'', rt_Pattern = [api, buckets, bucket], rt_Handler = ApplyMiddleware (Handlers_GetBucket W) (mw W)\<rparr>,
          \<lparr>rt_Method = str ''DELETE'', rt_Pattern = [api, buckets, bucket], rt_Handler = ApplyMiddleware (Handlers_DeleteBucket W) (mw W)\<rparr>,
          \<lparr>rt_Method = str ''POST'', rt_Pattern = [api, bucket, kv], rt_Handler = ApplyMiddleware (Handlers_CreateKV W) (mw W)\<rparr>,
          \<lparr>rt_Method = str ''GET'', rt_Pattern = [api, bucket, kv, key], rt_Handler = ApplyMiddleware (Handlers_GetKV W) (mw W)\<rparr>,
          \<lparr>rt_Method = str ''DELETE'', rt_Pattern = [api, bucket, kv, key], rt_Handler = ApplyMiddleware (Handlers_DeleteKV W) (mw W)\<rparr>])"

text \<open>\<open>ServeMux\<close> first cleans the escaped path: empty segments and \<open>.\<close> go, \<open>..\<close> takes the segment before it away, a
  slash at the end stays. A path that this changes is answered with a redirect to the clean one, whether a route
  knows it or not, except for \<open>CONNECT\<close>; the target \<open>*\<close> is a bad request.\<close>

definition clean_segment :: "gostring list \<Rightarrow> gostring \<Rightarrow> gostring list" where
  "clean_segment out x = (if x = [] \<or> x = [46] then out else if x = [46, 46] then butlast out else out @ [x])"

definition cleanPath :: "gostring list \<Rightarrow> gostring list" where
  "cleanPath xs =
     (let out = foldl clean_segment [] xs
      in if out = [] then [[]] else if last xs = [] then out @ [[]] else out)"

definition mux_path :: "http_request \<Rightarrow> gostring list option" where
  "mux_path r =
     (case rq_Target r of
        Asterisk \<Rightarrow> None
      | UrlPath xs \<Rightarrow> if rq_Method r = str ''CONNECT'' \<or> cleanPath xs = xs then Some (map pathUnescape xs) else None)"

text \<open>Then it takes the route that matches; the routes above never compete. A path known under another method is
  answered with 405, an unknown one with 404, both by the mux itself, whose bodies and \<open>Location\<close> are left out.\<close>

definition route_of :: "route list \<Rightarrow> http_request \<Rightarrow> gostring list \<Rightarrow> route option" where
  "route_of routes r path = find (\<lambda>rt. match_method (rt_Method rt) (rq_Method r) \<and> match_path (rt_Pattern rt) path \<noteq> None) routes"

definition ServeMux :: "route list \<Rightarrow> http_handler" where
  "ServeMux routes r w s =
     (if rq_Target r = Asterisk then (None, WriteHeader w 400, s)
      else case mux_path r of
        None \<Rightarrow> (None, WriteHeader w 301, s)
      | Some path \<Rightarrow>
          (case route_of routes r path of
             Some rt \<Rightarrow> rt_Handler rt (r\<lparr>rq_PathValues := the (match_path (rt_Pattern rt) path)\<rparr>) w s
           | None \<Rightarrow>
               (None, WriteHeader w (if \<exists>rt \<in> set routes. match_path (rt_Pattern rt) path \<noteq> None then 405 else 404), s)))"

definition new_writer :: response_writer where
  "new_writer = \<lparr>rw_Header = [], rw_Status = 0, rw_Body = [], rw_Recorded = 0\<rparr>"

definition http_serve :: "world \<Rightarrow> http_request \<Rightarrow> http_state \<Rightarrow> http_result" where
  "http_serve W r s = ServeMux (NewRouter W) r new_writer s"

section \<open>What a chain of middleware answers\<close>

text \<open>The visible result of a handler under \<open>Recovery\<close>: status, body and buckets.\<close>

definition reply :: "world \<Rightarrow> http_result \<Rightarrow> int \<times> json list \<times> bucket_manager" where
  "reply W res =
     (case res of
        (None, w, s) \<Rightarrow> (rw_Status w, rw_Body w, hs_bm s)
      | (Some p, w, s) \<Rightarrow> (rw_Status (WriteInternalError W w), rw_Body (WriteInternalError W w), hs_bm s))"

definition error_body :: "world \<Rightarrow> gostring \<Rightarrow> json list" where
  "error_body W message =
     [JObj [(str ''error'', json_string message),
            (str ''timestamp'', json_string (Format_RFC3339 (wd_zone W) (env_now (wd_env W))))]]"

text \<open>The writer and the state that a handler under the logger sees.\<close>

definition fresh :: "response_writer \<Rightarrow> bool" where
  "fresh w \<longleftrightarrow> rw_Status w = 0 \<and> rw_Body w = []"

lemma fresh_simps [simp]:
  "fresh new_writer" "fresh (Header_Set w n v) = fresh w" "fresh (w\<lparr>rw_Recorded := c\<rparr>) = fresh w"
  by (simp_all add: fresh_def new_writer_def Header_Set_def)

lemma write_fresh:
  assumes "fresh w" "c \<noteq> 0"
  shows "rw_Status (write_JSON w c d) = c" "rw_Body (write_JSON w c d) = (if c = 204 then [] else [d])"
  using assms by (simp_all add: write_JSON_def WriteHeader_def Header_Set_def fresh_def Let_def)

lemmas writes = WriteCreated_def WriteOK_def WriteBadRequest_def WriteNotFound_def WriteConflict_def
  WriteInternalError_def WriteUnauthorized_def WriteNoContent_def write_JSONError_def

lemma written:
  assumes "fresh w"
  shows "rw_Status (WriteCreated w d) = 201" "rw_Body (WriteCreated w d) = [d]"
    "rw_Status (WriteOK w d) = 200" "rw_Body (WriteOK w d) = [d]"
    "rw_Status (WriteBadRequest W w m) = 400" "rw_Body (WriteBadRequest W w m) = error_body W m"
    "rw_Status (WriteNotFound W w m) = 404" "rw_Body (WriteNotFound W w m) = error_body W m"
    "rw_Status (WriteConflict W w m) = 409" "rw_Body (WriteConflict W w m) = error_body W m"
    "rw_Status (WriteInternalError W w) = 500" "rw_Body (WriteInternalError W w) = error_body W (str ''Internal server error'')"
    "rw_Status (WriteUnauthorized W w m) = 401" "rw_Body (WriteUnauthorized W w m) = error_body W m"
    "rw_Status (WriteNoContent w m) = 204" "rw_Body (WriteNoContent w m) = []"
  using assms by (simp_all add: writes write_fresh error_body_def)

text \<open>Both chains answer what their inner handler answers, and no panic leaves them.\<close>

definition inner_request :: "world \<Rightarrow> http_request \<Rightarrow> http_request" where
  "inner_request W r =
     (let h = Header_Get (rq_Header r) CorrelationIDHeader in SetCorrelationID r (if h = [] then wd_corrID W else h))"

lemma inner_request_simps [simp]:
  "PathValue (inner_request W r) n = PathValue r n" "ReadJSONBody (inner_request W r) = ReadJSONBody r"
  "rq_Header (inner_request W r) = rq_Header r"
  "PathValue (SetBucketName r b) n = PathValue r n" "ReadJSONBody (SetBucketName r b) = ReadJSONBody r"
  "GetBucketName (SetBucketName r b) = Some b"
  by (simp_all add: inner_request_def SetCorrelationID_def SetBucketName_def PathValue_def ReadJSONBody_def
      ReadJSONBodyWithLimit_def GetBucketName_def Let_def)

lemma noAuth_chain:
  assumes "fresh w"
  obtains w1 s1 where "fresh w1" "hs_bm s1 = hs_bm s"
    "fst (ApplyMiddleware h (noAuthMw W) r w s) = None"
    "reply W (ApplyMiddleware h (noAuthMw W) r w s) = reply W (h (inner_request W r) w1 s1)"
proof -
  let ?c = "let h = Header_Get (rq_Header r) CorrelationIDHeader in if h = [] then wd_corrID W else h"
  let ?w1 = "(Header_Set w CorrelationIDHeader ?c)\<lparr>rw_Recorded := 0\<rparr>"
  let ?s1 = "s\<lparr>hs_log := hs_log s @ [LogRequest (GetCorrelationID (inner_request W r)) (rq_Method r) (rq_Path r)]\<rparr>"
  obtain p w' s' where h: "h (inner_request W r) ?w1 ?s1 = (p, w', s')" by (cases "h (inner_request W r) ?w1 ?s1") auto
  have "rq_Method (inner_request W r) = rq_Method r" "rq_Path (inner_request W r) = rq_Path r"
    by (simp_all add: inner_request_def SetCorrelationID_def Let_def rq_Path_def)
  then have e: "ApplyMiddleware h (noAuthMw W) r w s = Recovery W (Correlation W (Logger h)) r w s"
    "Correlation W (Logger h) r w s =
      (case p of Some q \<Rightarrow> (Some q, w', s')
       | None \<Rightarrow> (None, w', s'\<lparr>hs_log := hs_log s' @
           [LogResponse (500 \<le> rw_Recorded w') (GetCorrelationID (inner_request W r)) (rw_Recorded w')]\<rparr>))"
    using h by (simp_all add: ApplyMiddleware_def noAuthMw_def Correlation_def Logger_def inner_request_def Let_def split: option.split)
  have "fst (ApplyMiddleware h (noAuthMw W) r w s) = None"
    "reply W (ApplyMiddleware h (noAuthMw W) r w s) = reply W (h (inner_request W r) ?w1 ?s1)"
    unfolding e(1) Recovery_def e(2) h by (cases p; simp add: reply_def)+
  then show thesis using that [of ?w1 ?s1] assms by simp
qed

text \<open>With \<open>Auth\<close> the inner handler runs exactly for a valid token of the bucket in the path.\<close>

definition authorized :: "world \<Rightarrow> http_request \<Rightarrow> gostring \<Rightarrow> bool" where
  "authorized W r b \<longleftrightarrow>
     (\<exists>tm. wd_auth W = Some tm \<and> ValidateToken (wd_env W) tm (Header_Get (rq_Header r) (str ''X-Bucket-Token'')) b)"

lemma authorized_name: "authorized W r b \<Longrightarrow> b \<noteq> []"
  by (auto simp: authorized_def ValidateToken_iff)

lemma empty_token_invalid: "\<not> ValidateToken env tm [] b"
  by (auto simp: ValidateToken_iff b64_decode_def)

lemma mw_chain:
  assumes "fresh w"
  obtains (refused) "\<not> authorized W r (PathValue r (str ''bucket''))"
      "fst (ApplyMiddleware h (mw W) r w s) = None"
      "\<exists>c m. reply W (ApplyMiddleware h (mw W) r w s) = (c, error_body W m, hs_bm s) \<and>
        c = (if PathValue r (str ''bucket'') = [] then 400
             else if wd_auth W = None \<and> Header_Get (rq_Header r) (str ''X-Bucket-Token'') \<noteq> [] then 500 else 401)"
  | (run) w1 s1 where "authorized W r (PathValue r (str ''bucket''))" "fresh w1" "hs_bm s1 = hs_bm s"
      "fst (ApplyMiddleware h (mw W) r w s) = None"
      "reply W (ApplyMiddleware h (mw W) r w s) =
        reply W (h (SetBucketName (inner_request W r) (PathValue r (str ''bucket''))) w1 s1)"
proof -
  have e: "ApplyMiddleware h (mw W) = ApplyMiddleware (Auth W h) (noAuthMw W)"
    by (simp add: ApplyMiddleware_def mw_def noAuthMw_def)
  obtain w1 s1 where i: "fresh w1" "hs_bm s1 = hs_bm s"
    "fst (ApplyMiddleware h (mw W) r w s) = None"
    "reply W (ApplyMiddleware h (mw W) r w s) = reply W (Auth W h (inner_request W r) w1 s1)"
    unfolding e by (rule noAuth_chain [OF assms])
  show thesis
  proof (cases "authorized W r (PathValue r (str ''bucket''))")
    case True
    then obtain tm where tm: "wd_auth W = Some tm"
      "ValidateToken (wd_env W) tm (Header_Get (rq_Header r) (str ''X-Bucket-Token'')) (PathValue r (str ''bucket''))"
      by (auto simp: authorized_def)
    have "Auth W h (inner_request W r) w1 s1 =
        h (SetBucketName (inner_request W r) (PathValue r (str ''bucket''))) w1 s1"
      using tm authorized_name [OF True] empty_token_invalid by (auto simp: Auth_def auth_Manager_def Let_def)
    then show thesis using run [OF True i(1-3)] i(4) by simp
  next
    case False
    let ?b = "PathValue r (str ''bucket'')" and ?t = "Header_Get (rq_Header r) (str ''X-Bucket-Token'')"
    have "\<exists>c m. reply W (Auth W h (inner_request W r) w1 s1) = (c, error_body W m, hs_bm s) \<and>
        c = (if ?b = [] then 400 else if wd_auth W = None \<and> ?t \<noteq> [] then 500 else 401)"
      using False i(1,2)
      by (auto simp: Auth_def auth_Manager_def Let_def reply_def written authorized_def split: option.split)
    then show thesis using refused [OF False i(3)] i(4) by simp
  qed
qed

section \<open>What each handler answers\<close>

lemma reply_simps:
  "reply W (None, w, s) = (rw_Status w, rw_Body w, hs_bm s)"
  "fresh w \<Longrightarrow> reply W (Some p, w, s) = (500, error_body W (str ''Internal server error''), hs_bm s)"
  by (simp_all add: reply_def written)

text \<open>The routes, by the request that reaches them.\<close>

lemmas route_tests = route_of_def NewRouter_def Let_def match_method_def str_def

text \<open>The requests that are answered with a redirect.\<close>

definition redirected :: "http_request \<Rightarrow> bool" where
  "redirected r \<longleftrightarrow> (\<exists>xs. rq_Target r = UrlPath xs \<and> rq_Method r \<noteq> str ''CONNECT'' \<and> cleanPath xs \<noteq> xs)"

lemma redirected_mux: "redirected r \<longleftrightarrow> rq_Target r \<noteq> Asterisk \<and> mux_path r = None"
  by (cases "rq_Target r") (auto simp: redirected_def mux_path_def)

lemma mux_path_target: "mux_path r = Some path \<Longrightarrow> rq_Target r \<noteq> Asterisk"
  by (auto simp: mux_path_def)

lemma ServeMux_path:
  "mux_path r = Some path \<Longrightarrow>
    ServeMux routes r w s =
      (case route_of routes r path of
         Some rt \<Rightarrow> rt_Handler rt (r\<lparr>rq_PathValues := the (match_path (rt_Pattern rt) path)\<rparr>) w s
       | None \<Rightarrow> (None, WriteHeader w (if \<exists>rt \<in> set routes. match_path (rt_Pattern rt) path \<noteq> None then 405 else 404), s))"
  using mux_path_target [of r path] by (simp add: ServeMux_def)

lemma http_serve_cases:
  assumes "http_serve W r s = (p, w, s')"
  obtains (mux) c where "c \<in> {301, 400, 404, 405}" "p = None" "reply W (p, w, s') = (c, [], hs_bm s)" "c = 301 \<longleftrightarrow> redirected r"
  | (create) r1 where "rq_Header r1 = rq_Header r" "(p, w, s') = ApplyMiddleware (Handlers_CreateBucket W) (noAuthMw W) r1 new_writer s"
      "\<not> redirected r"
  | (other) h r1 where "rq_Header r1 = rq_Header r" "(p, w, s') = ApplyMiddleware h (mw W) r1 new_writer s"
      "h \<in> {Handlers_ListBuckets W, Handlers_GetBucket W, Handlers_DeleteBucket W, Handlers_CreateKV W, Handlers_GetKV W, Handlers_DeleteKV W}"
      "\<not> redirected r"
proof (cases "Option.bind (mux_path r) (route_of (NewRouter W) r)")
  case None
  obtain c where c: "c \<in> {301, 400, 404, 405}" "c = 301 \<longleftrightarrow> redirected r" "ServeMux (NewRouter W) r new_writer s = (None, WriteHeader new_writer c, s)"
  proof (cases "mux_path r")
    assume "mux_path r = None"
    then show thesis
      using that [of "if rq_Target r = Asterisk then 400 else 301"] by (simp add: ServeMux_def redirected_mux)
  next
    fix path assume path: "mux_path r = Some path"
    then have "route_of (NewRouter W) r path = None" using None by simp
    then show thesis using ServeMux_path [OF path, of "NewRouter W" new_writer s] mux_path_target [OF path] path
      by (intro that [of "if \<exists>rt \<in> set (NewRouter W). match_path (rt_Pattern rt) path \<noteq> None then 405 else 404"]) (simp_all add: redirected_mux)
  qed
  from c(3) assms have r: "p = None" "reply W (p, w, s') = (c, [], hs_bm s)" by (auto simp: http_serve_def reply_def WriteHeader_def new_writer_def)
  show thesis by (rule mux [OF c(1) r c(2)])
next
  case (Some rt0)
  then obtain path rt where path: "mux_path r = Some path" and Some: "route_of (NewRouter W) r path = Some rt"
    by (auto simp: bind_eq_Some_conv)
  have "rt \<in> set (NewRouter W)" using Some by (auto simp: route_of_def find_Some_iff)
  then have h: "rt_Handler rt = ApplyMiddleware (Handlers_CreateBucket W) (noAuthMw W) \<or>
      (\<exists>h. rt_Handler rt = ApplyMiddleware h (mw W) \<and>
       h \<in> {Handlers_ListBuckets W, Handlers_GetBucket W, Handlers_DeleteBucket W, Handlers_CreateKV W, Handlers_GetKV W, Handlers_DeleteKV W})"
    by (auto simp: NewRouter_def Let_def)
  let ?r1 = "r\<lparr>rq_PathValues := the (match_path (rt_Pattern rt) path)\<rparr>"
  have "(p, w, s') = rt_Handler rt ?r1 new_writer s" using ServeMux_path [OF path] Some assms by (simp add: http_serve_def)
  moreover have "\<not> redirected r" by (simp add: redirected_mux path)
  ultimately show thesis using h create [of ?r1] other [of ?r1] by auto
qed

definition http_statuses :: "int set" where
  "http_statuses = {200, 201, 204, 400, 401, 404, 405, 409, 500}"

lemma handler_status:
  assumes "fresh w" "h \<in> {Handlers_CreateBucket W, Handlers_ListBuckets W, Handlers_GetBucket W, Handlers_DeleteBucket W,
      Handlers_CreateKV W, Handlers_GetKV W, Handlers_DeleteKV W}"
  shows "fst (reply W (h r w s)) \<in> http_statuses"
proof -
  have "fst (reply W (Handlers_CreateBucket W r w s)) \<in> http_statuses"
    using assms(1) by (auto simp: Handlers_CreateBucket_def reply_simps written http_statuses_def
        split: option.split sum.split outcome.split service_error.split prod.split)
  moreover have "fst (reply W (Handlers_CreateKV W r w s)) \<in> http_statuses"
    using assms(1) by (auto simp: Handlers_CreateKV_def reply_simps written http_statuses_def
        split: option.split sum.split outcome.split service_error.split prod.split)
  moreover have "fst (reply W (Handlers_GetKV W r w s)) \<in> http_statuses" "fst (reply W (Handlers_DeleteKV W r w s)) \<in> http_statuses"
    using assms(1) by (auto simp: Handlers_GetKV_def Handlers_DeleteKV_def reply_simps written http_statuses_def Let_def
        split: option.split outcome.split service_error.split prod.split)
  moreover have "fst (reply W (Handlers_GetBucket W r w s)) \<in> http_statuses" "fst (reply W (Handlers_ListBuckets W r w s)) \<in> http_statuses"
    using assms(1) by (auto simp: Handlers_GetBucket_def Handlers_ListBuckets_def reply_simps written http_statuses_def Let_def
        split: outcome.split service_error.split)
  moreover have "fst (reply W (Handlers_DeleteBucket W r w s)) \<in> http_statuses"
    using assms(1) by (auto simp: Handlers_DeleteBucket_def reply_simps written http_statuses_def Let_def
        split: option.split sum.split outcome.split service_error.split prod.split)
  ultimately show ?thesis using assms(2) by blast
qed

lemma http_serve_answers:
  assumes "http_serve W r s = (p, w, s')"
  shows "p = None" "rw_Status w \<in> insert 301 http_statuses" "rw_Status w = 301 \<longleftrightarrow> redirected r"
proof -
  have "p = None \<and> (if redirected r then fst (reply W (p, w, s')) = 301 else fst (reply W (p, w, s')) \<in> http_statuses)"
    using assms
  proof (cases rule: http_serve_cases)
    case (mux c)
    then show ?thesis by (auto simp: http_statuses_def)
  next
    case (create r1)
    obtain w1 s1 where "fresh w1" "fst (p, w, s') = None" "reply W (p, w, s') = reply W (Handlers_CreateBucket W (inner_request W r1) w1 s1)"
      unfolding create(2) by (rule noAuth_chain [OF fresh_simps(1)])
    then show ?thesis using handler_status [of w1] create(3) by simp
  next
    case (other h r1)
    have "fresh new_writer" by simp
    then show ?thesis
    proof (cases rule: mw_chain [where W = W and r = r1 and h = h and s = s])
      case refused
      from refused(2,3) show ?thesis using other(4) unfolding other(2) [symmetric] by (auto simp: http_statuses_def split: if_split_asm)
    next
      case (run w1 s1)
      have "fst (reply W (h (SetBucketName (inner_request W r1) (PathValue r1 (str ''bucket''))) w1 s1)) \<in> http_statuses"
        using handler_status [OF run(2), of h W] other(3) by blast
      then show ?thesis using run(4,5) other(4) unfolding other(2) [symmetric] by simp
    qed
  qed
  then show "p = None" "rw_Status w \<in> insert 301 http_statuses" "rw_Status w = 301 \<longleftrightarrow> redirected r"
    by (auto simp: reply_simps http_statuses_def split: if_splits)
qed

end
