(* ===== verification/Http_Properties.thy ===== *)
theory Http_Properties
  imports Http_Server
begin

text \<open>
  What the HTTP interface guarantees: every request is answered, a bucket is out of reach without its
  token, requests for keys read and write the abstract map of their bucket, and bucket names are clean.
\<close>

section \<open>Requests that reach a handler\<close>

text \<open>The chains of \<open>NewRouter\<close>, by the method and path of the request.\<close>

lemma serve_create_kv:
  assumes "rq_Method r = str ''POST''" "mux_path r = Some [str ''api'', b, str ''kv'']" "b \<noteq> []"
  shows "http_serve W r s = ApplyMiddleware (Handlers_CreateKV W) (mw W) (r\<lparr>rq_PathValues := [(str ''bucket'', b)]\<rparr>) new_writer s"
  using assms by (simp add: http_serve_def ServeMux_path route_tests)

lemma serve_get_kv:
  assumes "rq_Method r = str ''GET''" "mux_path r = Some [str ''api'', b, str ''kv'', k]" "b \<noteq> []" "k \<noteq> []"
  shows "http_serve W r s = ApplyMiddleware (Handlers_GetKV W) (mw W)
    (r\<lparr>rq_PathValues := [(str ''bucket'', b), (str ''key'', k)]\<rparr>) new_writer s"
  using assms by (simp add: http_serve_def ServeMux_path route_tests)

lemma serve_delete_kv:
  assumes "rq_Method r = str ''DELETE''" "mux_path r = Some [str ''api'', b, str ''kv'', k]" "b \<noteq> []" "k \<noteq> []"
  shows "http_serve W r s = ApplyMiddleware (Handlers_DeleteKV W) (mw W)
    (r\<lparr>rq_PathValues := [(str ''bucket'', b), (str ''key'', k)]\<rparr>) new_writer s"
  using assms by (simp add: http_serve_def ServeMux_path route_tests)

lemma serve_create_bucket:
  assumes "rq_Method r = str ''POST''" "mux_path r = Some [str ''api'', str ''buckets'']"
  shows "http_serve W r s = ApplyMiddleware (Handlers_CreateBucket W) (noAuthMw W) (r\<lparr>rq_PathValues := []\<rparr>) new_writer s"
  using assms by (simp add: http_serve_def ServeMux_path route_tests)

lemma serve_list_buckets:
  assumes "rq_Method r = str ''GET''" "mux_path r = Some [str ''api'', str ''buckets'']"
  shows "http_serve W r s = ApplyMiddleware (Handlers_ListBuckets W) (mw W) (r\<lparr>rq_PathValues := []\<rparr>) new_writer s"
  using assms by (simp add: http_serve_def ServeMux_path route_tests)

lemma serve_delete_bucket:
  assumes "rq_Method r = str ''DELETE''" "mux_path r = Some [str ''api'', str ''buckets'', b]" "b \<noteq> []"
  shows "http_serve W r s = ApplyMiddleware (Handlers_DeleteBucket W) (mw W) (r\<lparr>rq_PathValues := [(str ''bucket'', b)]\<rparr>) new_writer s"
  using assms by (simp add: http_serve_def ServeMux_path route_tests)

lemma authorized_pathvalues [simp]: "authorized W (r\<lparr>rq_PathValues := vs\<rparr>) b = authorized W r b"
  by (simp add: authorized_def)

text \<open>An authorized request is answered by its handler.\<close>

lemma mw_authorized:
  assumes "authorized W r b" "PathValue r (str ''bucket'') = b"
    "ApplyMiddleware h (mw W) r new_writer s = (p, w, s')"
  obtains w1 s1 where "fresh w1" "hs_bm s1 = hs_bm s" "p = None"
    "(rw_Status w, rw_Body w, hs_bm s') = reply W (h (SetBucketName (inner_request W r) b) w1 s1)"
proof -
  have "fresh new_writer" by simp
  then show thesis
  proof (cases rule: mw_chain [where W = W and r = r and h = h and s = s])
    case refused
    then show thesis using assms by simp
  next
    case (run w1 s1)
    then show thesis using that [of w1 s1] assms by (simp add: reply_simps)
  qed
qed

section \<open>Isolation of buckets\<close>

text \<open>The buckets after a handler, for each of the handlers behind \<open>Auth\<close>.\<close>

lemma handler_keeps_others:
  assumes "h \<in> {Handlers_ListBuckets W, Handlers_GetBucket W, Handlers_DeleteBucket W, Handlers_CreateKV W, Handlers_GetKV W, Handlers_DeleteKV W}"
    and "bm_ok (wd_hash W) (hs_bm s)" "fresh w" "b' \<noteq> b" "GetBucketName r = Some b" "PathValue r (str ''bucket'') = b"
    and "reply W (h r w s) = (c, body, bm)"
  shows "kv_view (wd_hash W) bm b' = kv_view (wd_hash W) (hs_bm s) b'"
proof -
  note fr = StorageService_frame [OF assms(2,4)]
  note bs = BucketService_DeleteBucket_def
  have "kv_view (wd_hash W) bm b' = kv_view (wd_hash W) (hs_bm s) b'" if "h = Handlers_CreateKV W"
    using assms(3,5,7) fr(1) that by (auto simp: Handlers_CreateKV_def reply_simps split: option.splits sum.splits outcome.splits prod.splits)
  moreover have "kv_view (wd_hash W) bm b' = kv_view (wd_hash W) (hs_bm s) b'" if "h = Handlers_GetKV W"
    using assms(3,5,7) fr(2) that by (auto simp: Handlers_GetKV_def reply_simps Let_def split: if_splits option.splits outcome.splits prod.splits)
  moreover have "kv_view (wd_hash W) bm b' = kv_view (wd_hash W) (hs_bm s) b'" if "h = Handlers_DeleteKV W"
    using assms(3,5,7) fr(3) that by (auto simp: Handlers_DeleteKV_def reply_simps Let_def split: if_splits option.splits outcome.splits prod.splits)
  moreover have "kv_view (wd_hash W) bm b' = kv_view (wd_hash W) (hs_bm s) b'" if "h = Handlers_DeleteBucket W"
    using assms(3,4,6,7) DeleteBucket_keeps [where b = b'] that
    by (auto simp: Handlers_DeleteBucket_def bs reply_simps Let_def split: if_splits option.splits sum.splits outcome.splits prod.splits)
  moreover have "bm = hs_bm s" if "h = Handlers_ListBuckets W \<or> h = Handlers_GetBucket W"
    using assms(3,7) that by (auto simp: Handlers_ListBuckets_def Handlers_GetBucket_def reply_simps Let_def split: if_splits outcome.splits)
  ultimately show ?thesis using assms(1) by blast
qed

lemma create_handler_keeps:
  assumes "fresh w" "kv_view hash (hs_bm s) b = Some M" "reply W (Handlers_CreateBucket W r w s) = (c, body, bm)"
  shows "kv_view hash bm b = Some M"
  using assms(1,3) CreateBucket_keeps [OF _ assms(2)] assms(2)
  by (auto simp: Handlers_CreateBucket_def BucketService_CreateBucket_def reply_simps
      split: option.splits sum.splits outcome.splits prod.splits)

section \<open>Keys over HTTP\<close>

lemma create_kv_view:
  assumes "bm_ok (wd_hash W) (hs_bm s)" "kv_view (wd_hash W) (hs_bm s) b = Some M" "authorized W r b"
    and "rq_Method r = str ''POST''" "mux_path r = Some [str ''api'', b, str ''kv'']"
    and "rq_Body r = Some (n, kv_request_json q)" "n \<le> 2 ^ 20" "- (2 ^ 63) \<le> ck_TTL q" "ck_TTL q < 2 ^ 63"
    and "http_serve W r s = (p, w, s')"
  shows "case CreateKVRequest_Validate q of
      Inl reason \<Rightarrow> rw_Status w = 400 \<and> rw_Body w = error_body W reason \<and> hs_bm s' = hs_bm s
    | Inr q' \<Rightarrow> ck_Key q' = TrimSpace (ck_Key q) \<and> rw_Status w \<in> {201, 500} \<and>
        kv_view (wd_hash W) (hs_bm s') = (kv_view (wd_hash W) (hs_bm s))(b \<mapsto> M(ck_Key q' \<mapsto>
          stamped (wd_env W) (new_entry (wd_env W) (ck_Key q') (ck_Value q) (ck_TTL q) (ck_SingleRead q))))"
proof -
  let ?r = "r\<lparr>rq_PathValues := [(str ''bucket'', b)]\<rparr>"
  have chain: "ApplyMiddleware (Handlers_CreateKV W) (mw W) ?r new_writer s = (p, w, s')"
    using serve_create_kv [OF assms(4,5) authorized_name [OF assms(3)]] assms(10) by simp
  have body: "Option.bind (ReadJSONBody ?r) decode_create_kv = Some q"
    using assms(6,7) decode_kv_request [OF assms(8,9)]
    by (simp add: ReadJSONBody_def ReadJSONBodyWithLimit_def DefaultMaxBodySize_def Let_def)
  obtain w1 s1 where run: "fresh w1" "hs_bm s1 = hs_bm s"
    "(rw_Status w, rw_Body w, hs_bm s') = reply W (Handlers_CreateKV W (SetBucketName (inner_request W ?r) b) w1 s1)"
    by (rule mw_authorized [OF _ _ chain, of b]) (use assms(3) in \<open>simp_all add: PathValue_def\<close>)
  show ?thesis
  proof (cases "CreateKVRequest_Validate q")
    case (Inl reason)
    then show ?thesis using run body by (simp add: Handlers_CreateKV_def reply_simps written)
  next
    case (Inr q')
    then have q': "q' = q\<lparr>ck_Key := TrimSpace (ck_Key q)\<rparr>" "0 \<le> ck_TTL q'"
      unfolding kv_validate_Inr by blast+
    obtain out bm where st: "StorageService_Set (wd_env W) (wd_hash W) (hs_bm s) b (ck_Key q') (ck_Value q') (ck_TTL q') (ck_SingleRead q') = (out, bm)"
      by fastforce
    note v = StorageService_Set_view(1,3) [OF assms(1) st assms(2) q'(2)]
    have "rw_Status w \<in> {201, 500} \<and> hs_bm s' = bm"
      using run Inr body st v(2) by (auto simp: Handlers_CreateKV_def reply_simps written)
    then show ?thesis using v(1) q' Inr by simp
  qed
qed


lemma get_kv_view:
  assumes "bm_ok (wd_hash W) (hs_bm s)" "kv_view (wd_hash W) (hs_bm s) b = Some M" "authorized W r b" "k \<noteq> []"
    and "rq_Method r = str ''GET''" "mux_path r = Some [str ''api'', b, str ''kv'', k]" "http_serve W r s = (p, w, s')"
  shows "case Option.bind (M k) (read_entry (wd_env W)) of
      None \<Rightarrow> rw_Status w = 404 \<and> rw_Body w = error_body W (str ''Key not found'') \<and>
        kv_view (wd_hash W) (hs_bm s') = kv_view (wd_hash W) (hs_bm s)
    | Some e \<Rightarrow> rw_Status w = 200 \<and> rw_Body w = [kv_json (kvResponseFromEntry (wd_zone W) e)] \<and>
        kv_view (wd_hash W) (hs_bm s') = (kv_view (wd_hash W) (hs_bm s))(b \<mapsto> M(k \<mapsto> e))"
proof -
  let ?r = "r\<lparr>rq_PathValues := [(str ''bucket'', b), (str ''key'', k)]\<rparr>"
  have chain: "ApplyMiddleware (Handlers_GetKV W) (mw W) ?r new_writer s = (p, w, s')"
    using serve_get_kv [OF assms(5,6) authorized_name [OF assms(3)] assms(4)] assms(7) by simp
  have pv: "PathValue ?r (str ''bucket'') = b" "PathValue ?r (str ''key'') = k" by (simp_all add: PathValue_def str_def)
  obtain w1 s1 where run: "fresh w1" "hs_bm s1 = hs_bm s"
    "(rw_Status w, rw_Body w, hs_bm s') = reply W (Handlers_GetKV W (SetBucketName (inner_request W ?r) b) w1 s1)"
    by (rule mw_authorized [OF _ pv(1) chain]) (use assms(3) in simp_all)
  obtain out bm where st: "StorageService_Get (wd_env W) (wd_hash W) (hs_bm s) b k = (out, bm)" by fastforce
  note v = StorageService_Get_view(1,2) [OF assms(1) st assms(2)]
  have id: "(kv_view (wd_hash W) (hs_bm s))(b \<mapsto> M) = kv_view (wd_hash W) (hs_bm s)" using assms(2) by auto
  show ?thesis
    using run st v pv assms(4) id by (cases "Option.bind (M k) (read_entry (wd_env W))")
      (simp_all add: Handlers_GetKV_def reply_simps written)
qed


lemma delete_kv_view:
  assumes "bm_ok (wd_hash W) (hs_bm s)" "kv_view (wd_hash W) (hs_bm s) b = Some M" "authorized W r b" "k \<noteq> []"
    and "rq_Method r = str ''DELETE''" "mux_path r = Some [str ''api'', b, str ''kv'', k]" "http_serve W r s = (p, w, s')"
  shows "(rw_Status w = 204 \<and> rw_Body w = [] \<and> kv_view (wd_hash W) (hs_bm s') = (kv_view (wd_hash W) (hs_bm s))(b \<mapsto> M(k := None))) \<or>
    (rw_Status w = 500 \<and> kv_view (wd_hash W) (hs_bm s') = kv_view (wd_hash W) (hs_bm s))"
proof -
  let ?r = "r\<lparr>rq_PathValues := [(str ''bucket'', b), (str ''key'', k)]\<rparr>"
  have chain: "ApplyMiddleware (Handlers_DeleteKV W) (mw W) ?r new_writer s = (p, w, s')"
    using serve_delete_kv [OF assms(5,6) authorized_name [OF assms(3)] assms(4)] assms(7) by simp
  have pv: "PathValue ?r (str ''bucket'') = b" "PathValue ?r (str ''key'') = k" by (simp_all add: PathValue_def str_def)
  obtain w1 s1 where run: "fresh w1" "hs_bm s1 = hs_bm s"
    "(rw_Status w, rw_Body w, hs_bm s') = reply W (Handlers_DeleteKV W (SetBucketName (inner_request W ?r) b) w1 s1)"
    by (rule mw_authorized [OF _ pv(1) chain]) (use assms(3) in simp_all)
  obtain out bm where st: "StorageService_Delete (wd_hash W) (hs_bm s) b k = (out, bm)" by fastforce
  have pos: "sizes_pos M {k}" using assms(4) sizes_pos_single by simp
  note any = StorageService_Delete_any [OF assms(1) st assms(2)]
  show ?thesis
  proof (cases out)
    case (Ok u)
    then have "kv_view (wd_hash W) bm = (kv_view (wd_hash W) (hs_bm s))(b \<mapsto> M(k := None))"
      using StorageService_Delete_view(1) [OF assms(1) _ assms(2) pos, of bm] st by simp
    then show ?thesis using run st pv assms(4) Ok by (simp add: Handlers_DeleteKV_def reply_simps written)
  next
    case (Panic q)
    then show ?thesis using run st pv assms(4) any(3) by (simp add: Handlers_DeleteKV_def reply_simps written)
  qed (use any(2) in simp)
qed

lemma create_kv_ok:
  assumes "bm_ok (wd_hash W) (hs_bm s)" "http_serve W r s = (p, w, s')" "authorized W r b"
    and "rq_Method r = str ''POST''" "mux_path r = Some [str ''api'', b, str ''kv'']"
  shows "bm_ok (wd_hash W) (hs_bm s')"
proof -
  let ?r = "r\<lparr>rq_PathValues := [(str ''bucket'', b)]\<rparr>"
  have chain: "ApplyMiddleware (Handlers_CreateKV W) (mw W) ?r new_writer s = (p, w, s')"
    using serve_create_kv [OF assms(4,5) authorized_name [OF assms(3)]] assms(2) by simp
  obtain w1 s1 where run: "fresh w1" "hs_bm s1 = hs_bm s"
    "(rw_Status w, rw_Body w, hs_bm s') = reply W (Handlers_CreateKV W (SetBucketName (inner_request W ?r) b) w1 s1)"
    by (rule mw_authorized [OF _ _ chain, of b]) (use assms(3) in \<open>simp_all add: PathValue_def\<close>)
  obtain b' :: gostring where "b' \<noteq> b" by (metis not_Cons_self)
  note fr = StorageService_frame(1) [OF assms(1) this]
  show ?thesis
    using run assms(1) fr
    by (auto simp: Handlers_CreateKV_def reply_simps split: option.splits sum.splits outcome.splits prod.splits)
qed

lemma kv_json_value:
  assumes "se_Value e \<noteq> []"
  shows "\<exists>fields. kv_json (kvResponseFromEntry zone e) = JObj fields \<and>
    map_of fields (str ''value'') = Some (json_string (se_Value e))"
  using assms by (auto simp: kv_json_def kvResponseFromEntry_def omit_empty_def str_def)

section \<open>Bucket names\<close>

lemma bucket_handlers_create_none:
  assumes "h \<in> {Handlers_ListBuckets W, Handlers_GetBucket W, Handlers_DeleteBucket W, Handlers_CreateKV W, Handlers_GetKV W, Handlers_DeleteKV W}"
    and "fresh w" "GetBucketName r = Some b" "bm_lookup (hs_bm s) name = None" "reply W (h r w s) = (c, body, bm)"
  shows "bm_lookup bm name = None"
proof -
  have st: "bm_lookup (set_store b sc bm0) name = None" if "bm_lookup bm0 name = None" for sc bm0
    using that by (simp add: set_store_lookup)
  have "bm_lookup bm name = None" if "h = Handlers_CreateKV W"
    using assms(2-5) that st by (auto simp: Handlers_CreateKV_def StorageService_Set_def reply_simps Let_def
        split: if_splits option.splits sum.splits outcome.splits prod.splits)
  moreover have "bm_lookup bm name = None" if "h = Handlers_GetKV W"
    using assms(2-5) that st by (auto simp: Handlers_GetKV_def StorageService_Get_def reply_simps Let_def
        split: if_splits option.splits outcome.splits prod.splits)
  moreover have "bm_lookup bm name = None" if "h = Handlers_DeleteKV W"
    using assms(2-5) that st by (auto simp: Handlers_DeleteKV_def StorageService_Delete_def reply_simps Let_def
        split: if_splits option.splits outcome.splits prod.splits)
  moreover have "bm_lookup bm name = None" if "h = Handlers_DeleteBucket W"
    using assms(2-5) DeleteBucket_lookup that
    by (auto simp: Handlers_DeleteBucket_def BucketService_DeleteBucket_def reply_simps Let_def
        split: if_splits option.splits sum.splits outcome.splits prod.splits)
  moreover have "bm = hs_bm s" if "h = Handlers_ListBuckets W \<or> h = Handlers_GetBucket W"
    using assms(2,5) that by (auto simp: Handlers_ListBuckets_def Handlers_GetBucket_def reply_simps Let_def split: if_splits outcome.splits)
  ultimately show ?thesis using assms(1,4) by blast
qed

text \<open>The only way to a new bucket is a valid creation request for its name.\<close>

lemma create_handler_name:
  assumes "fresh w" "bm_lookup (hs_bm s) name = None" "bm_lookup bm name \<noteq> None" "wd_auth W = Some tm"
    and "reply W (Handlers_CreateBucket W r w s) = (c, body, bm)"
  obtains q0 q m where "Option.bind (ReadJSONBody r) decode_create_bucket = Some q0"
    "CreateBucketRequest_Validate (wd_lower W) q0 = Inr q" "cb_Name q = name" "c = 201" "bk_Name m = name"
    "body = [bucket_json (bucketResponse (wd_zone W) m (GenerateToken (wd_env W) tm name 0))]"
proof -
  obtain q0 q where q: "Option.bind (ReadJSONBody r) decode_create_bucket = Some q0"
    "CreateBucketRequest_Validate (wd_lower W) q0 = Inr q"
    using assms by (auto simp: Handlers_CreateBucket_def reply_simps split: option.splits sum.splits)
  obtain out bm1 where cr: "CreateBucket (wd_env W) (wd_auth W) (wd_bucketID W) (hs_bm s) (cb_Name q) (cb_Description q) (cb_ShardCount q) = (out, bm1)"
    by fastforce
  have b: "bm = bm1"
    using assms(1,5) q cr by (auto simp: Handlers_CreateBucket_def BucketService_CreateBucket_def reply_simps
        split: outcome.splits option.splits)
  have n: "cb_Name q = name" "cb_Name q \<noteq> []" "bm_lookup (hs_bm s) (cb_Name q) = None"
    using CreateBucket_lookup [OF cr] assms(2,3) b by (auto split: if_splits)
  have out: "out = Ok (GenerateToken (wd_env W) tm name 0)"
    using cr n assms(4) by (simp add: CreateBucket_def Let_def auth_Manager_def)
  obtain mb where mb: "bm_lookup bm1 name = Some mb" using assms(3) b by blast
  then have meta: "GetBucket (wd_hash W) bm1 name = Some (meta_view (wd_hash W) mb)" by (simp add: GetBucket_def)
  have "bk_Name mb = name" using CreateBucket_lookup [OF cr] mb n by (auto split: if_splits)
  then have nm: "bk_Name (meta_view (wd_hash W) mb) = name" by (simp add: meta_view_def Let_def split: option.split)
  have "BucketService_CreateBucket (wd_env W) (wd_auth W) (wd_hash W) (wd_bucketID W) (hs_bm s) (cb_Name q) (cb_Description q) (cb_ShardCount q) =
      (Ok \<lparr>cbr_Metadata = meta_view (wd_hash W) mb, cbr_AuthToken = GenerateToken (wd_env W) tm name 0\<rparr>, bm1)"
    using cr out meta n(1) by (simp add: BucketService_CreateBucket_def)
  then have "c = 201 \<and> body = [bucket_json (bucketResponse (wd_zone W) (meta_view (wd_hash W) mb) (GenerateToken (wd_env W) tm name 0))]"
    using assms(1,5) q by (simp add: Handlers_CreateBucket_def reply_simps written)
  then show thesis using that [OF q n(1) _ nm] by blast
qed

section \<open>Properties\<close>

text \<open>A concrete server with the default bucket and its token, for the examples.\<close>

definition sample_world :: world where
  "sample_world = \<lparr>wd_env = sample_env, wd_auth = Some \<lparr>tm_secretKey = str ''secret''\<rparr>, wd_hash = (\<lambda>_. 0),
     wd_bucketID = str ''id'', wd_corrID = str ''crr'', wd_zone = 0, wd_lower = (\<lambda>s. s)\<rparr>"

lemma sample_world_simps:
  "wd_hash sample_world = (\<lambda>_. 0)" "wd_env sample_world = sample_env" "wd_auth sample_world = Some \<lparr>tm_secretKey = str ''secret''\<rparr>"
  by (simp_all add: sample_world_def)

definition sample_state :: http_state where
  "sample_state = \<lparr>hs_bm = sample_manager, hs_log = []\<rparr>"

definition sample_request :: "gostring \<Rightarrow> gostring list \<Rightarrow> json \<Rightarrow> http_request" where
  "sample_request meth path body = \<lparr>rq_Method = meth, rq_Target = UrlPath path, rq_Header = [(str ''X-Bucket-Token'', sample_token)],
     rq_Body = Some (50, body), rq_PathValues = [], rq_BucketName = None, rq_CorrelationID = None\<rparr>"

definition sample_kv :: create_kv_request where
  "sample_kv = \<lparr>ck_Key = str '' k '', ck_Value = [1, 2], ck_TTL = 0, ck_SingleRead = False\<rparr>"

lemma sample_request_simps [simp]: "rq_Method (sample_request meth xs body) = meth" "rq_Body (sample_request meth xs body) = Some (50, body)"
  by (simp_all add: sample_request_def)

lemma sample_path: "cleanPath xs = xs \<Longrightarrow> map pathUnescape xs = xs \<Longrightarrow> mux_path (sample_request meth xs body) = Some xs"
  by (simp add: mux_path_def sample_request_def)

lemma sample_paths:
  "mux_path (sample_request meth [str ''api'', str ''default'', str ''kv''] body) = Some [str ''api'', str ''default'', str ''kv'']"
  "mux_path (sample_request meth [str ''api'', str ''default'', str ''kv'', str ''k''] body) = Some [str ''api'', str ''default'', str ''kv'', str ''k'']"
  "mux_path (sample_request meth [str ''api'', str ''buckets''] body) = Some [str ''api'', str ''buckets'']"
  by (rule sample_path; code_simp)+

lemma sample_authorized: "authorized sample_world (sample_request meth path body) (str ''default'')"
proof -
  have "canonical True (str ''X-Bucket-Token'') = str ''X-Bucket-Token''" by code_simp
  then show ?thesis by (simp add: authorized_def sample_world_def sample_request_def Header_Get_def sample_token_valid)
qed

lemma sample_http:
  "bm_reachable (wd_hash sample_world) (wd_auth sample_world) (hs_bm sample_state)"
  "kv_view (wd_hash sample_world) (hs_bm sample_state) (str ''default'') = Some Map.empty"
  by (simp_all add: sample_world_def sample_state_def sample_manager_reachable sample_manager_view)

lemma sample_validates:
  "CreateKVRequest_Validate sample_kv = Inr \<lparr>ck_Key = str ''k'', ck_Value = [1, 2], ck_TTL = 0, ck_SingleRead = False\<rparr>"
  by code_simp

text \<open>A bucket is out of reach without its token: whatever the request, whatever it creates, deletes
  or breaks elsewhere, the entries of an existing bucket stay as they are unless the request presents
  a token that is valid for that bucket.\<close>

theorem http_isolation:
  assumes "bm_reachable (wd_hash W) auth (hs_bm s)" "kv_view (wd_hash W) (hs_bm s) b = Some M"
    and "\<not> authorized W r b" "http_serve W r s = (p, w, s')"
  shows "kv_view (wd_hash W) (hs_bm s') b = Some M"
  using assms(4)
proof (cases rule: http_serve_cases)
  case (mux c)
  then show ?thesis using assms(2) by (auto simp: reply_simps)
next
  case (create r1)
  obtain w1 s1 where c: "fresh w1" "hs_bm s1 = hs_bm s" "fst (p, w, s') = None"
    "reply W (p, w, s') = reply W (Handlers_CreateBucket W (inner_request W r1) w1 s1)"
    unfolding create(2) by (rule noAuth_chain [OF fresh_simps(1)])
  have "reply W (Handlers_CreateBucket W (inner_request W r1) w1 s1) = (rw_Status w, rw_Body w, hs_bm s')"
    using c(3,4) by (simp add: reply_simps)
  from create_handler_keeps [OF c(1) _ this] show ?thesis using assms(2) c(2) by simp
next
  case (other h r1)
  have "fresh new_writer" by simp
  then show ?thesis
  proof (cases rule: mw_chain [where W = W and r = r1 and h = h and s = s])
    case refused
    from refused(2,3) show ?thesis unfolding other(2) [symmetric] using assms(2) by (auto simp: reply_simps)
  next
    case (run w1 s1)
    let ?b = "PathValue r1 (str ''bucket'')"
    have ne: "b \<noteq> ?b" using run(1) assms(3) other(1) by (auto simp: authorized_def)
    have "p = None" "reply W (h (SetBucketName (inner_request W r1) ?b) w1 s1) = (rw_Status w, rw_Body w, hs_bm s')"
      using run(4,5) unfolding other(2) [symmetric] by (auto simp: reply_simps)
    from handler_keeps_others [OF other(3) _ run(2) ne _ _ this(2)] show ?thesis
      using bm_reachable_ok [OF assms(1)] assms(2) run(3) by simp
  qed
qed

theorem http_isolation_witness:
  "kv_view (\<lambda>_. 0) (hs_bm (snd (snd (http_serve sample_world
     (sample_request (str ''DELETE'') [str ''api'', str ''default'', str ''kv'', str ''k''] JNull \<lparr>rq_Header := []\<rparr>)
     sample_state)))) (str ''default'') = Some Map.empty"
proof -
  let ?r = "sample_request (str ''DELETE'') [str ''api'', str ''default'', str ''kv'', str ''k''] JNull \<lparr>rq_Header := []\<rparr>"
  obtain p w s' where h: "http_serve sample_world ?r sample_state = (p, w, s')" by (cases "http_serve sample_world ?r sample_state") auto
  have "\<not> authorized sample_world ?r (str ''default'')"
    by (simp add: authorized_def Header_Get_def empty_token_invalid)
  from http_isolation [OF sample_http this h] show ?thesis by (simp add: h sample_world_simps)
qed

text \<open>Storing a key over HTTP, for a request that carries the bucket's token and the JSON form of a
  key-value request: a request that does not validate is answered with 400 and its reason and changes
  nothing; any other binds the trimmed key in that bucket only and is answered with 201, or with 500
  when the collector panics after the entry is stored.\<close>

theorem http_create_kv:
  assumes "bm_reachable (wd_hash W) auth (hs_bm s)" "kv_view (wd_hash W) (hs_bm s) b = Some M" "authorized W r b"
    and "rq_Method r = str ''POST''" "mux_path r = Some [str ''api'', b, str ''kv'']"
    and "rq_Body r = Some (n, kv_request_json q)" "n \<le> 2 ^ 20" "- (2 ^ 63) \<le> ck_TTL q" "ck_TTL q < 2 ^ 63"
    and "http_serve W r s = (p, w, s')"
  shows "case CreateKVRequest_Validate q of
      Inl reason \<Rightarrow> rw_Status w = 400 \<and> rw_Body w = error_body W reason \<and> hs_bm s' = hs_bm s
    | Inr q' \<Rightarrow> ck_Key q' = TrimSpace (ck_Key q) \<and> rw_Status w \<in> {201, 500} \<and>
        kv_view (wd_hash W) (hs_bm s') = (kv_view (wd_hash W) (hs_bm s))(b \<mapsto> M(ck_Key q' \<mapsto>
          stamped (wd_env W) (new_entry (wd_env W) (ck_Key q') (ck_Value q) (ck_TTL q) (ck_SingleRead q))))"
  using create_kv_view [OF bm_reachable_ok [OF assms(1)] assms(2-)] by simp

theorem http_create_kv_witness:
  "kv_view (\<lambda>_. 0) (hs_bm (snd (snd (http_serve sample_world
     (sample_request (str ''POST'') [str ''api'', str ''default'', str ''kv''] (kv_request_json sample_kv)) sample_state)))) (str ''default'')
   = Some [str ''k'' \<mapsto> stamped sample_env (new_entry sample_env (str ''k'') [1, 2] 0 False)]"
proof -
  let ?r = "sample_request (str ''POST'') [str ''api'', str ''default'', str ''kv''] (kv_request_json sample_kv)"
  obtain p w s' where h: "http_serve sample_world ?r sample_state = (p, w, s')" by (cases "http_serve sample_world ?r sample_state") auto
  have "rq_Method ?r = str ''POST''" "mux_path ?r = Some [str ''api'', str ''default'', str ''kv'']"
    "rq_Body ?r = Some (50, kv_request_json sample_kv)" "(50 :: nat) \<le> 2 ^ 20" "- (2 ^ 63) \<le> ck_TTL sample_kv" "ck_TTL sample_kv < 2 ^ 63"
    by (simp_all add: sample_paths sample_kv_def sample_request_simps)
  from http_create_kv [OF sample_http sample_authorized this h] show ?thesis
    by (simp add: h sample_validates) (simp add: sample_world_simps sample_kv_def)
qed

text \<open>Reading a key over HTTP with the bucket's token answers 404 when the key is missing, expired or a
  single-read entry already read, and otherwise 200 with the entry; the entry's counters advance and
  nothing else changes.\<close>

theorem http_get_kv:
  assumes "bm_reachable (wd_hash W) auth (hs_bm s)" "kv_view (wd_hash W) (hs_bm s) b = Some M" "authorized W r b" "k \<noteq> []"
    and "rq_Method r = str ''GET''" "mux_path r = Some [str ''api'', b, str ''kv'', k]" "http_serve W r s = (p, w, s')"
  shows "case Option.bind (M k) (read_entry (wd_env W)) of
      None \<Rightarrow> rw_Status w = 404 \<and> rw_Body w = error_body W (str ''Key not found'') \<and>
        kv_view (wd_hash W) (hs_bm s') = kv_view (wd_hash W) (hs_bm s)
    | Some e \<Rightarrow> rw_Status w = 200 \<and> rw_Body w = [kv_json (kvResponseFromEntry (wd_zone W) e)] \<and>
        kv_view (wd_hash W) (hs_bm s') = (kv_view (wd_hash W) (hs_bm s))(b \<mapsto> M(k \<mapsto> e))"
  using get_kv_view [OF bm_reachable_ok [OF assms(1)] assms(2-)] by simp

theorem http_get_kv_witness:
  "rw_Status (fst (snd (http_serve sample_world
     (sample_request (str ''GET'') [str ''api'', str ''default'', str ''kv'', str ''k''] JNull) sample_state))) = 404"
proof -
  let ?r = "sample_request (str ''GET'') [str ''api'', str ''default'', str ''kv'', str ''k''] JNull"
  obtain p w s' where h: "http_serve sample_world ?r sample_state = (p, w, s')" by (cases "http_serve sample_world ?r sample_state") auto
  have "rq_Method ?r = str ''GET''" "mux_path ?r = Some [str ''api'', str ''default'', str ''kv'', str ''k'']" by (simp_all add: sample_paths sample_request_simps)
  from http_get_kv [OF sample_http sample_authorized str_nonempty this h] show ?thesis by (simp add: h)
qed

text \<open>Deleting a key over HTTP with the bucket's token either removes exactly that key and answers
  204, or the collector panics, the answer is 500 and every entry is as before.\<close>

theorem http_delete_kv:
  assumes "bm_reachable (wd_hash W) auth (hs_bm s)" "kv_view (wd_hash W) (hs_bm s) b = Some M" "authorized W r b" "k \<noteq> []"
    and "rq_Method r = str ''DELETE''" "mux_path r = Some [str ''api'', b, str ''kv'', k]" "http_serve W r s = (p, w, s')"
  shows "(rw_Status w = 204 \<and> rw_Body w = [] \<and> kv_view (wd_hash W) (hs_bm s') = (kv_view (wd_hash W) (hs_bm s))(b \<mapsto> M(k := None))) \<or>
    (rw_Status w = 500 \<and> kv_view (wd_hash W) (hs_bm s') = kv_view (wd_hash W) (hs_bm s))"
  using delete_kv_view [OF bm_reachable_ok [OF assms(1)] assms(2-)] by simp

theorem http_delete_kv_witness:
  "kv_view (\<lambda>_. 0) (hs_bm (snd (snd (http_serve sample_world
     (sample_request (str ''DELETE'') [str ''api'', str ''default'', str ''kv'', str ''k''] JNull) sample_state)))) (str ''default'')
   = Some Map.empty"
proof -
  let ?r = "sample_request (str ''DELETE'') [str ''api'', str ''default'', str ''kv'', str ''k''] JNull"
  obtain p w s' where h: "http_serve sample_world ?r sample_state = (p, w, s')" by (cases "http_serve sample_world ?r sample_state") auto
  have "rq_Method ?r = str ''DELETE''" "mux_path ?r = Some [str ''api'', str ''default'', str ''kv'', str ''k'']" by (simp_all add: sample_paths sample_request_simps)
  from http_delete_kv [OF sample_http sample_authorized str_nonempty this h] sample_http(2) show ?thesis
    by (auto simp: h sample_world_simps)
qed


text \<open>C24: what goes in comes out, if it is text: with paths that are not redirected, after a POST answered with 201, a GET of the trimmed key
  under the bucket's token answers 404 once the entry has expired, and before that 200 with a value
  that is the one stored exactly when it is valid UTF-8; other bytes come back replaced.\<close>

theorem http_round_trip:
  assumes "bm_reachable (wd_hash W) auth (hs_bm s)" "kv_view (wd_hash W) (hs_bm s) b = Some M" "authorized W r b"
    and "rq_Method r = str ''POST''" "mux_path r = Some [str ''api'', b, str ''kv'']"
    and "rq_Body r = Some (n, kv_request_json q)" "n \<le> 2 ^ 20" "- (2 ^ 63) \<le> ck_TTL q" "ck_TTL q < 2 ^ 63"
    and "http_serve W r s = (p, w, s1)" "rw_Status w = 201"
    and "wd_hash W2 = wd_hash W" "authorized W2 r2 b" "rq_Method r2 = str ''GET''"
    and "mux_path r2 = Some [str ''api'', b, str ''kv'', TrimSpace (ck_Key q)]" "http_serve W2 r2 s1 = (p2, w2, s2)"
  shows "if IsExpired (env_now (wd_env W2)) (new_entry (wd_env W) (TrimSpace (ck_Key q)) (ck_Value q) (ck_TTL q) (ck_SingleRead q))
    then rw_Status w2 = 404
    else rw_Status w2 = 200 \<and>
      (\<exists>fields v. rw_Body w2 = [JObj fields] \<and> map_of fields (str ''value'') = Some (JStr v) \<and>
        (v = ck_Value q \<longleftrightarrow> valid_utf8 (ck_Value q)))"
proof -
  let ?e = "new_entry (wd_env W) (TrimSpace (ck_Key q)) (ck_Value q) (ck_TTL q) (ck_SingleRead q)"
  note ok = bm_reachable_ok [OF assms(1)]
  note c = create_kv_view [OF ok assms(2-10)]
  then obtain q' where "CreateKVRequest_Validate q = Inr q'" using assms(11) by (auto split: sum.splits)
  then have q': "q' = q\<lparr>ck_Key := TrimSpace (ck_Key q)\<rparr>" "ck_Key q' \<noteq> []" "ck_Value q' \<noteq> []"
    and v: "CreateKVRequest_Validate q = Inr q'"
    unfolding kv_validate_Inr by blast+
  let ?k = "TrimSpace (ck_Key q)" and ?M1 = "M(TrimSpace (ck_Key q) \<mapsto> stamped (wd_env W) ?e)"
  have k: "ck_Key q' = ?k" "?k \<noteq> []" "ck_Value q \<noteq> []" using q' by simp_all
  have M1: "kv_view (wd_hash W2) (hs_bm s1) b = Some ?M1"
    using c v assms(12) by (simp only: sum.case k(1)) simp
  have ok1: "bm_ok (wd_hash W2) (hs_bm s1)" using create_kv_ok [OF ok assms(10,3,4,5)] assms(12) by simp
  note g = get_kv_view [OF ok1 M1 assms(13) k(2) assms(14-16)]
  show ?thesis
  proof (cases "IsExpired (env_now (wd_env W2)) ?e")
    case True
    then show ?thesis using g by (simp add: read_stamped)
  next
    case False
    define e where "e = ?e\<lparr>se_AccessCount := 1,
      se_LastAccess := (if ck_SingleRead q then env_cached (wd_env W) else env_cached (wd_env W2))\<rparr>"
    have "Option.bind (?M1 ?k) (read_entry (wd_env W2)) = Some e" using False by (simp add: read_stamped e_def)
    with g have st: "rw_Status w2 = 200" "rw_Body w2 = [kv_json (kvResponseFromEntry (wd_zone W2) e)]" by simp_all
    have ev: "se_Value e = ck_Value q" by (simp add: e_def new_entry_def)
    obtain fields where "kv_json (kvResponseFromEntry (wd_zone W2) e) = JObj fields"
      "map_of fields (str ''value'') = Some (json_string (ck_Value q))"
      using kv_json_value [of e "wd_zone W2"] ev k(3) by auto
    then show ?thesis using False st to_valid_utf8_id by (auto simp: json_string_def)
  qed
qed

lemma sample_post:
  assumes "http_serve sample_world (sample_request (str ''POST'') [str ''api'', str ''default'', str ''kv''] (kv_request_json sample_kv)) sample_state = (p, w, s')"
  shows "rw_Status w = 201"
proof -
  let ?r = "sample_request (str ''POST'') [str ''api'', str ''default'', str ''kv''] (kv_request_json sample_kv)"
  let ?r1 = "?r\<lparr>rq_PathValues := [(str ''bucket'', str ''default'')]\<rparr>"
  have "rq_Method ?r = str ''POST''" "mux_path ?r = Some [str ''api'', str ''default'', str ''kv'']" by (simp_all add: sample_paths sample_request_simps)
  from serve_create_kv [OF this str_nonempty]
  have chain: "ApplyMiddleware (Handlers_CreateKV sample_world) (mw sample_world) ?r1 new_writer sample_state = (p, w, s')"
    using assms by simp
  obtain w1 s1 where run: "fresh w1" "hs_bm s1 = hs_bm sample_state"
    "(rw_Status w, rw_Body w, hs_bm s') = reply sample_world (Handlers_CreateKV sample_world
        (SetBucketName (inner_request sample_world ?r1) (str ''default'')) w1 s1)"
    by (rule mw_authorized [OF _ _ chain, of "str ''default''"]) (simp_all add: sample_authorized PathValue_def)
  have "Option.bind (ReadJSONBody ?r1) decode_create_kv = Some sample_kv"
    using decode_kv_request [of sample_kv]
    by (simp add: ReadJSONBody_def ReadJSONBodyWithLimit_def DefaultMaxBodySize_def sample_request_def sample_kv_def)
  moreover obtain bm where "StorageService_Set sample_env (\<lambda>_. 0) sample_manager (str ''default'') (str ''k'') [1, 2] 0 False =
      (Ok (new_entry sample_env (str ''k'') [1, 2] 0 False), bm)"
    using sample_set_ok [of "[1, 2]"] by blast
  ultimately show ?thesis
    using run
    by (simp add: Handlers_CreateKV_def sample_validates sample_world_simps sample_state_def reply_simps written)
qed

theorem http_round_trip_witness:
  "let s1 = snd (snd (http_serve sample_world (sample_request (str ''POST'') [str ''api'', str ''default'', str ''kv''] (kv_request_json sample_kv)) sample_state));
       w2 = fst (snd (http_serve sample_world (sample_request (str ''GET'') [str ''api'', str ''default'', str ''kv'', str ''k''] JNull) s1))
   in \<exists>fields. rw_Body w2 = [JObj fields] \<and> map_of fields (str ''value'') = Some (JStr [1, 2])"
proof -
  let ?r = "sample_request (str ''POST'') [str ''api'', str ''default'', str ''kv''] (kv_request_json sample_kv)"
  let ?r2 = "sample_request (str ''GET'') [str ''api'', str ''default'', str ''kv'', str ''k''] JNull"
  obtain p w s1 where h: "http_serve sample_world ?r sample_state = (p, w, s1)" by (cases "http_serve sample_world ?r sample_state") auto
  obtain p2 w2 s2 where h2: "http_serve sample_world ?r2 s1 = (p2, w2, s2)" by (cases "http_serve sample_world ?r2 s1") auto
  have t: "TrimSpace (ck_Key sample_kv) = str ''k''" by code_simp
  have "rq_Method ?r = str ''POST''" "mux_path ?r = Some [str ''api'', str ''default'', str ''kv'']"
    "rq_Body ?r = Some (50, kv_request_json sample_kv)" "(50 :: nat) \<le> 2 ^ 20" "- (2 ^ 63) \<le> ck_TTL sample_kv" "ck_TTL sample_kv < 2 ^ 63"
    by (simp_all add: sample_paths sample_kv_def sample_request_simps)
  note post = http_round_trip [OF sample_http sample_authorized this h sample_post [OF h] refl sample_authorized]
  have "rq_Method ?r2 = str ''GET''" "mux_path ?r2 = Some [str ''api'', str ''default'', str ''kv'', TrimSpace (ck_Key sample_kv)]"
    by (simp_all add: sample_paths t sample_request_simps)
  note both = post [OF this h2]
  have "\<not> IsExpired (env_now (wd_env sample_world)) (new_entry (wd_env sample_world) (TrimSpace (ck_Key sample_kv))
      (ck_Value sample_kv) (ck_TTL sample_kv) (ck_SingleRead sample_kv))"
    by (simp add: new_entry_def sample_kv_def IsExpired_def time_IsZero_def)
  moreover have "valid_utf8 [1, 2]" by code_simp
  ultimately have "\<exists>fields. rw_Body w2 = [JObj fields] \<and> map_of fields (str ''value'') = Some (JStr [1, 2])"
    using both by (auto simp: sample_kv_def)
  then show ?thesis by (simp add: h h2)
qed

text \<open>C25: Every request that \<open>net/http\<close> hands to the router gets an answer, whatever its method, target, header and
  body: no panic leaves the chain, and the status is one of ten; it is the redirect exactly when the path has an empty
  segment, a \<open>.\<close> or a \<open>..\<close> to clean away and the method is not \<open>CONNECT\<close>.\<close>

theorem http_always_answers:
  "fst (http_serve W r s) = None \<and> rw_Status (fst (snd (http_serve W r s))) \<in> {200, 201, 204, 301, 400, 401, 404, 405, 409, 500} \<and>
    (rw_Status (fst (snd (http_serve W r s))) = 301 \<longleftrightarrow>
      (\<exists>xs. rq_Target r = UrlPath xs \<and> rq_Method r \<noteq> str ''CONNECT'' \<and> cleanPath xs \<noteq> xs))"
  using http_serve_answers [of W r s] unfolding http_statuses_def redirected_def by (cases "http_serve W r s") auto

text \<open>Buckets cannot be listed: the route is behind the token check, which needs a bucket in the path,
  and there is none, so every such request is refused whatever token it carries.\<close>

theorem list_buckets_unreachable:
  assumes "rq_Method r = str ''GET''" "mux_path r = Some [str ''api'', str ''buckets'']" "http_serve W r s = (p, w, s')"
  shows "rw_Status w = 400 \<and> rw_Body w = error_body W (str ''Bucket name is required'') \<and> hs_bm s' = hs_bm s"
proof -
  let ?r = "r\<lparr>rq_PathValues := []\<rparr>"
  have "ApplyMiddleware (Handlers_ListBuckets W) (mw W) = ApplyMiddleware (Auth W (Handlers_ListBuckets W)) (noAuthMw W)"
    by (simp add: ApplyMiddleware_def mw_def noAuthMw_def)
  then have e: "(p, w, s') = ApplyMiddleware (Auth W (Handlers_ListBuckets W)) (noAuthMw W) ?r new_writer s"
    using serve_list_buckets [OF assms(1,2)] assms(3) by simp
  obtain w1 s1 where c: "fresh w1" "hs_bm s1 = hs_bm s" "fst (p, w, s') = None"
    "reply W (p, w, s') = reply W (Auth W (Handlers_ListBuckets W) (inner_request W ?r) w1 s1)"
    unfolding e by (rule noAuth_chain [OF fresh_simps(1)])
  have nb: "PathValue (inner_request W ?r) (str ''bucket'') = []"
    unfolding inner_request_simps(1) by (simp add: PathValue_def)
  have "reply W (Auth W (Handlers_ListBuckets W) (inner_request W ?r) w1 s1) = (400, error_body W (str ''Bucket name is required''), hs_bm s)"
    using c(1,2) nb by (simp add: Auth_def Let_def reply_simps written)
  then show ?thesis using c(3,4) by (simp add: reply_simps)
qed

theorem list_buckets_unreachable_witness:
  "rw_Status (fst (snd (http_serve sample_world (sample_request (str ''GET'') [str ''api'', str ''buckets''] JNull) sample_state))) = 400"
proof -
  let ?r = "sample_request (str ''GET'') [str ''api'', str ''buckets''] JNull"
  obtain p w s' where h: "http_serve sample_world ?r sample_state = (p, w, s')" by (cases "http_serve sample_world ?r sample_state") auto
  have "rq_Method ?r = str ''GET''" "mux_path ?r = Some [str ''api'', str ''buckets'']" by (simp_all add: sample_paths sample_request_simps)
  from list_buckets_unreachable [OF this h] show ?thesis by (simp add: h)
qed

text \<open>A bucket that appears has a name of 1 to 63 lower-case letters, digits and hyphens, whatever the
  request and whatever the Unicode tables; the request is answered with 201, the name and the token of
  the bucket, and the token opens it from then on.\<close>

theorem http_bucket_names:
  assumes "wd_auth W = Some tm" "http_serve W r s = (p, w, s')"
    and "\<not> BucketExists (hs_bm s) name" "BucketExists (hs_bm s') name"
  shows "name \<noteq> [] \<and> length name \<le> 63 \<and> list_all name_byte name \<and> rw_Status w = 201 \<and>
    (\<exists>m. bk_Name m = name \<and> rw_Body w = [bucket_json (bucketResponse (wd_zone W) m (GenerateToken (wd_env W) tm name 0))]) \<and>
    (\<forall>env'. ValidateToken env' tm (GenerateToken (wd_env W) tm name 0) name)"
  using assms(2)
proof (cases rule: http_serve_cases)
  case (mux c)
  then show ?thesis using assms(3,4) by (auto simp: reply_simps)
next
  case (create r1)
  obtain w1 s1 where c: "fresh w1" "hs_bm s1 = hs_bm s" "fst (p, w, s') = None"
    "reply W (p, w, s') = reply W (Handlers_CreateBucket W (inner_request W r1) w1 s1)"
    unfolding create(2) by (rule noAuth_chain [OF fresh_simps(1)])
  have "reply W (Handlers_CreateBucket W (inner_request W r1) w1 s1) = (rw_Status w, rw_Body w, hs_bm s')"
    using c(3,4) by (simp add: reply_simps)
  note reply = this
  have l: "bm_lookup (hs_bm s1) name = None" "bm_lookup (hs_bm s') name \<noteq> None"
    using assms(3,4) c(2) by (simp_all add: BucketExists_def)
  obtain q0 q m where q: "CreateBucketRequest_Validate (wd_lower W) q0 = Inr q" "cb_Name q = name" "rw_Status w = 201"
    "bk_Name m = name" "rw_Body w = [bucket_json (bucketResponse (wd_zone W) m (GenerateToken (wd_env W) tm name 0))]"
    by (rule create_handler_name [OF c(1) l assms(1) reply])
  have n: "name \<noteq> []" "length name \<le> 63" "list_all name_byte name" using q(1,2) unfolding bucket_validate_Inr by blast+
  have d: "dot \<notin> set name" using n(3) name_byte_ascii by (auto simp: list_all_iff)
  have "dot \<notin> set (be64 0)" by (auto simp: be64_def be_bytes_def)
  then have "ValidateToken env' tm (GenerateToken (wd_env W) tm name 0) name" for env'
    using GenerateToken_valid [OF d d] n(1) d by (simp add: token_expiry_def)
  then show ?thesis using n q(3-5) by blast
next
  case (other h r1)
  have "fresh new_writer" by simp
  then show ?thesis
  proof (cases rule: mw_chain [where W = W and r = r1 and h = h and s = s])
    case refused
    from refused(2,3) show ?thesis unfolding other(2) [symmetric] using assms(3,4) by (auto simp: reply_simps)
  next
    case (run w1 s1)
    let ?r = "SetBucketName (inner_request W r1) (PathValue r1 (str ''bucket''))"
    have "reply W (h ?r w1 s1) = (rw_Status w, rw_Body w, hs_bm s')"
      using run(4,5) unfolding other(2) [symmetric] by (auto simp: reply_simps)
    from bucket_handlers_create_none [OF other(3) run(2) inner_request_simps(6) _ this, of name]
    have "bm_lookup (hs_bm s') name = None" using assms(3) run(3) by (simp add: BucketExists_def)
    then show ?thesis using assms(4) by (simp add: BucketExists_def)
  qed
qed

theorem http_bucket_names_witness:
  "rw_Status (fst (snd (http_serve sample_world (sample_request (str ''POST'') [str ''api'', str ''buckets'']
     (JObj [(str ''name'', JStr (str '' Tea-1 ''))])) sample_state))) = 201"
proof -
  let ?r = "sample_request (str ''POST'') [str ''api'', str ''buckets''] (JObj [(str ''name'', JStr (str '' Tea-1 ''))])"
  obtain p w s' where h: "http_serve sample_world ?r sample_state = (p, w, s')" by (cases "http_serve sample_world ?r sample_state") auto
  let ?r1 = "?r\<lparr>rq_PathValues := []\<rparr>"
  let ?q = "\<lparr>cb_Name = str '' Tea-1 '', cb_Description = [], cb_ShardCount = 0\<rparr>"
  have req: "rq_Method ?r = str ''POST''" "mux_path ?r = Some [str ''api'', str ''buckets'']" by (simp_all add: sample_paths sample_request_simps)
  have e: "(p, w, s') = ApplyMiddleware (Handlers_CreateBucket sample_world) (noAuthMw sample_world) ?r1 new_writer sample_state"
    using serve_create_bucket [OF req] h by simp
  obtain w1 s1 where c: "fresh w1" "hs_bm s1 = hs_bm sample_state" "fst (p, w, s') = None"
    "reply sample_world (p, w, s') = reply sample_world (Handlers_CreateBucket sample_world (inner_request sample_world ?r1) w1 s1)"
    unfolding e by (rule noAuth_chain [OF fresh_simps(1)])
  have new: "bm_lookup sample_manager (str ''tea-1'') = None"
    by (simp add: sample_manager_def NewBucketManager_def CreateBucket_def Let_def auth_Manager_def bm_lookup_def str_def)
  have "decode_create_bucket (JObj [(str ''name'', JStr (str '' Tea-1 ''))]) = Some ?q" by code_simp
  then have q: "Option.bind (ReadJSONBody (inner_request sample_world ?r1)) decode_create_bucket = Some ?q"
    unfolding inner_request_simps(2)
    by (simp add: ReadJSONBody_def ReadJSONBodyWithLimit_def DefaultMaxBodySize_def sample_request_def)
  have v: "CreateBucketRequest_Validate (\<lambda>s. s) ?q = Inr (?q\<lparr>cb_Name := str ''tea-1''\<rparr>)" by code_simp
  obtain out bm where cr: "CreateBucket sample_env (Some \<lparr>tm_secretKey = str ''secret''\<rparr>) (str ''id'') sample_manager (str ''tea-1'') [] 0 = (out, bm)"
    by fastforce
  have "hs_bm s' = bm"
    using c q v cr by (auto simp: Handlers_CreateBucket_def BucketService_CreateBucket_def sample_world_def sample_state_def reply_simps
        split: outcome.splits option.splits)
  then have "BucketExists (hs_bm s') (str ''tea-1'')"
    using CreateBucket_lookup [OF cr] new str_nonempty by (simp add: BucketExists_def)
  moreover have "\<not> BucketExists (hs_bm sample_state) (str ''tea-1'')" using new by (simp add: BucketExists_def sample_state_def)
  ultimately show ?thesis
    using http_bucket_names [OF sample_world_simps(3) h] by (simp add: h)
qed

end
