(* ===== verification/Bootstrap.thy ===== *)
theory Bootstrap
  imports Configuration Tcp_Server
begin

text \<open>
  The start of the program, \<open>main\<close> of \<open>cmd/kvstore/main.go\<close> up to where it waits for a signal: configuration,
  logger, token manager, the token it prints, the bucket manager with the default bucket, and the addresses the
  servers listen on. The services and handlers hold no state of their own: they are the functions of \<open>Services\<close>,
  \<open>Tcp_Server\<close> and \<open>Http_Server\<close> applied to the state below.
\<close>

record program =
  pg_configs :: configuration
  pg_logger :: "slog_handler option"
  pg_auth :: auth_state
  pg_token :: gostring
  pg_bucketManager :: bucket_manager
  pg_tcpAddr :: gostring
  pg_httpAddr :: gostring

text \<open>\<open>NewBucketManager\<close> only logs an error of \<open>CreateBucket\<close>; a panic ends the program.\<close>

definition main :: "environ \<Rightarrow> byte list option \<Rightarrow> env \<Rightarrow> gostring \<Rightarrow> go_panic + program" where
  "main os rnd env uid =
     (let configs = NewConfig os rnd;
          lg = logger_Initialize (lg_Environment (cf_Logging configs)) (lg_Level (cf_Logging configs)) None;
          auth = auth_Initialize (ac_TokenSecret (cf_Auth configs)) None
      in case auth_Manager auth of
           Inl p \<Rightarrow> Inl p
         | Inr tm \<Rightarrow>
             let token = GenerateToken env tm (str ''default'') 0;
                 (out, bm) = NewBucketManager env auth uid (st_ShardCount (cf_Store configs))
             in case out of
                  Panic p \<Rightarrow> Inl p
                | _ \<Rightarrow> Inr \<lparr>pg_configs = configs, pg_logger = lg, pg_auth = auth, pg_token = token,
                        pg_bucketManager = bm, pg_tcpAddr = str '':'' @ Itoa (sv_TCPPort (cf_Server configs)),
                        pg_httpAddr = str '':'' @ Itoa (sv_Port (cf_Server configs))\<rparr>)"

section \<open>The new manager\<close>

lemma NewBucketManager_result:
  "NewBucketManager env (Some tm) uid n =
    (Ok (GenerateToken env tm (str ''default'') 0), snd (NewBucketManager env (Some tm) uid n))"
  by (simp add: NewBucketManager_def CreateBucket_def Let_def auth_Manager_def bm_lookup_def str_nonempty)

lemma NewBucketManager_store:
  "GetStore (snd (NewBucketManager env (Some tm) uid n)) (str ''default'') =
    Some (Some (NewShardContainer NewMemoryStore (env_now env) n))"
  by (simp add: NewBucketManager_def CreateBucket_def Let_def auth_Manager_def GetStore_def bm_lookup_def str_nonempty)

lemma default_token_valid: "ValidateToken env' tm (GenerateToken env tm (str ''default'') 0) (str ''default'')"
proof -
  have "dot \<notin> set (be64 0)" "dot \<notin> set (str ''default'')" "str ''default'' \<noteq> []" by (auto simp: be64_def be_bytes_def str_def)
  then show ?thesis using GenerateToken_valid by (simp add: token_expiry_def)
qed

lemma main_result:
  "main os rnd env uid =
    (let c = NewConfig os rnd; tm = NewTokenManager (ac_TokenSecret (cf_Auth c)) in
     Inr \<lparr>pg_configs = c, pg_logger = logger_Initialize (lg_Environment (cf_Logging c)) (lg_Level (cf_Logging c)) None,
       pg_auth = Some tm, pg_token = GenerateToken env tm (str ''default'') 0,
       pg_bucketManager = snd (NewBucketManager env (Some tm) uid (st_ShardCount (cf_Store c))),
       pg_tcpAddr = str '':'' @ Itoa (sv_TCPPort (cf_Server c)), pg_httpAddr = str '':'' @ Itoa (sv_Port (cf_Server c))\<rparr>)"
proof -
  obtain bm where bm: "NewBucketManager env (Some (NewTokenManager (ac_TokenSecret (cf_Auth (NewConfig os rnd))))) uid
      (st_ShardCount (cf_Store (NewConfig os rnd))) =
      (Ok (GenerateToken env (NewTokenManager (ac_TokenSecret (cf_Auth (NewConfig os rnd)))) (str ''default'') 0), bm)"
    using NewBucketManager_result by blast
  show ?thesis by (simp add: main_def auth_Initialize_def auth_Manager_def Let_def bm)
qed

text \<open>The first key of a new store is set without a panic of the collector.\<close>

lemma first_set:
  assumes n: "n < 2 ^ 63" and bm: "bm = snd (NewBucketManager env0 (Some tm) uid n)"
  shows "fst (StorageService_Set env hash bm (str ''default'') k v 0 sr) = Ok (new_entry env k v 0 sr)"
proof -
  let ?sc = "NewShardContainer NewMemoryStore (env_now env0) n" and ?e = "new_entry env k v 0 sr"
  let ?ms = "NewMemoryStore (env_now env0)"
  have g: "GetStore bm (str ''default'') = Some (Some ?sc)" using NewBucketManager_store by (simp add: bm)
  have "getShard hash ?sc k < length (sc_shards ?sc)"
    by (rule getShard_less [OF NewMemoryStore_container(1) [OF n]])
  then have sh: "sc_shards ?sc ! getShard hash ?sc k = ?ms" by (simp add: NewShardContainer_def Let_def)
  have "nq_index (gc_nearQueue (ms_gc ?ms)) k = None"
    by (simp add: NewMemoryStore_def NewGarbageCollector_def NewNearQueue_def)
  then obtain gc where "GC_Schedule env (ms_gc ?ms) k (se_TTL ?e) (se_CreatedAt ?e) = Inr gc"
    using cancel_unknown by (simp add: GC_Schedule_def new_entry_def)
  from MemoryStore_Set_gc(1) [OF this] have "snd (ShardContainer_Set (cow_methods hash) env hash ?sc k ?e) = None"
    by (simp add: ShardContainer_Set_def Let_def cow_methods_def sh case_prod_unfold)
  then show ?thesis by (simp add: StorageService_Set_def g case_prod_unfold Let_def)
qed

section \<open>Properties\<close>

text \<open>The program starts whatever the environment holds: no step of the start panics, the token it prints
  opens the default bucket at any time, the manager is well formed with an empty default bucket, and the servers
  listen on the configured ports.\<close>

theorem main_starts:
  "\<exists>pg tm. main os rnd env uid = Inr pg \<and> pg_auth pg = Some tm \<and> pg_configs pg = NewConfig os rnd \<and>
    (\<forall>env'. ValidateToken env' tm (pg_token pg) (str ''default'')) \<and>
    bm_reachable hash (pg_auth pg) (pg_bucketManager pg) \<and>
    kv_view hash (pg_bucketManager pg) = [str ''default'' \<mapsto> Map.empty] \<and>
    Atoi (tl (pg_tcpAddr pg)) = Some (getEnvAsInt os EnvTCPPort DefaultTCPPort) \<and>
    Atoi (tl (pg_httpAddr pg)) = Some (getEnvAsInt os EnvServerPort DefaultServerPort)"
proof -
  let ?c = "NewConfig os rnd" and ?tm = "NewTokenManager (ac_TokenSecret (cf_Auth (NewConfig os rnd)))"
  let ?n = "st_ShardCount (cf_Store ?c)"
  let ?bm = "snd (NewBucketManager env (Some ?tm) uid ?n)"
  have r: "\<And>x. x \<in> {sv_Port (cf_Server ?c), sv_TCPPort (cf_Server ?c), ?n} \<Longrightarrow> - (2 ^ 63) \<le> x \<and> x < 2 ^ 63"
    using NewConfig_ranges by blast
  have n: "?n < 2 ^ 63" using r by simp
  have reach: "bm_reachable hash (Some ?tm) ?bm" by (rule bm_new [OF NewBucketManager_result n])
  have "kv_view hash ?bm b = [str ''default'' \<mapsto> Map.empty] b" for b
    by (simp add: NewBucketManager_def CreateBucket_def Let_def auth_Manager_def kv_view_def GetStore_def bm_lookup_def
        str_nonempty NewMemoryStore_container(2) [OF n])
  then have view: "kv_view hash ?bm = [str ''default'' \<mapsto> Map.empty]" by (rule ext)
  have "Atoi (Itoa (sv_TCPPort (cf_Server ?c))) = Some (sv_TCPPort (cf_Server ?c))"
      "Atoi (Itoa (sv_Port (cf_Server ?c))) = Some (sv_Port (cf_Server ?c))"
    using r Atoi_Itoa by simp_all
  moreover have "sv_TCPPort (cf_Server ?c) = getEnvAsInt os EnvTCPPort DefaultTCPPort"
      "sv_Port (cf_Server ?c) = getEnvAsInt os EnvServerPort DefaultServerPort"
    by (simp_all add: NewConfig_def Let_def)
  ultimately show ?thesis using reach view default_token_valid by (simp add: main_result Let_def str_def)
qed

text \<open>C7: Started with any environment, the program serves: a client that sends the printed token with a set
  request for any key and value gets the answer created, and a get request after it, over any connection and at
  any time, is answered with that value.\<close>

theorem main_then_serve:
  assumes "main os rnd env0 uid = Inr pg" "set_fits (pg_token pg) (str ''default'') k 0 v"
    and "EncodeSetPayload (pg_token pg) (str ''default'') k 0 sr v = Inr set_data"
    and "EncodeGetPayload (pg_token pg) (str ''default'') k = Inr get_data"
    and "HandleFrame env1 (pg_auth pg) hash (NewFrame CmdSet i set_data) (pg_bucketManager pg) = (res1, bm1)"
    and "HandleFrame env2 (pg_auth pg) hash (NewFrame CmdGet j get_data) bm1 = (res2, bm2)"
  shows "res1 = Inr (NewResponseFrame i StatusCreated []) \<and>
    (\<exists>created expires. res2 = Inr (NewResponseFrame j StatusOK
       (str_field k @ int_field 0 @ int_field created @ int_field expires @ flag_field sr @ value_field v)))"
proof -
  let ?c = "NewConfig os rnd" and ?tm = "NewTokenManager (ac_TokenSecret (cf_Auth (NewConfig os rnd)))"
  let ?n = "st_ShardCount (cf_Store ?c)" and ?b = "str ''default''" and ?e = "stamped env1 (new_entry env1 k v 0 sr)"
  let ?bm = "snd (NewBucketManager env0 (Some ?tm) uid ?n)"
  have n: "?n < 2 ^ 63" using NewConfig_ranges by blast
  have pg: "pg_auth pg = Some ?tm" "pg_token pg = GenerateToken env0 ?tm ?b 0" "pg_bucketManager pg = ?bm"
    using assms(1) by (auto simp: main_result Let_def)
  have bm: "bm_reachable hash (Some ?tm) ?bm" by (rule bm_new [OF NewBucketManager_result n])
  have view: "kv_view hash ?bm ?b = Some Map.empty"
    using NewBucketManager_store by (simp add: kv_view_def NewMemoryStore_container(2) [OF n])
  have tok: "ValidateToken env' ?tm (pg_token pg) ?b" for env' using default_token_valid by (simp add: pg(2))
  have ds: "DecodeSetPayload set_data = Inr (pg_token pg, ?b, k, 0, sr, v)"
    using DecodeSet_Encode [OF assms(3,2), of "[]"] by simp
  have "get_fits (pg_token pg) ?b k" using assms(2) by (simp add: set_fits_def get_fits_def)
  then have dg: "DecodeGetPayload get_data = Inr (pg_token pg, ?b, k)" using DecodeGet_Encode [OF assms(4), of "[]"] by simp
  have f: "fr_Payload (NewFrame x y z) = z" "fr_Command (NewFrame x y z) = x" "fr_RequestID (NewFrame x y z) = y" for x y z
    by (simp_all add: NewFrame_def)
  have h1: "HandleFrame env1 (Some ?tm) hash (NewFrame CmdSet i set_data) ?bm = (res1, bm1)" using assms(5) by (simp add: pg)
  have s: "kv_view hash bm1 = (kv_view hash ?bm)(?b \<mapsto> [k \<mapsto> ?e])" "bm_ok hash bm1"
    using handleSet_view(1,2) [OF bm_reachable_ok [OF bm] _ _ tok view _ h1] ds by (simp_all add: f)
  have "fst (StorageService_Set env1 hash ?bm ?b k v 0 sr) = Ok (new_entry env1 k v 0 sr)" by (rule first_set [OF n refl])
  then have r1: "res1 = Inr (NewResponseFrame i StatusCreated [])"
    using h1 tok ds by (auto simp: HandleFrame_def handleSet_def auth_Manager_def f split: prod.splits outcome.splits)
  have v1: "kv_view hash bm1 ?b = Some [k \<mapsto> ?e]" by (simp add: s(1))
  have "\<not> IsExpired (env_now env2) (new_entry env1 k v 0 sr)" by (simp add: IsExpired_def new_entry_def time_IsZero_def)
  then have rd: "Option.bind ([k \<mapsto> ?e] k) (read_entry env2) \<noteq> None" by (simp add: read_stamped)
  obtain e where e: "Option.bind ([k \<mapsto> ?e] k) (read_entry env2) = Some e" using rd by blast
  have fields: "se_Key e = k" "se_TTL e = 0" "se_SingleRead e = sr" "se_Value e = v"
    using e unfolding fun_upd_same bind.bind_lunit read_stamped by (auto simp: new_entry_def split: if_splits)
  from handleGet_view [OF s(2), of "NewFrame CmdGet j get_data" "pg_token pg" ?b k env2 ?tm, OF _ _ tok v1]
  have "res2 = Inr (NewResponseFrame j StatusOK (value_response e))"
    using assms(6) dg e by (auto simp: f pg)
  then show ?thesis using r1 by (auto simp: value_response_def fields)
qed

lemma sample_main:
  "\<exists>pg. main [EnvTokenSecret \<mapsto> str ''secret''] None sample_env (str ''id'') = Inr pg \<and> pg_token pg = sample_token"
proof -
  have "ac_TokenSecret (cf_Auth (NewConfig [EnvTokenSecret \<mapsto> str ''secret''] None)) = str ''secret''"
    by (simp add: NewConfig_def Let_def getEnv_def str_nonempty)
  then show ?thesis by (simp add: main_result Let_def sample_token_def NewTokenManager_def)
qed

theorem main_then_serve_witness:
  "\<exists>pg set_data get_data bm1. main [EnvTokenSecret \<mapsto> str ''secret''] None sample_env (str ''id'') = Inr pg \<and>
    bm1 = snd (HandleFrame sample_env (pg_auth pg) (\<lambda>_. 0) (NewFrame CmdSet 1 set_data) (pg_bucketManager pg)) \<and>
    (\<exists>created expires. fst (HandleFrame sample_env (pg_auth pg) (\<lambda>_. 0) (NewFrame CmdGet 2 get_data) bm1) =
      Inr (NewResponseFrame 2 StatusOK (str_field (str ''k'') @ int_field 0 @ int_field created @ int_field expires @
        flag_field False @ value_field [1])))"
proof -
  obtain pg where pg: "main [EnvTokenSecret \<mapsto> str ''secret''] None sample_env (str ''id'') = Inr pg" "pg_token pg = sample_token"
    using sample_main by blast
  have fits: "set_fits (pg_token pg) (str ''default'') (str ''k'') 0 [1]"
    using length_sample_token by (simp add: set_fits_def str_def pg(2))
  obtain set_data get_data where enc: "EncodeSetPayload (pg_token pg) (str ''default'') (str ''k'') 0 False [1] = Inr set_data"
      "EncodeGetPayload (pg_token pg) (str ''default'') (str ''k'') = Inr get_data"
    using EncodeSetPayload_eq EncodeGetPayload_eq by blast
  note served = main_then_serve [OF pg(1) fits enc prod.collapse [symmetric] prod.collapse [symmetric],
      of sample_env "\<lambda>_. 0" 1 sample_env 2]
  show ?thesis
    by (rule exI [of _ pg], rule exI [of _ set_data], rule exI [of _ get_data]) 
       (rule exI, rule conjI [OF pg(1) conjI [OF refl served [THEN conjunct2]]])
qed

end
