(* ===== verification/Manager_Calls.thy ===== *)
theory Manager_Calls
  imports Services Cow_Concurrency
begin

text \<open>
  What a transport asks of the services, as data: a request over either protocol comes down to at most one of
  the calls below. Each fact about the state that a run of requests has to keep is proved here once per call:
  reachability, the buckets and entries a call leaves alone, and, for any predicate on single stores that the
  store operations keep, that it holds in every store of every bucket.
\<close>

section \<open>Calls\<close>

datatype manager_call =
    NoCall
  | CallSet env gostring gostring "byte list" int bool
  | CallGet env gostring gostring
  | CallDelete gostring gostring
  | CallCreateBucket env gostring gostring gostring int
  | CallDeleteBucket env gostring gostring

fun panic_of :: "'a outcome \<Rightarrow> go_panic option" where
  "panic_of (Panic p) = Some p"
| "panic_of (Ok x) = None"
| "panic_of (Err e) = None"

text \<open>A call on the manager: the panic it ends with, if any, and the manager after it.\<close>

fun run_call :: "auth_state \<Rightarrow> hasher \<Rightarrow> manager_call \<Rightarrow> bucket_manager \<Rightarrow> go_panic option \<times> bucket_manager" where
  "run_call auth hash NoCall bm = (None, bm)"
| "run_call auth hash (CallSet env b k v ttl sr) bm = map_prod panic_of id (StorageService_Set env hash bm b k v ttl sr)"
| "run_call auth hash (CallGet env b k) bm = map_prod panic_of id (StorageService_Get env hash bm b k)"
| "run_call auth hash (CallDelete b k) bm = map_prod panic_of id (StorageService_Delete hash bm b k)"
| "run_call auth hash (CallCreateBucket env uid name desc n) bm =
     map_prod panic_of id (BucketService_CreateBucket env auth hash uid bm name desc n)"
| "run_call auth hash (CallDeleteBucket env name token) bm =
     map_prod panic_of id (BucketService_DeleteBucket env auth bm name token)"

text \<open>The bucket whose token a call needs, the keys it may bind or remove, the entry it stores, the bucket it
  would create.\<close>

fun call_target :: "manager_call \<Rightarrow> gostring option" where
  "call_target (CallSet env b k v ttl sr) = Some b"
| "call_target (CallGet env b k) = Some b"
| "call_target (CallDelete b k) = Some b"
| "call_target (CallDeleteBucket env b token) = Some b"
| "call_target _ = None"

fun call_writes :: "manager_call \<Rightarrow> gostring \<Rightarrow> gostring \<Rightarrow> bool" where
  "call_writes (CallSet env b' k' v ttl sr) b k = (b' = b \<and> k' = k)"
| "call_writes (CallDelete b' k') b k = (b' = b \<and> k' = k)"
| "call_writes (CallDeleteBucket env b' token) b k = (b' = b)"
| "call_writes _ b k = False"

fun call_entry :: "manager_call \<Rightarrow> storage_entry option" where
  "call_entry (CallSet env b k v ttl sr) = Some (new_entry env k v ttl sr)"
| "call_entry _ = None"

fun call_creates :: "manager_call \<Rightarrow> (gostring \<times> int) option" where
  "call_creates (CallCreateBucket env uid name desc n) = Some (name, n)"
| "call_creates _ = None"

lemma BucketService_CreateBucket_panic:
  "map_prod panic_of id (BucketService_CreateBucket env auth hash uid bm name desc n) =
    map_prod panic_of id (CreateBucket env auth uid bm name desc n)"
  by (auto simp: BucketService_CreateBucket_def split: prod.split outcome.split option.split)

lemma BucketService_DeleteBucket_panic:
  "map_prod panic_of id (BucketService_DeleteBucket env auth bm name token) =
    map_prod panic_of id (DeleteBucket env auth bm name token)"
  by (auto simp: BucketService_DeleteBucket_def split: prod.split outcome.split)

lemmas bucket_call_simps [simp] = BucketService_CreateBucket_panic BucketService_DeleteBucket_panic

section \<open>What a call leaves alone\<close>

text \<open>A call on a key either changes nothing or replaces the store of its bucket.\<close>

lemma service_store:
  assumes "bm_ok hash bm"
  shows "StorageService_Set env hash bm b k v ttl sr = (o1, bm') \<Longrightarrow> bm' = bm \<or> (\<exists>sc. bucket_ok hash sc \<and> bm' = set_store b sc bm)"
    "StorageService_Get env hash bm b k = (o2, bm') \<Longrightarrow> bm' = bm \<or> (\<exists>sc. bucket_ok hash sc \<and> bm' = set_store b sc bm)"
    "StorageService_Delete hash bm b k = (o3, bm') \<Longrightarrow> bm' = bm \<or> (\<exists>sc. bucket_ok hash sc \<and> bm' = set_store b sc bm)"
proof -
  have st: "\<exists>sc. so = Some sc \<and> bucket_ok hash sc" if "GetStore bm b = Some so" for so by (rule GetStore_ok [OF assms that])
  show "StorageService_Set env hash bm b k v ttl sr = (o1, bm') \<Longrightarrow> bm' = bm \<or> (\<exists>sc. bucket_ok hash sc \<and> bm' = set_store b sc bm)"
    using st cow.sharded_set(1)
    by (fastforce simp: StorageService_Set_def Let_def split: if_splits option.splits prod.splits)
  show "StorageService_Get env hash bm b k = (o2, bm') \<Longrightarrow> bm' = bm \<or> (\<exists>sc. bucket_ok hash sc \<and> bm' = set_store b sc bm)"
    using st cow.sharded_get(1)
    by (fastforce simp: StorageService_Get_def Let_def split: option.splits prod.splits)
  show "StorageService_Delete hash bm b k = (o3, bm') \<Longrightarrow> bm' = bm \<or> (\<exists>sc. bucket_ok hash sc \<and> bm' = set_store b sc bm)"
    using st cow.sharded_delete_any(1)
    by (fastforce simp: StorageService_Delete_def Let_def split: option.splits prod.splits)
qed

lemma run_call_reachable:
  assumes "bm_reachable hash auth bm" "\<And>name n. call_creates c = Some (name, n) \<Longrightarrow> n < 2 ^ 63"
  shows "bm_reachable hash auth (snd (run_call auth hash c bm))"
proof -
  note ok = bm_reachable_ok [OF assms(1)]
  note step = service_store [OF ok]
  show ?thesis
  proof (cases c)
    case (CallSet env b k v ttl sr)
    then show ?thesis using step(1) [OF prod.collapse [symmetric]] assms(1) bm_store [OF assms(1)] by (metis id_apply run_call.simps(2) snd_map_prod)
  next
    case (CallGet env b k)
    then show ?thesis using step(2) [OF prod.collapse [symmetric]] assms(1) bm_store [OF assms(1)] by (metis id_apply run_call.simps(3) snd_map_prod)
  next
    case (CallDelete b k)
    then show ?thesis using step(3) [OF prod.collapse [symmetric]] assms(1) bm_store [OF assms(1)] by (metis id_apply run_call.simps(4) snd_map_prod)
  next
    case (CallCreateBucket env uid name desc n)
    then show ?thesis using bm_create [OF assms(1) prod.collapse [symmetric]] assms(2) by simp
  next
    case (CallDeleteBucket env name token)
    then show ?thesis using bm_delete [OF assms(1) prod.collapse [symmetric]] by simp
  qed (use assms(1) in simp)
qed

text \<open>Buckets other than the target keep their entries, counters included.\<close>

lemma run_call_other:
  assumes "bm_ok hash bm" "kv_view hash bm b = Some M" "call_target c \<noteq> Some b"
  shows "kv_view hash (snd (run_call auth hash c bm)) b = Some M"
proof (cases c)
  case (CallSet env b' k v ttl sr)
  then show ?thesis using StorageService_frame(1) [OF assms(1) _ prod.collapse [symmetric]] assms(2,3) by simp
next
  case (CallGet env b' k)
  then show ?thesis using StorageService_frame(2) [OF assms(1) _ prod.collapse [symmetric]] assms(2,3) by simp
next
  case (CallDelete b' k)
  then show ?thesis using StorageService_frame(3) [OF assms(1) _ prod.collapse [symmetric]] assms(2,3) by simp
next
  case (CallCreateBucket env uid name desc n)
  then show ?thesis using CreateBucket_keeps [OF prod.collapse [symmetric] assms(2)] by simp
next
  case (CallDeleteBucket env name token)
  then show ?thesis using DeleteBucket_keeps [OF prod.collapse [symmetric]] assms(2,3) by simp
qed (use assms(2) in simp)

text \<open>A key that a call does not write keeps its entry up to the counters that reads advance.\<close>

lemma read_entry_frozen: "read_entry env e = Some e' \<Longrightarrow> frozen e' = frozen e"
  by (auto simp: read_entry_def split: if_splits)

lemma run_call_key:
  assumes ok: "bm_ok hash bm" and M: "kv_view hash bm b = Some M" and w: "\<not> call_writes c b k"
  obtains M' where "kv_view hash (snd (run_call auth hash c bm)) b = Some M'"
    "map_option frozen (M' k) = map_option frozen (M k)"
proof (cases "call_target c = Some b")
  case False
  from run_call_other [OF ok M this] show thesis by (rule that) simp
next
  case True
  then consider (set) env k' v ttl sr where "c = CallSet env b k' v ttl sr" "k' \<noteq> k"
    | (get) env k' where "c = CallGet env b k'" | (delete) k' where "c = CallDelete b k'" "k' \<noteq> k"
    using w by (cases c) auto
  then show thesis
  proof cases
    case set
    show thesis
    proof (cases "ttl < 0")
      case True
      then show thesis using that [of M] M set by (simp add: StorageService_Set_negative)
    next
      case False
      then show thesis
        using StorageService_Set_view(1) [OF ok prod.collapse [symmetric] M] set
        by (intro that [of "M(k' \<mapsto> stamped env (new_entry env k' v ttl sr))"]) simp_all
    qed
  next
    case get
    let ?M' = "case Option.bind (M k') (read_entry env) of None \<Rightarrow> M | Some e \<Rightarrow> M(k' \<mapsto> e)"
    have "map_option frozen (?M' k) = map_option frozen (M k)"
      using read_entry_frozen by (auto simp: bind_eq_Some_conv split: option.split)
    moreover have "kv_view hash (snd (run_call auth hash c bm)) b = Some ?M'"
      using StorageService_Get_view(2) [OF ok prod.collapse [symmetric] M] get by simp
    ultimately show thesis using that by blast
  next
    case delete
    from StorageService_Delete_any(3) [OF ok prod.collapse [symmetric] M, of k']
    show thesis
    proof
      assume "kv_view hash (snd (StorageService_Delete hash bm b k')) = kv_view hash bm"
      then show thesis using that [of M] M delete(1) by simp
    next
      assume "fst (StorageService_Delete hash bm b k') = Ok () \<and>
        kv_view hash (snd (StorageService_Delete hash bm b k')) = (kv_view hash bm)(b \<mapsto> M(k' := None))"
      then show thesis using that [of "M(k' := None)"] delete by simp
    qed
  qed
qed

text \<open>Buckets come from creation only.\<close>

lemma run_call_new_bucket:
  assumes "bm_lookup bm name = None" "bm_lookup (snd (run_call auth hash c bm)) name \<noteq> None"
  shows "\<exists>n. call_creates c = Some (name, n)"
proof -
  have st: "bm_lookup (set_store b sc bm) name = None" for b sc using assms(1) by (simp add: set_store_lookup)
  show ?thesis
  proof (cases c)
    case (CallSet env b k v ttl sr)
    then show ?thesis using assms st
      by (auto simp: StorageService_Set_def Let_def split: if_splits option.splits prod.splits)
  next
    case (CallGet env b k)
    then show ?thesis using assms st by (auto simp: StorageService_Get_def Let_def split: option.splits prod.splits)
  next
    case (CallDelete b k)
    then show ?thesis using assms st by (auto simp: StorageService_Delete_def Let_def split: option.splits prod.splits)
  next
    case (CallCreateBucket env uid name' desc n)
    then show ?thesis using CreateBucket_lookup [OF prod.collapse [symmetric], of env auth uid bm name' desc n] assms
      by (auto split: if_splits)
  next
    case (CallDeleteBucket env name' token)
    then show ?thesis using DeleteBucket_lookup [OF prod.collapse [symmetric], of env auth bm name' token] assms
      by (auto split: if_splits)
  qed (use assms in simp)
qed

section \<open>A predicate on every store\<close>

definition every_store :: "(memory_store \<Rightarrow> bool) \<Rightarrow> bucket_manager \<Rightarrow> bool" where
  "every_store P bm =
     list_all (\<lambda>(name, b). case bk_store b of None \<Rightarrow> True | Some sc \<Rightarrow> list_all P (sc_shards sc)) (bm_buckets bm)"

lemma every_store_get:
  assumes "every_store P bm" "GetStore bm b = Some (Some sc)"
  shows "list_all P (sc_shards sc)"
proof -
  obtain m where "(b, m) \<in> set (bm_buckets bm)" "bk_store m = Some sc"
    using assms(2) by (auto simp: GetStore_def bm_lookup_def dest: map_of_SomeD split: option.splits)
  then show ?thesis using assms(1) by (fastforce simp: every_store_def list_all_iff)
qed

lemma every_store_set:
  assumes "every_store P bm" "list_all P (sc_shards sc)"
  shows "every_store P (set_store b sc bm)"
  using assms by (fastforce simp: every_store_def set_store_def list_all_iff split: option.splits if_splits)

lemma every_store_shard:
  assumes "list_all P (sc_shards sc)" "i < length (sc_shards sc) \<Longrightarrow> P (sc_shards sc ! i) \<Longrightarrow> P s"
  shows "list_all P (sc_shards (sc\<lparr>sc_shards := (sc_shards sc)[i := s]\<rparr>))"
proof (cases "i < length (sc_shards sc)")
  case True
  then have "P s" using assms by (simp add: list_all_length)
  then show ?thesis using assms(1) True by (simp add: list_all_length nth_list_update)
next
  case False
  then show ?thesis using assms(1) by (simp add: list_update_beyond)
qed

lemma every_store_delete:
  assumes "every_store P bm" shows "every_store P (snd (DeleteBucket env auth bm name token))"
  using assms by (auto simp: every_store_def DeleteBucket_def list_all_iff split: sum.split)

text \<open>What the store operations keep, for entries of a certain kind.\<close>

locale kept_shards =
  fixes hash :: hasher and P :: "memory_store \<Rightarrow> bool" and allowed :: "storage_entry \<Rightarrow> bool"
  assumes new_law: "P (NewMemoryStore now)"
    and set_law: "P s \<Longrightarrow> allowed e \<Longrightarrow> P (fst (MemoryStore_Set env hash s k e))"
    and get_law: "P s \<Longrightarrow> P (snd (MemoryStore_Get env hash s k))"
    and delete_law: "P s \<Longrightarrow> P (fst (MemoryStore_Delete hash s k))"
begin

lemma kept_create:
  assumes "every_store P bm"
  shows "every_store P (snd (CreateBucket env auth uid bm name desc n))"
  using assms new_law
  by (auto simp: every_store_def CreateBucket_def Let_def list_all_iff NewShardContainer_def split: sum.split)

lemma kept_new: "every_store P (snd (NewBucketManager env auth uid n))"
  unfolding NewBucketManager_def by (rule kept_create) (simp add: every_store_def)

lemma kept_service_set:
  assumes "every_store P bm" "allowed (new_entry env k v ttl sr)"
  shows "every_store P (snd (StorageService_Set env hash bm b k v ttl sr))"
proof (cases "ttl < 0 \<or> (\<nexists>sc. GetStore bm b = Some (Some sc))")
  case True
  then show ?thesis using assms(1) by (auto simp: StorageService_Set_def split: option.split)
next
  case False
  then obtain sc where sc: "GetStore bm b = Some (Some sc)" "\<not> ttl < 0" by blast
  note all = every_store_get [OF assms(1) sc(1)]
  have "list_all P (sc_shards (fst (ShardContainer_Set (cow_methods hash) env hash sc k (new_entry env k v ttl sr))))"
    unfolding ShardContainer_Set_def Let_def case_prod_unfold fst_conv
    by (rule every_store_shard [OF all]) (simp add: cow_methods_def set_law assms(2))
  then show ?thesis using sc every_store_set [OF assms(1)] by (simp add: StorageService_Set_def Let_def case_prod_unfold)
qed

lemma kept_service_get:
  assumes "every_store P bm"
  shows "every_store P (snd (StorageService_Get env hash bm b k))"
proof (cases "\<exists>sc. GetStore bm b = Some (Some sc)")
  case False
  then show ?thesis using assms by (auto simp: StorageService_Get_def split: option.split)
next
  case True
  then obtain sc where sc: "GetStore bm b = Some (Some sc)" by blast
  note all = every_store_get [OF assms sc]
  have "list_all P (sc_shards (snd (ShardContainer_Get (cow_methods hash) env hash sc k)))"
    unfolding ShardContainer_Get_def Let_def case_prod_unfold snd_conv
    by (rule every_store_shard [OF all]) (simp add: cow_methods_def get_law)
  then show ?thesis using sc every_store_set [OF assms] by (simp add: StorageService_Get_def Let_def case_prod_unfold)
qed

lemma kept_service_delete:
  assumes "every_store P bm"
  shows "every_store P (snd (StorageService_Delete hash bm b k))"
proof (cases "\<exists>sc. GetStore bm b = Some (Some sc)")
  case False
  then show ?thesis using assms by (auto simp: StorageService_Delete_def split: option.split)
next
  case True
  then obtain sc where sc: "GetStore bm b = Some (Some sc)" by blast
  note all = every_store_get [OF assms sc]
  have "list_all P (sc_shards (fst (ShardContainer_Delete (cow_methods hash) hash sc k)))"
    unfolding ShardContainer_Delete_def Let_def case_prod_unfold fst_conv
    by (rule every_store_shard [OF all]) (simp add: cow_methods_def delete_law)
  then show ?thesis using sc every_store_set [OF assms] by (simp add: StorageService_Delete_def Let_def case_prod_unfold)
qed

lemma kept_call:
  assumes "every_store P bm" "\<And>e. call_entry c = Some e \<Longrightarrow> allowed e"
  shows "every_store P (snd (run_call auth hash c bm))"
  using assms by (cases c) (simp_all add: kept_service_set kept_service_get kept_service_delete kept_create every_store_delete)

end

text \<open>If the operations on such stores never panic either, no call does.\<close>

locale calm_shards = kept_shards +
  assumes set_calm: "P s \<Longrightarrow> allowed e \<Longrightarrow> snd (MemoryStore_Set env hash s k e) = None"
    and delete_calm: "P s \<Longrightarrow> snd (MemoryStore_Delete hash s k) = None"
begin

lemma calm_shard:
  assumes "bm_ok hash bm" "every_store P bm" "GetStore bm b = Some so"
  shows "\<exists>sc. so = Some sc \<and> P (sc_shards sc ! getShard hash sc k)"
proof -
  obtain sc where sc: "so = Some sc" "bucket_ok hash sc" using GetStore_ok [OF assms(1,3)] by blast
  have "list_all P (sc_shards sc)" by (rule every_store_get [OF assms(2)]) (use assms(3) sc(1) in simp)
  then show ?thesis using getShard_less [OF sc(2)] sc(1) by (simp add: list_all_length)
qed

lemma calm_call:
  assumes "bm_ok hash bm" "every_store P bm" "\<And>e. call_entry c = Some e \<Longrightarrow> allowed e"
  shows "fst (run_call (Some tm) hash c bm) = None"
proof (cases c)
  case (CallSet env b k v ttl sr)
  then show ?thesis using calm_shard [OF assms(1,2)] set_calm assms(3)
    by (fastforce simp: StorageService_Set_def ShardContainer_Set_def cow_methods_def Let_def case_prod_unfold split: option.split)
next
  case (CallGet env b k)
  then show ?thesis using calm_shard [OF assms(1,2)]
    by (fastforce simp: StorageService_Get_def Let_def case_prod_unfold split: option.split)
next
  case (CallDelete b k)
  then show ?thesis using calm_shard [OF assms(1,2)] delete_calm
    by (fastforce simp: StorageService_Delete_def ShardContainer_Delete_def cow_methods_def Let_def case_prod_unfold split: option.split)
qed (simp_all add: CreateBucket_def DeleteBucket_def auth_Manager_def Let_def)

end

section \<open>Predicates on the collectors\<close>

text \<open>A predicate on a collector that the calls of its store keep is such a predicate.\<close>

locale kept_collectors =
  fixes Q :: "garbage_collector \<Rightarrow> bool" and allowed :: "storage_entry \<Rightarrow> bool"
  assumes gc_new: "Q (NewGarbageCollector now)"
    and gc_schedule: "Q gc \<Longrightarrow> allowed e \<Longrightarrow> GC_Schedule env gc k (se_TTL e) at = Inr gc' \<Longrightarrow> Q gc'"
    and gc_cancel: "Q gc \<Longrightarrow> GC_Cancel gc k = Inr gc' \<Longrightarrow> Q gc'"
    and gc_ask: "Q gc \<Longrightarrow> Q (GC_ScheduleDelete gc k)"
begin

lemma delete_keys_kept:
  "Q gc \<Longrightarrow> delete_keys ks ns delta kc gc = ((ns', delta', kc', gc'), p) \<Longrightarrow> Q gc'"
  by (induction ks ns delta kc gc rule: delete_keys.induct)
    (auto simp: Let_def split: prod.splits if_splits sum.splits dest: gc_cancel)

lemma delete_groups_kept:
  "Q gc \<Longrightarrow> delete_groups g old new delta kc gc = ((new', delta', kc', gc'), p) \<Longrightarrow> Q gc'"
  by (induction g old new delta kc gc rule: delete_groups.induct)
    (auto split: prod.splits option.splits dest: delete_keys_kept)

lemma delete_batch_kept: "Q (ms_gc s) \<Longrightarrow> Q (ms_gc (fst (deleteBatch hash s keys)))"
  using delete_groups_kept [of "ms_gc s" "group_keys hash s keys" "ms_segments s" "ms_segments s" 0 "ms_keyCount s"]
  by (auto simp: deleteBatch_def split: prod.split option.split)

end

sublocale kept_collectors \<subseteq> shards: kept_shards hash "\<lambda>s. Q (ms_gc s)" allowed for hash
proof unfold_locales
  show "Q (ms_gc (NewMemoryStore now))" for now by (simp add: NewMemoryStore_def gc_new)
  show "Q (ms_gc (fst (MemoryStore_Set env hash s k e)))" if "Q (ms_gc s)" "allowed e" for s e env k
  proof (cases "GC_Schedule env (ms_gc s) k (se_TTL e) (se_CreatedAt e)")
    case (Inl p)
    then have "GC_Schedule env (ms_gc s) k (se_TTL (stamped env e)) (se_CreatedAt (stamped env e)) = Inl p"
      by (simp add: stamped_def)
    then show ?thesis using that(1) by (simp add: MemoryStore_Set_def Let_def case_prod_unfold)
  next
    case (Inr gc)
    then show ?thesis using MemoryStore_Set_gc(2) [OF Inr, of hash] gc_schedule [OF that Inr] by simp
  qed
  show "Q (ms_gc (snd (MemoryStore_Get env hash s k)))" if "Q (ms_gc s)" for s env k
    using that gc_ask by (simp add: MemoryStore_Get_def Let_def case_prod_unfold)
  show "Q (ms_gc (fst (MemoryStore_Delete hash s k)))" if "Q (ms_gc s)" for s k
    unfolding MemoryStore_Delete_def by (rule delete_batch_kept [OF that])
qed

text \<open>Nothing that serves a request starts the goroutines of a collector.\<close>

definition gc_idle :: "garbage_collector \<Rightarrow> bool" where
  "gc_idle gc \<longleftrightarrow> \<not> gc_loopRunning gc \<and> \<not> dc_running (gc_coalescer gc)"

interpretation idle: kept_collectors gc_idle "\<lambda>_. True"
  by unfold_locales
    (auto simp: gc_idle_def NewGarbageCollector_def NewDeleteCoalescer_def GC_Schedule_def GC_Cancel_def gbind_iff
      GC_ScheduleDelete_def DeleteCoalescer_Enqueue_def Let_def split: if_splits)

text \<open>Without a time-to-live there are no near deadlines, and then neither \<open>Set\<close> nor \<open>Delete\<close> panics.\<close>

definition gc_calm :: "garbage_collector \<Rightarrow> bool" where
  "gc_calm gc \<longleftrightarrow> nq_index (gc_nearQueue gc) = Map.empty"

lemma calm_cancel: "gc_calm gc \<Longrightarrow> GC_Cancel gc k = Inr (gc\<lparr>gc_wheel := HashedWheel_Remove (gc_wheel gc) k\<rparr>)"
  by (simp add: gc_calm_def cancel_unknown)

interpretation calm: kept_collectors gc_calm "\<lambda>e. se_TTL e \<le> 0"
proof
  show "gc_calm (NewGarbageCollector now)" for now by (simp add: gc_calm_def NewGarbageCollector_def NewNearQueue_def)
  show "gc_calm gc'" if "gc_calm gc" "GC_Cancel gc k = Inr gc'" for gc k gc'
    using that calm_cancel [OF that(1), of k] by (auto simp: gc_calm_def)
  then show "gc_calm gc'" if "gc_calm gc" "se_TTL e \<le> 0" "GC_Schedule env gc k (se_TTL e) at = Inr gc'" for gc e env k at gc'
    using that by (simp add: GC_Schedule_def)
  show "gc_calm (GC_ScheduleDelete gc k)" if "gc_calm gc" for gc k
    using that by (simp add: gc_calm_def GC_ScheduleDelete_def)
qed

lemma calm_delete_keys: "gc_calm gc \<Longrightarrow> snd (delete_keys ks ns delta kc gc) = None"
  by (induction ks ns delta kc gc rule: delete_keys.induct)
    (auto simp: Let_def calm_cancel gc_calm_def split: prod.splits)

interpretation calm_calls: calm_shards hash "\<lambda>s. gc_calm (ms_gc s)" "\<lambda>e. se_TTL e \<le> 0" for hash
proof unfold_locales
  show "snd (MemoryStore_Set env hash s k e) = None" if "gc_calm (ms_gc s)" "se_TTL e \<le> 0" for s e env k
  proof -
    have "GC_Schedule env (ms_gc s) k (se_TTL e) (se_CreatedAt e) =
        Inr ((ms_gc s)\<lparr>gc_wheel := HashedWheel_Remove (gc_wheel (ms_gc s)) k\<rparr>)"
      using that by (simp add: GC_Schedule_def calm_cancel)
    then show ?thesis by (rule MemoryStore_Set_gc(1))
  qed
  show "snd (MemoryStore_Delete hash s k) = None" if "gc_calm (ms_gc s)" for s k
  proof -
    obtain si where g: "group_keys hash s [k] = [(si, [k])]" by (simp add: group_keys_def)
    note none = calm_delete_keys [OF that, of "[k]" "ms_segments s ! si" 0 "ms_keyCount s"]
    obtain ns delta kc gc where "delete_keys [k] (ms_segments s ! si) 0 (ms_keyCount s) (ms_gc s) = ((ns, delta, kc, gc), None)"
      using none by (metis prod.collapse)
    then show ?thesis by (simp add: MemoryStore_Delete_def deleteBatch_def g)
  qed
qed

end
