(* ===== verification/Requests_As_Calls.thy ===== *)
theory Requests_As_Calls
  imports Manager_Calls Http_Properties Tcp_Server
begin

text \<open>
  The two transports as one: what call an HTTP request or a TCP frame comes down to, read off the request and
  the tokens alone, and that serving it changes the manager exactly as that call does. Most requests make no
  call; a request whose token does not fit its bucket never does.
\<close>

section \<open>HTTP\<close>

definition set_request_call :: "world \<Rightarrow> http_request \<Rightarrow> gostring \<Rightarrow> manager_call" where
  "set_request_call W r b =
     (case Option.bind (ReadJSONBody r) decode_create_kv of
        None \<Rightarrow> NoCall
      | Some q0 \<Rightarrow>
          (case CreateKVRequest_Validate q0 of
             Inl msg \<Rightarrow> NoCall
           | Inr q \<Rightarrow> CallSet (wd_env W) b (ck_Key q) (ck_Value q) (ck_TTL q) (ck_SingleRead q)))"

definition create_request_call :: "world \<Rightarrow> http_request \<Rightarrow> manager_call" where
  "create_request_call W r =
     (case Option.bind (ReadJSONBody r) decode_create_bucket of
        None \<Rightarrow> NoCall
      | Some q0 \<Rightarrow>
          (case CreateBucketRequest_Validate (wd_lower W) q0 of
             Inl msg \<Rightarrow> NoCall
           | Inr q \<Rightarrow> CallCreateBucket (wd_env W) (wd_bucketID W) (cb_Name q) (cb_Description q) (cb_ShardCount q)))"

definition delete_request_call :: "world \<Rightarrow> http_request \<Rightarrow> gostring \<Rightarrow> manager_call" where
  "delete_request_call W r b =
     (case Option.bind (ReadJSONBody r) decode_delete_bucket of
        None \<Rightarrow> NoCall
      | Some q0 \<Rightarrow>
          (case DeleteBucketRequest_Validate q0 of
             Inl msg \<Rightarrow> NoCall
           | Inr q \<Rightarrow> CallDeleteBucket (wd_env W) b (db_AuthToken q)))"

definition guarded :: "bool \<Rightarrow> manager_call \<Rightarrow> manager_call" where
  "guarded ok c = (if ok then c else NoCall)"

text \<open>By method and path; a redirected request makes no call, and a \<open>HEAD\<close> request is served by the handler for \<open>GET\<close>.\<close>

definition the_path :: "http_request \<Rightarrow> gostring list" where
  "the_path r = (case mux_path r of None \<Rightarrow> [] | Some path \<Rightarrow> path)"

definition http_call :: "world \<Rightarrow> http_request \<Rightarrow> manager_call" where
  "http_call W r =
     (case the_path r of
        [a, x] \<Rightarrow> guarded (a = str ''api'' \<and> x = str ''buckets'' \<and> rq_Method r = str ''POST'') (create_request_call W r)
      | [a, x, y] \<Rightarrow>
          if a = str ''api'' \<and> x = str ''buckets'' \<and> rq_Method r = str ''DELETE''
          then guarded (authorized W r y) (delete_request_call W r y)
          else if a = str ''api'' \<and> y = str ''kv'' \<and> rq_Method r = str ''POST''
          then guarded (authorized W r x) (set_request_call W r x)
          else NoCall
      | [a, x, y, k] \<Rightarrow>
          guarded (a = str ''api'' \<and> y = str ''kv'' \<and> k \<noteq> [] \<and> authorized W r x)
            (if rq_Method r = str ''GET'' \<or> rq_Method r = str ''HEAD'' then CallGet (wd_env W) x k
             else guarded (rq_Method r = str ''DELETE'') (CallDelete x k))
      | _ \<Rightarrow> NoCall)"

lemma methods_distinct:
  "str ''POST'' \<noteq> str ''GET''" "str ''POST'' \<noteq> str ''DELETE''" "str ''POST'' \<noteq> str ''HEAD''"
  "str ''GET'' \<noteq> str ''POST''" "str ''GET'' \<noteq> str ''DELETE''" "str ''GET'' \<noteq> str ''HEAD''"
  "str ''DELETE'' \<noteq> str ''POST''" "str ''DELETE'' \<noteq> str ''GET''" "str ''DELETE'' \<noteq> str ''HEAD''"
  "str ''HEAD'' \<noteq> str ''POST''" "str ''HEAD'' \<noteq> str ''GET''" "str ''HEAD'' \<noteq> str ''DELETE''"
  by (simp_all add: str_def)

text \<open>What a chain does to the manager, from what its handler does when it runs.\<close>

lemma mw_manager:
  assumes "ApplyMiddleware h (mw W) r new_writer s = (p, w, s')" "PathValue r (str ''bucket'') = b"
    and "\<And>w1 s1. fresh w1 \<Longrightarrow> hs_bm s1 = hs_bm s \<Longrightarrow>
      snd (snd (reply W (h (SetBucketName (inner_request W r) b) w1 s1))) = snd (run_call auth hash c (hs_bm s))"
  shows "hs_bm s' = snd (run_call auth hash (guarded (authorized W r b) c) (hs_bm s))"
proof -
  have e: "hs_bm s' = snd (snd (reply W (p, w, s')))" by (cases p) (simp_all add: reply_def)
  have "fresh new_writer" by simp
  then show ?thesis
  proof (cases rule: mw_chain [where W = W and r = r and h = h and s = s])
    case refused
    then show ?thesis using e assms(1,2) by (auto simp: guarded_def)
  next
    case (run w1 s1)
    then show ?thesis using e assms(1,2) assms(3) [OF run(2,3)] by (simp add: guarded_def)
  qed
qed

lemma reply_manager: "snd (snd (reply W (p, w, s))) = hs_bm s"
  by (cases p) (simp_all add: reply_def)

text \<open>Each handler as its call.\<close>

lemma set_handler_call:
  assumes "hs_bm s1 = hs_bm s"
  shows "snd (snd (reply W (Handlers_CreateKV W (SetBucketName (inner_request W r) b) w1 s1))) =
    snd (run_call (wd_auth W) (wd_hash W) (set_request_call W r b) (hs_bm s))"
  using assms by (auto simp: Handlers_CreateKV_def set_request_call_def reply_manager
      split: option.split sum.split prod.split outcome.split)

lemma get_handler_call:
  assumes "hs_bm s1 = hs_bm s" "PathValue r (str ''key'') = k" "k \<noteq> []"
  shows "snd (snd (reply W (Handlers_GetKV W (SetBucketName (inner_request W r) b) w1 s1))) =
    snd (run_call (wd_auth W) (wd_hash W) (CallGet (wd_env W) b k) (hs_bm s))"
  using assms by (auto simp: Handlers_GetKV_def reply_manager split: prod.split outcome.split)

lemma delete_handler_call:
  assumes "hs_bm s1 = hs_bm s" "PathValue r (str ''key'') = k" "k \<noteq> []"
  shows "snd (snd (reply W (Handlers_DeleteKV W (SetBucketName (inner_request W r) b) w1 s1))) =
    snd (run_call (wd_auth W) (wd_hash W) (CallDelete b k) (hs_bm s))"
  using assms by (auto simp: Handlers_DeleteKV_def reply_manager split: prod.split outcome.split)

lemma delete_bucket_handler_call:
  assumes "hs_bm s1 = hs_bm s" "PathValue r (str ''bucket'') = b" "b \<noteq> []"
  shows "snd (snd (reply W (Handlers_DeleteBucket W (SetBucketName (inner_request W r) b) w1 s1))) =
    snd (run_call (wd_auth W) (wd_hash W) (delete_request_call W r b) (hs_bm s))"
proof -
  obtain req_opt where r: "Option.bind (ReadJSONBody r) decode_delete_bucket = req_opt" by blast
  show ?thesis
  proof (cases req_opt)
    case None
    then show ?thesis using assms r by (simp add: Handlers_DeleteBucket_def delete_request_call_def reply_manager)
  next
    case (Some q0)
    show ?thesis
    proof (cases "DeleteBucketRequest_Validate q0")
      case (Inl msg)
      then show ?thesis using assms r Some by (simp add: Handlers_DeleteBucket_def delete_request_call_def reply_manager)
    next
      case (Inr q)
      obtain out bm where d: "BucketService_DeleteBucket (wd_env W) (wd_auth W) (hs_bm s) b (db_AuthToken q) = (out, bm)" by fastforce
      have "run_call (wd_auth W) (wd_hash W) (delete_request_call W r b) (hs_bm s) = (panic_of out, bm)"
        using r Some Inr d by (simp add: delete_request_call_def del: bucket_call_simps)
      then show ?thesis using assms r Some Inr d
        by (cases out) (simp_all add: Handlers_DeleteBucket_def reply_manager)
    qed
  qed
qed

lemma create_bucket_handler_call:
  assumes "hs_bm s1 = hs_bm s"
  shows "snd (snd (reply W (Handlers_CreateBucket W (inner_request W r) w1 s1))) =
    snd (run_call (wd_auth W) (wd_hash W) (create_request_call W r) (hs_bm s))"
proof (cases "Option.bind (ReadJSONBody r) decode_create_bucket")
  case None
  then show ?thesis using assms by (simp add: Handlers_CreateBucket_def create_request_call_def reply_manager)
next
  case (Some q0)
  show ?thesis
  proof (cases "CreateBucketRequest_Validate (wd_lower W) q0")
    case (Inl msg)
    then show ?thesis using assms Some by (simp add: Handlers_CreateBucket_def create_request_call_def reply_manager)
  next
    case (Inr q)
    obtain out bm where d: "BucketService_CreateBucket (wd_env W) (wd_auth W) (wd_hash W) (wd_bucketID W) (hs_bm s)
        (cb_Name q) (cb_Description q) (cb_ShardCount q) = (out, bm)" by fastforce
    have "run_call (wd_auth W) (wd_hash W) (create_request_call W r) (hs_bm s) = (panic_of out, bm)"
      using Some Inr d by (simp add: create_request_call_def del: bucket_call_simps)
    then show ?thesis using assms Some Inr d
      by (cases out) (simp_all add: Handlers_CreateBucket_def reply_manager)
  qed
qed

lemma idle_handlers_call:
  assumes "hs_bm s1 = hs_bm s"
  shows "snd (snd (reply W (Handlers_ListBuckets W r w1 s1))) = hs_bm s"
    "snd (snd (reply W (Handlers_GetBucket W r w1 s1))) = hs_bm s"
  using assms by (auto simp: Handlers_ListBuckets_def Handlers_GetBucket_def reply_manager Let_def split: outcome.split)

lemma request_call_pathvalues [simp]:
  "set_request_call W (r\<lparr>rq_PathValues := vs\<rparr>) b = set_request_call W r b"
  "create_request_call W (r\<lparr>rq_PathValues := vs\<rparr>) = create_request_call W r"
  "delete_request_call W (r\<lparr>rq_PathValues := vs\<rparr>) b = delete_request_call W r b"
  by (simp_all add: set_request_call_def create_request_call_def delete_request_call_def ReadJSONBody_def ReadJSONBodyWithLimit_def)

text \<open>The routes by the length of the path. A path that no route knows changes nothing.\<close>

lemma serve_unknown:
  assumes "mux_path r = Some path" "route_of (NewRouter W) r path = None" "http_serve W r s = (p, w, s')"
  shows "hs_bm s' = hs_bm s"
  using assms by (simp add: http_serve_def ServeMux_path)

lemma serve_no_path:
  assumes "mux_path r = None" "http_serve W r s = (p, w, s')"
  shows "hs_bm s' = hs_bm s"
  using assms by (auto simp: http_serve_def ServeMux_def split: if_splits)

abbreviation get_method :: "http_request \<Rightarrow> bool" where
  "get_method r \<equiv> rq_Method r = str ''GET'' \<or> rq_Method r = str ''HEAD''"

lemma path_cases:
  obtains "length xs < 2 \<or> 4 < length xs" | a x where "xs = [a, x]" | a x y where "xs = [a, x, y]"
    | a x y k where "xs = [a, x, y, k]"
proof -
  have "length xs = 2 \<Longrightarrow> \<exists>a x. xs = [a, x]" "length xs = 3 \<Longrightarrow> \<exists>a x y. xs = [a, x, y]"
    "length xs = 4 \<Longrightarrow> \<exists>a x y k. xs = [a, x, y, k]"
    by (auto simp: length_Suc_conv numeral_eq_Suc)
  moreover have "length xs < 2 \<or> 4 < length xs \<or> length xs = 2 \<or> length xs = 3 \<or> length xs = 4" by linarith
  ultimately show thesis using that by blast
qed

lemma unknown_two:
  assumes "path = [a, x]" "\<not> (a = str ''api'' \<and> x = str ''buckets'' \<and> (rq_Method r = str ''POST'' \<or> get_method r))"
  shows "route_of (NewRouter W) r path = None"
  using assms by (cases "a = str ''api''"; cases "x = str ''buckets''")
    (simp_all add: route_of_def NewRouter_def Let_def match_method_def str_nonempty methods_distinct)

lemma unknown_three:
  assumes "path = [a, x, y]"
    and "\<not> (a = str ''api'' \<and> x = str ''buckets'' \<and> y \<noteq> [] \<and> (rq_Method r = str ''DELETE'' \<or> get_method r))"
    and "\<not> (a = str ''api'' \<and> x \<noteq> [] \<and> y = str ''kv'' \<and> rq_Method r = str ''POST'')"
  shows "route_of (NewRouter W) r path = None"
  using assms by (cases "a = str ''api''"; cases "x = str ''buckets''"; cases "y = []"; cases "x = []"; cases "y = str ''kv''")
    (simp_all add: route_of_def NewRouter_def Let_def match_method_def str_nonempty methods_distinct)

lemma unknown_four:
  assumes "path = [a, x, y, k]"
    and "\<not> (a = str ''api'' \<and> x \<noteq> [] \<and> y = str ''kv'' \<and> k \<noteq> [] \<and> (rq_Method r = str ''DELETE'' \<or> get_method r))"
  shows "route_of (NewRouter W) r path = None"
  using assms by (cases "a = str ''api''"; cases "x = []"; cases "y = str ''kv''"; cases "k = []")
    (simp_all add: route_of_def NewRouter_def Let_def match_method_def str_nonempty methods_distinct)

lemma match_path_length: "length xs \<noteq> length ps \<Longrightarrow> match_path ps xs = None"
  by (induction ps xs rule: match_path.induct) auto

lemma route_other:
  assumes "length path < 2 \<or> 4 < length path"
  shows "route_of (NewRouter W) r path = None" "the_path r = path \<Longrightarrow> http_call W r = NoCall"
proof -
  have "match_path (rt_Pattern rt) path = None" if "rt \<in> set (NewRouter W)" for rt
  proof (rule match_path_length)
    have "length (rt_Pattern rt) \<in> {2, 3, 4}" using that by (auto simp: NewRouter_def Let_def)
    then show "length path \<noteq> length (rt_Pattern rt)" using assms by auto
  qed
  then show "route_of (NewRouter W) r path = None" by (simp add: route_of_def find_None_iff)
  show "the_path r = path \<Longrightarrow> http_call W r = NoCall" using assms by (auto simp: http_call_def split: list.split)
qed

text \<open>The requests that are served like a \<open>GET\<close>.\<close>

lemma serve_get_method:
  assumes "get_method r"
  shows "mux_path r = Some [str ''api'', str ''buckets''] \<Longrightarrow>
      http_serve W r s = ApplyMiddleware (Handlers_ListBuckets W) (mw W) (r\<lparr>rq_PathValues := []\<rparr>) new_writer s"
    "mux_path r = Some [str ''api'', str ''buckets'', b] \<Longrightarrow> b \<noteq> [] \<Longrightarrow>
      http_serve W r s = ApplyMiddleware (Handlers_GetBucket W) (mw W) (r\<lparr>rq_PathValues := [(str ''bucket'', b)]\<rparr>) new_writer s"
    "mux_path r = Some [str ''api'', b, str ''kv'', k] \<Longrightarrow> b \<noteq> [] \<Longrightarrow> k \<noteq> [] \<Longrightarrow>
      http_serve W r s = ApplyMiddleware (Handlers_GetKV W) (mw W)
        (r\<lparr>rq_PathValues := [(str ''bucket'', b), (str ''key'', k)]\<rparr>) new_writer s"
  using assms by (auto simp: http_serve_def ServeMux_path route_tests)

section \<open>Every request as its call\<close>

lemma http_serve_routed:
  assumes "http_serve W r s = (p, w, s')" "mux_path r = Some path" "the_path r = path"
  shows "hs_bm s' = snd (run_call (wd_auth W) (wd_hash W) (http_call W r) (hs_bm s))"
proof (cases path rule: path_cases)
  case 1
  then show ?thesis using route_other [OF 1] serve_unknown [OF assms(2) _ assms(1)] assms(3) by simp
next
  case (2 a x)
  note path = 2 and mux = assms(2) [unfolded 2] and call = assms(3) [unfolded 2]
  consider (post) "a = str ''api''" "x = str ''buckets''" "rq_Method r = str ''POST''"
    | (get) "a = str ''api''" "x = str ''buckets''" "get_method r"
    | (no) "\<not> (a = str ''api'' \<and> x = str ''buckets'' \<and> (rq_Method r = str ''POST'' \<or> get_method r))" by blast
  then show ?thesis
  proof cases
    case post
    let ?r = "r\<lparr>rq_PathValues := []\<rparr>"
    have serve: "ApplyMiddleware (Handlers_CreateBucket W) (noAuthMw W) ?r new_writer s = (p, w, s')"
      using serve_create_bucket [of r W s] mux post assms(1) by simp
    obtain w1 s1 where c: "fresh w1" "hs_bm s1 = hs_bm s" "fst (p, w, s') = None"
      "reply W (p, w, s') = reply W (Handlers_CreateBucket W (inner_request W ?r) w1 s1)"
      unfolding serve [symmetric] by (rule noAuth_chain [OF fresh_simps(1)])
    then show ?thesis using create_bucket_handler_call [OF c(2), of W ?r w1] call post
      by (simp add: reply_manager [symmetric, of s' W p w] http_call_def guarded_def)
  next
    case get
    have serve: "ApplyMiddleware (Handlers_ListBuckets W) (mw W) (r\<lparr>rq_PathValues := []\<rparr>) new_writer s = (p, w, s')"
      using serve_get_method(1) [OF get(3), of W s] mux get assms(1) by simp
    have "hs_bm s' = hs_bm s"
      by (rule mw_manager [OF serve refl, of "wd_auth W" "wd_hash W" NoCall, simplified guarded_def if_cancel run_call.simps snd_conv])
        (rule idle_handlers_call(1))
    then show ?thesis using call get by (auto simp: http_call_def guarded_def methods_distinct)
  next
    case no
    then show ?thesis using serve_unknown [OF assms(2) unknown_two [OF path no] assms(1)] call no by (auto simp: http_call_def guarded_def)
  qed
next
  case (3 a x y)
  note path = 3 and mux = assms(2) [unfolded 3] and call = assms(3) [unfolded 3]
  consider (get) "a = str ''api''" "x = str ''buckets''" "y \<noteq> []" "get_method r"
    | (delete) "a = str ''api''" "x = str ''buckets''" "y \<noteq> []" "rq_Method r = str ''DELETE''"
    | (post) "a = str ''api''" "x \<noteq> []" "y = str ''kv''" "rq_Method r = str ''POST''"
    | (no) "\<not> (a = str ''api'' \<and> x = str ''buckets'' \<and> y \<noteq> [] \<and> (rq_Method r = str ''DELETE'' \<or> get_method r))"
        "\<not> (a = str ''api'' \<and> x \<noteq> [] \<and> y = str ''kv'' \<and> rq_Method r = str ''POST'')" by blast
  then show ?thesis
  proof cases
    case get
    have serve: "ApplyMiddleware (Handlers_GetBucket W) (mw W) (r\<lparr>rq_PathValues := [(str ''bucket'', y)]\<rparr>) new_writer s = (p, w, s')"
      using serve_get_method(2) [OF get(4), of y W s] mux get assms(1) by simp
    have "hs_bm s' = hs_bm s"
      by (rule mw_manager [OF serve refl, of "wd_auth W" "wd_hash W" NoCall, simplified guarded_def if_cancel run_call.simps snd_conv])
        (rule idle_handlers_call(2))
    then show ?thesis using call get by (auto simp: http_call_def guarded_def methods_distinct)
  next
    case delete
    let ?r = "r\<lparr>rq_PathValues := [(str ''bucket'', y)]\<rparr>"
    have serve: "ApplyMiddleware (Handlers_DeleteBucket W) (mw W) ?r new_writer s = (p, w, s')"
      using serve_delete_bucket [of r y W s] mux delete assms(1) by simp
    have pv: "PathValue ?r (str ''bucket'') = y" by (simp add: PathValue_def)
    from mw_manager [OF serve pv delete_bucket_handler_call [OF _ pv delete(3)]]
    show ?thesis using call delete by (simp add: http_call_def methods_distinct)
  next
    case post
    let ?r = "r\<lparr>rq_PathValues := [(str ''bucket'', x)]\<rparr>"
    have serve: "ApplyMiddleware (Handlers_CreateKV W) (mw W) ?r new_writer s = (p, w, s')"
      using serve_create_kv [of r x W s] mux post assms(1) by simp
    have pv: "PathValue ?r (str ''bucket'') = x" by (simp add: PathValue_def)
    from mw_manager [OF serve pv set_handler_call]
    show ?thesis using call post by (simp add: http_call_def methods_distinct)
  next
    case no
    have "y = [] \<Longrightarrow> \<not> authorized W r y" "x = [] \<Longrightarrow> \<not> authorized W r x" using authorized_name by blast+
    then have "http_call W r = NoCall" using call no by (auto simp: http_call_def guarded_def)
    then show ?thesis using serve_unknown [OF assms(2) unknown_three [OF path no] assms(1)] by simp
  qed
next
  case (4 a x y k)
  note path = 4 and mux = assms(2) [unfolded 4] and call = assms(3) [unfolded 4]
  consider (get) "a = str ''api''" "x \<noteq> []" "y = str ''kv''" "k \<noteq> []" "get_method r"
    | (delete) "a = str ''api''" "x \<noteq> []" "y = str ''kv''" "k \<noteq> []" "rq_Method r = str ''DELETE''"
    | (no) "\<not> (a = str ''api'' \<and> x \<noteq> [] \<and> y = str ''kv'' \<and> k \<noteq> [] \<and> (rq_Method r = str ''DELETE'' \<or> get_method r))" by blast
  then show ?thesis
  proof cases
    case get
    let ?r = "r\<lparr>rq_PathValues := [(str ''bucket'', x), (str ''key'', k)]\<rparr>"
    have serve: "ApplyMiddleware (Handlers_GetKV W) (mw W) ?r new_writer s = (p, w, s')"
      using serve_get_method(3) [OF get(5), of x k W s] mux get assms(1) by simp
    have pv: "PathValue ?r (str ''bucket'') = x" "PathValue ?r (str ''key'') = k" by (simp_all add: PathValue_def str_def)
    from mw_manager [OF serve pv(1) get_handler_call [OF _ pv(2) get(4)]]
    show ?thesis using call get by (simp add: http_call_def guarded_def)
  next
    case delete
    let ?r = "r\<lparr>rq_PathValues := [(str ''bucket'', x), (str ''key'', k)]\<rparr>"
    have serve: "ApplyMiddleware (Handlers_DeleteKV W) (mw W) ?r new_writer s = (p, w, s')"
      using serve_delete_kv [of r x k W s] mux delete assms(1) by simp
    have pv: "PathValue ?r (str ''bucket'') = x" "PathValue ?r (str ''key'') = k" by (simp_all add: PathValue_def str_def)
    from mw_manager [OF serve pv(1) delete_handler_call [OF _ pv(2) delete(4)]]
    show ?thesis using call delete by (simp add: http_call_def guarded_def methods_distinct)
  next
    case no
    have "x = [] \<Longrightarrow> \<not> authorized W r x" using authorized_name by blast
    then have "http_call W r = NoCall" using call no by (auto simp: http_call_def guarded_def)
    then show ?thesis using serve_unknown [OF assms(2) unknown_four [OF path no] assms(1)] by simp
  qed
qed

lemma http_serve_manager:
  assumes "http_serve W r s = (p, w, s')"
  shows "hs_bm s' = snd (run_call (wd_auth W) (wd_hash W) (http_call W r) (hs_bm s))"
proof (cases "mux_path r")
  case None
  then have "http_call W r = NoCall" by (simp add: http_call_def the_path_def)
  then show ?thesis using serve_no_path [OF None assms] by simp
next
  case (Some path)
  then have call: "the_path r = path" by (simp add: the_path_def)
  show ?thesis by (rule http_serve_routed [OF assms Some call])
qed

lemma guarded_simps [simp]:
  "call_target (guarded ok c) = (if ok then call_target c else None)"
  "call_creates (guarded ok c) = (if ok then call_creates c else None)"
  by (simp_all add: guarded_def)

lemma request_call_targets [simp]:
  "call_target (create_request_call W r) = None" "call_creates (set_request_call W r b) = None"
  "call_creates (delete_request_call W r b) = None"
  by (auto simp: set_request_call_def delete_request_call_def create_request_call_def split: option.split sum.split)

lemma request_call_target_bucket:
  "call_target (set_request_call W r x) = Some b \<Longrightarrow> b = x" "call_target (delete_request_call W r x) = Some b \<Longrightarrow> b = x"
  by (auto simp: set_request_call_def delete_request_call_def split: option.splits sum.splits)

lemma http_call_authorized:
  assumes "call_target (http_call W r) = Some b"
  shows "authorized W r b"
proof (cases "the_path r" rule: path_cases)
  case (3 a x y)
  then show ?thesis using assms by (auto simp: http_call_def split: if_splits dest: request_call_target_bucket)
qed (use assms route_other in \<open>auto simp: http_call_def split: if_splits\<close>)

text \<open>The bucket that a request creates has a proper name and a number of shards that is an \<open>int\<close>.\<close>

definition bucket_name :: "gostring \<Rightarrow> bool" where
  "bucket_name name \<longleftrightarrow> name \<noteq> [] \<and> length name \<le> 63 \<and> list_all name_byte name"

lemma decode_bucket_range:
  "decode_members bucket_member ms r0 = Some r \<Longrightarrow> cb_ShardCount r0 < 2 ^ 63 \<Longrightarrow> cb_ShardCount r < 2 ^ 63"
proof (induction ms arbitrary: r0)
  case (Cons m ms)
  then obtain r1 where r1: "bucket_member m r0 = Some r1" "decode_members bucket_member ms r1 = Some r"
    by (auto simp: bind_eq_Some_conv)
  have "cb_ShardCount r1 < 2 ^ 63"
    using r1(1) Cons.prems(2) by (cases "snd m") (auto simp: bucket_member_def split: prod.splits if_splits)
  then show ?case using Cons.IH r1(2) by blast
qed simp

lemma create_request_call_fits:
  assumes "call_creates (create_request_call W r) = Some (name, n)"
  shows "bucket_name name \<and> n < 2 ^ 63"
proof -
  obtain v q0 q where q: "decode_create_bucket v = Some q0" "CreateBucketRequest_Validate (wd_lower W) q0 = Inr q"
      "name = cb_Name q" "n = cb_ShardCount q"
    using assms by (auto simp: create_request_call_def bind_eq_Some_conv split: option.splits sum.splits)
  have "cb_ShardCount q0 < 2 ^ 63"
    using q(1) decode_bucket_range by (cases v) (auto simp: decode_create_bucket_def)
  then show ?thesis using q unfolding bucket_validate_Inr bucket_name_def by auto
qed

lemma http_call_creates:
  assumes "call_creates (http_call W r) = Some (name, n)"
  shows "bucket_name name \<and> n < 2 ^ 63"
proof (cases "the_path r" rule: path_cases)
  case (2 a x)
  then show ?thesis using assms create_request_call_fits by (auto simp: http_call_def split: if_splits)
qed (use assms route_other in \<open>auto simp: http_call_def split: if_splits\<close>)

section \<open>TCP\<close>

definition frame_call :: "env \<Rightarrow> token_manager \<Rightarrow> frame \<Rightarrow> manager_call" where
  "frame_call env tm f =
     (if fr_Command f = CmdSet
      then case DecodeSetPayload (fr_Payload f) of
             Inl e \<Rightarrow> NoCall
           | Inr (t, b, k, ttl, sr, v) \<Rightarrow> guarded (ValidateToken env tm t b) (CallSet env b k v ttl sr)
      else if fr_Command f = CmdGet
      then case DecodeGetPayload (fr_Payload f) of
             Inl e \<Rightarrow> NoCall
           | Inr (t, b, k) \<Rightarrow> guarded (ValidateToken env tm t b) (CallGet env b k)
      else if fr_Command f = CmdDelete
      then case DecodeDeletePayload (fr_Payload f) of
             Inl e \<Rightarrow> NoCall
           | Inr (t, b, k) \<Rightarrow> guarded (ValidateToken env tm t b) (CallDelete b k)
      else NoCall)"

lemma HandleFrame_call:
  "snd (HandleFrame env (Some tm) hash f bm) = snd (run_call (Some tm) hash (frame_call env tm f) bm)"
  "case fst (run_call (Some tm) hash (frame_call env tm f) bm) of
     Some p \<Rightarrow> fst (HandleFrame env (Some tm) hash f bm) = Inl p
   | None \<Rightarrow> \<exists>resp. fst (HandleFrame env (Some tm) hash f bm) = Inr resp"
proof -
  have "snd (HandleFrame env (Some tm) hash f bm) = snd (run_call (Some tm) hash (frame_call env tm f) bm) \<and>
    (case fst (run_call (Some tm) hash (frame_call env tm f) bm) of
       Some p \<Rightarrow> fst (HandleFrame env (Some tm) hash f bm) = Inl p
     | None \<Rightarrow> \<exists>resp. fst (HandleFrame env (Some tm) hash f bm) = Inr resp)"
  proof -
    consider (set) "fr_Command f = CmdSet" | (get) "fr_Command f = CmdGet" | (delete) "fr_Command f = CmdDelete"
      | (other) "fr_Command f \<noteq> CmdSet" "fr_Command f \<noteq> CmdGet" "fr_Command f \<noteq> CmdDelete" by blast
    then show ?thesis
    proof cases
      case set
      then show ?thesis by (auto simp: HandleFrame_def handleSet_def frame_call_def guarded_def auth_Manager_def
          split: sum.split prod.split outcome.split option.split)
    next
      case get
      then show ?thesis by (auto simp: HandleFrame_def handleGet_def frame_call_def guarded_def auth_Manager_def EncodeValueResponse_eq
          split: sum.split prod.split outcome.split option.split)
    next
      case delete
      then show ?thesis by (auto simp: HandleFrame_def handleDelete_def frame_call_def guarded_def auth_Manager_def
          split: sum.split prod.split outcome.split option.split)
    qed (simp add: HandleFrame_def frame_call_def)
  qed
  then show "snd (HandleFrame env (Some tm) hash f bm) = snd (run_call (Some tm) hash (frame_call env tm f) bm)"
    "case fst (run_call (Some tm) hash (frame_call env tm f) bm) of
       Some p \<Rightarrow> fst (HandleFrame env (Some tm) hash f bm) = Inl p
     | None \<Rightarrow> \<exists>resp. fst (HandleFrame env (Some tm) hash f bm) = Inr resp" by blast+
qed

lemma frame_call_authorized:
  assumes "call_target (frame_call env tm f) = Some b"
  shows "\<exists>t. frame_credentials f = Some (t, b) \<and> ValidateToken env tm t b"
  using assms by (auto simp: frame_call_def frame_credentials_def DecodeDeletePayload_def split: if_splits sum.splits)

lemma frame_call_creates [simp]: "call_creates (frame_call env tm f) = None"
  by (auto simp: frame_call_def split: sum.split)

end
