(* ===== verification/Server_Runs.thy ===== *)
theory Server_Runs
  imports Requests_As_Calls Bootstrap
begin

text \<open>
  The whole server over time. From the state that \<open>main\<close> builds, both transports serve requests on one bucket
  manager: an event is one HTTP request or one turn of the frame loop of one TCP connection, with what that turn
  finds at the front of its buffer. Events of any number of clients come in any order. A panic of an HTTP handler
  is answered, a panic of a TCP handler ends the process. The collectors take no part: their goroutines are never
  started, which is one of the facts shown here.
\<close>

section \<open>Events\<close>

datatype server_event =
    HttpRequest env gostring gostring http_request
  | TcpTurn env "byte list"

datatype server_answer = HttpAnswer response_writer | TcpAnswer frame | NoAnswer

text \<open>The manager and the log, and the panic that ended the process.\<close>

record live_server =
  lv_http :: http_state
  lv_panic :: "go_panic option"

abbreviation lv_bm :: "live_server \<Rightarrow> bucket_manager" where
  "lv_bm s \<equiv> hs_bm (lv_http s)"

text \<open>What differs from one request to the next: the clocks and the identifiers of the uuid module.\<close>

definition world_at :: "world \<Rightarrow> env \<Rightarrow> gostring \<Rightarrow> gostring \<Rightarrow> world" where
  "world_at W env uid cid = W\<lparr>wd_env := env, wd_bucketID := uid, wd_corrID := cid\<rparr>"

lemma world_at_simps [simp]:
  "wd_auth (world_at W env uid cid) = wd_auth W" "wd_hash (world_at W env uid cid) = wd_hash W"
  "wd_env (world_at W env uid cid) = env"
  by (simp_all add: world_at_def)

definition http_turn :: "world \<Rightarrow> http_request \<Rightarrow> live_server \<Rightarrow> server_answer \<times> live_server" where
  "http_turn W r s =
     (case http_serve W r (lv_http s) of
        (None, w, h) \<Rightarrow> (HttpAnswer w, s\<lparr>lv_http := h\<rparr>)
      | (Some p, w, h) \<Rightarrow> (NoAnswer, s\<lparr>lv_http := h\<rparr>))"

definition tcp_turn :: "world \<Rightarrow> env \<Rightarrow> byte list \<Rightarrow> live_server \<Rightarrow> server_answer \<times> live_server" where
  "tcp_turn W env buf s =
     (case front_of buf of
        Complete f rest \<Rightarrow>
          (case HandleFrame env (wd_auth W) (wd_hash W) f (lv_bm s) of
             (Inl p, bm) \<Rightarrow> (NoAnswer, s\<lparr>lv_http := (lv_http s)\<lparr>hs_bm := bm\<rparr>, lv_panic := Some p\<rparr>)
           | (Inr resp, bm) \<Rightarrow> (TcpAnswer resp, s\<lparr>lv_http := (lv_http s)\<lparr>hs_bm := bm\<rparr>\<rparr>))
      | Undersized \<Rightarrow> (NoAnswer, s\<lparr>lv_panic := Some SliceOutOfRange\<rparr>)
      | _ \<Rightarrow> (NoAnswer, s))"

definition serve_event :: "world \<Rightarrow> server_event \<Rightarrow> live_server \<Rightarrow> server_answer \<times> live_server" where
  "serve_event W ev s =
     (if lv_panic s \<noteq> None then (NoAnswer, s)
      else case ev of
        HttpRequest env uid cid r \<Rightarrow> http_turn (world_at W env uid cid) r s
      | TcpTurn env buf \<Rightarrow> tcp_turn W env buf s)"

definition serve_all :: "world \<Rightarrow> server_event list \<Rightarrow> live_server \<Rightarrow> live_server" where
  "serve_all W evs s = fold (\<lambda>ev s. snd (serve_event W ev s)) evs s"

lemma serve_all_simps [simp]:
  "serve_all W [] s = s" "serve_all W (ev # evs) s = serve_all W evs (snd (serve_event W ev s))"
  "serve_all W (evs @ evs') s = serve_all W evs' (serve_all W evs s)"
  by (simp_all add: serve_all_def)

text \<open>The call an event makes.\<close>

definition event_call :: "world \<Rightarrow> server_event \<Rightarrow> manager_call" where
  "event_call W ev =
     (case ev of
        HttpRequest env uid cid r \<Rightarrow> http_call (world_at W env uid cid) r
      | TcpTurn env buf \<Rightarrow>
          (case (front_of buf, wd_auth W) of
             (Complete f rest, Some tm) \<Rightarrow> frame_call env tm f
           | _ \<Rightarrow> NoCall))"

text \<open>Whether the client of an event holds a valid token of a bucket, and whether the event is a TCP header that
  ends the process.\<close>

definition event_holds :: "world \<Rightarrow> server_event \<Rightarrow> gostring \<Rightarrow> bool" where
  "event_holds W ev b =
     (case ev of
        HttpRequest env uid cid r \<Rightarrow> authorized (world_at W env uid cid) r b
      | TcpTurn env buf \<Rightarrow>
          (case (front_of buf, wd_auth W) of
             (Complete f rest, Some tm) \<Rightarrow>
               (case frame_credentials f of None \<Rightarrow> False | Some (t, b') \<Rightarrow> b' = b \<and> ValidateToken env tm t b)
           | _ \<Rightarrow> False))"

definition undersized_event :: "server_event \<Rightarrow> bool" where
  "undersized_event ev = (case ev of HttpRequest env uid cid r \<Rightarrow> False | TcpTurn env buf \<Rightarrow> front_of buf = Undersized)"

section \<open>Every event as its call\<close>

lemma serve_event_manager:
  assumes "wd_auth W = Some tm"
  shows "lv_bm (snd (serve_event W ev s)) =
    (if lv_panic s \<noteq> None then lv_bm s else snd (run_call (wd_auth W) (wd_hash W) (event_call W ev) (lv_bm s)))"
proof (cases "lv_panic s")
  case None
  show ?thesis
  proof (cases ev)
    case (HttpRequest env uid cid r)
    let ?W = "world_at W env uid cid"
    obtain p w h where h: "http_serve ?W r (lv_http s) = (p, w, h)" by (cases "http_serve ?W r (lv_http s)") auto
    have "lv_bm (snd (serve_event W ev s)) = hs_bm h"
      using h None HttpRequest by (cases p) (simp_all add: serve_event_def http_turn_def)
    then show ?thesis using http_serve_manager [OF h] None HttpRequest by (simp add: event_call_def)
  next
    case (TcpTurn env buf)
    show ?thesis
    proof (cases "front_of buf")
      case (Complete f rest)
      note hc = HandleFrame_call(1) [of env tm "wd_hash W" f "lv_bm s"]
      obtain res bm where h: "HandleFrame env (Some tm) (wd_hash W) f (lv_bm s) = (res, bm)" by fastforce
      have "lv_bm (snd (serve_event W ev s)) = bm"
        using h None TcpTurn Complete assms by (cases res) (simp_all add: serve_event_def tcp_turn_def)
      then show ?thesis using hc h None TcpTurn Complete assms by (simp add: event_call_def)
    qed (use None TcpTurn in \<open>simp_all add: serve_event_def tcp_turn_def event_call_def\<close>)
  qed
qed (simp add: serve_event_def)

text \<open>The process ends in a TCP turn only: by an undersized header, or when its call panics.\<close>

lemma serve_event_panic:
  assumes "wd_auth W = Some tm" "lv_panic s = None" "lv_panic (snd (serve_event W ev s)) \<noteq> None"
  obtains "undersized_event ev"
  | env buf where "ev = TcpTurn env buf"
      "fst (run_call (wd_auth W) (wd_hash W) (event_call W ev) (lv_bm s)) = lv_panic (snd (serve_event W ev s))"
proof (cases ev)
  case (HttpRequest env uid cid r)
  then show thesis using assms(2,3) by (auto simp: serve_event_def http_turn_def split: prod.splits option.splits)
next
  case (TcpTurn env buf)
  show thesis
  proof (cases "front_of buf")
    case (Complete f rest)
    note hc = HandleFrame_call(2) [where env = env and tm = tm and hash = "wd_hash W" and f = f and bm = "lv_bm s"]
    have "fst (run_call (wd_auth W) (wd_hash W) (event_call W ev) (lv_bm s)) = lv_panic (snd (serve_event W ev s))"
      using hc assms TcpTurn Complete
      by (auto simp: serve_event_def tcp_turn_def event_call_def split: prod.splits sum.splits option.splits)
    then show thesis using that(2) TcpTurn by blast
  next
    case Undersized
    then show thesis using that(1) TcpTurn by (simp add: undersized_event_def)
  qed (use assms TcpTurn in \<open>simp_all add: serve_event_def tcp_turn_def\<close>)
qed

lemma event_call_holds: "call_target (event_call W ev) = Some b \<Longrightarrow> event_holds W ev b"
  using http_call_authorized frame_call_authorized
  by (fastforce simp: event_call_def event_holds_def split: server_event.splits front.splits option.splits)

lemma event_call_creates: "call_creates (event_call W ev) = Some (name, n) \<Longrightarrow> bucket_name name \<and> n < 2 ^ 63"
  using http_call_creates
  by (fastforce simp: event_call_def split: server_event.splits front.splits option.splits)

section \<open>Runs\<close>

text \<open>An invariant that every call with its side condition keeps holds along a run.\<close>

lemma run_invariant:
  assumes "wd_auth W = Some tm" "I (lv_bm s)"
    and "\<And>ev bm. ev \<in> set evs \<Longrightarrow> I bm \<Longrightarrow> I (snd (run_call (wd_auth W) (wd_hash W) (event_call W ev) bm))"
  shows "I (lv_bm (serve_all W evs s))"
  using assms(2,3)
proof (induction evs arbitrary: s)
  case (Cons ev evs)
  have "I (lv_bm (snd (serve_event W ev s)))"
    using Cons.prems by (simp add: serve_event_manager [OF assms(1)])
  then show ?case using Cons.IH Cons.prems(2) by simp
qed simp

lemma run_reachable:
  assumes "wd_auth W = Some tm" "bm_reachable (wd_hash W) (wd_auth W) (lv_bm s)"
  shows "bm_reachable (wd_hash W) (wd_auth W) (lv_bm (serve_all W evs s))"
  by (rule run_invariant [where I = "bm_reachable (wd_hash W) (wd_auth W)", OF assms]) (use run_call_reachable event_call_creates in blast)

definition start_server :: "program \<Rightarrow> live_server" where
  "start_server pg = \<lparr>lv_http = \<lparr>hs_bm = pg_bucketManager pg, hs_log = []\<rparr>, lv_panic = None\<rparr>"

lemma start_server_simps [simp]: "lv_bm (start_server pg) = pg_bucketManager pg" "lv_panic (start_server pg) = None"
  by (simp_all add: start_server_def)

text \<open>What \<open>main\<close> hands to the servers.\<close>

lemma main_manager:
  assumes "main os rnd env uid = Inr pg"
  obtains tm n where "pg_auth pg = Some tm" "n < 2 ^ 63" "pg_bucketManager pg = snd (NewBucketManager env (Some tm) uid n)"
    "NewBucketManager env (Some tm) uid n = (Ok (pg_token pg), pg_bucketManager pg)"
    "pg_token pg = GenerateToken env tm (str ''default'') 0"
proof -
  let ?c = "NewConfig os rnd" and ?tm = "NewTokenManager (ac_TokenSecret (cf_Auth (NewConfig os rnd)))"
  have n: "st_ShardCount (cf_Store ?c) < 2 ^ 63" using NewConfig_ranges by blast
  have pg: "pg_auth pg = Some ?tm" "pg_token pg = GenerateToken env ?tm (str ''default'') 0"
      "pg_bucketManager pg = snd (NewBucketManager env (Some ?tm) uid (st_ShardCount (cf_Store ?c)))"
    using assms by (auto simp: main_result Let_def)
  show thesis by (rule that [OF pg(1) n pg(3) _ pg(2)]) (metis NewBucketManager_result pg(2,3))
qed

lemma main_reachable: "main os rnd env uid = Inr pg \<Longrightarrow> bm_reachable hash (pg_auth pg) (pg_bucketManager pg)"
  by (metis main_manager bm_new)

section \<open>Connections as runs\<close>

text \<open>The encoded answers of the TCP turns of a run.\<close>

fun tcp_answers :: "world \<Rightarrow> server_event list \<Rightarrow> live_server \<Rightarrow> byte list list" where
  "tcp_answers W [] s = []"
| "tcp_answers W (ev # evs) s =
     (case fst (serve_event W ev s) of TcpAnswer f \<Rightarrow> [answer f] | _ \<Rightarrow> []) @ tcp_answers W evs (snd (serve_event W ev s))"

lemma tcp_answers_append: "tcp_answers W (evs @ evs') s = tcp_answers W evs s @ tcp_answers W evs' (serve_all W evs s)"
  by (induction evs arbitrary: s) simp_all

abbreviation conn_panic :: "conn_status \<Rightarrow> go_panic option" where
  "conn_panic st \<equiv> (case st of Crashed p \<Rightarrow> Some p | _ \<Rightarrow> None)"

text \<open>The turns in a stream of bytes, one for each frame, the last for a header that ends the process; and what follows
  them. Turn \<open>i\<close> looks at the clocks \<open>envs i\<close>.\<close>

function stream_turns :: "(nat \<Rightarrow> env) \<Rightarrow> nat \<Rightarrow> byte list \<Rightarrow> server_event list \<times> byte list" where
  "stream_turns envs i bs =
     (case front_of bs of
        Complete f rest \<Rightarrow> (let (evs, r) = stream_turns envs (Suc i) rest in (TcpTurn (envs i) bs # evs, r))
      | Undersized \<Rightarrow> ([TcpTurn (envs i) bs], bs)
      | _ \<Rightarrow> ([], bs))"
  by pat_completeness auto
termination
  by (relation "measure (\<lambda>(envs, i, bs). length bs)") (auto dest: front_shorter)

declare stream_turns.simps [simp del]

text \<open>A connection that has answered \<open>n\<close> turns has made these and the next, if there is one: it stopped there, by
  a panic or because the answer could not be written.\<close>

definition stopped_at :: "world \<Rightarrow> (nat \<Rightarrow> bool) \<Rightarrow> nat \<Rightarrow> server_event list \<times> byte list \<Rightarrow> live_server \<Rightarrow> byte list list
    \<Rightarrow> conn_status \<Rightarrow> nat \<Rightarrow> bucket_manager \<Rightarrow> bool" where
  "stopped_at W wr i tr s out st n bm \<longleftrightarrow>
     (let evs = take (Suc n) (fst tr); s' = serve_all W evs s
      in lv_bm s' = bm \<and> lv_panic s' = conn_panic st \<and> out = take n (tcp_answers W evs s) \<and> length out = n \<and>
         (\<forall>m < n. wr (i + m)) \<and>
         (if n < length (fst tr) then st = Closed \<and> \<not> wr (i + n) \<or> conn_panic st \<noteq> None
          else n = length (fst tr) \<and> st = (if front_of (snd tr) = Oversized then Closed else Waiting (snd tr))))"

lemma stopped_at_none:
  assumes "fst tr = []" "out = []" "bm = lv_bm s" "lv_panic s = None"
    "st = (if front_of (snd tr) = Oversized then Closed else Waiting (snd tr))"
  shows "stopped_at W wr i tr s out st 0 bm"
  using assms by (simp add: stopped_at_def Let_def)

lemma stopped_at_first:
  assumes "serve_event W ev s = (a, s')" "lv_bm s' = bm" "lv_panic s' = conn_panic st"
    "st = Closed \<and> \<not> wr i \<or> conn_panic st \<noteq> None"
  shows "stopped_at W wr i (ev # evs, r) s [] st 0 bm"
  using assms by (simp add: stopped_at_def Let_def)

lemma stopped_at_next:
  assumes "serve_event W ev s = (TcpAnswer f, s')" "wr i" "stopped_at W wr (Suc i) (evs, r) s' out st n bm"
  shows "stopped_at W wr i (ev # evs, r) s (answer f # out) st (Suc n) bm"
proof -
  have "wr (i + m)" if "m < Suc n" for m
    using assms(2,3) that by (cases m) (auto simp: stopped_at_def Let_def)
  then show ?thesis using assms(1,3) by (auto simp: stopped_at_def Let_def)
qed

lemma serve_frames_run:
  assumes "lv_panic s = None"
    and "serve_frames (\<lambda>i. HandleFrame (envs i) (wd_auth W) (wd_hash W)) wr i buf (lv_bm s) = (out, st, j, bm)"
  shows "\<exists>n. j = i + n \<and> stopped_at W wr i (stream_turns envs i buf) s out st n bm"
  using assms
proof (induction "length buf" arbitrary: buf i s out rule: less_induct)
  case less
  let ?h = "\<lambda>i. HandleFrame (envs i) (wd_auth W) (wd_hash W)" and ?ev = "TcpTurn (envs i) buf"
  note sf = less.prems(2) [unfolded serve_frames_front [of ?h wr i buf "lv_bm s"]] and tr = stream_turns.simps [of envs i buf]
  have turn: "serve_event W ?ev s = tcp_turn W (envs i) buf s" using less.prems(1) by (simp add: serve_event_def)
  show ?case
  proof (cases "front_of buf")
    case (Complete f rest)
    obtain res bm1 where h: "HandleFrame (envs i) (wd_auth W) (wd_hash W) f (lv_bm s) = (res, bm1)" by fastforce
    obtain evs r where t: "stream_turns envs (Suc i) rest = (evs, r)" by fastforce
    have tr': "stream_turns envs i buf = (?ev # evs, r)" using tr by (simp add: Complete t)
    show ?thesis
    proof (cases res)
      case (Inl p)
      let ?s1 = "s\<lparr>lv_http := (lv_http s)\<lparr>hs_bm := bm1\<rparr>, lv_panic := Some p\<rparr>"
      have ev: "serve_event W ?ev s = (NoAnswer, ?s1)" using Complete h Inl by (simp add: turn tcp_turn_def)
      have "out = []" "st = Crashed p" "j = i" "bm = bm1" using sf Complete h Inl by simp_all
      then show ?thesis unfolding tr' by (intro exI [of _ 0] conjI) (simp, simp, rule stopped_at_first [OF ev], simp_all)
    next
      case (Inr resp)
      let ?s1 = "s\<lparr>lv_http := (lv_http s)\<lparr>hs_bm := bm1\<rparr>\<rparr>"
      have ev: "serve_event W ?ev s = (TcpAnswer resp, ?s1)" using Complete h Inr by (simp add: turn tcp_turn_def)
      show ?thesis
      proof (cases "wr i")
        case False
        have "out = []" "st = Closed" "j = i" "bm = bm1" using sf Complete h Inr False by simp_all
        then show ?thesis unfolding tr' using less.prems(1) False
          by (intro exI [of _ 0] conjI) (simp, simp, rule stopped_at_first [OF ev], simp_all)
      next
        case True
        obtain out' where r: "serve_frames ?h wr (Suc i) rest (lv_bm ?s1) = (out', st, j, bm)" "out = answer resp # out'"
          using sf Complete h Inr True by (auto split: prod.splits)
        have "lv_panic ?s1 = None" using less.prems(1) by simp
        from less.hyps [OF front_shorter [OF Complete] this r(1)] obtain n
          where n: "j = Suc i + n" "stopped_at W wr (Suc i) (evs, r) ?s1 out' st n bm" using t by auto
        from stopped_at_next [OF ev True n(2)] n(1) show ?thesis unfolding tr' r(2) by (intro exI [of _ "Suc n"]) simp
      qed
    qed
  next
    case Undersized
    let ?s1 = "s\<lparr>lv_panic := Some SliceOutOfRange\<rparr>"
    have ev: "serve_event W ?ev s = (NoAnswer, ?s1)" using Undersized by (simp add: turn tcp_turn_def)
    have x: "out = []" "st = Crashed SliceOutOfRange" "j = i" "bm = lv_bm s" "stream_turns envs i buf = ([?ev], buf)"
      using sf tr Undersized by simp_all
    then show ?thesis by (intro exI [of _ 0] conjI) (simp, simp, rule stopped_at_first [OF ev], simp_all)
  next
    case Incomplete
    then have "stopped_at W wr i (stream_turns envs i buf) s out st 0 bm \<and> j = i"
      using sf tr less.prems(1) by (intro conjI stopped_at_none) auto
    then show ?thesis by (intro exI [of _ 0]) simp
  next
    case Oversized
    then have "stopped_at W wr i (stream_turns envs i buf) s out st 0 bm \<and> j = i"
      using sf tr less.prems(1) by (intro conjI stopped_at_none) auto
    then show ?thesis by (intro exI [of _ 0]) simp
  qed
qed

text \<open>Reads end with an error, or there is none yet.\<close>

lemma handleConn_end:
  "handleConn h wr i buf (map Data cs @ [ReadError]) s =
    (case handleConn h wr i buf (map Data cs) s of
       (out, Waiting r, j, s') \<Rightarrow> (out, Closed, j, s')
     | (out, st, j, s') \<Rightarrow> (out, st, j, s'))"
proof (induction cs arbitrary: i buf s)
  case (Cons c cs)
  show ?case by (simp add: Cons.IH split: prod.splits conn_status.splits)
qed simp

end
