(* ===== verification/Server_Properties.thy ===== *)
theory Server_Properties
  imports Server_Runs
begin

text \<open>
  What holds over any run of the server, whatever the clients send over either protocol and in whatever order:
  the invariant of the manager, isolation and durability of entries, what ends the process and what does not,
  and that the collectors never run.
\<close>

section \<open>Facts kept along a run\<close>



lemma run_unwritten_key:
  assumes "wd_auth W = Some tm" "bm_reachable (wd_hash W) (wd_auth W) (lv_bm s)" "kv_view (wd_hash W) (lv_bm s) b = Some M"
    and "\<And>ev. ev \<in> set evs \<Longrightarrow> \<not> call_writes (event_call W ev) b k"
  obtains M' where "kv_view (wd_hash W) (lv_bm (serve_all W evs s)) b = Some M'"
    "map_option frozen (M' k) = map_option frozen (M k)"
proof -
  let ?I = "\<lambda>bm. bm_reachable (wd_hash W) (wd_auth W) bm \<and>
    (\<exists>M'. kv_view (wd_hash W) bm b = Some M' \<and> map_option frozen (M' k) = map_option frozen (M k))"
  have "?I (lv_bm (serve_all W evs s))"
  proof (rule run_invariant [where I = ?I, OF assms(1)])
    fix ev bm assume ev: "ev \<in> set evs" and I: "?I bm"
    then obtain M1 where M1: "kv_view (wd_hash W) bm b = Some M1" "map_option frozen (M1 k) = map_option frozen (M k)" by blast
    obtain M2 where "kv_view (wd_hash W) (snd (run_call (wd_auth W) (wd_hash W) (event_call W ev) bm)) b = Some M2"
        "map_option frozen (M2 k) = map_option frozen (M1 k)"
      by (rule run_call_key [OF bm_reachable_ok M1(1) assms(4) [OF ev]]) (use I in auto)
    then show "?I (snd (run_call (wd_auth W) (wd_hash W) (event_call W ev) bm))"
      using I M1(2) run_call_reachable event_call_creates by metis
  qed (use assms(2,3) in blast)
  then show thesis using that by blast
qed

lemma run_idle:
  assumes "wd_auth W = Some tm" "every_store (\<lambda>s. gc_idle (ms_gc s)) (lv_bm s)"
  shows "every_store (\<lambda>s. gc_idle (ms_gc s)) (lv_bm (serve_all W evs s))"
  by (rule run_invariant [where I = "every_store (\<lambda>s. gc_idle (ms_gc s))", OF assms])
    (rule idle.shards.kept_call; simp)

text \<open>Without a time-to-live and without undersized headers the process goes on.\<close>

definition calm_event :: "world \<Rightarrow> server_event \<Rightarrow> bool" where
  "calm_event W ev \<longleftrightarrow> \<not> undersized_event ev \<and> (case call_entry (event_call W ev) of None \<Rightarrow> True | Some e \<Rightarrow> se_TTL e = 0)"

definition calm_server :: "world \<Rightarrow> live_server \<Rightarrow> bool" where
  "calm_server W s \<longleftrightarrow> lv_panic s = None \<and> bm_reachable (wd_hash W) (wd_auth W) (lv_bm s) \<and>
     every_store (\<lambda>s. gc_calm (ms_gc s)) (lv_bm s)"

lemma calm_event_step:
  assumes "wd_auth W = Some tm" "calm_event W ev" "calm_server W s"
  shows "calm_server W (snd (serve_event W ev s))"
proof -
  note c = assms(3) [unfolded calm_server_def]
  have e: "se_TTL e \<le> 0" if "call_entry (event_call W ev) = Some e" for e
    using assms(2) that by (simp add: calm_event_def)
  have "fst (run_call (wd_auth W) (wd_hash W) (event_call W ev) (lv_bm s)) = None"
    unfolding assms(1) by (rule calm_calls.calm_call) (use c bm_reachable_ok e in auto)
  then have "lv_panic (snd (serve_event W ev s)) = None"
    using serve_event_panic [OF assms(1), of s ev] c assms(2) by (metis calm_event_def)
  moreover have "every_store (\<lambda>s. gc_calm (ms_gc s)) (lv_bm (snd (serve_event W ev s)))"
    unfolding serve_event_manager [OF assms(1)] using c e by (auto intro: calm.shards.kept_call)
  moreover have "bm_reachable (wd_hash W) (wd_auth W) (lv_bm (snd (serve_event W ev s)))"
    using run_reachable [OF assms(1), of s "[ev]"] c by simp
  ultimately show ?thesis by (simp add: calm_server_def)
qed

lemma calm_run:
  assumes "wd_auth W = Some tm" "calm_server W s" "\<And>ev. ev \<in> set evs \<Longrightarrow> calm_event W ev"
  shows "calm_server W (serve_all W evs s)"
  using assms(2,3)
proof (induction evs arbitrary: s)
  case (Cons ev evs)
  then show ?case using calm_event_step [OF assms(1)] by simp
qed simp

lemma start_calm:
  assumes "main os rnd env uid = Inr pg" "wd_auth W = pg_auth pg"
  shows "calm_server W (start_server pg)"
proof -
  have "every_store (\<lambda>s. gc_calm (ms_gc s)) (pg_bucketManager pg)"
    using calm.shards.kept_new by (metis assms(1) main_manager)
  then show ?thesis using main_reachable [OF assms(1)] assms(2) by (simp add: calm_server_def)
qed

lemma answered:
  assumes "wd_auth W = Some tm" "lv_panic s = None" "lv_panic (snd (serve_event W ev s)) = None"
  shows "case ev of HttpRequest env uid cid r \<Rightarrow> \<exists>w. fst (serve_event W ev s) = HttpAnswer w
    | TcpTurn env buf \<Rightarrow> (\<forall>f rest. front_of buf = Complete f rest \<longrightarrow> (\<exists>resp. fst (serve_event W ev s) = TcpAnswer resp))"
proof (cases ev)
  case (HttpRequest env uid cid r)
  obtain p w h where h: "http_serve (world_at W env uid cid) r (lv_http s) = (p, w, h)"
    by (cases "http_serve (world_at W env uid cid) r (lv_http s)") auto
  then show ?thesis using http_serve_answers(1) [OF h] HttpRequest assms(2)
    by (simp add: serve_event_def http_turn_def)
next
  case (TcpTurn env buf)
  then show ?thesis using assms(2,3) by (auto simp: serve_event_def tcp_turn_def split: prod.splits sum.splits)
qed

section \<open>Properties\<close>


lemma sample_program:
  obtains pg where "main [EnvTokenSecret \<mapsto> str ''secret''] None sample_env (str ''id'') = Inr pg"
    "pg_auth pg = Some \<lparr>tm_secretKey = str ''secret''\<rparr>"
proof -
  have "ac_TokenSecret (cf_Auth (NewConfig [EnvTokenSecret \<mapsto> str ''secret''] None)) = str ''secret''"
    by (simp add: NewConfig_def Let_def getEnv_def str_nonempty)
  then show thesis using that by (simp add: main_result Let_def NewTokenManager_def)
qed




definition sample_server :: live_server where
  "sample_server = \<lparr>lv_http = sample_state, lv_panic = None\<rparr>"

lemma sample_server_ok:
  "wd_auth sample_world = Some \<lparr>tm_secretKey = str ''secret''\<rparr>"
  "bm_reachable (wd_hash sample_world) (wd_auth sample_world) (lv_bm sample_server)"
  "kv_view (wd_hash sample_world) (lv_bm sample_server) (str ''default'') = Some Map.empty"
  using sample_http by (simp_all add: sample_server_def sample_world_simps)



text \<open>A key that no request writes keeps what it has, or stays missing, over any run and however late: reads only
  advance its counters, and an entry that has expired is still there, because nothing but a write removes it.\<close>

theorem run_keeps_key:
  assumes "wd_auth W = Some tm" "bm_reachable (wd_hash W) (wd_auth W) (lv_bm s)" "kv_view (wd_hash W) (lv_bm s) b = Some M"
    and "\<forall>ev \<in> set evs. \<not> call_writes (event_call W ev) b k"
  shows "\<exists>M'. kv_view (wd_hash W) (lv_bm (serve_all W evs s)) b = Some M' \<and> map_option frozen (M' k) = map_option frozen (M k)"
  by (rule run_unwritten_key [OF assms(1-3)]) (use assms(4) in blast)+

lemma sample_no_call: "event_call W (TcpTurn env (replicate 9 0)) = NoCall"
  by (simp add: event_call_def front_of_def HeaderSize_def)

theorem run_keeps_key_witness:
  "\<exists>M'. kv_view (\<lambda>_. 0) (lv_bm (serve_all sample_world [TcpTurn sample_env (replicate 9 0)] sample_server)) (str ''default'') = Some M' \<and>
    M' (str ''k'') = None"
  using run_keeps_key [OF sample_server_ok, of "[TcpTurn sample_env (replicate 9 0)]" "str ''k''"]
  by (simp add: sample_no_call sample_world_simps)

text \<open>C22: The collectors never run: no request starts them, so in no state of the server can a collector of any
  shard of any bucket tick or flush, and nothing that is marked for deletion is ever deleted by it.\<close>

theorem collector_never_runs:
  assumes "main os rnd env uid = Inr pg" "wd_auth W = pg_auth pg" "s = serve_all W evs (start_server pg)"
    and "GetStore (lv_bm s) name = Some (Some sc)" "st \<in> set (sc_shards sc)"
  shows "\<not> gc_step (ms_gc st) (NearTick c) gc' \<and> \<not> gc_step (ms_gc st) (WheelTick t) gc' \<and>
    \<not> gc_step (ms_gc st) (FlushTick keys) gc' \<and> \<not> gc_step (ms_gc st) (FlushExit keys) gc'"
proof -
  obtain tm n where m: "pg_auth pg = Some tm" "pg_bucketManager pg = snd (NewBucketManager env (Some tm) uid n)"
    using main_manager [OF assms(1)] by metis
  have "every_store (\<lambda>s. gc_idle (ms_gc s)) (lv_bm (start_server pg))"
    using idle.shards.kept_new by (simp add: m(2))
  then have "every_store (\<lambda>s. gc_idle (ms_gc s)) (lv_bm s)"
    unfolding assms(3) using run_idle assms(2) m(1) by metis
  then have "gc_idle (ms_gc st)" using every_store_get assms(4,5) by (fastforce simp: list_all_iff)
  then show ?thesis by (auto simp: gc_idle_def elim: gc_step.cases)
qed

text \<open>C20: Without a time-to-live nothing ends the process: from the start, over any run in which no request stores an
  entry with a time-to-live and no TCP header announces fewer bytes than a header has, the server stays up, and
  the next such request is answered if it is complete.\<close>

theorem calm_run_survives:
  assumes "main os rnd env uid = Inr pg" "wd_auth W = pg_auth pg" "\<forall>ev \<in> set (evs @ [ev]). calm_event W ev"
  shows "let s = serve_all W evs (start_server pg) in
    lv_panic s = None \<and>
    (case ev of HttpRequest env' uid' cid r \<Rightarrow> \<exists>w. fst (serve_event W ev s) = HttpAnswer w
     | TcpTurn env' buf \<Rightarrow> \<forall>f rest. front_of buf = Complete f rest \<longrightarrow> (\<exists>resp. fst (serve_event W ev s) = TcpAnswer resp))"
proof -
  obtain tm where auth: "wd_auth W = Some tm" using main_manager [OF assms(1)] assms(2) by metis
  let ?s = "serve_all W evs (start_server pg)"
  have s: "calm_server W ?s" using calm_run [OF auth start_calm [OF assms(1,2)]] assms(3) by simp
  have "calm_server W (snd (serve_event W ev ?s))" using calm_event_step [OF auth _ s] assms(3) by simp
  with s have "lv_panic ?s = None" "lv_panic (snd (serve_event W ev ?s)) = None" by (simp_all add: calm_server_def)
  then show ?thesis using answered [OF auth, of ?s ev] by (simp add: Let_def)
qed

lemma sample_default_store:
  assumes "main [EnvTokenSecret \<mapsto> str ''secret''] None sample_env (str ''id'') = Inr pg"
  obtains sc st where "GetStore (lv_bm (start_server pg)) (str ''default'') = Some (Some sc)" "st \<in> set (sc_shards sc)"
proof -
  obtain tm n where m: "pg_bucketManager pg = snd (NewBucketManager sample_env (Some tm) (str ''id'') n)"
    using main_manager [OF assms] by metis
  let ?sc = "NewShardContainer NewMemoryStore (env_now sample_env) n"
  have "NewMemoryStore (env_now sample_env) \<in> set (sc_shards ?sc)" by (simp add: NewShardContainer_def Let_def)
  then show thesis using that NewBucketManager_store by (simp add: m)
qed

theorem collector_never_runs_witness:
  "\<exists>pg sc st. main [EnvTokenSecret \<mapsto> str ''secret''] None sample_env (str ''id'') = Inr pg \<and>
    GetStore (lv_bm (start_server pg)) (str ''default'') = Some (Some sc) \<and> st \<in> set (sc_shards sc) \<and>
    \<not> gc_step (ms_gc st) (NearTick 0) (ms_gc st)"
proof -
  obtain pg where pg: "main [EnvTokenSecret \<mapsto> str ''secret''] None sample_env (str ''id'') = Inr pg"
      "pg_auth pg = Some \<lparr>tm_secretKey = str ''secret''\<rparr>" by (rule sample_program)
  obtain sc st where st: "GetStore (lv_bm (start_server pg)) (str ''default'') = Some (Some sc)" "st \<in> set (sc_shards sc)"
    by (rule sample_default_store [OF pg(1)])
  have "wd_auth sample_world = pg_auth pg" by (simp add: sample_world_simps pg(2))
  from collector_never_runs [OF pg(1) this serve_all_simps(1) [symmetric] st] show ?thesis using pg(1) st by blast
qed

lemma sample_calm: "calm_event sample_world (TcpTurn sample_env (replicate 9 0))"
  by (simp add: calm_event_def sample_no_call undersized_event_def front_of_def HeaderSize_def)

theorem calm_run_survives_witness:
  "\<exists>pg. main [EnvTokenSecret \<mapsto> str ''secret''] None sample_env (str ''id'') = Inr pg \<and>
    lv_panic (serve_all sample_world [TcpTurn sample_env (replicate 9 0)] (start_server pg)) = None"
proof -
  obtain pg where pg: "main [EnvTokenSecret \<mapsto> str ''secret''] None sample_env (str ''id'') = Inr pg"
      "pg_auth pg = Some \<lparr>tm_secretKey = str ''secret''\<rparr>" by (rule sample_program)
  let ?ev = "TcpTurn sample_env (replicate 9 0)"
  have "wd_auth sample_world = pg_auth pg" by (simp add: sample_world_simps pg(2))
  from calm_run_survives [OF pg(1) this, of "[?ev]" ?ev] sample_calm show ?thesis using pg(1) by (auto simp: Let_def)
qed

section \<open>Durability\<close>



lemma front_of_request:
  "length data \<le> MaxPayloadSize \<Longrightarrow> front_of (answer (NewFrame c i data) @ rest) = Complete (NewFrame c i data) rest"
  using front_of_bytes [of data c i rest] by (simp add: answer_def NewFrame_def)


text \<open>A set request of the default bucket on the new server.\<close>

lemma sample_set_turn:
  obtains set_data s1 where "EncodeSetPayload sample_token (str ''default'') (str ''k'') 0 False [1] = Inr set_data"
    "set_fits sample_token (str ''default'') (str ''k'') 0 [1]" "length set_data \<le> MaxPayloadSize"
    "serve_event sample_world (TcpTurn sample_env (answer (NewFrame CmdSet 1 set_data) @ rest)) sample_server =
      (TcpAnswer (NewResponseFrame 1 StatusCreated []), s1)" "lv_panic s1 = None"
proof -
  let ?b = "str ''default''" and ?k = "str ''k''" and ?tm = "\<lparr>tm_secretKey = str ''secret''\<rparr>"
  have fits: "set_fits sample_token ?b ?k 0 [1]" using length_sample_token by (simp add: set_fits_def str_def)
  obtain set_data where enc: "EncodeSetPayload sample_token ?b ?k 0 False [1] = Inr set_data"
    using EncodeSetPayload_eq by blast
  have len: "length set_data \<le> MaxPayloadSize"
    using enc length_sample_token
    by (auto simp: EncodeSetPayload_eq str_field_def int_field_def flag_field_def value_field_def MaxPayloadSize_def str_def)
  let ?f = "NewFrame CmdSet 1 set_data"
  have alive: "lv_panic sample_server = None" by (simp add: sample_server_def)
  obtain bm where set: "StorageService_Set sample_env (\<lambda>_. 0) sample_manager ?b ?k [1] 0 False = (Ok (new_entry sample_env ?k [1] 0 False), bm)"
    using sample_set_ok by blast
  have "DecodeSetPayload (fr_Payload ?f) = Inr (sample_token, ?b, ?k, 0, False, [1])"
    using DecodeSet_Encode [OF enc fits, of "[]"] by (simp add: NewFrame_def)
  then have h: "fst (HandleFrame sample_env (Some ?tm) (\<lambda>_. 0) ?f sample_manager) = Inr (NewResponseFrame 1 StatusCreated [])"
    using set sample_token_valid by (simp add: HandleFrame_def handleSet_def auth_Manager_def NewFrame_def)
  obtain s1 where e1: "serve_event sample_world (TcpTurn sample_env (answer ?f @ rest)) sample_server =
      (TcpAnswer (NewResponseFrame 1 StatusCreated []), s1)" and s1: "lv_panic s1 = None"
    using h alive front_of_request [OF len, of CmdSet 1 rest]
    by (cases "HandleFrame sample_env (Some ?tm) (\<lambda>_. 0) ?f sample_manager")
      (simp add: serve_event_def tcp_turn_def sample_world_simps sample_server_def sample_state_def)
  show thesis by (rule that [OF enc fits len e1 s1])
qed


section \<open>Connections\<close>

text \<open>C21: A TCP connection is the run of the frames in its bytes. Whatever its reads deliver, cut anywhere, with or
  without an error at the end, its effect on the manager and the panic that ends it are those of the events for the
  successive frames of the whole stream, up to the one it stopped at, and its answers are theirs, in order. It stops
  before the last only when an answer could not be written, or by a panic; else it keeps exactly the bytes after the
  last complete frame, or is closed when these announce too large a frame.\<close>

theorem connection_is_run:
  assumes "lv_panic s = None" "\<forall>c \<in> set cs. length c \<le> readChunkSize"
    and "stream_turns envs 0 (concat cs) = (turns, rest)"
    and "handleConn (\<lambda>i. HandleFrame (envs i) (wd_auth W) (wd_hash W)) wr 0 [] (map Data cs @ (if eof then [ReadError] else [])) (lv_bm s) =
      (out, st, n, bm)"
  shows "let evs = take (Suc n) turns; s' = serve_all W evs s in
    lv_bm s' = bm \<and> lv_panic s' = (case st of Crashed p \<Rightarrow> Some p | _ \<Rightarrow> None) \<and>
    out = take n (tcp_answers W evs s) \<and> length out = n \<and> (\<forall>m < n. wr m) \<and>
    (if n < length turns then st = Closed \<and> \<not> wr n \<or> (\<exists>p. st = Crashed p)
     else n = length turns \<and> st = (if eof \<or> front_of rest = Oversized then Closed else Waiting rest))"
proof -
  let ?h = "\<lambda>i. HandleFrame (envs i) (wd_auth W) (wd_hash W)"
  obtain out1 st1 n1 bm1 where f: "serve_frames ?h wr 0 (concat cs) (lv_bm s) = (out1, st1, n1, bm1)" by (metis prod_cases4)
  then have c: "handleConn ?h wr 0 [] (map Data cs) (lv_bm s) = (out1, st1, n1, bm1)"
    using handleConn_chunks [OF assms(2), of "[]" ?h wr 0 "lv_bm s"] by (simp add: front_of_def HeaderSize_def)
  have "handleConn ?h wr 0 [] (map Data cs @ [ReadError]) (lv_bm s) = (out1, (case st1 of Waiting b \<Rightarrow> Closed | _ \<Rightarrow> st1), n1, bm1)"
    unfolding handleConn_end c by (simp split: conn_status.split)
  with c have "(out1, (case st1 of Waiting b \<Rightarrow> if eof then Closed else Waiting b | _ \<Rightarrow> st1), n1, bm1) = (out, st, n, bm)"
    unfolding assms(4) [symmetric] by (cases eof) (simp_all split: conn_status.split)
  then have e: "out1 = out" "n1 = n" "bm1 = bm" and st: "st = (case st1 of Waiting b \<Rightarrow> if eof then Closed else Waiting b | _ \<Rightarrow> st1)"
    by simp_all
  note r = f [unfolded e]
  from serve_frames_run [OF assms(1) r] have c: "stopped_at W wr 0 (turns, rest) s out st1 n bm" by (simp add: assms(3))
  note c = this [unfolded stopped_at_def Let_def fst_conv snd_conv add_0]
  have p: "conn_panic st1 = conn_panic st" using st by (cases st1) simp_all
  have "if n < length turns then st = Closed \<and> \<not> wr n \<or> (\<exists>p. st = Crashed p)
    else n = length turns \<and> st = (if eof \<or> front_of rest = Oversized then Closed else Waiting rest)"
    using c [THEN conjunct2, THEN conjunct2, THEN conjunct2, THEN conjunct2, THEN conjunct2] st
    by (cases st1) (simp_all split: if_splits)
  with c show ?thesis unfolding Let_def p by blast
qed

text \<open>A set request cut in two reads, with four bytes more.\<close>

theorem connection_is_run_witness:
  "\<exists>data s'. handleConn (\<lambda>i. HandleFrame sample_env (wd_auth sample_world) (wd_hash sample_world)) (\<lambda>_. True) 0 []
      [Data (take 5 (answer (NewFrame CmdSet 1 data))), Data (drop 5 (answer (NewFrame CmdSet 1 data)) @ [0, 0, 1, 0])] (lv_bm sample_server) =
      ([answer (NewResponseFrame 1 StatusCreated [])], Waiting [0, 0, 1, 0], 1, lv_bm s') \<and>
    serve_event sample_world (TcpTurn sample_env (answer (NewFrame CmdSet 1 data) @ [0, 0, 1, 0])) sample_server =
      (TcpAnswer (NewResponseFrame 1 StatusCreated []), s')"
proof -
  let ?rest = "[0, 0, 1, 0] :: byte list"
  obtain data s1 where e: "EncodeSetPayload sample_token (str ''default'') (str ''k'') 0 False [1] = Inr data" "length data \<le> MaxPayloadSize"
    "serve_event sample_world (TcpTurn sample_env (answer (NewFrame CmdSet 1 data) @ ?rest)) sample_server =
      (TcpAnswer (NewResponseFrame 1 StatusCreated []), s1)" "lv_panic s1 = None"
    by (rule sample_set_turn [where rest = ?rest])
  let ?x = "answer (NewFrame CmdSet 1 data)" and ?h = "\<lambda>i :: nat. HandleFrame sample_env (wd_auth sample_world) (wd_hash sample_world)"
  let ?cs = "[take 5 ?x, drop 5 ?x @ ?rest]"
  have "length data \<le> 1000" using e(1) length_sample_token
    by (auto simp: EncodeSetPayload_eq str_field_def int_field_def flag_field_def value_field_def str_def)
  then have len: "\<forall>c \<in> set ?cs. length c \<le> readChunkSize"
    by (simp add: answer_def frame_bytes_def readChunkSize_def NewFrame_def)
  have "front_of ?rest = Incomplete" by (simp add: front_of_def HeaderSize_def)
  then have t: "stream_turns (\<lambda>_. sample_env) 0 (?x @ ?rest) = ([TcpTurn sample_env (?x @ ?rest)], ?rest)"
    using front_of_request [OF e(2), of CmdSet 1 ?rest] stream_turns.simps [of "\<lambda>_. sample_env" 0 "?x @ ?rest"]
      stream_turns.simps [of "\<lambda>_. sample_env" "Suc 0" ?rest]
    by simp
  have "concat ?cs = ?x @ ?rest"
    by (simp only: concat.simps append_Nil2 append.assoc [symmetric] append_take_drop_id)
  with t have t: "stream_turns (\<lambda>_. sample_env) 0 (concat ?cs) = ([TcpTurn sample_env (?x @ ?rest)], ?rest)" by (simp only:)
  obtain out st n bm where c: "handleConn ?h (\<lambda>_. True) 0 [] (map Data ?cs @ (if False then [ReadError] else [])) (lv_bm sample_server) = (out, st, n, bm)"
    by (metis prod_cases4)
  have alive: "lv_panic sample_server = None" by (simp add: sample_server_def)
  note run = connection_is_run [OF alive len t c, unfolded Let_def]
  have "n = 1"
  proof (rule ccontr)
    assume "n \<noteq> 1"
    then have "n = 0" "\<exists>p. st = Crashed p" using run by (auto split: if_splits)
    then show False using run e(3,4) by auto
  qed
  then have "out = [answer (NewResponseFrame 1 StatusCreated [])]" "st = Waiting ?rest" "bm = lv_bm s1"
    using run e(3) \<open>front_of ?rest = Incomplete\<close> by auto
  then show ?thesis using c e(3) \<open>n = 1\<close> by (intro exI [of _ data] exI [of _ s1]) simp
qed

end
