(* ===== verification/Bucket_Concurrency.thy ===== *)
theory Bucket_Concurrency
  imports Manager_Calls
begin

text \<open>
  Requests on buckets that come and go (\<open>internal/service/storage_service.go\<close> over \<open>internal/bucket/bucket.go\<close>).
  \<open>Manager_Calls\<close> takes a call on a key as one step; here it is the two steps it is in the code: \<open>GetStore\<close> loads the
  published index and hands out a pointer to a container, and the operation runs on that container, whatever has
  happened to the bucket in between. Containers are cells that the index points to; creation and deletion publish a
  new index under the write mutex and are one step to everyone else.
\<close>

section \<open>State\<close>

text \<open>Where a request is: not yet looked up, holding a container, or answered.\<close>

datatype request_pc = NotLookedUp | Holding nat | Answered "storage_entry option outcome"

record request =
  rq_call :: manager_call
  rq_pc :: request_pc

record shared_manager =
  sm_index :: "(gostring \<times> bucket_metadata \<times> nat) list"
  sm_containers :: "bucket_store list"
  sm_cfgShardCount :: int
  sm_requests :: "request list"

definition sm_find :: "shared_manager \<Rightarrow> gostring \<Rightarrow> nat option" where
  "sm_find s name = map_option snd (map_of (sm_index s) name)"

text \<open>The manager as one value: every bucket with the container its pointer leads to.\<close>

definition as_manager :: "shared_manager \<Rightarrow> bucket_manager" where
  "as_manager s =
     \<lparr>bm_buckets = map (\<lambda>(name, b, a). (name, b\<lparr>bk_store := Some (sm_containers s ! a)\<rparr>)) (sm_index s),
      bm_cfgShardCount = sm_cfgShardCount s\<rparr>"

section \<open>Steps\<close>

text \<open>What an operation on a key does with the container it holds.\<close>

fun container_call :: "hasher \<Rightarrow> manager_call \<Rightarrow> bucket_store \<Rightarrow> storage_entry option outcome \<times> bucket_store" where
  "container_call hash (CallSet env b k v ttl sr) sc =
     (let entry = new_entry env k v ttl sr; (sc', p) = ShardContainer_Set (cow_methods hash) env hash sc k entry
      in (case p of None \<Rightarrow> Ok (Some entry) | Some p \<Rightarrow> Panic p, sc'))"
| "container_call hash (CallGet env b k) sc =
     (let (r, sc') = ShardContainer_Get (cow_methods hash) env hash sc k
      in (case r of None \<Rightarrow> Err ErrKeyNotFound | Some e \<Rightarrow> Ok (Some e), sc'))"
| "container_call hash (CallDelete b k) sc =
     (let (sc', p) = ShardContainer_Delete (cow_methods hash) hash sc k
      in (case p of None \<Rightarrow> Ok None | Some p \<Rightarrow> Panic p, sc'))"
| "container_call hash c sc = (Ok None, sc)"

fun key_call :: "manager_call \<Rightarrow> gostring option" where
  "key_call (CallSet env b k v ttl sr) = Some b"
| "key_call (CallGet env b k) = Some b"
| "key_call (CallDelete b k) = Some b"
| "key_call _ = None"

fun bad_ttl :: "manager_call \<Rightarrow> bool" where
  "bad_ttl (CallSet env b k v ttl sr) = (ttl < 0)"
| "bad_ttl _ = False"

definition request_begin :: "manager_call \<Rightarrow> shared_manager \<Rightarrow> shared_manager option" where
  "request_begin c s =
     (if key_call c = None then None else Some (s\<lparr>sm_requests := sm_requests s @ [\<lparr>rq_call = c, rq_pc = NotLookedUp\<rparr>]\<rparr>))"

definition set_request :: "nat \<Rightarrow> request_pc \<Rightarrow> shared_manager \<Rightarrow> shared_manager" where
  "set_request i pc s = s\<lparr>sm_requests := (sm_requests s)[i := (sm_requests s ! i)\<lparr>rq_pc := pc\<rparr>]\<rparr>"

text \<open>The check of the time-to-live and \<open>GetStore\<close>.\<close>

definition request_lookup :: "nat \<Rightarrow> shared_manager \<Rightarrow> shared_manager option" where
  "request_lookup i s =
     (if i < length (sm_requests s) \<and> rq_pc (sm_requests s ! i) = NotLookedUp
      then let c = rq_call (sm_requests s ! i)
           in Some (set_request i
                (if bad_ttl c then Answered (Err ErrInvalidTTL)
                 else case Option.bind (key_call c) (sm_find s) of
                   None \<Rightarrow> Answered (Err ErrBucketNotFound) | Some a \<Rightarrow> Holding a) s)
      else None)"

definition request_apply :: "hasher \<Rightarrow> nat \<Rightarrow> shared_manager \<Rightarrow> shared_manager option" where
  "request_apply hash i s =
     (if i < length (sm_requests s)
      then case rq_pc (sm_requests s ! i) of
             Holding a \<Rightarrow>
               let (r, sc) = container_call hash (rq_call (sm_requests s ! i)) (sm_containers s ! a)
               in Some (set_request i (Answered r) (s\<lparr>sm_containers := (sm_containers s)[a := sc]\<rparr>))
           | _ \<Rightarrow> None
      else None)"

definition new_meta :: "env \<Rightarrow> gostring \<Rightarrow> gostring \<Rightarrow> gostring \<Rightarrow> int \<Rightarrow> bucket_metadata" where
  "new_meta env uid name desc shardCount =
     \<lparr>bk_ID = uid, bk_Name = name, bk_Description = desc, bk_CreatedAt = env_now env, bk_ShardCount = shardCount,
      bk_KeyCount = 0, bk_MemoryUsage = 0, bk_store = None\<rparr>"

definition publish_create :: "env \<Rightarrow> gostring \<Rightarrow> gostring \<Rightarrow> gostring \<Rightarrow> int \<Rightarrow> shared_manager \<Rightarrow> shared_manager option" where
  "publish_create env uid name desc shardCount0 s =
     (if name = [] \<or> sm_find s name \<noteq> None then None
      else let shardCount = (if shardCount0 \<le> 0 then sm_cfgShardCount s else shardCount0);
               meta = new_meta env uid name desc shardCount
           in Some (s\<lparr>sm_containers := sm_containers s @ [NewShardContainer NewMemoryStore (env_now env) shardCount],
                      sm_index := sm_index s @ [(name, meta, length (sm_containers s))]\<rparr>))"

text \<open>A deleted bucket leaves the index, and its collectors are told to stop.\<close>

definition publish_delete ::
  "env \<Rightarrow> token_manager \<Rightarrow> hasher \<Rightarrow> gostring \<Rightarrow> gostring \<Rightarrow> shared_manager \<Rightarrow> shared_manager option" where
  "publish_delete env tm hash name token s =
     (if name = str ''default'' \<or> \<not> ValidateToken env tm token name then None
      else case sm_find s name of
        None \<Rightarrow> None
      | Some a \<Rightarrow>
          Some (s\<lparr>sm_index := filter (\<lambda>(k, v). k \<noteq> name) (sm_index s),
                  sm_containers := (sm_containers s)[a := ShardContainer_StopGC (cow_methods hash) (sm_containers s ! a)]\<rparr>))"

datatype shared_action =
    BeginRequest manager_call | Lookup nat | Apply nat
  | Create env gostring gostring gostring int | Delete env gostring gostring

fun shared_step :: "hasher \<Rightarrow> token_manager \<Rightarrow> shared_action \<Rightarrow> shared_manager \<Rightarrow> shared_manager option" where
  "shared_step hash tm (BeginRequest c) s = request_begin c s"
| "shared_step hash tm (Lookup i) s = request_lookup i s"
| "shared_step hash tm (Apply i) s = request_apply hash i s"
| "shared_step hash tm (Create env uid name desc n) s = publish_create env uid name desc n s"
| "shared_step hash tm (Delete env name token) s = publish_delete env tm hash name token s"

fun shared_run :: "hasher \<Rightarrow> token_manager \<Rightarrow> shared_action list \<Rightarrow> shared_manager \<Rightarrow> shared_manager option" where
  "shared_run hash tm [] s = Some s"
| "shared_run hash tm (a # as) s = Option.bind (shared_step hash tm a s) (shared_run hash tm as)"

definition new_shared :: "env \<Rightarrow> gostring \<Rightarrow> int \<Rightarrow> shared_manager" where
  "new_shared env uid n =
     \<lparr>sm_index = [(str ''default'', new_meta env uid (str ''default'') (str ''Default bucket'') n, 0)],
      sm_containers = [NewShardContainer NewMemoryStore (env_now env) n], sm_cfgShardCount = n, sm_requests = []\<rparr>"

lemma shared_run_invariant:
  assumes "shared_run hash tm as s = Some s'" "I s"
    "\<And>a s s'. a \<in> set as \<Longrightarrow> I s \<Longrightarrow> shared_step hash tm a s = Some s' \<Longrightarrow> I s'"
  shows "I s'"
  using assms
proof (induction as arbitrary: s)
  case (Cons a as)
  then obtain t where t: "shared_step hash tm a s = Some t" "shared_run hash tm as t = Some s'" by (auto simp: bind_eq_Some_conv)
  have "I t" using Cons.prems(2,3) t(1) by (metis list.set_intros(1))
  then show ?case using Cons.IH [OF t(2)] Cons.prems(3) by (metis list.set_intros(2))
qed simp

section \<open>The invariant\<close>

text \<open>Names and pointers in the index are distinct, and a container that a request holds belongs to no bucket but the
  one it was looked up for.\<close>

definition held_ok :: "shared_manager \<Rightarrow> request \<Rightarrow> bool" where
  "held_ok s r \<longleftrightarrow> (\<forall>a. rq_pc r = Holding a \<longrightarrow> \<not> bad_ttl (rq_call r) \<and> a < length (sm_containers s) \<and>
     (\<forall>(name, m, a') \<in> set (sm_index s). a' = a \<longrightarrow> key_call (rq_call r) = Some name))"

definition shared_ok :: "hasher \<Rightarrow> shared_manager \<Rightarrow> bool" where
  "shared_ok hash s \<longleftrightarrow> distinct (map fst (sm_index s)) \<and> distinct (map (snd \<circ> snd) (sm_index s)) \<and>
     (\<forall>(name, m, a) \<in> set (sm_index s). a < length (sm_containers s) \<and> name \<noteq> [] \<and> bk_Name m = name) \<and>
     list_all (bucket_ok hash) (sm_containers s) \<and> sm_cfgShardCount s < 2 ^ 63 \<and>
     (\<forall>r \<in> set (sm_requests s). held_ok s r \<and> key_call (rq_call r) \<noteq> None)"

lemma sm_find_index:
  assumes "sm_find s name = Some a"
  obtains m where "(name, m, a) \<in> set (sm_index s)"
  using assms by (auto simp: sm_find_def dest: map_of_SomeD)

lemma sm_find_None: "sm_find s name = None \<longleftrightarrow> name \<notin> fst ` set (sm_index s)"
  by (simp add: sm_find_def map_of_eq_None_iff)

lemma index_sm_find:
  assumes "distinct (map fst (sm_index s))" "(name, m, a) \<in> set (sm_index s)"
  shows "sm_find s name = Some a"
  using assms by (simp add: sm_find_def)

lemma container_call_ok:
  assumes "bucket_ok hash sc" shows "bucket_ok hash (snd (container_call hash c sc))"
proof (cases c)
  case (CallSet env b k v ttl sr)
  then show ?thesis using cow.sharded_set(1) [OF assms prod.collapse [symmetric]] by (simp add: case_prod_unfold Let_def)
next
  case (CallGet env b k)
  then show ?thesis using cow.sharded_get(1) [OF assms prod.collapse [symmetric]] by (simp add: case_prod_unfold Let_def)
next
  case (CallDelete b k)
  then show ?thesis using cow.sharded_delete_any(1) [OF assms prod.collapse [symmetric]] by (simp add: case_prod_unfold Let_def)
qed (use assms in simp_all)

lemma shared_ok_requests:
  assumes "shared_ok hash s" "\<And>r. r \<in> set rs \<Longrightarrow> held_ok s r \<and> key_call (rq_call r) \<noteq> None"
  shows "shared_ok hash (s\<lparr>sm_requests := rs\<rparr>)"
  using assms by (simp add: shared_ok_def held_ok_def)

lemma pointer_unique:
  assumes "shared_ok hash s" "(name, m, a) \<in> set (sm_index s)" "(name', m', a) \<in> set (sm_index s)"
  shows "name' = name \<and> m' = m"
proof -
  have "distinct (map (snd \<circ> snd) (sm_index s))" using assms(1) by (simp add: shared_ok_def)
  then have "inj_on (snd \<circ> snd) (set (sm_index s))" by (simp add: distinct_map)
  from inj_onD [OF this _ assms(3,2)] show ?thesis by simp
qed

lemma lookup_ok:
  assumes ok: "shared_ok hash s" and r: "request_lookup i s = Some s'"
  shows "shared_ok hash s'"
proof -
  let ?r = "sm_requests s ! i"
  obtain pc where i: "i < length (sm_requests s)" and pc: "pc = (if bad_ttl (rq_call ?r) then Answered (Err ErrInvalidTTL)
      else case Option.bind (key_call (rq_call ?r)) (sm_find s) of None \<Rightarrow> Answered (Err ErrBucketNotFound) | Some a \<Rightarrow> Holding a)"
    and s': "s' = set_request i pc s"
    using r by (auto simp: request_lookup_def Let_def split: if_splits)
  have rq: "held_ok s r \<and> key_call (rq_call r) \<noteq> None" if "r \<in> set (sm_requests s)" for r
    using ok that by (simp add: shared_ok_def)
  have "held_ok s (?r\<lparr>rq_pc := pc\<rparr>)"
  proof (cases "\<exists>a. pc = Holding a")
    case True
    then obtain a b where a: "pc = Holding a" "\<not> bad_ttl (rq_call ?r)" "key_call (rq_call ?r) = Some b" "sm_find s b = Some a"
      using pc by (auto simp: bind_eq_Some_conv split: if_splits option.splits)
    obtain m where m: "(b, m, a) \<in> set (sm_index s)" by (rule sm_find_index [OF a(4)])
    then have "a < length (sm_containers s)" using ok by (auto simp: shared_ok_def)
    moreover have "name = b" if "(name, m', a) \<in> set (sm_index s)" for name m' using pointer_unique [OF ok m that] by simp
    ultimately show ?thesis using a by (auto simp: held_ok_def)
  qed (simp add: held_ok_def)
  then have "held_ok s r \<and> key_call (rq_call r) \<noteq> None" if "r \<in> set ((sm_requests s)[i := ?r\<lparr>rq_pc := pc\<rparr>])" for r
    using that rq [OF nth_mem [OF i]] rq set_update_subset_insert [of "sm_requests s" i "?r\<lparr>rq_pc := pc\<rparr>"] by auto
  then show ?thesis unfolding s' set_request_def by (rule shared_ok_requests [OF ok])
qed

lemma containers_update_ok:
  assumes "shared_ok hash s" "bucket_ok hash sc"
  shows "shared_ok hash (s\<lparr>sm_containers := (sm_containers s)[a := sc]\<rparr>)"
proof -
  have "list_all (bucket_ok hash) ((sm_containers s)[a := sc])"
    using assms set_update_subset_insert [of "sm_containers s" a sc] by (auto simp: shared_ok_def list_all_iff)
  then show ?thesis using assms(1) by (simp add: shared_ok_def held_ok_def)
qed

lemma apply_ok:
  assumes ok: "shared_ok hash s" and r: "request_apply hash i s = Some s'"
  shows "shared_ok hash s'"
proof -
  let ?r = "sm_requests s ! i"
  obtain a where a: "i < length (sm_requests s)" "rq_pc ?r = Holding a"
    using r by (auto simp: request_apply_def split: if_splits request_pc.splits)
  let ?res = "container_call hash (rq_call ?r) (sm_containers s ! a)"
  let ?t = "s\<lparr>sm_containers := (sm_containers s)[a := snd ?res]\<rparr>"
  have s': "s' = set_request i (Answered (fst ?res)) ?t"
    using r a by (simp add: request_apply_def case_prod_unfold Let_def)
  have "a < length (sm_containers s)" using ok a nth_mem [OF a(1)] by (auto simp: shared_ok_def held_ok_def)
  then have "bucket_ok hash (snd ?res)" using ok by (intro container_call_ok) (simp add: shared_ok_def list_all_length)
  then have t: "shared_ok hash ?t" by (rule containers_update_ok [OF ok])
  have rq: "held_ok ?t r \<and> key_call (rq_call r) \<noteq> None" if "r \<in> set (sm_requests s)" for r
    using t that by (simp add: shared_ok_def)
  have "held_ok ?t (?r\<lparr>rq_pc := Answered (fst ?res)\<rparr>)" by (simp add: held_ok_def)
  then have "held_ok ?t r \<and> key_call (rq_call r) \<noteq> None" if "r \<in> set ((sm_requests ?t)[i := ?r\<lparr>rq_pc := Answered (fst ?res)\<rparr>])" for r
    using that rq [OF nth_mem [OF a(1)]] rq set_update_subset_insert [of "sm_requests s" i "?r\<lparr>rq_pc := Answered (fst ?res)\<rparr>"] by auto
  from shared_ok_requests [OF t this] show ?thesis by (simp add: s' set_request_def)
qed

lemma create_ok:
  assumes ok: "shared_ok hash s" and n: "n < 2 ^ 63" and r: "publish_create env uid name desc n s = Some s'"
  shows "shared_ok hash s'"
proof -
  let ?n = "if n \<le> 0 then sm_cfgShardCount s else n" and ?a = "length (sm_containers s)"
  have c: "sm_cfgShardCount s < 2 ^ 63" using ok by (simp add: shared_ok_def)
  have new: "bucket_ok hash (NewShardContainer NewMemoryStore (env_now env) ?n)"
    by (rule NewMemoryStore_container(1)) (use c n in simp)
  let ?m = "new_meta env uid name desc ?n"
  have name: "name \<noteq> []" "sm_find s name = None" and m: "bk_Name ?m = name"
    and s': "s' = s\<lparr>sm_containers := sm_containers s @ [NewShardContainer NewMemoryStore (env_now env) ?n],
                    sm_index := sm_index s @ [(name, ?m, ?a)]\<rparr>"
    using r by (simp_all add: publish_create_def Let_def new_meta_def split: if_splits)
  have fresh: "?a \<notin> (snd \<circ> snd) ` set (sm_index s)" using ok by (fastforce simp: shared_ok_def)
  have held: "held_ok s' r" if "r \<in> set (sm_requests s)" for r
    using ok that by (fastforce simp: shared_ok_def held_ok_def s')
  show ?thesis
    unfolding shared_ok_def
  proof (intro conjI)
    show "distinct (map fst (sm_index s'))" "distinct (map (snd \<circ> snd) (sm_index s'))"
      using ok name(2) fresh by (auto simp: s' shared_ok_def sm_find_None)
    show "\<forall>(name, m, a) \<in> set (sm_index s'). a < length (sm_containers s') \<and> name \<noteq> [] \<and> bk_Name m = name"
      using ok name(1) m by (auto simp: s' shared_ok_def)
    show "list_all (bucket_ok hash) (sm_containers s')" "sm_cfgShardCount s' < 2 ^ 63"
      using ok new by (simp_all add: s' shared_ok_def)
    show "\<forall>r \<in> set (sm_requests s'). held_ok s' r \<and> key_call (rq_call r) \<noteq> None"
      using held ok by (simp add: s' shared_ok_def)
  qed
qed

lemma index_filter_ok:
  assumes "shared_ok hash s"
  shows "shared_ok hash (s\<lparr>sm_index := filter P (sm_index s)\<rparr>)"
  using assms by (auto simp: shared_ok_def held_ok_def distinct_map_filter)

lemma delete_ok:
  assumes ok: "shared_ok hash s" and r: "publish_delete env tm hash name token s = Some s'"
  shows "shared_ok hash s'"
proof -
  let ?f = "\<lambda>(k, v). k \<noteq> name"
  obtain a where a: "sm_find s name = Some a"
    and s': "s' = (s\<lparr>sm_index := filter ?f (sm_index s)\<rparr>)
      \<lparr>sm_containers := (sm_containers s)[a := ShardContainer_StopGC (cow_methods hash) (sm_containers s ! a)]\<rparr>"
    using r by (auto simp: publish_delete_def split: if_splits option.splits)
  obtain m where "(name, m, a) \<in> set (sm_index s)" by (rule sm_find_index [OF a])
  then have "bucket_ok hash (sm_containers s ! a)" using ok by (auto simp: shared_ok_def list_all_length)
  then have "bucket_ok hash (ShardContainer_StopGC (cow_methods hash) (sm_containers s ! a))" using cow.sharded_gc(3) by blast
  from containers_update_ok [OF index_filter_ok [OF ok] this] show ?thesis by (simp add: s')
qed

definition action_fits :: "shared_action \<Rightarrow> bool" where
  "action_fits a = (case a of Create env uid name desc n \<Rightarrow> n < 2 ^ 63 | _ \<Rightarrow> True)"

lemma shared_ok_step:
  assumes "shared_ok hash s" "action_fits a" "shared_step hash tm a s = Some s'"
  shows "shared_ok hash s'"
proof (cases a)
  case (BeginRequest c)
  then have "s' = s\<lparr>sm_requests := sm_requests s @ [\<lparr>rq_call = c, rq_pc = NotLookedUp\<rparr>]\<rparr>" "key_call c \<noteq> None"
    using assms(3) by (auto simp: request_begin_def split: if_splits)
  then show ?thesis using shared_ok_requests [OF assms(1)] assms(1) by (auto simp: shared_ok_def held_ok_def)
next
  case (Lookup i)
  then show ?thesis using lookup_ok [OF assms(1)] assms(3) by simp
next
  case (Apply i)
  then show ?thesis using apply_ok [OF assms(1)] assms(3) by simp
next
  case (Create env uid name desc n)
  then show ?thesis using create_ok [OF assms(1)] assms(2,3) by (simp add: action_fits_def)
next
  case (Delete env name token)
  then show ?thesis using delete_ok [OF assms(1)] assms(3) by simp
qed

lemma shared_ok_new: "n < 2 ^ 63 \<Longrightarrow> shared_ok hash (new_shared env uid n)"
  using NewMemoryStore_container(1) by (simp add: shared_ok_def new_shared_def new_meta_def str_nonempty)

lemma shared_ok_run:
  assumes "shared_run hash tm as (new_shared env uid n) = Some s" "n < 2 ^ 63" "list_all action_fits as"
  shows "shared_ok hash s"
  by (rule shared_run_invariant [where I = "shared_ok hash", OF assms(1) shared_ok_new [OF assms(2)]])
    (use assms(3) shared_ok_step in \<open>auto simp: list_all_iff\<close>)

section \<open>The steps on the manager\<close>

lemma as_manager_requests [simp]: "as_manager (s\<lparr>sm_requests := rs\<rparr>) = as_manager s" "as_manager (set_request i pc s) = as_manager s"
  by (simp_all add: as_manager_def set_request_def)

lemma as_manager_lookup:
  "bm_lookup (as_manager s) name = map_option (\<lambda>(b, a). b\<lparr>bk_store := Some (sm_containers s ! a)\<rparr>) (map_of (sm_index s) name)"
  using map_of_values [of "\<lambda>_ (b, a). b\<lparr>bk_store := Some (sm_containers s ! a)\<rparr>" "sm_index s" name]
  by (simp add: bm_lookup_def as_manager_def case_prod_unfold)

lemma as_manager_store: "GetStore (as_manager s) name = map_option (\<lambda>a. Some (sm_containers s ! a)) (sm_find s name)"
  by (auto simp: GetStore_def as_manager_lookup sm_find_def split: option.split prod.split)

text \<open>Writing a container is seen through its bucket, if it still has one.\<close>

lemma as_manager_write:
  assumes ok: "shared_ok hash s" and a: "sm_find s name = Some a"
  shows "as_manager (s\<lparr>sm_containers := (sm_containers s)[a := sc]\<rparr>) = set_store name sc (as_manager s)"
proof -
  obtain m where m: "(name, m, a) \<in> set (sm_index s)" by (rule sm_find_index [OF a])
  have l: "a < length (sm_containers s)" using ok m by (auto simp: shared_ok_def)
  have name: "k = name" if "(k, b, a) \<in> set (sm_index s)" for k b
    using pointer_unique [OF ok m that] by simp
  have addr: "a' = a" if "(name, b, a') \<in> set (sm_index s)" for b a'
    using index_sm_find [OF _ that] a ok by (simp add: shared_ok_def)
  have cell: "(sm_containers s)[a := sc] ! a' = (if k = name then sc else sm_containers s ! a')" if "(k, b, a') \<in> set (sm_index s)" for k b a'
  proof (cases "k = name")
    case True
    then show ?thesis using addr that l by simp
  next
    case False
    then have "a' \<noteq> a" using name that by blast
    then show ?thesis using False by simp
  qed
  have "bm_buckets (as_manager (s\<lparr>sm_containers := (sm_containers s)[a := sc]\<rparr>)) = bm_buckets (set_store name sc (as_manager s))"
    unfolding as_manager_def set_store_def
    by (simp add: case_prod_unfold) (use cell in \<open>fastforce\<close>)
  then show ?thesis by (simp add: as_manager_def set_store_def)
qed

lemma as_manager_write_detached:
  assumes "\<And>name. sm_find s name \<noteq> Some a" "distinct (map fst (sm_index s))"
  shows "as_manager (s\<lparr>sm_containers := (sm_containers s)[a := sc]\<rparr>) = as_manager s"
proof -
  have "a' \<noteq> a" if "(k, b, a') \<in> set (sm_index s)" for k b a'
    using index_sm_find [OF assms(2) that] assms(1) by auto
  then have "(sm_containers s)[a := sc] ! a' = sm_containers s ! a'" if "(k, b, a') \<in> set (sm_index s)" for k b a'
    using that by (metis nth_list_update_neq)
  then show ?thesis by (auto simp: as_manager_def)
qed

lemma key_call_run:
  assumes "key_call c = Some b" "\<not> bad_ttl c" "GetStore bm b = Some (Some sc)"
  shows "run_call auth hash c bm = (panic_of (fst (container_call hash c sc)), set_store b (snd (container_call hash c sc)) bm)"
  using assms
  by (cases c) (auto simp: StorageService_Set_def StorageService_Get_def StorageService_Delete_def Let_def
      split: prod.split option.split)

lemma held_bucket:
  assumes "shared_ok hash s" "i < length (sm_requests s)" "rq_pc (sm_requests s ! i) = Holding a"
  shows "\<not> bad_ttl (rq_call (sm_requests s ! i))" "sm_find s name = Some a \<Longrightarrow> key_call (rq_call (sm_requests s ! i)) = Some name"
proof -
  have h: "held_ok s (sm_requests s ! i)" using assms(1) nth_mem [OF assms(2)] by (simp add: shared_ok_def)
  show "\<not> bad_ttl (rq_call (sm_requests s ! i))" using h assms(3) by (simp add: held_ok_def)
  assume "sm_find s name = Some a"
  then obtain m where "(name, m, a) \<in> set (sm_index s)" by (rule sm_find_index)
  then show "key_call (rq_call (sm_requests s ! i)) = Some name" using h assms(3) by (auto simp: held_ok_def)
qed

lemma apply_effect:
  assumes ok: "shared_ok hash s" and r: "request_apply hash i s = Some s'"
    and a: "rq_pc (sm_requests s ! i) = Holding a" "rq_call (sm_requests s ! i) = c" "key_call c = Some b"
  shows "rq_pc (sm_requests s' ! i) = Answered (fst (container_call hash c (sm_containers s ! a)))"
    "sm_find s b = Some a \<Longrightarrow> run_call auth hash c (as_manager s) = (panic_of (fst (container_call hash c (sm_containers s ! a))), as_manager s')"
    "sm_find s b \<noteq> Some a \<Longrightarrow> as_manager s' = as_manager s"
proof -
  have i: "i < length (sm_requests s)" using r by (simp add: request_apply_def split: if_splits)
  let ?res = "container_call hash c (sm_containers s ! a)"
  have s': "s' = set_request i (Answered (fst ?res)) (s\<lparr>sm_containers := (sm_containers s)[a := snd ?res]\<rparr>)"
    using r a(1,2) i by (simp add: request_apply_def case_prod_unfold Let_def)
  show "rq_pc (sm_requests s' ! i) = Answered (fst ?res)" using i by (simp add: s' set_request_def)
  note h = held_bucket [OF ok i a(1)]
  show "run_call auth hash c (as_manager s) = (panic_of (fst ?res), as_manager s')" if f: "sm_find s b = Some a"
    using key_call_run [OF a(3)] h(1) a(2) as_manager_store [of s b] as_manager_write [OF ok f] f by (simp add: s')
  show "as_manager s' = as_manager s" if "sm_find s b \<noteq> Some a"
  proof -
    have "sm_find s name \<noteq> Some a" for name using h(2) [of name] a(2,3) that by auto
    moreover have "distinct (map fst (sm_index s))" using ok by (simp add: shared_ok_def)
    ultimately show ?thesis using as_manager_write_detached by (simp add: s')
  qed
qed

lemma create_effect:
  assumes ok: "shared_ok hash s" and r: "publish_create env uid name desc n s = Some s'"
  shows "as_manager s' = snd (CreateBucket env (Some tm) uid (as_manager s) name desc n)"
    "\<exists>tok. fst (CreateBucket env (Some tm) uid (as_manager s) name desc n) = Ok tok"
proof -
  let ?n = "if n \<le> 0 then sm_cfgShardCount s else n" and ?a = "length (sm_containers s)"
  have name: "name \<noteq> []" "sm_find s name = None"
    and s': "s' = s\<lparr>sm_containers := sm_containers s @ [NewShardContainer NewMemoryStore (env_now env) ?n],
                    sm_index := sm_index s @ [(name, new_meta env uid name desc ?n, ?a)]\<rparr>"
    using r by (simp_all add: publish_create_def Let_def split: if_splits)
  have l: "a < ?a" if "(k, b, a) \<in> set (sm_index s)" for k b a using ok that by (auto simp: shared_ok_def)
  have none: "bm_lookup (as_manager s) name = None" using name(2) by (simp add: as_manager_lookup sm_find_def)
  have "as_manager s' = (as_manager s)\<lparr>bm_buckets := bm_buckets (as_manager s) @
      [(name, (new_meta env uid name desc ?n)\<lparr>bk_store := Some (NewShardContainer NewMemoryStore (env_now env) ?n)\<rparr>)]\<rparr>"
    using l by (auto simp: as_manager_def s' nth_append)
  then show "as_manager s' = snd (CreateBucket env (Some tm) uid (as_manager s) name desc n)"
    using name none by (simp add: CreateBucket_def Let_def auth_Manager_def new_meta_def as_manager_def)
  show "\<exists>tok. fst (CreateBucket env (Some tm) uid (as_manager s) name desc n) = Ok tok"
    using name none by (simp add: CreateBucket_def Let_def auth_Manager_def)
qed

lemma delete_effect:
  assumes ok: "shared_ok hash s" and r: "publish_delete env tm hash name token s = Some s'"
  shows "DeleteBucket env (Some tm) (as_manager s) name token = (Ok (), as_manager s')"
proof -
  let ?f = "\<lambda>(k, v). k \<noteq> name" and ?t = "s\<lparr>sm_index := filter (\<lambda>(k, v). k \<noteq> name) (sm_index s)\<rparr>"
  obtain a where a: "sm_find s name = Some a" "name \<noteq> str ''default''" "ValidateToken env tm token name"
    and s': "s' = ?t\<lparr>sm_containers := (sm_containers ?t)[a := ShardContainer_StopGC (cow_methods hash) (sm_containers s ! a)]\<rparr>"
    using r by (auto simp: publish_delete_def split: if_splits option.splits)
  obtain m where m: "(name, m, a) \<in> set (sm_index s)" by (rule sm_find_index [OF a(1)])
  have "sm_find ?t k \<noteq> Some a" for k
  proof
    assume "sm_find ?t k = Some a"
    then obtain b where "(k, b, a) \<in> set (sm_index ?t)" by (rule sm_find_index)
    then have b: "(k, b, a) \<in> set (sm_index s)" "k \<noteq> name" by simp_all
    then show False using pointer_unique [OF ok m b(1)] by simp
  qed
  moreover have "distinct (map fst (sm_index ?t))" using ok by (simp add: shared_ok_def distinct_map_filter)
  ultimately have "as_manager s' = as_manager ?t" unfolding s' by (rule as_manager_write_detached)
  also have "\<dots> = (as_manager s)\<lparr>bm_buckets := filter ?f (bm_buckets (as_manager s))\<rparr>"
    by (simp add: as_manager_def filter_map comp_def case_prod_unfold)
  finally have e: "as_manager s' = (as_manager s)\<lparr>bm_buckets := filter ?f (bm_buckets (as_manager s))\<rparr>" .
  have "bm_lookup (as_manager s) name \<noteq> None" using a(1) by (auto simp: as_manager_lookup sm_find_def)
  then show ?thesis using a(2,3) e by (simp add: DeleteBucket_def auth_Manager_def)
qed

lemma new_shared_manager: "as_manager (new_shared env uid n) = snd (NewBucketManager env (Some tm) uid n)"
proof -
  have e: "bm_lookup \<lparr>bm_buckets = [], bm_cfgShardCount = n\<rparr> name = None" for name by (simp add: bm_lookup_def)
  have "str ''default'' \<noteq> []" by (simp add: str_nonempty)
  then show ?thesis by (simp add: as_manager_def new_shared_def new_meta_def NewBucketManager_def CreateBucket_def e auth_Manager_def)
qed

section \<open>The run as atomic calls\<close>

text \<open>The atomic call that takes effect in a step: a creation, a deletion, or the operation of a request whose bucket is
  still the one it looked up; a request that holds the container of a deleted bucket has none.\<close>

fun step_calls :: "shared_action \<Rightarrow> shared_manager \<Rightarrow> manager_call list" where
  "step_calls (Create env uid name desc n) s = [CallCreateBucket env uid name desc n]"
| "step_calls (Delete env name token) s = [CallDeleteBucket env name token]"
| "step_calls (Apply i) s =
     (let c = rq_call (sm_requests s ! i)
      in case rq_pc (sm_requests s ! i) of
           Holding a \<Rightarrow> if Option.bind (key_call c) (sm_find s) = Some a then [c] else []
         | _ \<Rightarrow> [])"
| "step_calls _ s = []"

fun run_calls :: "hasher \<Rightarrow> token_manager \<Rightarrow> shared_action list \<Rightarrow> shared_manager \<Rightarrow> manager_call list" where
  "run_calls hash tm [] s = []"
| "run_calls hash tm (a # as) s =
     step_calls a s @ (case shared_step hash tm a s of None \<Rightarrow> [] | Some t \<Rightarrow> run_calls hash tm as t)"

definition call_all :: "auth_state \<Rightarrow> hasher \<Rightarrow> manager_call list \<Rightarrow> bucket_manager \<Rightarrow> bucket_manager" where
  "call_all auth hash cs bm = fold (\<lambda>c bm. snd (run_call auth hash c bm)) cs bm"

lemma call_all_simps [simp]:
  "call_all auth hash [] bm = bm" "call_all auth hash (c # cs) bm = call_all auth hash cs (snd (run_call auth hash c bm))"
  "call_all auth hash (cs @ ds) bm = call_all auth hash ds (call_all auth hash cs bm)"
  by (simp_all add: call_all_def)

lemma step_calls_effect:
  assumes ok: "shared_ok hash s" and r: "shared_step hash tm x s = Some s'"
  shows "as_manager s' = call_all (Some tm) hash (step_calls x s) (as_manager s)"
proof (cases x)
  case (BeginRequest c)
  then show ?thesis using r by (auto simp: request_begin_def split: if_splits)
next
  case (Lookup i)
  then show ?thesis using r by (auto simp: request_lookup_def Let_def split: if_splits)
next
  case (Apply i)
  then have ap: "request_apply hash i s = Some s'" using r by simp
  then obtain a where i: "i < length (sm_requests s)" and a: "rq_pc (sm_requests s ! i) = Holding a"
    by (auto simp: request_apply_def split: if_splits request_pc.splits)
  let ?c = "rq_call (sm_requests s ! i)"
  obtain b where b: "key_call ?c = Some b" using ok nth_mem [OF i] by (auto simp: shared_ok_def)
  note eff = apply_effect(2,3) [OF ok ap a refl b]
  show ?thesis using eff(1) [of "Some tm"] eff(2) Apply a b by (cases "sm_find s b = Some a") simp_all
next
  case (Create env uid name desc n)
  then show ?thesis using create_effect(1) [OF ok, of env uid name desc n s' tm] r by simp
next
  case (Delete env name token)
  then show ?thesis using delete_effect [OF ok, of env tm name token s'] r by simp
qed

lemma run_calls_effect:
  assumes "shared_run hash tm as s = Some s'" "shared_ok hash s" "list_all action_fits as"
  shows "as_manager s' = call_all (Some tm) hash (run_calls hash tm as s) (as_manager s)"
  using assms
proof (induction as arbitrary: s)
  case (Cons a as)
  then obtain t where t: "shared_step hash tm a s = Some t" "shared_run hash tm as t = Some s'" by (auto simp: bind_eq_Some_conv)
  have "shared_ok hash t" using shared_ok_step [OF Cons.prems(2) _ t(1)] Cons.prems(3) by simp
  then show ?case using Cons.IH [OF t(2)] Cons.prems(3) t(1) step_calls_effect [OF Cons.prems(2) t(1)] by simp
qed simp

section \<open>Properties\<close>

text \<open>A bucket, and a request that has looked it up.\<close>

definition sample_tm :: token_manager where
  "sample_tm = \<lparr>tm_secretKey = str ''secret''\<rparr>"

definition sample_set :: manager_call where
  "sample_set = CallSet sample_env (str ''b'') (str ''k'') [1] 0 False"

definition sample_actions :: "shared_action list" where
  "sample_actions = [Create sample_env (str ''i'') (str ''b'') [] 1, BeginRequest sample_set, Lookup 0]"

definition sample_recreation :: "shared_action list" where
  "sample_recreation = [Delete sample_env (str ''b'') (GenerateToken sample_env sample_tm (str ''b'') 0),
     Create sample_env (str ''i2'') (str ''b'') [] 1, Apply 0]"

lemma sample_b_valid: "ValidateToken sample_env sample_tm (GenerateToken sample_env sample_tm (str ''b'') 0) (str ''b'')"
proof -
  have "dot \<notin> set (be64 0)" "dot \<notin> set (str ''b'')" "str ''b'' \<noteq> []" by (auto simp: be64_def be_bytes_def str_def)
  then show ?thesis using GenerateToken_valid by (simp add: token_expiry_def)
qed

lemma apply_enabled: "i < length (sm_requests s) \<Longrightarrow> rq_pc (sm_requests s ! i) = Holding a \<Longrightarrow> \<exists>s'. request_apply hash i s = Some s'"
  by (simp add: request_apply_def case_prod_unfold Let_def)

lemma sample_shared:
  obtains s where "shared_run hash sample_tm sample_actions (new_shared sample_env (str ''id'') 1) = Some s"
    "rq_pc (sm_requests s ! 0) = Holding 1" "rq_call (sm_requests s ! 0) = sample_set" "sm_find s (str ''b'') = Some 1"
    "\<exists>s'. shared_run hash sample_tm sample_recreation s = Some s'" "\<exists>s'. shared_step hash sample_tm (Apply 0) s = Some s'"
proof -
  have n: "str ''b'' \<noteq> str ''default''" "str ''default'' \<noteq> str ''b''" "str ''b'' \<noteq> []" by (simp_all add: str_def)
  let ?sc = "NewShardContainer NewMemoryStore (env_now sample_env) 1"
  let ?s = "\<lparr>sm_index = [(str ''default'', new_meta sample_env (str ''id'') (str ''default'') (str ''Default bucket'') 1, 0),
        (str ''b'', new_meta sample_env (str ''i'') (str ''b'') [] 1, 1)],
      sm_containers = [?sc, ?sc], sm_cfgShardCount = 1, sm_requests = [\<lparr>rq_call = sample_set, rq_pc = Holding 1\<rparr>]\<rparr>"
  have run: "shared_run hash sample_tm sample_actions (new_shared sample_env (str ''id'') 1) = Some ?s"
    by (simp add: sample_actions_def new_shared_def publish_create_def request_begin_def request_lookup_def set_request_def
        sm_find_def sample_set_def n)
  have f: "sm_find ?s (str ''b'') = Some 1" by (simp add: sm_find_def n)
  obtain s1 where s1: "publish_delete sample_env sample_tm hash (str ''b'') (GenerateToken sample_env sample_tm (str ''b'') 0) ?s = Some s1"
      "sm_find s1 (str ''b'') = None" "sm_requests s1 = sm_requests ?s"
    using f by (simp add: publish_delete_def sample_b_valid n sm_find_def)
  obtain s2 where s2: "publish_create sample_env (str ''i2'') (str ''b'') [] 1 s1 = Some s2" "sm_requests s2 = sm_requests ?s"
    using s1(2,3) n by (simp add: publish_create_def)
  obtain s3 where "request_apply hash 0 s2 = Some s3" using apply_enabled [of 0 s2 1] s2(2) by auto
  then have re: "\<exists>s'. shared_run hash sample_tm sample_recreation ?s = Some s'" using s1(1) s2(1) by (simp add: sample_recreation_def)
  have "\<exists>s'. shared_step hash sample_tm (Apply 0) ?s = Some s'" using apply_enabled [of 0 ?s 1] by simp
  then show thesis using that [OF run _ _ f re] by simp
qed

lemma sample_fits: "list_all action_fits sample_actions"
  by (simp add: sample_actions_def action_fits_def)

text \<open>C27: Whatever requests are in flight while buckets are created and deleted, in every interleaving, the published
  manager with the containers it points to is exactly the one that a sequence of atomic calls makes of the new
  manager: every creation and deletion, and every operation on a key at the moment it runs on its container, in the
  order of the run, save the operations whose bucket has been deleted since they looked it up, which have no effect.\<close>

theorem interleaved_run_is_atomic:
  assumes "shared_run hash tm as (new_shared env uid n) = Some s" "n < 2 ^ 63" "list_all action_fits as"
  shows "as_manager s =
    call_all (Some tm) hash (run_calls hash tm as (new_shared env uid n)) (snd (NewBucketManager env (Some tm) uid n))"
  using run_calls_effect [OF assms(1) shared_ok_new [OF assms(2)] assms(3)] by (simp add: new_shared_manager [of env uid n tm])

text \<open>A request whose bucket stays, and one whose bucket is deleted and created again.\<close>

theorem interleaved_run_is_atomic_witness:
  "\<exists>s t. shared_run (\<lambda>_. 0) sample_tm (sample_actions @ [Apply 0]) (new_shared sample_env (str ''id'') 1) = Some s \<and>
    as_manager s = call_all (Some sample_tm) (\<lambda>_. 0) [CallCreateBucket sample_env (str ''i'') (str ''b'') [] 1, sample_set]
      (snd (NewBucketManager sample_env (Some sample_tm) (str ''id'') 1)) \<and>
    shared_run (\<lambda>_. 0) sample_tm (sample_actions @ sample_recreation) (new_shared sample_env (str ''id'') 1) = Some t \<and>
    as_manager t = call_all (Some sample_tm) (\<lambda>_. 0) [CallCreateBucket sample_env (str ''i'') (str ''b'') [] 1,
      CallDeleteBucket sample_env (str ''b'') (GenerateToken sample_env sample_tm (str ''b'') 0),
      CallCreateBucket sample_env (str ''i2'') (str ''b'') [] 1]
      (snd (NewBucketManager sample_env (Some sample_tm) (str ''id'') 1))"
proof -
  let ?h = "\<lambda>_ :: gostring. 0 :: 64 word" and ?new = "new_shared sample_env (str ''id'') 1"
  have n: "(1 :: int) < 2 ^ 63" by simp
  obtain s0 where s0: "shared_run ?h sample_tm sample_actions ?new = Some s0" "rq_pc (sm_requests s0 ! 0) = Holding 1"
    "rq_call (sm_requests s0 ! 0) = sample_set" "sm_find s0 (str ''b'') = Some 1"
    "\<exists>t. shared_run ?h sample_tm sample_recreation s0 = Some t" "\<exists>s. shared_step ?h sample_tm (Apply 0) s0 = Some s"
    by (rule sample_shared)
  obtain t where t: "shared_run ?h sample_tm sample_recreation s0 = Some t" using s0(5) by blast
  obtain s where s: "shared_step ?h sample_tm (Apply 0) s0 = Some s" using s0(6) by blast
  have app: "shared_run ?h sample_tm (xs @ ys) u = Option.bind (shared_run ?h sample_tm xs u) (shared_run ?h sample_tm ys)" for xs ys u
    by (induction xs arbitrary: u) (auto split: bind_splits)
  have calls: "run_calls ?h sample_tm (sample_actions @ ys) ?new = CallCreateBucket sample_env (str ''i'') (str ''b'') [] 1 # run_calls ?h sample_tm ys s0" for ys
    using s0(1) by (auto simp: sample_actions_def bind_eq_Some_conv)
  have b: "key_call sample_set = Some (str ''b'')" by (simp add: sample_set_def)
  have r1: "shared_run ?h sample_tm (sample_actions @ [Apply 0]) ?new = Some s" using s0(1) s by (simp add: app)
  have r2: "shared_run ?h sample_tm (sample_actions @ sample_recreation) ?new = Some t" using s0(1) t by (simp add: app)
  have f: "list_all action_fits (sample_actions @ [Apply 0])" "list_all action_fits (sample_actions @ sample_recreation)"
    using sample_fits by (simp_all add: action_fits_def sample_recreation_def)
  have c1: "run_calls ?h sample_tm [Apply 0] s0 = [sample_set]" using s0(2-4) s b by simp
  obtain s1 s2 where st: "publish_delete sample_env sample_tm ?h (str ''b'') (GenerateToken sample_env sample_tm (str ''b'') 0) s0 = Some s1"
      "publish_create sample_env (str ''i2'') (str ''b'') [] 1 s1 = Some s2" "request_apply ?h 0 s2 = Some t"
    using t by (auto simp: sample_recreation_def bind_eq_Some_conv)
  have rq: "sm_requests s2 = sm_requests s0" and fd: "sm_find s2 (str ''b'') = Some (length (sm_containers s0))"
    using st(1,2) by (auto simp: publish_delete_def publish_create_def Let_def sm_find_def map_add_def split: if_splits option.splits)
  have "0 < length (sm_requests s0)" using s by (simp add: request_apply_def split: if_splits)
  then have "1 < length (sm_containers s0)"
    using shared_ok_run [OF s0(1) n sample_fits] s0(2) nth_mem by (force simp: shared_ok_def held_ok_def)
  then have "sm_find s2 (str ''b'') \<noteq> Some 1" using fd by simp
  then have c2: "run_calls ?h sample_tm sample_recreation s0 =
      [CallDeleteBucket sample_env (str ''b'') (GenerateToken sample_env sample_tm (str ''b'') 0), CallCreateBucket sample_env (str ''i2'') (str ''b'') [] 1]"
    using st rq s0(2,3) b by (simp add: sample_recreation_def)
  show ?thesis
    using r1 r2 interleaved_run_is_atomic [OF r1 n f(1)] interleaved_run_is_atomic [OF r2 n f(2)] unfolding calls c1 c2 by blast
qed

text \<open>C16: A request whose bucket is still the one it looked up takes effect as a whole, at the moment it runs on the
  container; if the bucket has been deleted since, whether or not there is a new one of the same name, it changes
  nothing that any later request can see. In both cases it is answered from the container it held.\<close>

theorem inflight_call_effect:
  assumes "shared_run hash tm as (new_shared env uid n) = Some s" "n < 2 ^ 63" "list_all action_fits as"
    and "shared_step hash tm (Apply i) s = Some s'" "rq_pc (sm_requests s ! i) = Holding a"
    and "rq_call (sm_requests s ! i) = c" "key_call c = Some b"
  shows "rq_pc (sm_requests s' ! i) = Answered (fst (container_call hash c (sm_containers s ! a))) \<and>
    as_manager s' = (if sm_find s b = Some a then snd (run_call (Some tm) hash c (as_manager s)) else as_manager s)"
proof -
  have ap: "request_apply hash i s = Some s'" using assms(4) by simp
  note eff = apply_effect [OF shared_ok_run [OF assms(1-3)] ap assms(5-7)]
  show ?thesis using eff(1) eff(2) [of "Some tm"] eff(3) by (cases "sm_find s b = Some a") simp_all
qed

theorem inflight_call_effect_witness:
  "\<exists>s s'. shared_run (\<lambda>_. 0) sample_tm sample_actions (new_shared sample_env (str ''id'') 1) = Some s \<and>
    shared_step (\<lambda>_. 0) sample_tm (Apply 0) s = Some s' \<and>
    as_manager s' = snd (run_call (Some sample_tm) (\<lambda>_. 0) sample_set (as_manager s))"
proof -
  obtain s s' where s: "shared_run (\<lambda>_. 0) sample_tm sample_actions (new_shared sample_env (str ''id'') 1) = Some s"
    "rq_pc (sm_requests s ! 0) = Holding 1" "rq_call (sm_requests s ! 0) = sample_set" "sm_find s (str ''b'') = Some 1"
    "shared_step (\<lambda>_. 0) sample_tm (Apply 0) s = Some s'"
    by (metis sample_shared)
  have n: "(1 :: int) < 2 ^ 63" by simp
  have "key_call sample_set = Some (str ''b'')" by (simp add: sample_set_def)
  from inflight_call_effect [OF s(1) n sample_fits s(5,2,3) this] show ?thesis using s(1,4,5) by auto
qed

text \<open>C28: An accepted write can be lost: a \<open>Set\<close> that has looked up its bucket while the bucket is deleted and created
  again answers like any other, and the new bucket is empty.\<close>

theorem set_lost_to_delete:
  assumes "shared_run hash tm as (new_shared env uid n) = Some s" "n < 2 ^ 63" "list_all action_fits as"
    and "rq_pc (sm_requests s ! i) = Holding a" "rq_call (sm_requests s ! i) = CallSet env0 b k v ttl sr"
    and "shared_run hash tm [Delete env1 b token, Create env2 uid2 b desc m, Apply i] s = Some s'" "m < 2 ^ 63"
  shows "kv_view hash (as_manager s') b = Some Map.empty \<and>
    (rq_pc (sm_requests s' ! i) = Answered (Ok (Some (new_entry env0 k v ttl sr))) \<or>
     (\<exists>p. rq_pc (sm_requests s' ! i) = Answered (Panic p)))"
proof -
  obtain s1 s2 where st: "publish_delete env1 tm hash b token s = Some s1" "publish_create env2 uid2 b desc m s1 = Some s2"
      "request_apply hash i s2 = Some s'"
    using assms(6) by (auto simp: bind_eq_Some_conv)
  have ok: "shared_ok hash s" by (rule shared_ok_run [OF assms(1-3)])
  have ok1: "shared_ok hash s1" by (rule delete_ok [OF ok st(1)])
  have ok2: "shared_ok hash s2" by (rule create_ok [OF ok1 assms(7) st(2)])
  have rq: "sm_requests s2 = sm_requests s"
    using st(1,2) by (auto simp: publish_delete_def publish_create_def Let_def split: if_splits option.splits)
  have len: "length (sm_containers s1) = length (sm_containers s)"
    using st(1) by (auto simp: publish_delete_def split: if_splits option.splits)
  have i: "i < length (sm_requests s)" using st(3) rq by (simp add: request_apply_def split: if_splits)
  have "a < length (sm_containers s)" using ok nth_mem [OF i] assms(4) by (auto simp: shared_ok_def held_ok_def)
  moreover have f: "sm_find s2 b = Some (length (sm_containers s))"
    using st(2) len by (auto simp: publish_create_def Let_def sm_find_def map_add_def split: if_splits option.splits)
  ultimately have ne: "sm_find s2 b \<noteq> Some a" by simp
  note eff = apply_effect [where hash = hash, OF ok2 st(3), of a "CallSet env0 b k v ttl sr" b]
  have e: "as_manager s' = as_manager s2" "rq_pc (sm_requests s' ! i) = Answered (fst (container_call hash (CallSet env0 b k v ttl sr) (sm_containers s2 ! a)))"
    using eff(1,3) ne assms(4,5) rq by simp_all
  let ?n = "if m \<le> 0 then sm_cfgShardCount s1 else m"
  have "sm_cfgShardCount s1 < 2 ^ 63" using ok1 by (simp add: shared_ok_def)
  then have "?n < 2 ^ 63" using assms(7) by simp
  moreover have "sm_containers s2 ! length (sm_containers s) = NewShardContainer NewMemoryStore (env_now env2) ?n"
    using st(2) len by (auto simp: publish_create_def Let_def nth_append split: if_splits)
  ultimately have "kv_view hash (as_manager s2) b = Some Map.empty"
    using f NewMemoryStore_container(2) by (simp add: kv_view_def as_manager_store)
  then show ?thesis using e by (auto simp: Let_def split: prod.split option.split)
qed

theorem set_lost_to_delete_witness:
  "\<exists>s s'. shared_run (\<lambda>_. 0) sample_tm sample_actions (new_shared sample_env (str ''id'') 1) = Some s \<and>
    shared_run (\<lambda>_. 0) sample_tm sample_recreation s = Some s' \<and> kv_view (\<lambda>_. 0) (as_manager s') (str ''b'') = Some Map.empty"
proof -
  obtain s s' where s: "shared_run (\<lambda>_. 0) sample_tm sample_actions (new_shared sample_env (str ''id'') 1) = Some s"
    "rq_pc (sm_requests s ! 0) = Holding 1" "rq_call (sm_requests s ! 0) = sample_set"
    "shared_run (\<lambda>_. 0) sample_tm sample_recreation s = Some s'"
    by (metis sample_shared)
  have n: "(1 :: int) < 2 ^ 63" by simp
  from set_lost_to_delete [OF s(1) n sample_fits s(2) s(3) [unfolded sample_set_def] s(4) [unfolded sample_recreation_def] n]
  show ?thesis using s(1,4) by blast
qed

end
