(* ===== verification/Process_Lifecycle.thy ===== *)
theory Process_Lifecycle
  imports Tcp_Lifecycle Bootstrap
begin

text \<open>
  The process around the servers: the two goroutines that \<open>main\<close> starts (\<open>cmd/kvstore/main.go\<close>, lines 62 to 77),
  the signal it waits for, the stop of the TCP server under a deadline of ten seconds, and the exit. A panic in a
  connection goroutine (\<open>Tcp_Server\<close>) is not recovered and ends the process too. \<open>log.Fatal\<close>
  and the return from \<open>main\<close> end every goroutine. The TCP server is \<open>Tcp_Lifecycle\<close>; the HTTP server
  (\<open>internal/transport/http/router.go\<close>, \<open>Run\<close>) is the standard library's, of which only listening, serving and
  failing are seen.
\<close>

section \<open>The HTTP server\<close>

record http_server =
  hv_Addr :: gostring
  hv_ReadTimeout :: int
  hv_WriteTimeout :: int
  hv_IdleTimeout :: int

definition readTimeout :: int where "readTimeout = 5"
definition writeTimeout :: int where "writeTimeout = 10"
definition idleTimeout :: int where "idleTimeout = 15"

text \<open>What \<open>Run\<close> hands to \<open>ListenAndServe\<close>.\<close>

definition Router_Run :: "gostring \<Rightarrow> http_server" where
  "Router_Run addr =
     \<lparr>hv_Addr = addr, hv_ReadTimeout = i64 (readTimeout * 1000000000), hv_WriteTimeout = i64 (writeTimeout * 1000000000),
      hv_IdleTimeout = i64 (idleTimeout * 1000000000)\<rparr>"

section \<open>The process\<close>

text \<open>Where \<open>main\<close> is once both goroutines are started: before \<open>signal.Notify\<close>, waiting for the signal, about to
  call \<open>Stop\<close>, in \<open>Stop\<close>, or past it with its result.\<close>

datatype main_pc = Notifying | Waiting_quit | Shutting_down | In_stop | Logged stop_result

text \<open>The goroutine of the HTTP server: not yet listening, serving, or returned from \<open>Run\<close> with an error.\<close>

datatype http_pc = HttpStarting | HttpServing http_server | HttpError

datatype exit_status = Exit int | KilledBySignal

record proc =
  pr_program :: program
  pr_tcp :: std_server
  pr_http :: http_pc
  pr_main :: main_pc
  pr_quit :: bool
  pr_expired :: bool
  pr_crashing :: bool
  pr_exit :: "exit_status option"

definition new_process :: "program \<Rightarrow> proc" where
  "new_process pg =
     \<lparr>pr_program = pg, pr_tcp = NewServer, pr_http = HttpStarting, pr_main = Notifying, pr_quit = False,
      pr_expired = False, pr_crashing = False, pr_exit = None\<rparr>"

text \<open>The TCP goroutine: \<open>Start\<close>, and \<open>log.Fatal\<close> when it returns an error.\<close>

definition tcp_goroutine :: "bool \<Rightarrow> proc \<Rightarrow> proc option" where
  "tcp_goroutine ok p =
     (if ss_starts (pr_tcp p) = [] then map_option (\<lambda>s. p\<lparr>pr_tcp := s\<rparr>) (Start_listen ok (pr_tcp p)) else None)"

definition tcp_fatal :: "proc \<Rightarrow> proc option" where
  "tcp_fatal p = (if ss_starts (pr_tcp p) = [StartFailed] then Some (p\<lparr>pr_exit := Some (Exit 1)\<rparr>) else None)"

text \<open>The HTTP goroutine: \<open>Run\<close> returns only with an error, at once or later, and the process ends.\<close>

definition http_goroutine :: "bool \<Rightarrow> proc \<Rightarrow> proc option" where
  "http_goroutine ok p =
     (case pr_http p of
        HttpStarting \<Rightarrow> Some (p\<lparr>pr_http := if ok then HttpServing (Router_Run (pg_httpAddr (pr_program p))) else HttpError\<rparr>)
      | HttpServing srv \<Rightarrow> if ok then None else Some (p\<lparr>pr_http := HttpError\<rparr>)
      | HttpError \<Rightarrow> None)"

definition http_fatal :: "proc \<Rightarrow> proc option" where
  "http_fatal p = (if pr_http p = HttpError then Some (p\<lparr>pr_exit := Some (Exit 1)\<rparr>) else None)"

text \<open>A signal kills the process until \<open>Notify\<close> has run; then it is put into the channel, which holds one.\<close>

definition signal_arrives :: "proc \<Rightarrow> proc option" where
  "signal_arrives p =
     Some (if pr_main p = Notifying then p\<lparr>pr_exit := Some KilledBySignal\<rparr> else p\<lparr>pr_quit := True\<rparr>)"

definition main_notify :: "proc \<Rightarrow> proc option" where
  "main_notify p = (if pr_main p = Notifying then Some (p\<lparr>pr_main := Waiting_quit\<rparr>) else None)"

definition main_receive :: "proc \<Rightarrow> proc option" where
  "main_receive p =
     (if pr_main p = Waiting_quit \<and> pr_quit p then Some (p\<lparr>pr_main := Shutting_down, pr_quit := False\<rparr>) else None)"

definition main_stop :: "proc \<Rightarrow> proc option" where
  "main_stop p =
     (if pr_main p = Shutting_down
      then map_option (\<lambda>s. p\<lparr>pr_tcp := s, pr_main := In_stop\<rparr>) (Stop_enter (pr_tcp p)) else None)"

text \<open>The context expires ten seconds after \<open>main\<close> has received the signal.\<close>

definition ctx_expires :: "proc \<Rightarrow> proc option" where
  "ctx_expires p = (if pr_main p \<in> {Shutting_down, In_stop} \<and> \<not> pr_expired p then Some (p\<lparr>pr_expired := True\<rparr>) else None)"

text \<open>\<open>Stop\<close> has returned, with or without an error, which is logged.\<close>

definition main_stopped :: "proc \<Rightarrow> proc option" where
  "main_stopped p =
     (case (pr_main p, pc_at (ss_stops (pr_tcp p)) 0) of
        (In_stop, Some (StopReturned r)) \<Rightarrow> Some (p\<lparr>pr_main := Logged r\<rparr>)
      | _ \<Rightarrow> None)"

definition main_return :: "proc \<Rightarrow> proc option" where
  "main_return p = (case pr_main p of Logged r \<Rightarrow> Some (p\<lparr>pr_exit := Some (Exit 0)\<rparr>) | _ \<Rightarrow> None)"

text \<open>A piece of the TCP server that is neither a call of \<open>Start\<close> nor one of \<open>Stop\<close>; \<open>ctx.Done()\<close> is ready only
  when the context has expired.\<close>

definition tcp_piece :: "server_action \<Rightarrow> proc \<Rightarrow> proc option" where
  "tcp_piece a p =
     (if is_call a \<or> (\<exists>i. a = StopSelect i True) \<and> \<not> pr_expired p then None
      else map_option (\<lambda>s. p\<lparr>pr_tcp := s\<rparr>) (server_step a (pr_tcp p)))"

text \<open>A connection goroutine panics: its deferred calls run first, \<open>wg.Done\<close> the last of them, then the runtime ends the
  process with status 2. In between the others still run.\<close>

definition conn_panics :: "proc \<Rightarrow> proc option" where
  "conn_panics p = map_option (\<lambda>s. p\<lparr>pr_tcp := s, pr_crashing := True\<rparr>) (conn_done (pr_tcp p))"

definition runtime_crash :: "proc \<Rightarrow> proc option" where
  "runtime_crash p = (if pr_crashing p then Some (p\<lparr>pr_exit := Some (Exit 2)\<rparr>) else None)"

datatype proc_action =
    TcpStart bool | TcpFatal | HttpRun bool | HttpFatal | Signal | MainNotify | MainReceive | MainStop | CtxExpire
  | MainStopped | MainReturn | TcpPiece server_action | ConnPanic | Crash

fun proc_act :: "proc_action \<Rightarrow> proc \<Rightarrow> proc option" where
  "proc_act (TcpStart ok) p = tcp_goroutine ok p"
| "proc_act TcpFatal p = tcp_fatal p"
| "proc_act (HttpRun ok) p = http_goroutine ok p"
| "proc_act HttpFatal p = http_fatal p"
| "proc_act Signal p = signal_arrives p"
| "proc_act MainNotify p = main_notify p"
| "proc_act MainReceive p = main_receive p"
| "proc_act MainStop p = main_stop p"
| "proc_act CtxExpire p = ctx_expires p"
| "proc_act MainStopped p = main_stopped p"
| "proc_act MainReturn p = main_return p"
| "proc_act (TcpPiece a) p = tcp_piece a p"
| "proc_act ConnPanic p = conn_panics p"
| "proc_act Crash p = runtime_crash p"

text \<open>Nothing runs once the process has ended.\<close>

definition proc_step :: "proc_action \<Rightarrow> proc \<Rightarrow> proc option" where
  "proc_step a p = (if pr_exit p = None then proc_act a p else None)"

fun proc_run :: "proc_action list \<Rightarrow> proc \<Rightarrow> proc option" where
  "proc_run [] p = Some p"
| "proc_run (a # as) p = Option.bind (proc_step a p) (proc_run as)"

lemmas proc_defs = tcp_goroutine_def tcp_fatal_def http_goroutine_def http_fatal_def signal_arrives_def main_notify_def
  main_receive_def main_stop_def ctx_expires_def main_stopped_def main_return_def tcp_piece_def
  conn_panics_def runtime_crash_def

lemma proc_run_invariant:
  assumes "proc_run as p = Some p'" "I p" "\<And>a p p'. I p \<Longrightarrow> proc_step a p = Some p' \<Longrightarrow> I p'"
  shows "I p'"
  using assms(1,2)
proof (induction as arbitrary: p)
  case (Cons a as)
  then obtain t where t: "proc_step a p = Some t" "proc_run as t = Some p'" by (auto simp: bind_eq_Some_conv)
  then show ?case using Cons.IH [OF t(2)] assms(3) Cons.prems(2) by blast
qed simp

lemma proc_run_append: "proc_run (as @ bs) p = Option.bind (proc_run as p) (proc_run bs)"
  by (induction as arbitrary: p) (auto split: bind_splits)

section \<open>The TCP server inside\<close>

text \<open>What an action of the process does to its TCP server: nothing, or one piece of it.\<close>

lemma proc_step_tcp:
  assumes "proc_step a p = Some p'"
  obtains "pr_tcp p' = pr_tcp p"
  | b where "server_step b (pr_tcp p) = Some (pr_tcp p')" "calls_Start b \<Longrightarrow> ss_starts (pr_tcp p) = []"
      "b = StopEnter \<Longrightarrow> pr_main p = Shutting_down \<and> pr_main p' = In_stop"
proof (cases a)
  case (TcpStart ok)
  then have "server_step (StartListen ok) (pr_tcp p) = Some (pr_tcp p')" "ss_starts (pr_tcp p) = []"
    using assms by (auto simp: proc_step_def proc_defs split: if_splits)
  then show thesis using that(2) by blast
next
  case MainStop
  then have "server_step StopEnter (pr_tcp p) = Some (pr_tcp p')" "pr_main p = Shutting_down \<and> pr_main p' = In_stop"
    using assms by (auto simp: proc_step_def proc_defs split: if_splits)
  then show thesis using that(2) [of StopEnter] by (simp add: calls_Start_def)
next
  case (TcpPiece b)
  then have "server_step b (pr_tcp p) = Some (pr_tcp p')" "\<not> is_call b"
    using assms by (auto simp: proc_step_def proc_defs split: if_splits)
  then show thesis using that(2) by (auto simp: is_call_def)
next
  case ConnPanic
  then have "server_step ConnDone (pr_tcp p) = Some (pr_tcp p')" using assms by (auto simp: proc_step_def proc_defs split: if_splits)
  then show thesis using that(2) [of ConnDone] by (simp add: calls_Start_def)
qed (use assms that(1) in \<open>auto simp: proc_step_def proc_defs split: if_splits http_pc.splits main_pc.splits option.splits stop_pc.splits\<close>)

section \<open>The invariant\<close>

fun main_view :: "main_pc \<Rightarrow> stop_pc list \<Rightarrow> bool \<Rightarrow> bool" where
  "main_view In_stop pcs expired = (\<exists>pc. pcs = [pc] \<and> pc \<noteq> StopReturned AlreadyStopped \<and> (pc = StopReturned CtxDone \<longrightarrow> expired))"
| "main_view (Logged r) pcs expired = (pcs = [StopReturned r] \<and> r \<noteq> AlreadyStopped \<and> (r = CtxDone \<longrightarrow> expired))"
| "main_view Shutting_down pcs expired = (pcs = [])"
| "main_view pc pcs expired = (pcs = [] \<and> \<not> expired)"

fun exit_view :: "exit_status option \<Rightarrow> proc \<Rightarrow> bool" where
  "exit_view None p = True"
| "exit_view (Some KilledBySignal) p = (pr_main p = Notifying)"
| "exit_view (Some (Exit n)) p =
     (n = 1 \<and> (ss_starts (pr_tcp p) = [StartFailed] \<or> pr_http p = HttpError) \<or> n = 0 \<and> (\<exists>r. pr_main p = Logged r) \<or>
      n = 2 \<and> pr_crashing p)"

definition proc_ok :: "proc \<Rightarrow> bool" where
  "proc_ok p \<longleftrightarrow> wg_ok (pr_tcp p) \<and> one_start (pr_tcp p) \<and> length (ss_starts (pr_tcp p)) \<le> 1 \<and>
     main_view (pr_main p) (ss_stops (pr_tcp p)) (pr_expired p) \<and>
     (ss_stop (pr_tcp p) \<longleftrightarrow> pr_main p \<notin> {Notifying, Waiting_quit, Shutting_down}) \<and> exit_view (pr_exit p) p"

lemma proc_ok_new: "proc_ok (new_process pg)"
  by (simp add: proc_ok_def new_process_def wg_ok_def one_start_def start_view_def NewServer_def)

text \<open>A piece of the TCP server that is not a call moves at most one pending call of \<open>Stop\<close>.\<close>

lemma stop_piece:
  assumes "server_step a s = Some s'" "\<not> is_call a" "ss_stops s' \<noteq> ss_stops s"
  obtains i pc pc' where "pc_at (ss_stops s) i = Some pc" "ss_stops s' = (ss_stops s)[i := pc']" "\<forall>r. pc \<noteq> StopReturned r"
    "pc' \<noteq> StopReturned AlreadyStopped" "pc' = StopReturned CtxDone \<longrightarrow> a = StopSelect i True"
proof (cases a)
  case (StopClose i)
  then obtain ln where "pc_at (ss_stops s) i = Some (Closing ln)" "ss_stops s' = (ss_stops s)[i := Waiting_group]"
    using assms(1) by (auto simp: Stop_close_def split: option.splits stop_pc.splits)
  then show thesis using that by blast
next
  case (StopWait i)
  then have "pc_at (ss_stops s) i = Some Waiting_group" "ss_stops s' = (ss_stops s)[i := Drained]"
    using assms(1) by (auto simp: Stop_wait_def split: if_splits)
  then show thesis using that by blast
next
  case (StopSelect i e)
  then obtain pc where pc: "pc_at (ss_stops s) i = Some pc" "pc \<in> {Waiting_group, Drained}"
      "ss_stops s' = (ss_stops s)[i := StopReturned (if e then CtxDone else Stopped)]"
    using assms(1) by (auto simp: Stop_select_def split: option.splits stop_pc.splits if_splits)
  show thesis by (rule that [OF pc(1,3)]) (use pc(2) StopSelect in \<open>auto split: if_splits\<close>)
next
  case (AcceptTurn j r)
  then show thesis using assms(1,3) by (cases r) (auto simp: accept_turn_def split: option.splits if_splits)
next
  case (StartPublish i)
  then show thesis using assms(1,3) by (auto simp: Start_publish_def split: option.splits start_pc.splits)
next
  case (StartSpawn i)
  then show thesis using assms(1,3) by (auto simp: Start_spawn_def split: option.splits start_pc.splits)
next
  case ConnDone
  then show thesis using assms(1,3) by (auto simp: conn_done_def split: if_splits)
qed (use assms(2) in \<open>simp_all add: is_call_def calls_Start_def\<close>)

lemma piece_frame:
  assumes "server_step a s = Some s'" "\<not> is_call a"
  shows "ss_stop s' = ss_stop s" "length (ss_starts s') = length (ss_starts s)" "ss_starts s = [StartFailed] \<Longrightarrow> ss_starts s' = [StartFailed]"
proof -
  have "ss_stop s' = ss_stop s \<and> length (ss_starts s') = length (ss_starts s) \<and> (ss_starts s = [StartFailed] \<longrightarrow> ss_starts s' = [StartFailed])"
  proof (cases a)
    case (AcceptTurn j r)
    then show ?thesis using assms(1) by (cases r) (auto simp: accept_turn_def split: option.splits if_splits)
  next
    case (StartPublish i)
    then show ?thesis using assms(1) by (auto simp: Start_publish_def pc_at_def split: if_splits start_pc.splits)
  next
    case (StartSpawn i)
    then show ?thesis using assms(1) by (auto simp: Start_spawn_def pc_at_def split: if_splits start_pc.splits)
  next
    case (StopClose i)
    then show ?thesis using assms(1) by (auto simp: Stop_close_def split: option.splits stop_pc.splits)
  next
    case (StopSelect i e)
    then show ?thesis using assms(1) by (auto simp: Stop_select_def split: option.splits stop_pc.splits if_splits)
  qed (use assms in \<open>auto simp: Stop_wait_def conn_done_def is_call_def calls_Start_def split: if_splits\<close>)
  then show "ss_stop s' = ss_stop s" "length (ss_starts s') = length (ss_starts s)"
    "ss_starts s = [StartFailed] \<Longrightarrow> ss_starts s' = [StartFailed]" by blast+
qed

lemma tcp_piece_view:
  assumes "main_view pc (ss_stops (pr_tcp p)) (pr_expired p)" "tcp_piece a p = Some p'"
  shows "main_view pc (ss_stops (pr_tcp p')) (pr_expired p)"
proof -
  obtain s' where s': "p' = p\<lparr>pr_tcp := s'\<rparr>" "server_step a (pr_tcp p) = Some s'" "\<not> is_call a"
      "\<not> (\<exists>i. a = StopSelect i True) \<or> pr_expired p"
    using assms(2) by (auto simp: tcp_piece_def split: if_splits)
  show ?thesis
  proof (cases "ss_stops s' = ss_stops (pr_tcp p)")
    case False
    obtain i q q' where i: "pc_at (ss_stops (pr_tcp p)) i = Some q" "ss_stops s' = (ss_stops (pr_tcp p))[i := q']" "\<forall>r. q \<noteq> StopReturned r"
        "q' \<noteq> StopReturned AlreadyStopped" "q' = StopReturned CtxDone \<longrightarrow> a = StopSelect i True"
      by (rule stop_piece [OF s'(2,3) False])
    have "pc = In_stop \<and> ss_stops (pr_tcp p) = [q] \<and> i = 0"
      using assms(1) i(1,3) by (cases pc) (auto simp: pc_at_def split: if_splits)
    then show ?thesis using i(2,4,5) s'(1,4) by auto
  qed (use assms(1) s'(1) in simp)
qed

lemma proc_ok_step:
  assumes ok: "proc_ok p" and r: "proc_step a p = Some p'"
  shows "proc_ok p'"
proof -
  have ne: "pr_exit p = None" and act: "proc_act a p = Some p'" using r by (auto simp: proc_step_def split: if_splits)
  have tcp: "wg_ok (pr_tcp p') \<and> one_start (pr_tcp p')"
    by (rule proc_step_tcp [OF r]) (use ok wg_ok_step one_start_step in \<open>auto simp: proc_ok_def\<close>)
  show ?thesis
  proof (cases a)
    case (TcpStart ok')
    then show ?thesis using ok act tcp ne by (auto simp: proc_ok_def tcp_goroutine_def Start_listen_def split: if_splits)
  next
    case TcpFatal
    then show ?thesis using ok act tcp by (auto simp: proc_ok_def tcp_fatal_def split: if_splits)
  next
    case (HttpRun ok')
    then show ?thesis using ok act tcp ne by (auto simp: proc_ok_def http_goroutine_def split: http_pc.splits if_splits)
  next
    case HttpFatal
    then show ?thesis using ok act tcp by (auto simp: proc_ok_def http_fatal_def split: if_splits)
  next
    case Signal
    then show ?thesis using ok act tcp ne by (auto simp: proc_ok_def signal_arrives_def split: if_splits)
  next
    case MainNotify
    then show ?thesis using ok act tcp ne by (auto simp: proc_ok_def main_notify_def split: if_splits)
  next
    case MainReceive
    then show ?thesis using ok act tcp ne by (auto simp: proc_ok_def main_receive_def split: if_splits)
  next
    case MainStop
    then show ?thesis using ok act tcp ne by (auto simp: proc_ok_def main_stop_def Stop_enter_def split: if_splits)
  next
    case CtxExpire
    then show ?thesis using ok act tcp ne by (auto simp: proc_ok_def ctx_expires_def split: if_splits)
  next
    case MainStopped
    then obtain res where "p' = p\<lparr>pr_main := Logged res\<rparr>" "pr_main p = In_stop" "pc_at (ss_stops (pr_tcp p)) 0 = Some (StopReturned res)"
      using act by (auto simp: main_stopped_def split: main_pc.splits option.splits stop_pc.splits)
    then show ?thesis using ok tcp ne by (auto simp: proc_ok_def pc_at_def)
  next
    case MainReturn
    then show ?thesis using ok act tcp by (auto simp: proc_ok_def main_return_def split: main_pc.splits)
  next
    case (TcpPiece b)
    then obtain s' where s': "p' = p\<lparr>pr_tcp := s'\<rparr>" "server_step b (pr_tcp p) = Some s'" "\<not> is_call b" "tcp_piece b p = Some p'"
      using act by (auto simp: tcp_piece_def split: if_splits)
    have "main_view (pr_main p) (ss_stops (pr_tcp p')) (pr_expired p)"
      by (rule tcp_piece_view [OF _ s'(4)]) (use ok in \<open>simp add: proc_ok_def\<close>)
    then show ?thesis using ok tcp ne piece_frame [OF s'(2,3)] by (simp add: proc_ok_def s'(1))
  next
    case ConnPanic
    then show ?thesis using ok act tcp ne by (auto simp: proc_ok_def conn_panics_def conn_done_def split: if_splits)
  next
    case Crash
    then show ?thesis using ok act tcp by (auto simp: proc_ok_def runtime_crash_def split: if_splits)
  qed
qed

lemma proc_ok_run: "proc_run as (new_process pg) = Some p \<Longrightarrow> proc_ok p"
  by (rule proc_run_invariant [where I = proc_ok]) (use proc_ok_new proc_ok_step in blast)+

section \<open>From the signal to the exit\<close>

text \<open>What \<open>main\<close> does by itself once the signal has arrived, with the ten seconds passing: no client and no other
  goroutine is needed.\<close>

definition own_action :: "proc_action \<Rightarrow> bool" where
  "own_action a \<longleftrightarrow>
     a \<in> {MainReceive, MainStop, CtxExpire, TcpPiece (StopClose 0), TcpPiece (StopSelect 0 True), TcpPiece (StopSelect 0 False),
        MainStopped, MainReturn}"

definition signalled :: "proc \<Rightarrow> bool" where
  "signalled p \<longleftrightarrow> pr_main p = Waiting_quit \<and> pr_quit p \<or> pr_main p \<notin> {Notifying, Waiting_quit}"

text \<open>How many of these actions are left at most.\<close>

fun stop_steps :: "stop_pc list \<Rightarrow> nat" where
  "stop_steps [Closing ln] = 4"
| "stop_steps [StopReturned r] = 2"
| "stop_steps pcs = 3"

lemma stop_steps_bounds: "2 \<le> stop_steps pcs" "stop_steps pcs \<le> 4"
  by (cases pcs rule: stop_steps.cases; simp)+

definition to_go :: "proc \<Rightarrow> nat" where
  "to_go p =
     (if pr_exit p \<noteq> None then 0
      else case pr_main p of
        Logged r \<Rightarrow> 1
      | In_stop \<Rightarrow> stop_steps (ss_stops (pr_tcp p)) + (if pr_expired p then 0 else 1)
      | Shutting_down \<Rightarrow> 5 + (if pr_expired p then 0 else 1)
      | _ \<Rightarrow> 7)"

lemmas exit_simps = proc_step_def proc_defs Stop_enter_def Stop_close_def Stop_select_def is_call_def calls_Start_def pc_at_def own_action_def

lemma exit_from_stop:
  assumes "pr_exit p = None" "pr_main p = In_stop" "ss_stops (pr_tcp p) = [pc]"
  shows "\<exists>cs q. length cs \<le> to_go p \<and> list_all own_action cs \<and> proc_run cs p = Some q \<and> pr_exit q = Some (Exit 0)"
proof -
  let ?e = "if pr_expired p then [] else [CtxExpire]" and ?sel = "[TcpPiece (StopSelect 0 True), MainStopped, MainReturn]"
  show ?thesis
  proof (cases pc)
    case (Closing ln)
    then show ?thesis using assms
      by (intro exI [of _ "?e @ TcpPiece (StopClose 0) # ?sel"]) (simp add: exit_simps to_go_def)
  next
    case Waiting_group
    then show ?thesis using assms by (intro exI [of _ "?e @ ?sel"]) (simp add: exit_simps to_go_def)
  next
    case Drained
    then show ?thesis using assms by (intro exI [of _ "?e @ ?sel"]) (simp add: exit_simps to_go_def)
  next
    case (StopReturned r)
    then show ?thesis using assms by (intro exI [of _ "[MainStopped, MainReturn]"]) (simp add: exit_simps to_go_def)
  qed
qed

lemma exit_from_shutdown:
  assumes "proc_ok p" "pr_exit p = None" "pr_main p = Shutting_down"
  shows "\<exists>cs q. length cs \<le> to_go p \<and> list_all own_action cs \<and> proc_run cs p = Some q \<and> pr_exit q = Some (Exit 0)"
proof -
  obtain t where t: "proc_step MainStop p = Some t" "pr_exit t = None" "pr_main t = In_stop" "\<exists>ln. ss_stops (pr_tcp t) = [Closing ln]"
      "pr_expired t = pr_expired p"
    using assms by (simp add: proc_ok_def exit_simps)
  then obtain cs q where "length cs \<le> to_go t" "list_all own_action cs" "proc_run cs t = Some q" "pr_exit q = Some (Exit 0)"
    using exit_from_stop by blast
  moreover have "to_go p = Suc (to_go t)" using assms t by (auto simp: to_go_def)
  ultimately show ?thesis using t(1) by (intro exI [of _ "MainStop # cs"] exI [of _ q]) (simp add: own_action_def)
qed

text \<open>From a live state past the signal these actions alone lead to the exit.\<close>

lemma exit_from_signal:
  assumes ok: "proc_ok p" and live: "pr_exit p = None" and sg: "signalled p"
  shows "\<exists>cs q. length cs \<le> to_go p \<and> list_all own_action cs \<and> proc_run cs p = Some q \<and> pr_exit q = Some (Exit 0)"
proof (cases "pr_main p")
  case Notifying
  then show ?thesis using sg by (simp add: signalled_def)
next
  case Waiting_quit
  then have r: "proc_step MainReceive p = Some (p\<lparr>pr_main := Shutting_down, pr_quit := False\<rparr>)" (is "_ = Some ?t")
    using live sg by (simp add: proc_step_def main_receive_def signalled_def)
  have t: "pr_exit ?t = None" "pr_main ?t = Shutting_down" "Suc (to_go ?t) \<le> to_go p" using live Waiting_quit by (simp_all add: to_go_def)
  from exit_from_shutdown [OF proc_ok_step [OF ok r] t(1,2)] obtain cs q where
    "length cs \<le> to_go ?t" "list_all own_action cs" "proc_run cs ?t = Some q" "pr_exit q = Some (Exit 0)" by blast
  then show ?thesis using r t(3) by (intro exI [of _ "MainReceive # cs"] exI [of _ q]) (simp add: own_action_def)
next
  case Shutting_down
  then show ?thesis by (rule exit_from_shutdown [OF ok live])
next
  case In_stop
  then obtain pc where "ss_stops (pr_tcp p) = [pc]" using ok by (auto simp: proc_ok_def)
  then show ?thesis by (rule exit_from_stop [OF live In_stop])
next
  case (Logged r)
  then show ?thesis using live by (intro exI [of _ "[MainReturn]"]) (simp add: exit_simps to_go_def)
qed

text \<open>Each of them brings the exit nearer, and no other action moves it away.\<close>

lemma to_go_step:
  assumes ok: "proc_ok p" and sg: "signalled p" and r: "proc_step a p = Some p'"
  shows "signalled p' \<and> to_go p' + (if own_action a then 1 else 0) \<le> to_go p"
proof -
  have live: "pr_exit p = None" and act: "proc_act a p = Some p'" using r by (auto simp: proc_step_def split: if_splits)
  have view: "main_view (pr_main p) (ss_stops (pr_tcp p)) (pr_expired p)" using ok by (simp add: proc_ok_def)
  show ?thesis
  proof (cases "\<exists>b. a = TcpPiece b")
    case False
    show ?thesis
    proof (cases a)
      case (TcpStart ok')
      then show ?thesis using act live sg view stop_steps_bounds
        by (cases "pr_main p") (auto simp: tcp_goroutine_def Start_listen_def signalled_def to_go_def own_action_def split: if_splits)
    next
      case TcpFatal
      then show ?thesis using act live sg view stop_steps_bounds
        by (cases "pr_main p") (auto simp: tcp_fatal_def signalled_def to_go_def own_action_def split: if_splits)
    next
      case (HttpRun ok')
      then show ?thesis using act live sg view stop_steps_bounds
        by (cases "pr_main p") (auto simp: http_goroutine_def signalled_def to_go_def own_action_def split: if_splits http_pc.splits)
    next
      case HttpFatal
      then show ?thesis using act live sg view stop_steps_bounds
        by (cases "pr_main p") (auto simp: http_fatal_def signalled_def to_go_def own_action_def split: if_splits)
    next
      case Signal
      then show ?thesis using act live sg view stop_steps_bounds
        by (cases "pr_main p") (auto simp: signal_arrives_def signalled_def to_go_def own_action_def split: if_splits)
    next
      case MainNotify
      then show ?thesis using act live sg view stop_steps_bounds
        by (cases "pr_main p") (auto simp: main_notify_def signalled_def to_go_def own_action_def split: if_splits)
    next
      case MainReceive
      then show ?thesis using act live sg view stop_steps_bounds
        by (cases "pr_main p") (auto simp: main_receive_def signalled_def to_go_def own_action_def split: if_splits)
    next
      case MainStop
      then show ?thesis using act live sg view stop_steps_bounds
        by (cases "pr_main p") (auto simp: main_stop_def Stop_enter_def signalled_def to_go_def own_action_def split: if_splits)
    next
      case CtxExpire
      then show ?thesis using act live sg view stop_steps_bounds
        by (cases "pr_main p") (auto simp: ctx_expires_def signalled_def to_go_def own_action_def split: if_splits)
    next
      case MainStopped
      then show ?thesis using act live sg view stop_steps_bounds
        by (cases "pr_main p") (auto simp: main_stopped_def pc_at_def signalled_def to_go_def own_action_def split: if_splits main_pc.splits option.splits stop_pc.splits)
    next
      case MainReturn
      then show ?thesis using act live sg view stop_steps_bounds
        by (cases "pr_main p") (auto simp: main_return_def signalled_def to_go_def own_action_def split: if_splits main_pc.splits)
    next
      case ConnPanic
      then show ?thesis using act live sg view stop_steps_bounds
        by (cases "pr_main p") (auto simp: conn_panics_def conn_done_def signalled_def to_go_def own_action_def split: if_splits)
    next
      case Crash
      then show ?thesis using act live sg view stop_steps_bounds
        by (cases "pr_main p") (auto simp: runtime_crash_def signalled_def to_go_def own_action_def split: if_splits)
    next
      case (TcpPiece b)
      then show ?thesis using False by blast
    qed
  next
    case True
    then obtain b s' where b: "a = TcpPiece b" "p' = p\<lparr>pr_tcp := s'\<rparr>" "server_step b (pr_tcp p) = Some s'" "\<not> is_call b"
      using act by (auto simp: tcp_piece_def split: if_splits)
    have "stop_steps (ss_stops s') + (if own_action a then 1 else 0) \<le> stop_steps (ss_stops (pr_tcp p)) \<and> (own_action a \<longrightarrow> pr_main p = In_stop)"
    proof (cases "ss_stops s' = ss_stops (pr_tcp p)")
      case True
      moreover have "\<not> own_action a"
      proof
        assume "own_action a"
        then obtain q q' where q: "pc_at (ss_stops (pr_tcp p)) 0 = Some q" "ss_stops s' = (ss_stops (pr_tcp p))[0 := q']" "q \<noteq> q'"
          using b(3) by (auto simp: own_action_def b(1) Stop_close_def Stop_select_def split: option.splits if_splits stop_pc.splits)
        then have "(ss_stops (pr_tcp p))[0 := q'] ! 0 = q'" "ss_stops (pr_tcp p) ! 0 = q" by (auto simp: pc_at_def split: if_splits)
        then show False using q(2,3) True by simp
      qed
      ultimately show ?thesis by simp
    next
      case False
      obtain i q q' where i: "pc_at (ss_stops (pr_tcp p)) i = Some q" "ss_stops s' = (ss_stops (pr_tcp p))[i := q']" "\<forall>r. q \<noteq> StopReturned r"
        by (rule stop_piece [OF b(3,4) False]) blast
      have "pr_main p = In_stop \<and> ss_stops (pr_tcp p) = [q] \<and> i = 0"
        using view i(1,3) by (cases "pr_main p") (auto simp: pc_at_def split: if_splits)
      then show ?thesis using b(3,4) False
        by (cases b; cases q) (auto simp: server_defs own_action_def b(1) is_call_def calls_Start_def split: server_splits)
    qed
    then show ?thesis using sg live by (auto simp: b(2) signalled_def to_go_def split: main_pc.splits)
  qed
qed

lemma to_go_run:
  assumes "proc_run bs p = Some p'" "proc_ok p" "signalled p"
  shows "proc_ok p' \<and> signalled p' \<and> to_go p' + length (filter own_action bs) \<le> to_go p"
  using assms
proof (induction bs arbitrary: p)
  case (Cons a bs)
  then obtain t where t: "proc_step a p = Some t" "proc_run bs t = Some p'" by (auto simp: bind_eq_Some_conv)
  note one = to_go_step [OF Cons.prems(2,3) t(1)]
  show ?case using Cons.IH [OF t(2) proc_ok_step [OF Cons.prems(2) t(1)]] one by auto
qed simp

lemma no_drain_step:
  assumes "proc_ok p" "proc_step a p = Some p'" "ss_conns (pr_tcp p) \<noteq> 0" "Drained \<notin> set (ss_stops (pr_tcp p))"
    "StopReturned Stopped \<notin> set (ss_stops (pr_tcp p))"
  shows "Drained \<notin> set (ss_stops (pr_tcp p')) \<and> StopReturned Stopped \<notin> set (ss_stops (pr_tcp p')) \<and>
    ss_conns (pr_tcp p) \<le> ss_conns (pr_tcp p') + (if a = TcpPiece ConnDone \<or> a = ConnPanic then 1 else 0)"
proof -
  have wg: "ss_wg (pr_tcp p) \<noteq> 0" using assms(1,3) by (simp add: proc_ok_def wg_ok_def)
  have up: "x \<in> set (xs[i := y]) \<Longrightarrow> x = y \<or> x \<in> set xs" for x y :: stop_pc and xs i
    using set_update_subset_insert [of xs i y] by blast
  show ?thesis
  proof (cases "\<exists>b. a = TcpPiece b")
    case False
    then have "ss_conns (pr_tcp p) \<le> ss_conns (pr_tcp p') + (if a = ConnPanic then 1 else 0) \<and> (ss_stops (pr_tcp p') = ss_stops (pr_tcp p) \<or>
        (\<exists>ln. ss_stops (pr_tcp p') = ss_stops (pr_tcp p) @ [ln] \<and> ln \<noteq> Drained \<and> ln \<noteq> StopReturned Stopped))"
      using assms(2) by (cases a) (auto simp: proc_step_def proc_defs Stop_enter_def Start_listen_def conn_done_def
          split: if_splits http_pc.splits main_pc.splits option.splits stop_pc.splits)
    then show ?thesis using assms(4,5) by auto
  next
    case True
    then obtain b s' where b: "a = TcpPiece b" "p' = p\<lparr>pr_tcp := s'\<rparr>" "server_step b (pr_tcp p) = Some s'" "\<not> is_call b"
      using assms(2) by (auto simp: proc_step_def tcp_piece_def split: if_splits)
    have stops: "Drained \<notin> set (ss_stops s') \<and> StopReturned Stopped \<notin> set (ss_stops s')"
    proof (cases "ss_stops s' = ss_stops (pr_tcp p)")
      case False
      then show ?thesis using b(3,4) assms(4,5) wg
        by (cases b) (auto simp: server_defs is_call_def calls_Start_def split: server_splits dest!: up nth_mem)
    qed (use assms(4,5) in simp)
    have "ss_conns (pr_tcp p) \<le> ss_conns s' + (if b = ConnDone then 1 else 0)"
      using b(3,4) by (cases b) (auto simp: server_defs is_call_def calls_Start_def split: server_splits)
    then show ?thesis using stops by (simp add: b(1,2))
  qed
qed

lemma no_drain_run:
  assumes "proc_run bs p = Some p'" "proc_ok p" "count_list bs (TcpPiece ConnDone) + count_list bs ConnPanic < ss_conns (pr_tcp p)"
    "Drained \<notin> set (ss_stops (pr_tcp p))" "StopReturned Stopped \<notin> set (ss_stops (pr_tcp p))"
  shows "StopReturned Stopped \<notin> set (ss_stops (pr_tcp p')) \<and> proc_ok p'"
  using assms
proof (induction bs arbitrary: p)
  case (Cons a bs)
  then obtain t where t: "proc_step a p = Some t" "proc_run bs t = Some p'" by (auto simp: bind_eq_Some_conv)
  have "ss_conns (pr_tcp p) \<noteq> 0" using Cons.prems(3) by simp
  note d = no_drain_step [OF Cons.prems(2) t(1) this Cons.prems(4,5)]
  have "count_list bs (TcpPiece ConnDone) + count_list bs ConnPanic < ss_conns (pr_tcp t)"
    using d Cons.prems(3) by (auto split: if_splits)
  then show ?case using Cons.IH [OF t(2) proc_ok_step [OF Cons.prems(2) t(1)]] d by blast
qed simp

lemma crashing_run:
  assumes "proc_run as p = Some p'" "pr_crashing p'"
  shows "pr_crashing p \<or> ConnPanic \<in> set as"
  using assms
proof (induction as arbitrary: p)
  case (Cons a as)
  then obtain t where t: "proc_step a p = Some t" "proc_run as t = Some p'" by (auto simp: bind_eq_Some_conv)
  have "pr_crashing t \<longrightarrow> pr_crashing p \<or> a = ConnPanic"
    using t(1) by (cases a) (auto simp: proc_step_def proc_defs split: if_splits http_pc.splits main_pc.splits option.splits stop_pc.splits)
  then show ?case using Cons.IH [OF t(2) Cons.prems(2)] by auto
qed simp

section \<open>Properties\<close>

text \<open>C26: How the process ends, in every interleaving: with 1 only when a server could not start or the HTTP server
  failed, with 2 only when a connection goroutine panicked, by SIGINT or SIGTERM only before \<open>main\<close> is prepared for them, and
  with 0 only after \<open>Stop\<close> has returned, with an error only when the ten seconds were over.\<close>

theorem process_exits:
  assumes "proc_run as (new_process pg) = Some p" "pr_exit p = Some st"
  shows "st = Exit 1 \<and> (ss_starts (pr_tcp p) = [StartFailed] \<or> pr_http p = HttpError) \<or>
    st = Exit 2 \<and> ConnPanic \<in> set as \<or>
    st = KilledBySignal \<and> pr_main p = Notifying \<or>
    st = Exit 0 \<and> (\<exists>r. ss_stops (pr_tcp p) = [StopReturned r] \<and> (r = Stopped \<or> r = CtxDone \<and> pr_expired p))"
proof (cases st)
  case KilledBySignal
  then show ?thesis using proc_ok_run [OF assms(1)] assms(2) by (simp add: proc_ok_def)
next
  case (Exit n)
  have view: "main_view (pr_main p) (ss_stops (pr_tcp p)) (pr_expired p)" using proc_ok_run [OF assms(1)] by (simp add: proc_ok_def)
  have "exit_view (Some (Exit n)) p" using proc_ok_run [OF assms(1)] assms(2) Exit by (simp add: proc_ok_def)
  then consider "n = 1" "ss_starts (pr_tcp p) = [StartFailed] \<or> pr_http p = HttpError" | r where "n = 0" "pr_main p = Logged r"
    | "n = 2" "pr_crashing p" by auto
  then show ?thesis
  proof cases
    case (2 r)
    then show ?thesis using view Exit by (cases r) auto
  next
    case 3
    then show ?thesis using crashing_run [OF assms(1)] Exit by (simp add: new_process_def)
  qed (use Exit in simp)
qed

definition sample_run :: "proc_action list" where
  "sample_run = [TcpStart True, HttpRun True, MainNotify, TcpPiece (StartPublish 0), TcpPiece (StartSpawn 0),
     TcpPiece (AcceptTurn 0 Accepted), Signal, MainReceive]"

definition sample_stop :: "proc_action list" where
  "sample_stop = [TcpPiece (StopClose 0), TcpPiece (AcceptTurn 0 AcceptFailed), CtxExpire, TcpPiece (StopSelect 0 True),
     MainStopped, MainReturn]"

lemma sample_runs:
  obtains p where "proc_run sample_run (new_process pg) = Some p" "ss_starts (pr_tcp p) = [Started]" "ss_conns (pr_tcp p) = 1"
    "pr_main p = Shutting_down" "pr_exit p = None" "ss_stops (pr_tcp p) = []"
    "\<exists>p'. proc_run (MainStop # sample_stop) p = Some p' \<and> pr_main p' = Logged CtxDone \<and> pr_exit p' = Some (Exit 0) \<and>
       ss_conns (pr_tcp p') = 1 \<and> pr_http p' = HttpServing (Router_Run (pg_httpAddr pg))"
  by (simp add: sample_run_def sample_stop_def new_process_def NewServer_def proc_step_def proc_defs server_defs is_call_def calls_Start_def)

theorem process_exits_witness:
  "\<forall>pg. \<exists>p. proc_run (sample_run @ MainStop # sample_stop) (new_process pg) = Some p \<and> ss_stops (pr_tcp p) = [StopReturned CtxDone] \<and> pr_expired p"
proof
  fix pg
  obtain p p' where p: "proc_run sample_run (new_process pg) = Some p" "proc_run (MainStop # sample_stop) p = Some p'"
      "pr_main p' = Logged CtxDone" "pr_exit p' = Some (Exit 0)"
    using sample_runs [of pg] by metis
  then have r: "proc_run (sample_run @ MainStop # sample_stop) (new_process pg) = Some p'" by (simp add: proc_run_append)
  from process_exits [OF r p(4)] obtain r where r': "ss_stops (pr_tcp p') = [StopReturned r]" "r = Stopped \<or> r = CtxDone \<and> pr_expired p'"
    by auto
  have "proc_ok p'" by (rule proc_ok_run [OF r])
  then have "r = CtxDone" using p(3) r'(1) by (simp add: proc_ok_def)
  then show "\<exists>p. proc_run (sample_run @ MainStop # sample_stop) (new_process pg) = Some p \<and> ss_stops (pr_tcp p) = [StopReturned CtxDone] \<and> pr_expired p" using r r' by auto
qed

text \<open>C30: When \<open>Start\<close> had returned before \<open>main\<close> called \<open>Stop\<close> and \<open>Stop\<close> returned without an error, no TCP listener,
  accept loop or connection is left when the process ends.\<close>

theorem clean_stop_leaves_nothing:
  assumes "proc_run as (new_process pg) = Some p" "ss_starts (pr_tcp p) = [Started]"
    and "proc_run (MainStop # bs) p = Some p'" "pr_main p' = Logged Stopped"
  shows "ss_open (pr_tcp p') = [] \<and> ss_loops (pr_tcp p') = [] \<and> ss_conns (pr_tcp p') = 0"
proof -
  have ok: "proc_ok p" by (rule proc_ok_run [OF assms(1)])
  obtain t where t: "proc_step MainStop p = Some t" "proc_run bs t = Some p'" using assms(3) by (auto simp: bind_eq_Some_conv)
  have ok': "proc_ok p'" using proc_run_invariant [where I = proc_ok, OF t(2)] proc_ok_step ok t(1) by blast
  have "pr_main p = Shutting_down" "server_step StopEnter (pr_tcp p) = Some (pr_tcp t)"
    using t(1) by (auto simp: proc_step_def main_stop_def split: if_splits)
  with ok assms(2) have "stopping (pr_tcp t)" by (intro stopping_enter) (auto simp: proc_ok_def)
  then have "stopping (pr_tcp p')"
  proof (rule proc_run_invariant [where I = "\<lambda>p. stopping (pr_tcp p)", OF t(2)])
    fix a q q' assume st: "stopping (pr_tcp q)" and r: "proc_step a q = Some q'"
    show "stopping (pr_tcp q')"
    proof (rule proc_step_tcp [OF r])
      fix b assume b: "server_step b (pr_tcp q) = Some (pr_tcp q')" "calls_Start b \<Longrightarrow> ss_starts (pr_tcp q) = []"
      have "\<not> calls_Start b" using b(2) st by (auto simp: stopping_def)
      then show ?thesis using stopping_step [OF st _ b(1)] by blast
    qed (use st in simp)
  qed
  then show ?thesis using ok' assms(4) by (auto simp: stopping_def proc_ok_def)
qed

theorem clean_stop_leaves_nothing_witness:
  "\<forall>pg. \<exists>p p'. proc_run (sample_run @ [TcpPiece ConnDone]) (new_process pg) = Some p \<and>
    proc_run (MainStop # [TcpPiece (StopClose 0), TcpPiece (AcceptTurn 0 AcceptFailed), TcpPiece (StopWait 0),
      TcpPiece (StopSelect 0 False), MainStopped]) p = Some p' \<and> ss_loops (pr_tcp p') = []"
proof
  fix pg
  obtain p p' where p: "proc_run (sample_run @ [TcpPiece ConnDone]) (new_process pg) = Some p" "ss_starts (pr_tcp p) = [Started]"
    "proc_run (MainStop # [TcpPiece (StopClose 0), TcpPiece (AcceptTurn 0 AcceptFailed), TcpPiece (StopWait 0),
      TcpPiece (StopSelect 0 False), MainStopped]) p = Some p'" "pr_main p' = Logged Stopped"
    by (simp add: sample_run_def new_process_def NewServer_def proc_step_def proc_defs server_defs is_call_def calls_Start_def)
  show "\<exists>p p'. proc_run (sample_run @ [TcpPiece ConnDone]) (new_process pg) = Some p \<and>
    proc_run (MainStop # [TcpPiece (StopClose 0), TcpPiece (AcceptTurn 0 AcceptFailed), TcpPiece (StopWait 0),
      TcpPiece (StopSelect 0 False), MainStopped]) p = Some p' \<and> ss_loops (pr_tcp p') = []" using clean_stop_leaves_nothing [OF p] p by blast
qed

text \<open>C17: One open connection is enough to hold the stop up: while not every connection that was open when \<open>Stop\<close> was
  called has ended, by itself or by a panic, \<open>Stop\<close> returns only when the ten seconds are over, and with an error.\<close>

theorem open_connection_holds_stop:
  assumes "proc_run as (new_process pg) = Some p" "ss_stops (pr_tcp p) = []"
    and "proc_run bs p = Some p'" "count_list bs (TcpPiece ConnDone) + count_list bs ConnPanic < ss_conns (pr_tcp p)"
    and "pr_main p' = Logged r"
  shows "r = CtxDone \<and> pr_expired p'"
proof -
  note d = no_drain_run [OF assms(3) proc_ok_run [OF assms(1)] assms(4)]
  have "StopReturned Stopped \<notin> set (ss_stops (pr_tcp p'))" "proc_ok p'" using d assms(2) by simp_all
  moreover have "main_view (Logged r) (ss_stops (pr_tcp p')) (pr_expired p')" using calculation(2) assms(5) by (simp add: proc_ok_def)
  ultimately show ?thesis by (cases r) auto
qed

theorem open_connection_holds_stop_witness:
  "\<forall>pg. \<exists>p'. proc_run (sample_run @ MainStop # sample_stop) (new_process pg) = Some p' \<and> pr_expired p' \<and> pr_exit p' = Some (Exit 0) \<and>
    ss_conns (pr_tcp p') = 1 \<and> pr_http p' = HttpServing (Router_Run (pg_httpAddr pg))"
proof
  fix pg
  obtain p p' where p: "proc_run sample_run (new_process pg) = Some p" "ss_stops (pr_tcp p) = []"
      "proc_run (MainStop # sample_stop) p = Some p'" "ss_conns (pr_tcp p) = 1" "pr_main p' = Logged CtxDone"
      "pr_exit p' = Some (Exit 0)" "ss_conns (pr_tcp p') = 1" "pr_http p' = HttpServing (Router_Run (pg_httpAddr pg))"
    using sample_runs [of pg] by metis
  have "count_list (MainStop # sample_stop) (TcpPiece ConnDone) + count_list (MainStop # sample_stop) ConnPanic < ss_conns (pr_tcp p)" using p(4) by (simp add: sample_stop_def)
  from open_connection_holds_stop [OF p(1-3) this p(5)] show "\<exists>p'. proc_run (sample_run @ MainStop # sample_stop) (new_process pg) = Some p' \<and> pr_expired p' \<and> pr_exit p' = Some (Exit 0) \<and>
    ss_conns (pr_tcp p') = 1 \<and> pr_http p' = HttpServing (Router_Run (pg_httpAddr pg))" using p by (auto simp: proc_run_append)
qed

text \<open>C29: The signal ends the process. From the moment it is in the channel, whatever the clients and the other
  goroutines do, there are at most seven more actions of \<open>main\<close> and of the clock of its deadline; as long as the process
  lives, those that are left lead to the exit with status 0 without the help of any other goroutine; and when it has
  ended, it is with 0, or with 1 because a server failed to start or to go on, or with 2 by the panic of a connection.\<close>

theorem signal_ends_process:
  assumes "proc_run as (new_process pg) = Some p"
    and "pr_main p = Waiting_quit \<and> pr_quit p \<or> pr_main p \<notin> {Notifying, Waiting_quit}"
    and "proc_run bs p = Some p'"
  shows "length (filter own_action bs) \<le> 7 \<and>
    (case pr_exit p' of
       None \<Rightarrow> \<exists>cs q. length (filter own_action bs) + length cs \<le> 7 \<and> list_all own_action cs \<and>
         proc_run cs p' = Some q \<and> pr_exit q = Some (Exit 0)
     | Some st \<Rightarrow> st = Exit 0 \<or> st = Exit 1 \<and> (ss_starts (pr_tcp p') = [StartFailed] \<or> pr_http p' = HttpError) \<or>
         st = Exit 2 \<and> ConnPanic \<in> set (as @ bs))"
proof -
  have ok: "proc_ok p" by (rule proc_ok_run [OF assms(1)])
  have "signalled p" using assms(2) by (simp add: signalled_def)
  note left = to_go_run [OF assms(3) ok this]
  have le: "to_go p \<le> 7" using stop_steps_bounds(2) [of "ss_stops (pr_tcp p)"] by (cases "pr_main p") (auto simp: to_go_def)
  have r: "proc_run (as @ bs) (new_process pg) = Some p'" using assms(1,3) by (simp add: proc_run_append)
  show ?thesis
  proof (cases "pr_exit p'")
    case None
    from left exit_from_signal [OF _ None] obtain cs q where cs: "length cs \<le> to_go p'" "list_all own_action cs"
        "proc_run cs p' = Some q" "pr_exit q = Some (Exit 0)" by blast
    have "length (filter own_action bs) + length cs \<le> 7" using left le cs(1) by linarith
    then show ?thesis using cs(2-4) None by auto
  next
    case (Some st)
    have "exit_view (Some st) p'" using left Some by (simp add: proc_ok_def)
    then have "st = Exit 0 \<or> st = Exit 1 \<and> (ss_starts (pr_tcp p') = [StartFailed] \<or> pr_http p' = HttpError) \<or>
        st = Exit 2 \<and> pr_crashing p'" using left by (cases st) (auto simp: signalled_def)
    then show ?thesis using left le Some crashing_run [OF r] by (auto simp: new_process_def)
  qed
qed

text \<open>A connection is open when \<open>Stop\<close> is called; it goes on accepting until the deadline.\<close>

theorem signal_ends_process_witness:
  "\<forall>pg. \<exists>p p' cs q. proc_run sample_run (new_process pg) = Some p \<and>
    proc_run [MainStop, TcpPiece (AcceptTurn 0 Accepted), TcpPiece (StopClose 0)] p = Some p' \<and>
    length cs \<le> 5 \<and> proc_run cs p' = Some q \<and> pr_exit q = Some (Exit 0)"
proof
  fix pg
  let ?bs = "[MainStop, TcpPiece (AcceptTurn 0 Accepted), TcpPiece (StopClose 0)]"
  obtain p p' where p: "proc_run sample_run (new_process pg) = Some p" "pr_main p = Shutting_down" "proc_run ?bs p = Some p'" "pr_exit p' = None"
    by (simp add: sample_run_def new_process_def NewServer_def proc_step_def proc_defs server_defs is_call_def calls_Start_def)
  have "length (filter own_action ?bs) = 2" by (simp add: own_action_def)
  with signal_ends_process [OF p(1) _ p(3)] p(2,4) obtain cs q where "length cs \<le> 5" "proc_run cs p' = Some q" "pr_exit q = Some (Exit 0)"
    by auto
  then show "\<exists>p p' cs q. proc_run sample_run (new_process pg) = Some p \<and> proc_run ?bs p = Some p' \<and>
    length cs \<le> 5 \<and> proc_run cs p' = Some q \<and> pr_exit q = Some (Exit 0)" using p(1,3) by blast
qed

end
