(* ===== verification/Lock_Order.thy ===== *)
theory Lock_Order
  imports Bucket_Manager
begin

text \<open>
  The mutexes of the program and the order in which its operations take them. An operation is seen as the sequence
  of its \<open>Lock\<close> and \<open>Unlock\<close> calls, computed from the state it meets; \<open>sync.Once\<close> holds a mutex while its function
  runs. Threads that run such sequences never wait for each other in a circle, so every one of them finishes.
\<close>

section \<open>Sequences of locks and threads\<close>

datatype 'l lock_op = Acquire 'l | Release 'l

text \<open>With the locks held, a sequence only takes locks of a higher rank, releases what it holds, and ends with
  nothing held.\<close>

fun ranked :: "('l \<Rightarrow> nat) \<Rightarrow> 'l list \<Rightarrow> 'l lock_op list \<Rightarrow> bool" where
  "ranked rank held [] = (held = [])"
| "ranked rank held (Acquire l # ops) = (list_all (\<lambda>h. rank h < rank l) held \<and> ranked rank (l # held) ops)"
| "ranked rank held (Release l # ops) = (l \<in> set held \<and> ranked rank (remove1 l held) ops)"

record 'l thread =
  th_held :: "'l list"
  th_ops :: "'l lock_op list"

definition new_thread :: "'l lock_op list \<Rightarrow> 'l thread" where
  "new_thread ops = \<lparr>th_held = [], th_ops = ops\<rparr>"

text \<open>A mutex is free when no thread holds it, the thread that wants it included: Go's mutexes are not reentrant.\<close>

definition lock_free :: "'l thread list \<Rightarrow> 'l \<Rightarrow> bool" where
  "lock_free ts l \<longleftrightarrow> list_all (\<lambda>t. l \<notin> set (th_held t)) ts"

definition thread_step :: "nat \<Rightarrow> 'l thread list \<Rightarrow> 'l thread list option" where
  "thread_step i ts =
     (if i < length ts
      then case th_ops (ts ! i) of
             [] \<Rightarrow> None
           | Acquire l # ops \<Rightarrow>
               if lock_free ts l then Some (ts[i := \<lparr>th_held = l # th_held (ts ! i), th_ops = ops\<rparr>]) else None
           | Release l # ops \<Rightarrow> Some (ts[i := \<lparr>th_held = remove1 l (th_held (ts ! i)), th_ops = ops\<rparr>])
      else None)"

fun thread_run :: "nat list \<Rightarrow> 'l thread list \<Rightarrow> 'l thread list option" where
  "thread_run [] ts = Some ts"
| "thread_run (i # is) ts = Option.bind (thread_step i ts) (thread_run is)"

definition ops_left :: "'l thread list \<Rightarrow> nat" where
  "ops_left ts = sum_list (map (length \<circ> th_ops) ts)"

text \<open>Any threads whose sequences follow one ranking.\<close>

locale lock_order =
  fixes rank :: "'l \<Rightarrow> nat" and programs :: "'l lock_op list set"
  assumes programs_ranked: "ops \<in> programs \<Longrightarrow> ranked rank [] ops"
begin

definition well_ranked :: "'l thread list \<Rightarrow> bool" where
  "well_ranked ts \<longleftrightarrow> list_all (\<lambda>t. ranked rank (th_held t) (th_ops t)) ts"

lemma well_ranked_new: "set pss \<subseteq> programs \<Longrightarrow> well_ranked (map new_thread pss)"
  using programs_ranked by (auto simp: well_ranked_def new_thread_def list_all_iff)

lemma well_ranked_nth: "well_ranked ts \<Longrightarrow> i < length ts \<Longrightarrow> ranked rank (th_held (ts ! i)) (th_ops (ts ! i))"
  by (simp add: well_ranked_def list_all_length)

lemma well_ranked_update: "well_ranked ts \<Longrightarrow> ranked rank (th_held t) (th_ops t) \<Longrightarrow> well_ranked (ts[i := t])"
  by (cases "i < length ts") (auto simp: well_ranked_def list_all_length nth_list_update list_update_beyond)

lemma ops_left_update:
  assumes "i < length ts" "Suc (length (th_ops t)) = length (th_ops (ts ! i))"
  shows "Suc (ops_left (ts[i := t])) = ops_left ts"
  using assms
proof (induction ts arbitrary: i)
  case (Cons u us)
  then show ?case by (cases i) (auto simp: ops_left_def)
qed simp

lemma step_well_ranked:
  assumes "well_ranked ts" "thread_step i ts = Some ts'"
  shows "well_ranked ts' \<and> Suc (ops_left ts') = ops_left ts"
proof -
  have i: "i < length ts" using assms(2) by (simp add: thread_step_def split: if_splits)
  note r = well_ranked_nth [OF assms(1) i]
  obtain op ops where ops: "th_ops (ts ! i) = op # ops" using assms(2) i by (cases "th_ops (ts ! i)") (auto simp: thread_step_def)
  show ?thesis
  proof (cases op)
    case (Acquire l)
    then have "ts' = ts[i := \<lparr>th_held = l # th_held (ts ! i), th_ops = ops\<rparr>]"
      using assms(2) i ops by (auto simp: thread_step_def split: if_splits)
    then show ?thesis using well_ranked_update [OF assms(1)] ops_left_update [OF i] r ops Acquire by simp
  next
    case (Release l)
    then have "ts' = ts[i := \<lparr>th_held = remove1 l (th_held (ts ! i)), th_ops = ops\<rparr>]"
      using assms(2) i ops by (auto simp: thread_step_def)
    then show ?thesis using well_ranked_update [OF assms(1)] ops_left_update [OF i] r ops Release by simp
  qed
qed

text \<open>Among waiting threads, one that waits for a lock of the highest rank is not waiting for another thread.\<close>

lemma some_step:
  assumes wr: "well_ranked ts" and left: "ops_left ts \<noteq> 0"
  shows "\<exists>i ts'. thread_step i ts = Some ts'"
proof (rule ccontr)
  assume stuck: "\<not> (\<exists>i ts'. thread_step i ts = Some ts')"
  define W where "W = {l. \<exists>i < length ts. \<exists>ops. th_ops (ts ! i) = Acquire l # ops}"
  have waits: "\<exists>l. l \<in> W \<and> (\<exists>ops. th_ops (ts ! i) = Acquire l # ops) \<and> \<not> lock_free ts l"
    if "i < length ts" "th_ops (ts ! i) \<noteq> []" for i
  proof -
    note i = that
    obtain op ops where o: "th_ops (ts ! i) = op # ops" using i(2) by (cases "th_ops (ts ! i)") auto
    have "thread_step i ts = None" using stuck by (cases "thread_step i ts") auto
    then show ?thesis using o i(1) by (cases op) (auto simp: thread_step_def W_def split: if_splits)
  qed
  have "W \<subseteq> (\<lambda>i. case th_ops (ts ! i) of Acquire l # ops \<Rightarrow> l) ` {..<length ts}"
    by (force simp: W_def image_iff)
  then have fin: "finite W" by (rule finite_surj [rotated]) simp
  have "\<exists>i < length ts. th_ops (ts ! i) \<noteq> []"
    using left by (auto simp: ops_left_def sum_list_eq_0_iff in_set_conv_nth)
  then have "W \<noteq> {}" using waits by blast
  define m where "m = Max (rank ` W)"
  have "m \<in> rank ` W" unfolding m_def by (rule Max_in) (use fin \<open>W \<noteq> {}\<close> in simp_all)
  then obtain l where l: "l \<in> W" "rank l = m" by auto
  have top: "rank l' \<le> rank l" if "l' \<in> W" for l' using fin that l(2) by (simp add: m_def)
  obtain i ops where i: "i < length ts" "th_ops (ts ! i) = Acquire l # ops" using l(1) by (auto simp: W_def)
  have "\<not> lock_free ts l" using waits [OF i(1)] i(2) by auto
  then obtain j where j: "j < length ts" "l \<in> set (th_held (ts ! j))"
    by (auto simp: lock_free_def list_all_length)
  note rj = well_ranked_nth [OF wr j(1)]
  have "th_ops (ts ! j) \<noteq> []" using rj j(2) by auto
  then obtain l' ops' where l': "l' \<in> W" "th_ops (ts ! j) = Acquire l' # ops'" using waits [OF j(1)] by blast
  then have "rank l < rank l'" using rj j(2) by (auto simp: list_all_iff)
  then show False using top [OF l'(1)] by simp
qed

lemma run_well_ranked:
  assumes "thread_run is ts = Some ts'" "well_ranked ts"
  shows "well_ranked ts' \<and> length is + ops_left ts' = ops_left ts"
  using assms
proof (induction "is" arbitrary: ts)
  case (Cons i "is")
  then obtain t where t: "thread_step i ts = Some t" "thread_run is t = Some ts'" by (auto simp: bind_eq_Some_conv)
  note s = step_well_ranked [OF Cons.prems(2) t(1)]
  show ?case using Cons.IH [OF t(2)] s by simp
qed simp

text \<open>No circle, and a bound: whatever the schedule so far, some thread can go on until all are done.\<close>

lemma no_deadlock:
  assumes "set pss \<subseteq> programs" "thread_run is (map new_thread pss) = Some ts"
  shows "length is \<le> sum_list (map length pss)"
    "length is < sum_list (map length pss) \<Longrightarrow> \<exists>i ts'. thread_step i ts = Some ts'"
    "length is = sum_list (map length pss) \<Longrightarrow> list_all (\<lambda>t. th_ops t = [] \<and> th_held t = []) ts"
proof -
  have total: "ops_left (map new_thread pss) = sum_list (map length pss)"
    by (simp add: ops_left_def new_thread_def comp_def)
  note r = run_well_ranked [OF assms(2) well_ranked_new [OF assms(1)]]
  show "length is \<le> sum_list (map length pss)" using r total by simp
  show "\<exists>i ts'. thread_step i ts = Some ts'" if "length is < sum_list (map length pss)"
    using some_step r total that by simp
  show "list_all (\<lambda>t. th_ops t = [] \<and> th_held t = []) ts" if "length is = sum_list (map length pss)"
  proof -
    have "ops_left ts = 0" using r total that by simp
    then have "th_ops t = []" if "t \<in> set ts" for t using that by (simp add: ops_left_def sum_list_eq_0_iff)
    moreover have "ranked rank (th_held t) (th_ops t)" if "t \<in> set ts" for t
      using r that by (simp add: well_ranked_def list_all_iff)
    ultimately show ?thesis by (fastforce simp: list_all_iff)
  qed
qed

end

section \<open>Critical sections\<close>

definition locked :: "'l \<Rightarrow> 'l lock_op list \<Rightarrow> 'l lock_op list" where
  "locked l ops = Acquire l # ops @ [Release l]"

text \<open>A sequence that may run inside locks of rank up to \<open>b\<close>.\<close>

definition nested :: "('l \<Rightarrow> nat) \<Rightarrow> nat \<Rightarrow> 'l lock_op list \<Rightarrow> bool" where
  "nested rank b ops \<longleftrightarrow>
     (\<forall>held rest. list_all (\<lambda>h. rank h \<le> b) held \<longrightarrow> ranked rank held rest \<longrightarrow> ranked rank held (ops @ rest))"

lemma nested_nil [simp]: "nested rank b []"
  by (simp add: nested_def)

lemma nested_append: "nested rank b xs \<Longrightarrow> nested rank b ys \<Longrightarrow> nested rank b (xs @ ys)"
  by (simp add: nested_def)

lemma nested_concat: "(\<And>xs. xs \<in> set xss \<Longrightarrow> nested rank b xs) \<Longrightarrow> nested rank b (concat xss)"
  by (induction xss) (simp_all add: nested_append)

lemma nested_mono: "nested rank b ops \<Longrightarrow> c \<le> b \<Longrightarrow> nested rank c ops"
  unfolding nested_def by (metis (mono_tags, lifting) le_trans list.pred_mono_strong)

lemma nested_locked:
  assumes "b < rank l" "nested rank (rank l) ops"
  shows "nested rank b (locked l ops)"
  unfolding nested_def
proof (intro allI impI)
  fix held rest assume h: "list_all (\<lambda>h. rank h \<le> b) held" and r: "ranked rank held rest"
  have "list_all (\<lambda>h. rank h < rank l) held" using h assms(1) by (auto simp: list_all_iff)
  moreover have "list_all (\<lambda>h. rank h \<le> rank l) (l # held)" using h assms(1) by (auto simp: list_all_iff)
  then have "ranked rank (l # held) (ops @ Release l # rest)" using assms(2) r by (simp add: nested_def)
  ultimately show "ranked rank held (locked l ops @ rest)" by (simp add: locked_def)
qed

lemma nested_ranked: "nested rank b ops \<Longrightarrow> ranked rank [] ops"
  unfolding nested_def by (metis append_Nil2 list.pred_inject(1) ranked.simps(1))

section \<open>The mutexes of the program\<close>

text \<open>The bucket manager has one, each store five and two of \<open>sync.Once\<close>, the TCP server one; stores are numbered.\<close>

datatype mutex =
    ManagerMu | ListenerMu | StartOnce nat | StopOnce nat | WriteMu nat | NearMu nat | WheelMu nat | PendingMu nat

fun lock_rank :: "mutex \<Rightarrow> nat" where
  "lock_rank ManagerMu = 1"
| "lock_rank ListenerMu = 1"
| "lock_rank (StartOnce st) = 2"
| "lock_rank (StopOnce st) = 2"
| "lock_rank (WriteMu st) = 3"
| "lock_rank (NearMu st) = 4"
| "lock_rank (WheelMu st) = 4"
| "lock_rank (PendingMu st) = 4"

text \<open>The collector. A panic in the near queue releases its mutex and goes on to the caller.\<close>

definition cancel_locks :: "nat \<Rightarrow> garbage_collector \<Rightarrow> gostring \<Rightarrow> mutex lock_op list" where
  "cancel_locks st gc key =
     locked (NearMu st) [] @
     (case NearQueue_Remove (gc_nearQueue gc) key of Inl p \<Rightarrow> [] | Inr nq \<Rightarrow> locked (WheelMu st) [])"

definition schedule_locks :: "env \<Rightarrow> nat \<Rightarrow> garbage_collector \<Rightarrow> gostring \<Rightarrow> int \<Rightarrow> go_time \<Rightarrow> mutex lock_op list" where
  "schedule_locks env st gc key ttl createdAt =
     (if ttl \<le> 0 then cancel_locks st gc key
      else locked (NearMu st) [] @
        (case NearQueue_Add (env_cached env) (gc_nearQueue gc) key (gc_expireAt ttl createdAt) of
           Inr (added, nq) \<Rightarrow> if added then [] else locked (WheelMu st) []
         | Inl p \<Rightarrow> []))"

definition near_tick_locks :: "int \<Rightarrow> nat \<Rightarrow> garbage_collector \<Rightarrow> mutex lock_op list" where
  "near_tick_locks cached st gc =
     locked (NearMu st) [] @ (if fst (NearQueue_DrainExpired cached (gc_nearQueue gc)) = [] then [] else locked (PendingMu st) [])"

definition wheel_tick_locks :: "go_time \<Rightarrow> nat \<Rightarrow> garbage_collector \<Rightarrow> mutex lock_op list" where
  "wheel_tick_locks now st gc =
     locked (WheelMu st) [] @
     (if fst (HashedWheel_Advance (time_UnixNano now) (gc_wheel gc)) = [] then [] else locked (PendingMu st) [])"

definition start_gc_locks :: "nat \<Rightarrow> garbage_collector \<Rightarrow> mutex lock_op list" where
  "start_gc_locks st gc = (if gc_startOnce gc then [] else locked (StartOnce st) [])"

definition stop_gc_locks :: "nat \<Rightarrow> garbage_collector \<Rightarrow> mutex lock_op list" where
  "stop_gc_locks st gc = (if gc_stopOnce gc then [] else locked (StopOnce st) [])"

text \<open>The store. A read takes no lock of the store, and that of the pending keys only to mark one.\<close>

definition get_locks :: "env \<Rightarrow> hasher \<Rightarrow> nat \<Rightarrow> memory_store \<Rightarrow> gostring \<Rightarrow> mutex lock_op list" where
  "get_locks env hash st s key =
     (let seg = ms_segments s ! segmentIndexOf hash s key; (i, found) = BinarySearch (seg_keys seg) key; e = seg_vals seg ! i
      in if found \<and> (IsExpired (env_now env) e \<or> se_SingleRead e \<and> se_AccessCount e = 0)
         then locked (PendingMu st) [] else [])"

definition set_locks :: "env \<Rightarrow> nat \<Rightarrow> memory_store \<Rightarrow> gostring \<Rightarrow> storage_entry \<Rightarrow> mutex lock_op list" where
  "set_locks env st s key val = locked (WriteMu st) (schedule_locks env st (ms_gc s) key (se_TTL val) (se_CreatedAt val))"

fun keys_locks :: "nat \<Rightarrow> gostring list \<Rightarrow> segment \<Rightarrow> garbage_collector \<Rightarrow> mutex lock_op list" where
  "keys_locks st [] ns gc = []"
| "keys_locks st (k # ks) ns gc =
     (let (i, found) = BinarySearch (seg_keys ns) k;
          ns' = \<lparr>seg_keys = remove_at i (seg_keys ns), seg_vals = remove_at i (seg_vals ns)\<rparr>
      in if \<not> found then keys_locks st ks ns gc
         else cancel_locks st gc k @ (case GC_Cancel gc k of Inl p \<Rightarrow> [] | Inr gc' \<Rightarrow> keys_locks st ks ns' gc'))"

fun groups_locks :: "nat \<Rightarrow> (nat \<times> gostring list) list \<Rightarrow> segment list \<Rightarrow> garbage_collector \<Rightarrow> mutex lock_op list" where
  "groups_locks st [] old gc = []"
| "groups_locks st ((si, gks) # g) old gc =
     keys_locks st gks (old ! si) gc @
     (case delete_keys gks (old ! si) 0 0 gc of
        (r, Some p) \<Rightarrow> []
      | ((ns, delta, kc, gc'), None) \<Rightarrow> groups_locks st g old gc')"

definition delete_locks :: "hasher \<Rightarrow> nat \<Rightarrow> memory_store \<Rightarrow> gostring list \<Rightarrow> mutex lock_op list" where
  "delete_locks hash st s keys =
     (if keys = [] then [] else locked (WriteMu st) (groups_locks st (group_keys hash s keys) (ms_segments s) (ms_gc s)))"

text \<open>The flush gives its own mutex back before it deletes.\<close>

definition flush_locks :: "hasher \<Rightarrow> nat \<Rightarrow> memory_store \<Rightarrow> mutex lock_op list" where
  "flush_locks hash st s =
     locked (PendingMu st) [] @
     (case GC_flush (ms_gc s) of (None, gc) \<Rightarrow> [] | (Some keys, gc) \<Rightarrow> delete_locks hash st (s\<lparr>ms_gc := gc\<rparr>) keys)"

text \<open>The bucket manager, which stops the collectors of a deleted bucket, and of every bucket at shutdown, under
  its own mutex; \<open>sts\<close> numbers the stores of a bucket.\<close>

definition stop_all_locks :: "nat list \<Rightarrow> bucket_metadata \<Rightarrow> mutex lock_op list" where
  "stop_all_locks sts b =
     (case bk_store b of
        None \<Rightarrow> []
      | Some sc \<Rightarrow> concat (map (\<lambda>(st, s). stop_gc_locks st (ms_gc s)) (zip sts (sc_shards sc))))"

definition create_bucket_locks :: "gostring \<Rightarrow> mutex lock_op list" where
  "create_bucket_locks name = (if name = [] then [] else locked ManagerMu [])"

definition delete_bucket_locks ::
  "env \<Rightarrow> auth_state \<Rightarrow> (gostring \<Rightarrow> nat list) \<Rightarrow> bucket_manager \<Rightarrow> gostring \<Rightarrow> gostring \<Rightarrow> mutex lock_op list" where
  "delete_bucket_locks env auth sts bm name token =
     (if name = str ''default'' then []
      else case auth_Manager auth of
        Inl p \<Rightarrow> []
      | Inr tm \<Rightarrow>
          if \<not> ValidateToken env tm token name then []
          else locked ManagerMu (case bm_lookup bm name of None \<Rightarrow> [] | Some b \<Rightarrow> stop_all_locks (sts name) b))"

definition shutdown_locks :: "(gostring \<Rightarrow> nat list) \<Rightarrow> bucket_manager \<Rightarrow> mutex lock_op list" where
  "shutdown_locks sts bm = locked ManagerMu (concat (map (\<lambda>(name, b). stop_all_locks (sts name) b) (bm_buckets bm)))"

text \<open>The TCP server: the store of the listener, the look at the stop flag, the start of \<open>Stop\<close>.\<close>

definition listener_locks :: "mutex lock_op list" where
  "listener_locks = locked ListenerMu []"

text \<open>What a thread of the program runs: any of these in any state, one after another.\<close>

inductive_set code_locks :: "mutex lock_op list set" where
  locks_nothing: "[] \<in> code_locks"
| locks_then: "xs \<in> code_locks \<Longrightarrow> ys \<in> code_locks \<Longrightarrow> xs @ ys \<in> code_locks"
| locks_get: "get_locks env hash st s k \<in> code_locks"
| locks_set: "set_locks env st s k e \<in> code_locks"
| locks_delete: "delete_locks hash st s ks \<in> code_locks"
| locks_near_tick: "near_tick_locks c st gc \<in> code_locks"
| locks_wheel_tick: "wheel_tick_locks t st gc \<in> code_locks"
| locks_flush: "flush_locks hash st s \<in> code_locks"
| locks_start_gc: "start_gc_locks st gc \<in> code_locks"
| locks_stop_gc: "stop_gc_locks st gc \<in> code_locks"
| locks_create: "create_bucket_locks name \<in> code_locks"
| locks_delete_bucket: "delete_bucket_locks env auth sts bm name token \<in> code_locks"
| locks_shutdown: "shutdown_locks sts bm \<in> code_locks"
| locks_listener: "listener_locks \<in> code_locks"

section \<open>The ranking\<close>

lemma cancel_nested: "nested lock_rank 3 (cancel_locks st gc k)"
  by (auto simp: cancel_locks_def intro!: nested_append nested_locked split: sum.split)

lemma schedule_nested: "nested lock_rank 3 (schedule_locks env st gc k ttl at)"
  by (auto simp: schedule_locks_def cancel_nested intro!: nested_append nested_locked split: sum.split)

lemma keys_nested: "nested lock_rank 3 (keys_locks st ks ns gc)"
  by (induction st ks ns gc rule: keys_locks.induct)
    (auto simp: Let_def cancel_nested intro!: nested_append split: prod.split sum.split)

lemma groups_nested: "nested lock_rank 3 (groups_locks st g old gc)"
  by (induction st g old gc rule: groups_locks.induct)
    (auto simp: keys_nested intro!: nested_append split: prod.split option.split)

lemma delete_nested: "nested lock_rank 2 (delete_locks hash st s ks)"
  by (auto simp: delete_locks_def groups_nested intro!: nested_locked)

lemma stop_all_nested: "nested lock_rank (Suc 0) (stop_all_locks sts b)"
  by (auto simp: stop_all_locks_def stop_gc_locks_def intro!: nested_concat nested_locked split: option.split)

lemmas locks_defs = get_locks_def set_locks_def near_tick_locks_def wheel_tick_locks_def flush_locks_def start_gc_locks_def
  stop_gc_locks_def create_bucket_locks_def delete_bucket_locks_def shutdown_locks_def listener_locks_def

lemma code_nested: "ops \<in> code_locks \<Longrightarrow> nested lock_rank 0 ops"
proof (induction rule: code_locks.induct)
  case (locks_delete hash st s ks)
  show ?case by (rule nested_mono [OF delete_nested]) simp
next
  case (locks_flush hash st s)
  have "nested lock_rank 0 (delete_locks hash st s' ks)" for s' ks by (rule nested_mono [OF delete_nested]) simp
  then show ?case by (auto simp: flush_locks_def intro!: nested_append nested_locked split: prod.split option.split)
next
  case (locks_set env st s k e)
  show ?case by (auto simp: set_locks_def schedule_nested intro!: nested_locked)
next
  case (locks_get env hash st s k)
  show ?case by (auto simp: get_locks_def Let_def intro!: nested_locked split: prod.split)
next
  case (locks_delete_bucket env auth sts bm name token)
  show ?case
    by (auto simp: delete_bucket_locks_def stop_all_nested intro!: nested_locked split: sum.split option.split)
next
  case (locks_shutdown sts bm)
  show ?case by (auto simp: shutdown_locks_def stop_all_nested intro!: nested_locked nested_concat)
qed (auto simp: locks_defs intro!: nested_append nested_locked)

interpretation code: lock_order lock_rank code_locks
  by unfold_locales (rule nested_ranked [OF code_nested])

section \<open>Properties\<close>

text \<open>C15: No deadlock: threads that serve any operations of the program, the collectors' goroutines, the creation,
  deletion and shutdown of buckets included, in any number and schedule, always have a thread that can go on, and
  are all done, with every mutex released, after as many steps as they have lock operations.\<close>

theorem code_never_deadlocks:
  assumes "set pss \<subseteq> code_locks" "thread_run is (map new_thread pss) = Some ts"
  shows "length is \<le> sum_list (map length pss) \<and>
    (if length is < sum_list (map length pss) then \<exists>i ts'. thread_step i ts = Some ts'
     else list_all (\<lambda>t. th_ops t = [] \<and> th_held t = []) ts)"
  using code.no_deadlock [OF assms] by auto

theorem code_never_deadlocks_witness:
  "\<exists>ts i ts'. thread_run [0] (map new_thread [flush_locks (\<lambda>_. 0) 0 (NewMemoryStore 0), set_locks sample_env 0 (NewMemoryStore 0) (str ''k'') (sample_entry [1] 0 False)])
     = Some ts \<and> thread_step i ts = Some ts'"
proof -
  let ?pss = "[flush_locks (\<lambda>_. 0) 0 (NewMemoryStore 0), set_locks sample_env 0 (NewMemoryStore 0) (str ''k'') (sample_entry [1] 0 False)]"
  obtain ts where ts: "thread_run [0] (map new_thread ?pss) = Some ts"
    by (simp add: thread_step_def new_thread_def flush_locks_def locked_def lock_free_def set_locks_def)
  have "set ?pss \<subseteq> code_locks" by (auto intro: code_locks.intros)
  moreover have "length [0] < sum_list (map length ?pss)" by (simp add: flush_locks_def set_locks_def locked_def)
  ultimately show ?thesis using code_never_deadlocks [OF _ ts] ts by auto
qed

end
