(* ===== verification/Linearizability.thy ===== *)
theory Linearizability
  imports Cow_Concurrency
begin

text \<open>
  The memory store is linearizable (\<open>internal/engine/in_memory.go\<close>). In every interleaving of \<open>Cow_Concurrency\<close> the
  calls that have been answered, and the writes, can be put into one order that respects real time and in which,
  run one after another on a finite map, every \<open>Get\<close> has the answer it had, up to the counters of the entry. A
  \<open>Get\<close> that loses or wins a single-read entry after the entry has been replaced takes its place before the write
  that replaced it, so places are given by inserting into the order built so far, not only at its end.
\<close>

section \<open>A published index as a map\<close>

definition ref_sorted :: "ref_index \<Rightarrow> bool" where
  "ref_sorted idx \<longleftrightarrow> (\<forall>seg \<in> set idx. strictly_sorted (rg_keys seg))"

abbreviation ref_segment :: "hasher \<Rightarrow> ref_index \<Rightarrow> gostring \<Rightarrow> ref_segment" where
  "ref_segment hash idx k \<equiv> idx ! ref_segmentIndexOf hash idx k"

definition rg_map :: "ref_segment \<Rightarrow> gostring \<rightharpoonup> nat" where
  "rg_map seg = map_of (zip (rg_keys seg) (rg_vals seg))"

lemma ref_segment_ok:
  assumes "idx_ok n idx" "ref_sorted idx"
  shows "length (rg_keys (ref_segment hash idx k)) = length (rg_vals (ref_segment hash idx k))"
    "strictly_sorted (rg_keys (ref_segment hash idx k))"
  using idx_ok_segment(1) [OF assms(1)] assms(2) nth_mem [OF ref_segment_less [OF assms(1)]] by (auto simp: ref_sorted_def)

lemma ref_lookup_map:
  assumes "idx_ok n idx" "ref_sorted idx"
  shows "ref_lookup hash idx k = rg_map (ref_segment hash idx k) k"
proof -
  let ?seg = "ref_segment hash idx k"
  note l = ref_segment_ok [OF assms, of hash k]
  obtain i found where b: "BinarySearch (rg_keys ?seg) k = (i, found)" by fastforce
  note c = BinarySearch_correct [OF l(2) b]
  have "rg_map ?seg k = (if found then Some (rg_vals ?seg ! i) else None)"
  proof (cases found)
    case True
    then have "i < length (rg_keys ?seg)" "rg_keys ?seg ! i = k" using c(5) by simp_all
    then have "map_of (zip (rg_keys ?seg) (rg_vals ?seg)) k = Some (rg_vals ?seg ! i)"
      using l(1) strictly_sorted_distinct [OF l(2)] by (intro map_of_is_SomeI) (auto simp: in_set_zip)
    then show ?thesis using True by (simp add: rg_map_def)
  next
    case False
    then show ?thesis using c(4) l(1) by (auto simp: rg_map_def map_of_eq_None_iff dest: set_zip_leftD)
  qed
  then show ?thesis by (simp add: ref_lookup_def Let_def b)
qed

text \<open>Replacing the segment of \<open>k\<close> by one whose map differs at \<open>k\<close> only.\<close>

lemma ref_lookup_update:
  assumes ok: "idx_ok n idx" "ref_sorted idx" and seg: "idx_ok n (idx[ref_segmentIndexOf hash idx k := seg])"
    "strictly_sorted (rg_keys seg)" "rg_map seg = (rg_map (ref_segment hash idx k))(k := v)"
  shows "ref_sorted (idx[ref_segmentIndexOf hash idx k := seg])"
    "ref_lookup hash (idx[ref_segmentIndexOf hash idx k := seg]) = (ref_lookup hash idx)(k := v)"
proof -
  let ?new = "idx[ref_segmentIndexOf hash idx k := seg]"
  show s: "ref_sorted ?new"
    using ok(2) seg(2) set_update_subset_insert [of idx "ref_segmentIndexOf hash idx k" seg] by (auto simp: ref_sorted_def)
  have i: "ref_segmentIndexOf hash idx k < length idx" by (rule ref_segment_less [OF ok(1)])
  have same: "ref_segmentIndexOf hash ?new k' = ref_segmentIndexOf hash idx k'" for k' by (simp add: ref_segmentIndexOf_def)
  show "ref_lookup hash ?new = (ref_lookup hash idx)(k := v)"
  proof
    fix k'
    show "ref_lookup hash ?new k' = ((ref_lookup hash idx)(k := v)) k'"
      using ref_lookup_map [OF seg(1) s, of hash k'] ref_lookup_map [OF ok, of hash k'] i seg(3)
      by (cases "ref_segmentIndexOf hash idx k' = ref_segmentIndexOf hash idx k") (auto simp: same)
  qed
qed

lemma ref_insert_map:
  assumes "idx_ok n idx" "ref_sorted idx" "r < n"
  shows "ref_sorted (ref_insert hash idx k r)" "ref_lookup hash (ref_insert hash idx k r) = (ref_lookup hash idx)(k \<mapsto> r)"
proof -
  let ?seg = "ref_segment hash idx k"
  note l = ref_segment_ok [OF assms(1,2), of hash k]
  obtain i found where b: "BinarySearch (rg_keys ?seg) k = (i, found)" by fastforce
  define seg' where "seg' = (if found then ?seg\<lparr>rg_vals := (rg_vals ?seg)[i := r]\<rparr>
      else \<lparr>rg_keys = insert_at [] i k (rg_keys ?seg), rg_vals = insert_at 0 i r (rg_vals ?seg)\<rparr>)"
  have new: "ref_insert hash idx k r = idx[ref_segmentIndexOf hash idx k := seg']"
    by (simp add: ref_insert_def Let_def b seg'_def)
  have i: "i \<le> length (rg_keys ?seg)" "i \<le> length (rg_vals ?seg)" using BinarySearch_correct(1) [OF l(2) b] l(1) by simp_all
  have "strictly_sorted (rg_keys seg') \<and> rg_map seg' = (rg_map ?seg)(k \<mapsto> r)"
  proof (cases found)
    case True
    then show ?thesis using l map_of_parallel_update [OF l] b by (simp add: seg'_def rg_map_def)
  next
    case False
    then have b': "BinarySearch (rg_keys ?seg) k = (i, False)" using b by simp
    show ?thesis using False strictly_sorted_insert [OF l(2) b'] map_of_parallel_insert [OF l b', of r] i
      by (simp add: seg'_def rg_map_def insert_at_eq)
  qed
  then show "ref_sorted (ref_insert hash idx k r)" "ref_lookup hash (ref_insert hash idx k r) = (ref_lookup hash idx)(k \<mapsto> r)"
    using ref_lookup_update [OF assms(1,2), of hash k seg' "Some r"] idx_ok_insert [OF assms(1,3), of hash k] unfolding new by blast+
qed

lemma ref_delete_map:
  assumes "idx_ok n (fst st)" "ref_sorted (fst st)"
  shows "ref_sorted (fst (ref_delete hash h k st))"
    "ref_lookup hash (fst (ref_delete hash h k st)) = (ref_lookup hash (fst st))(k := None)"
    "ref_lookup hash (fst st) k = None \<Longrightarrow> ref_delete hash h k st = st"
    "ref_lookup hash (fst st) k \<noteq> None \<Longrightarrow> k \<noteq> [] \<Longrightarrow> snd (ref_delete hash h k st) < snd st"
proof -
  obtain idx d where st: "st = (idx, d)" by fastforce
  let ?seg = "ref_segment hash idx k" and ?A = "ref_lookup hash idx" and ?st' = "ref_delete hash h k st"
  have ok: "idx_ok n idx" "ref_sorted idx" using assms by (simp_all add: st)
  note l = ref_segment_ok [OF ok, of hash k]
  obtain i found where b: "BinarySearch (rg_keys ?seg) k = (i, found)" by fastforce
  have f: "found \<longleftrightarrow> ?A k \<noteq> None" by (simp add: ref_lookup_def Let_def b)
  have "ref_sorted (fst ?st') \<and> ref_lookup hash (fst ?st') = ?A(k := None) \<and> (?A k = None \<longrightarrow> ?st' = st) \<and>
    (?A k \<noteq> None \<longrightarrow> k \<noteq> [] \<longrightarrow> snd ?st' < snd st)"
  proof (cases found)
    case False
    then show ?thesis using f ok b by (simp add: st ref_delete_def Let_def fun_upd_idem)
  next
    case True
    let ?seg' = "\<lparr>rg_keys = remove_at i (rg_keys ?seg), rg_vals = remove_at i (rg_vals ?seg)\<rparr>"
    have new: "?st' = (idx[ref_segmentIndexOf hash idx k := ?seg'], d - sizeOf k (h ! (rg_vals ?seg ! i)))"
      using True b by (simp add: st ref_delete_def Let_def)
    have bt: "BinarySearch (rg_keys ?seg) k = (i, True)" using b True by simp
    have "i < length (rg_keys ?seg)" using BinarySearch_correct(5) [OF l(2) bt] by simp
    then have "strictly_sorted (rg_keys ?seg')" using strictly_sorted_remove [OF l(2)] by simp
    moreover have "rg_map ?seg' = (rg_map ?seg)(k := None)" using map_of_parallel_remove [OF l bt] by (simp add: rg_map_def)
    moreover have "idx_ok n (idx[ref_segmentIndexOf hash idx k := ?seg'])"
      using idx_ok_delete [OF assms(1), of hash h k] by (simp only: new fst_conv)
    ultimately have "ref_sorted (fst ?st')" "ref_lookup hash (fst ?st') = ?A(k := None)"
      using ref_lookup_update [OF ok, of hash k ?seg' None] by (simp_all only: new fst_conv)
    moreover have "0 < sizeOf k e" if "k \<noteq> []" for e
      using sizes_pos_nonempty [of "[k \<mapsto> e]" "{k}"] that by (simp add: sizes_pos_def)
    then have "k \<noteq> [] \<longrightarrow> snd ?st' < snd st" unfolding new by (simp add: st)
    ultimately show ?thesis using f True by blast
  qed
  then show "ref_sorted (fst ?st')" "ref_lookup hash (fst ?st') = (ref_lookup hash (fst st))(k := None)"
    "ref_lookup hash (fst st) k = None \<Longrightarrow> ?st' = st" "ref_lookup hash (fst st) k \<noteq> None \<Longrightarrow> k \<noteq> [] \<Longrightarrow> snd ?st' < snd st"
    by (simp_all add: st)
qed

text \<open>All keys of a batch. With the empty key unbound, the size is unchanged only if nothing was there.\<close>

lemma ref_deletes_map:
  assumes "idx_ok n (fst st)" "ref_sorted (fst st)" "ref_lookup hash (fst st) [] = None"
  shows "ref_sorted (fst (fold (ref_delete hash h) ks st)) \<and>
    ref_lookup hash (fst (fold (ref_delete hash h) ks st)) = ref_lookup hash (fst st) |` (- set ks) \<and>
    snd (fold (ref_delete hash h) ks st) \<le> snd st \<and>
    (snd (fold (ref_delete hash h) ks st) = snd st \<longrightarrow> (\<forall>k \<in> set ks. ref_lookup hash (fst st) k = None))"
  using assms
proof (induction ks arbitrary: st)
  case (Cons k ks)
  let ?t = "ref_delete hash h k st"
  note d = ref_delete_map [where hash = hash and h = h and k = k, OF Cons.prems(1,2)]
  have nil: "ref_lookup hash (fst ?t) [] = None" using d(2) Cons.prems(3) by simp
  note ih = Cons.IH [OF idx_ok_delete [OF Cons.prems(1)] d(1) nil]
  have r: "(ref_lookup hash (fst st))(k := None) |` (- set ks) = ref_lookup hash (fst st) |` (- set (k # ks))"
    by (auto simp: restrict_map_def)
  have kn: "k \<noteq> []" if "ref_lookup hash (fst st) k \<noteq> None" using that Cons.prems(3) by auto
  show ?case
  proof (cases "ref_lookup hash (fst st) k = None")
    case True
    have same: "?t = st" by (rule d(3) [OF True])
    have "ref_lookup hash (fst st) |` (- insert k (set ks)) = ref_lookup hash (fst st) |` (- set ks)"
      using True by (auto simp: restrict_map_def)
    then show ?thesis using ih True by (simp add: same)
  next
    case False
    have less: "snd ?t < snd st" by (rule d(4) [OF False kn [OF False]])
    have "ref_lookup hash (fst (fold (ref_delete hash h) ks ?t)) = ref_lookup hash (fst st) |` (- set (k # ks))"
      using ih d(2) r by metis
    moreover have "snd (fold (ref_delete hash h) ks ?t) < snd st" using ih less by linarith
    ultimately show ?thesis using conjunct1 [OF ih] by simp
  qed
qed (auto simp: restrict_map_def)

section \<open>One operation at a time on a finite map\<close>

text \<open>A read carries the number of the reader, its key and the clocks it looked at; a write its place in the run.\<close>

datatype seq_op =
    SeqGet nat gostring env
  | SeqSet nat env gostring storage_entry
  | SeqDelete nat "gostring list"

text \<open>The answers, with the reader they belong to, and the map after all operations.\<close>

fun seq_run :: "seq_op list \<Rightarrow> (gostring \<rightharpoonup> storage_entry) \<Rightarrow> (nat \<times> storage_entry option) list \<times> (gostring \<rightharpoonup> storage_entry)" where
  "seq_run [] M = ([], M)"
| "seq_run (SeqGet i k env # ops) M =
     (let b = Option.bind (M k) (read_entry env);
          (ans, M') = seq_run ops (case b of None \<Rightarrow> M | Some e \<Rightarrow> M(k \<mapsto> e))
      in ((i, b) # ans, M'))"
| "seq_run (SeqSet t env k v # ops) M = seq_run ops (M(k \<mapsto> stamped env v))"
| "seq_run (SeqDelete t ks # ops) M = seq_run ops (M |` (- set ks))"

lemma seq_run_append:
  "seq_run (xs @ ys) M = (let (a, M1) = seq_run xs M; (b, M2) = seq_run ys M1 in (a @ b, M2))"
  by (induction xs M rule: seq_run.induct) (simp_all add: Let_def case_prod_unfold fun_upd_def)

section \<open>The same on cells\<close>

text \<open>Between two writes the bindings \<open>A\<close> of keys to cells stay as they are. An operation comes with the cell it was
  given; \<open>T\<close> are the cells given so far, of which a single-read one is not given again.\<close>

type_synonym placed = "seq_op \<times> nat option"

definition cell_get :: "storage_entry list \<Rightarrow> env \<Rightarrow> (gostring \<rightharpoonup> nat) \<Rightarrow> nat set \<Rightarrow> gostring \<Rightarrow> nat option" where
  "cell_get h env A T k =
     (case A k of
        None \<Rightarrow> None
      | Some r \<Rightarrow> if IsExpired (env_now env) (h ! r) \<or> se_SingleRead (h ! r) \<and> r \<in> T then None else Some r)"

fun legal :: "storage_entry list \<Rightarrow> (gostring \<rightharpoonup> nat) \<Rightarrow> nat set \<Rightarrow> placed list \<Rightarrow> bool" where
  "legal h A T [] = True"
| "legal h A T ((SeqGet i k env, a) # e) = (a = cell_get h env A T k \<and> legal h A (set_option a \<union> T) e)"
| "legal h A T ((SeqDelete t ks, a) # e) = (a = None \<and> (\<forall>k \<in> set ks. A k = None) \<and> legal h A T e)"
| "legal h A T ((SeqSet t env k v, a) # e) = False"

definition given :: "placed list \<Rightarrow> nat set" where
  "given e = (\<Union>x \<in> set e. set_option (snd x))"

lemma given_simps [simp]: "given [] = {}" "given (x # e) = set_option (snd x) \<union> given e" "given (e @ e') = given e \<union> given e'"
  by (auto simp: given_def)

lemma legal_append: "legal h A T (e @ e') \<longleftrightarrow> legal h A T e \<and> legal h A (given e \<union> T) e'"
  by (induction h A T e rule: legal.induct) (auto simp: Un_ac)

lemma cell_get_bound: "cell_get h env A T k = Some r \<Longrightarrow> A k = Some r"
  by (auto simp: cell_get_def split: option.splits if_splits)

lemma legal_given: "legal h A T e \<Longrightarrow> r \<in> given e \<Longrightarrow> \<exists>k. A k = Some r"
  by (induction h A T e rule: legal.induct) (auto dest: cell_get_bound)

text \<open>What \<open>legal\<close> depends on: the frozen part of bound cells, and which bound single-read cells were given.\<close>

lemma cell_get_cong:
  assumes "\<And>r. A k = Some r \<Longrightarrow> frozen (h' ! r) = frozen (h ! r)"
    and "\<And>r. A k = Some r \<Longrightarrow> se_SingleRead (h ! r) \<Longrightarrow> r \<in> T' \<longleftrightarrow> r \<in> T"
  shows "cell_get h' env A T' k = cell_get h env A T k"
proof (cases "A k")
  case (Some r)
  note f = frozen_eqD(1,2) [OF assms(1) [OF Some]]
  show ?thesis using assms(2) [OF Some] by (auto simp: cell_get_def Some f)
qed (simp add: cell_get_def)

lemma legal_cong:
  assumes "\<And>k r. A k = Some r \<Longrightarrow> frozen (h' ! r) = frozen (h ! r)"
    and "\<And>k r. A k = Some r \<Longrightarrow> se_SingleRead (h ! r) \<Longrightarrow> r \<in> T' \<longleftrightarrow> r \<in> T"
  shows "legal h' A T' e = legal h A T e"
  using assms(2)
proof (induction e arbitrary: T T')
  case (Cons x e)
  have c: "cell_get h' env A T' k = cell_get h env A T k" for env k
    by (rule cell_get_cong) (use assms(1) Cons.prems in blast)+
  have ih: "legal h' A (S \<union> T') e = legal h A (S \<union> T) e" for S
    by (rule Cons.IH) (use Cons.prems in blast)
  show ?case using ih [of "{}"] by (cases "(h, A, T, x # e)" rule: legal.cases) (auto simp: c ih)
qed simp

section \<open>From cells to entries\<close>

text \<open>The map on which operations run has, at a key, the entry of the cell bound to it, up to counters.\<close>

fun entry_rel :: "storage_entry list \<Rightarrow> nat set \<Rightarrow> nat option \<Rightarrow> storage_entry option \<Rightarrow> bool" where
  "entry_rel h T None m = (m = None)"
| "entry_rel h T (Some r) m =
     (\<exists>e. m = Some e \<and> frozen e = frozen (h ! r) \<and> (se_SingleRead (h ! r) \<longrightarrow> (taken e \<longleftrightarrow> r \<in> T)))"

definition cell_rel :: "storage_entry list \<Rightarrow> (gostring \<rightharpoonup> nat) \<Rightarrow> nat set \<Rightarrow> (gostring \<rightharpoonup> storage_entry) \<Rightarrow> bool" where
  "cell_rel h A T M \<longleftrightarrow> (\<forall>k. entry_rel h T (A k) (M k))"

lemma cell_relD:
  assumes "cell_rel h A T M"
  shows "A k = None \<Longrightarrow> M k = None"
    "A k = Some r \<Longrightarrow> \<exists>e. M k = Some e \<and> frozen e = frozen (h ! r) \<and> (se_SingleRead (h ! r) \<longrightarrow> (taken e \<longleftrightarrow> r \<in> T))"
  using assms [unfolded cell_rel_def, rule_format, of k] by simp_all

lemma cell_rel_update:
  assumes "cell_rel h A T M" "frozen e = frozen (h ! r)" "se_SingleRead (h ! r) \<Longrightarrow> taken e \<longleftrightarrow> r \<in> T"
  shows "cell_rel h (A(k \<mapsto> r)) T (M(k \<mapsto> e))"
  using assms by (simp add: cell_rel_def)

lemma cell_rel_restrict: "cell_rel h A T M \<Longrightarrow> cell_rel h (A |` S) T (M |` S)"
  by (simp add: cell_rel_def restrict_map_def)

lemma cell_rel_given:
  assumes "cell_rel h A T M" "\<And>k'. A k' = Some r \<Longrightarrow> k' = k"
  shows "cell_rel h (A(k := None)) (insert r T) (M(k := None))"
  unfolding cell_rel_def
proof
  fix k'
  have "entry_rel h T (A k') (M k')" using assms(1) by (simp add: cell_rel_def)
  then show "entry_rel h (insert r T) ((A(k := None)) k') ((M(k := None)) k')"
    using assms(2) [of k'] by (cases "A k'") auto
qed

definition cells_unique :: "(gostring \<rightharpoonup> nat) \<Rightarrow> bool" where
  "cells_unique A \<longleftrightarrow> (\<forall>k k' r. A k = Some r \<longrightarrow> A k' = Some r \<longrightarrow> k = k')"

definition answers :: "storage_entry list \<Rightarrow> placed list \<Rightarrow> (nat \<times> storage_entry option) list" where
  "answers h e = concat (map (\<lambda>(op, a). case op of SeqGet i k env \<Rightarrow> [(i, map_option (\<lambda>r. frozen (h ! r)) a)] | _ \<Rightarrow> []) e)"

definition frozen_answers :: "(nat \<times> storage_entry option) list \<Rightarrow> (nat \<times> storage_entry option) list" where
  "frozen_answers = map (\<lambda>(i, b). (i, map_option frozen b))"

lemma cell_rel_get:
  assumes rel: "cell_rel h A T M" and inj: "cells_unique A"
    and b: "b = Option.bind (M k) (read_entry env)"
  shows "map_option frozen b = map_option (\<lambda>r. frozen (h ! r)) (cell_get h env A T k)"
    "cell_rel h A (set_option (cell_get h env A T k) \<union> T) (case b of None \<Rightarrow> M | Some e \<Rightarrow> M(k \<mapsto> e))"
proof -
  let ?a = "cell_get h env A T k"
  have "map_option frozen b = map_option (\<lambda>r. frozen (h ! r)) ?a \<and>
    cell_rel h A (set_option ?a \<union> T) (case b of None \<Rightarrow> M | Some e \<Rightarrow> M(k \<mapsto> e))"
  proof (cases "A k")
    case None
    then have "M k = None" by (rule cell_relD(1) [OF rel])
    then show ?thesis using None rel b by (simp add: cell_get_def)
  next
    case (Some r)
    then obtain e where e: "M k = Some e" "frozen e = frozen (h ! r)" "se_SingleRead (h ! r) \<Longrightarrow> taken e \<longleftrightarrow> r \<in> T"
      using cell_relD(2) [OF rel Some] by blast
    note f = frozen_eqD(1,2) [OF e(2)]
    show ?thesis
    proof (cases ?a)
      case None
      then have "read_entry env e = None"
        using e(3) by (auto simp: cell_get_def Some read_entry_def f taken_def split: if_splits)
      then show ?thesis using None rel b e(1) by simp
    next
      case (Some r')
      then have r': "r' = r" "\<not> IsExpired (env_now env) e" "se_SingleRead (h ! r) \<Longrightarrow> \<not> taken e"
        using \<open>A k = Some r\<close> e(3) by (auto simp: cell_get_def f split: if_splits)
      then obtain e' where e': "read_entry env e = Some e'" "frozen e' = frozen e" "se_SingleRead (h ! r) \<Longrightarrow> taken e'"
        by (cases "se_SingleRead (h ! r)") (simp_all add: read_entry_def f taken_def)
      have "\<And>k'. A k' = Some r \<Longrightarrow> k' = k" using inj \<open>A k = Some r\<close> by (auto simp: cells_unique_def)
      from cell_rel_update [OF cell_rel_given [OF rel this], where e = e' and r = r and k = k] e(2) e'(2,3) \<open>A k = Some r\<close>
      have "cell_rel h A (insert r T) (M(k \<mapsto> e'))" by (simp add: fun_upd_idem)
      then show ?thesis using Some r'(1) e' e(1,2) b by simp
    qed
  qed
  then show "map_option frozen b = map_option (\<lambda>r. frozen (h ! r)) ?a"
    "cell_rel h A (set_option ?a \<union> T) (case b of None \<Rightarrow> M | Some e \<Rightarrow> M(k \<mapsto> e))" by blast+
qed

lemma legal_replay:
  assumes "legal h A T e" "cell_rel h A T M" and inj: "cells_unique A"
  shows "frozen_answers (fst (seq_run (map fst e) M)) = answers h e \<and> cell_rel h A (given e \<union> T) (snd (seq_run (map fst e) M))"
  using assms
proof (induction h A T e arbitrary: M rule: legal.induct)
  case (2 h A T i k env a e)
  define b where "b = Option.bind (M k) (read_entry env)"
  have a: "a = cell_get h env A T k" "legal h A (set_option a \<union> T) e" using 2(2) unfolding legal.simps by blast+
  note g = cell_rel_get [OF 2(3,4) b_def]
  have "cell_rel h A (set_option a \<union> T) (case b of None \<Rightarrow> M | Some e \<Rightarrow> M(k \<mapsto> e))"
    unfolding a(1) by (rule g(2))
  from 2(1) [OF a(2) this 2(4)] g(1) show ?case
    by (simp add: a(1) b_def [symmetric] Let_def case_prod_unfold answers_def frozen_answers_def Un_ac)
next
  case (3 h A T t ks a e)
  then have "M |` (- set ks) = M" using cell_relD(1) [OF 3(3)] by (auto simp: restrict_map_def)
  then show ?case using 3 by (simp add: answers_def)
qed (simp_all add: answers_def frozen_answers_def)

section \<open>Epochs\<close>

text \<open>An epoch is the time for which an index is the published one: the write that published it, and the operations
  placed after that write.\<close>

type_synonym epoch = "seq_op option \<times> placed list"

definition epoch_ops :: "epoch \<Rightarrow> seq_op list" where
  "epoch_ops ep = (case fst ep of None \<Rightarrow> [] | Some w \<Rightarrow> [w]) @ map fst (snd ep)"

definition flat :: "epoch list \<Rightarrow> seq_op list" where
  "flat eps = concat (map epoch_ops eps)"

definition upto_epoch :: "epoch list \<Rightarrow> nat \<Rightarrow> nat set" where
  "upto_epoch eps n = (\<Union>m<n. given (snd (eps ! m)))"

text \<open>A new operation goes to the end of an epoch.\<close>

definition place :: "nat \<Rightarrow> placed \<Rightarrow> epoch list \<Rightarrow> epoch list" where
  "place m x eps = eps[m := (fst (eps ! m), snd (eps ! m) @ [x])]"

lemma length_place [simp]: "length (place m x eps) = length eps"
  by (simp add: place_def)

lemma place_nth: "n < length eps \<Longrightarrow> place m x eps ! n = (if n = m then (fst (eps ! m), snd (eps ! m) @ [x]) else eps ! n)"
  by (simp add: place_def nth_list_update)

lemma fst_place [simp]: "n < length eps \<Longrightarrow> fst (place m x eps ! n) = fst (eps ! n)"
  by (simp add: place_nth)

lemma upto_epoch_Suc: "upto_epoch eps (Suc n) = given (snd (eps ! n)) \<union> upto_epoch eps n"
  by (auto simp: upto_epoch_def lessThan_Suc)

lemma upto_epoch_0 [simp]: "upto_epoch eps 0 = {}"
  by (simp add: upto_epoch_def)

lemma upto_epoch_cong: "(\<And>m. m < n \<Longrightarrow> eps' ! m = eps ! m) \<Longrightarrow> upto_epoch eps' n = upto_epoch eps n"
  by (simp add: upto_epoch_def)

lemma upto_epoch_place:
  assumes "n \<le> length eps" "m < length eps"
  shows "upto_epoch (place m x eps) n = (if m < n then set_option (snd x) else {}) \<union> upto_epoch eps n"
  using assms(1)
proof (induction n)
  case (Suc n)
  then show ?case using assms(2) by (cases "m = n") (auto simp: upto_epoch_Suc place_nth)
qed simp

text \<open>How a write that publishes changes the bindings.\<close>

fun publishes :: "storage_entry list \<Rightarrow> (gostring \<rightharpoonup> nat) \<Rightarrow> (gostring \<rightharpoonup> nat) \<Rightarrow> nat set \<Rightarrow> seq_op \<Rightarrow> bool" where
  "publishes h A A' T (SeqSet t env k v) =
     (\<exists>r < length h. r \<notin> T \<and> frozen (h ! r) = frozen (stamped env v) \<and> A' = A(k \<mapsto> r))"
| "publishes h A A' T (SeqDelete t ks) = (A' = A |` (- set ks))"
| "publishes h A A' T (SeqGet i k env) = False"

lemma publishes_cong:
  assumes "length h \<le> length h'" "\<And>r. r < length h \<Longrightarrow> frozen (h' ! r) = frozen (h ! r)"
    and "\<And>k r. A' k = Some r \<Longrightarrow> r \<in> T' \<longrightarrow> r \<in> T" "publishes h A A' T w"
  shows "publishes h' A A' T' w"
proof (cases w)
  case (SeqSet t env k v)
  then obtain r where r: "r < length h" "r \<notin> T" "frozen (h ! r) = frozen (stamped env v)" "A' = A(k \<mapsto> r)" using assms(4) by auto
  have "r \<notin> T'" using assms(3) [of k r] r(2,4) by simp
  moreover have "r < length h'" "frozen (h' ! r) = frozen (stamped env v)" using r(1,3) assms(1,2) by simp_all
  ultimately show ?thesis using r(4) by (auto simp: SeqSet)
qed (use assms(4) in simp_all)

text \<open>The order built so far is legal: the bindings \<open>As\<close> of the epochs follow from the writes, in each epoch the
  placed operations are legal, a cell belongs to one key, and the single-read cells given are those taken.\<close>

definition sem_ok :: "storage_entry list \<Rightarrow> (gostring \<rightharpoonup> nat) list \<Rightarrow> epoch list \<Rightarrow> bool" where
  "sem_ok h As eps \<longleftrightarrow>
     length eps = length As \<and> As \<noteq> [] \<and> fst (eps ! 0) = None \<and> As ! 0 = Map.empty \<and>
     (\<forall>n < length As. legal h (As ! n) (upto_epoch eps n) (snd (eps ! n))) \<and>
     (\<forall>n. Suc n < length As \<longrightarrow>
        (\<exists>w. fst (eps ! Suc n) = Some w \<and> publishes h (As ! n) (As ! Suc n) (upto_epoch eps (Suc n)) w)) \<and>
     (\<forall>A \<in> set As. \<forall>A' \<in> set As. \<forall>k k' r. A k = Some r \<longrightarrow> A' k' = Some r \<longrightarrow> k = k') \<and>
     (\<forall>A \<in> set As. \<forall>k r. A k = Some r \<longrightarrow> r < length h) \<and>
     (\<forall>r < length h. se_SingleRead (h ! r) \<longrightarrow> (r \<in> upto_epoch eps (length As) \<longleftrightarrow> taken (h ! r)))"

lemma sem_okD:
  assumes "sem_ok h As eps"
  shows "length eps = length As" "As \<noteq> []" "fst (eps ! 0) = None" "As ! 0 = Map.empty"
    "n < length As \<Longrightarrow> legal h (As ! n) (upto_epoch eps n) (snd (eps ! n))"
    "Suc n < length As \<Longrightarrow> \<exists>w. fst (eps ! Suc n) = Some w \<and> publishes h (As ! n) (As ! Suc n) (upto_epoch eps (Suc n)) w"
    "A \<in> set As \<Longrightarrow> A' \<in> set As \<Longrightarrow> A k = Some r \<Longrightarrow> A' k' = Some r \<Longrightarrow> k = k'"
    "A \<in> set As \<Longrightarrow> A k = Some r \<Longrightarrow> r < length h"
    "r < length h \<Longrightarrow> se_SingleRead (h ! r) \<Longrightarrow> r \<in> upto_epoch eps (length As) \<longleftrightarrow> taken (h ! r)"
  using assms unfolding sem_ok_def by blast+

lemma sem_okI:
  assumes "length eps = length As" "As \<noteq> []" "fst (eps ! 0) = None" "As ! 0 = Map.empty"
    "\<And>n. n < length As \<Longrightarrow> legal h (As ! n) (upto_epoch eps n) (snd (eps ! n))"
    "\<And>n. Suc n < length As \<Longrightarrow> \<exists>w. fst (eps ! Suc n) = Some w \<and> publishes h (As ! n) (As ! Suc n) (upto_epoch eps (Suc n)) w"
    "\<And>A A' k k' r. A \<in> set As \<Longrightarrow> A' \<in> set As \<Longrightarrow> A k = Some r \<Longrightarrow> A' k' = Some r \<Longrightarrow> k = k'"
    "\<And>A k r. A \<in> set As \<Longrightarrow> A k = Some r \<Longrightarrow> r < length h"
    "\<And>r. r < length h \<Longrightarrow> se_SingleRead (h ! r) \<Longrightarrow> r \<in> upto_epoch eps (length As) \<longleftrightarrow> taken (h ! r)"
  shows "sem_ok h As eps"
  unfolding sem_ok_def using assms by blast

text \<open>A cell was given while it was bound.\<close>

lemma sem_given:
  assumes "sem_ok h As eps" "n \<le> length As" "r \<in> upto_epoch eps n"
  obtains m k where "m < n" "r \<in> given (snd (eps ! m))" "(As ! m) k = Some r"
proof -
  obtain m where m: "m < n" "r \<in> given (snd (eps ! m))" using assms(3) by (auto simp: upto_epoch_def)
  then show thesis using that legal_given [OF sem_okD(5) [OF assms(1)] m(2)] assms(2) by fastforce
qed

lemma sem_replay:
  assumes sem: "sem_ok h As eps" and n: "n < length As"
  shows "frozen_answers (fst (seq_run (flat (take (Suc n) eps)) Map.empty)) = concat (map (answers h \<circ> snd) (take (Suc n) eps)) \<and>
    cell_rel h (As ! n) (upto_epoch eps (Suc n)) (snd (seq_run (flat (take (Suc n) eps)) Map.empty))"
  using n
proof (induction n)
  case 0
  have l: "0 < length eps" using sem_okD(1,2) [OF sem] by simp
  have e: "take (Suc 0) eps = [eps ! 0]" using l by (cases eps) simp_all
  have "legal h Map.empty {} (snd (eps ! 0))" using sem_okD(4,5) [OF sem] 0 by fastforce
  then have "frozen_answers (fst (seq_run (map fst (snd (eps ! 0))) Map.empty)) = answers h (snd (eps ! 0)) \<and>
      cell_rel h Map.empty (given (snd (eps ! 0)) \<union> {}) (snd (seq_run (map fst (snd (eps ! 0))) Map.empty))"
    by (rule legal_replay) (simp_all add: cell_rel_def cells_unique_def)
  then show ?case by (simp add: e flat_def epoch_ops_def sem_okD(3,4) [OF sem] upto_epoch_Suc)
next
  case (Suc n)
  define M where "M = snd (seq_run (flat (take (Suc n) eps)) Map.empty)"
  have ih: "frozen_answers (fst (seq_run (flat (take (Suc n) eps)) Map.empty)) = concat (map (answers h \<circ> snd) (take (Suc n) eps))"
    "cell_rel h (As ! n) (upto_epoch eps (Suc n)) M" using Suc.IH [OF Suc_lessD [OF Suc.prems]] unfolding M_def by blast+
  obtain w where w: "fst (eps ! Suc n) = Some w" "publishes h (As ! n) (As ! Suc n) (upto_epoch eps (Suc n)) w"
    using sem_okD(6) [OF sem Suc.prems] by blast
  define M1 where "M1 = snd (seq_run [w] M)"
  have w1: "seq_run [w] M = ([], M1)" using w(2) by (cases w) (simp_all add: M1_def)
  have "cell_rel h (As ! Suc n) (upto_epoch eps (Suc n)) M1"
  proof (cases w)
    case (SeqSet t env k v)
    then obtain r where r: "r \<notin> upto_epoch eps (Suc n)" "frozen (h ! r) = frozen (stamped env v)" "As ! Suc n = (As ! n)(k \<mapsto> r)"
      using w(2) by auto
    show ?thesis using cell_rel_update [OF ih(2), where e = "stamped env v" and r = r and k = k] r by (simp add: M1_def SeqSet taken_def, simp add: stamped_def)
  next
    case (SeqDelete t ks)
    then show ?thesis using w(2) cell_rel_restrict [OF ih(2)] by (simp add: M1_def)
  qed (use w(2) in simp)
  moreover have "cells_unique (As ! Suc n)"
    using sem_okD(7) [OF sem, of "As ! Suc n" "As ! Suc n"] Suc.prems by (auto simp: cells_unique_def)
  ultimately have r: "frozen_answers (fst (seq_run (map fst (snd (eps ! Suc n))) M1)) = answers h (snd (eps ! Suc n)) \<and>
      cell_rel h (As ! Suc n) (given (snd (eps ! Suc n)) \<union> upto_epoch eps (Suc n)) (snd (seq_run (map fst (snd (eps ! Suc n))) M1))"
    by (intro legal_replay sem_okD(5) [OF sem Suc.prems])
  have t: "take (Suc (Suc n)) eps = take (Suc n) eps @ [eps ! Suc n]"
    using Suc.prems sem_okD(1) [OF sem] by (simp add: take_Suc_conv_app_nth)
  have f: "flat (take (Suc (Suc n)) eps) = flat (take (Suc n) eps) @ [w] @ map fst (snd (eps ! Suc n))"
    by (simp add: t flat_def epoch_ops_def w(1))
  have s: "seq_run (flat (take (Suc (Suc n)) eps)) Map.empty =
      (fst (seq_run (flat (take (Suc n) eps)) Map.empty) @ fst (seq_run (map fst (snd (eps ! Suc n))) M1),
       snd (seq_run (map fst (snd (eps ! Suc n))) M1))"
    unfolding f seq_run_append w1 by (simp add: Let_def case_prod_unfold M_def [symmetric] w1)
  show ?case unfolding s using ih(1) r by (simp add: t frozen_answers_def upto_epoch_Suc [of eps "Suc n"] comp_def)
qed

section \<open>Keeping the order legal\<close>

text \<open>Counters of entries change.\<close>

lemma sem_heap:
  assumes sem: "sem_ok h As eps" and h: "length h' = length h" "\<And>r. r < length h \<Longrightarrow> frozen (h' ! r) = frozen (h ! r)"
    and t: "\<And>r. r < length h \<Longrightarrow> se_SingleRead (h ! r) \<Longrightarrow> taken (h' ! r) \<longleftrightarrow> taken (h ! r)"
  shows "sem_ok h' As eps"
proof -
  have L: "legal h' (As ! n) (upto_epoch eps n) (snd (eps ! n))" if n: "n < length As" for n
  proof -
    have "legal h' (As ! n) (upto_epoch eps n) (snd (eps ! n)) = legal h (As ! n) (upto_epoch eps n) (snd (eps ! n))"
      by (rule legal_cong) (use h(2) sem_okD(8) [OF sem nth_mem [OF n]] in blast)+
    then show ?thesis using sem_okD(5) [OF sem n] by simp
  qed
  have P: "\<exists>w. fst (eps ! Suc n) = Some w \<and> publishes h' (As ! n) (As ! Suc n) (upto_epoch eps (Suc n)) w"
    if n: "Suc n < length As" for n
  proof -
    obtain w where w: "fst (eps ! Suc n) = Some w" "publishes h (As ! n) (As ! Suc n) (upto_epoch eps (Suc n)) w"
      using sem_okD(6) [OF sem n] by blast
    have "publishes h' (As ! n) (As ! Suc n) (upto_epoch eps (Suc n)) w"
      by (rule publishes_cong [OF _ h(2) _ w(2)]) (simp_all add: h(1))
    then show ?thesis using w(1) by simp
  qed
  have T: "r \<in> upto_epoch eps (length As) \<longleftrightarrow> taken (h' ! r)" if "r < length h'" "se_SingleRead (h' ! r)" for r
    using sem_okD(9) [OF sem, of r] t [of r] frozen_eqD(1) [OF h(2), of r] that h(1) by simp
  have B: "r < length h'" if "A \<in> set As" "A k = Some r" for A k r using sem_okD(8) [OF sem that] h(1) by simp
  show ?thesis by (rule sem_okI [OF sem_okD(1-4) [OF sem] L P sem_okD(7) [OF sem] B T])
qed

text \<open>An operation is placed at the end of an epoch. If it is given a single-read cell, that cell must not be bound in
  any later epoch, and counts as taken from now on.\<close>

lemma sem_place:
  assumes sem: "sem_ok h As eps" and m: "m < length As" and x: "legal h (As ! m) (upto_epoch eps (Suc m)) [x]"
    and last: "\<And>r n k. snd x = Some r \<Longrightarrow> m < n \<Longrightarrow> n < length As \<Longrightarrow> (As ! n) k \<noteq> Some r"
    and h: "length h' = length h" "\<And>r. r < length h \<Longrightarrow> frozen (h' ! r) = frozen (h ! r)"
    and t: "\<And>r. r < length h \<Longrightarrow> se_SingleRead (h ! r) \<Longrightarrow> taken (h' ! r) \<longleftrightarrow> taken (h ! r) \<or> snd x = Some r"
  shows "sem_ok h' As (place m x eps)"
proof -
  let ?eps = "place m x eps"
  note len = sem_okD(1) [OF sem]
  have up: "upto_epoch ?eps n = (if m < n then set_option (snd x) else {}) \<union> upto_epoch eps n" if "n \<le> length As" for n
    by (rule upto_epoch_place) (use that m len in simp_all)
  have new: "r \<in> upto_epoch ?eps n \<longleftrightarrow> r \<in> upto_epoch eps n" if "(As ! n) k = Some r" "n < length As" for n k r
    using up [of n] last [of r n k] that by auto
  have L: "legal h' (As ! n) (upto_epoch ?eps n) (snd (?eps ! n))" if n: "n < length As" for n
  proof -
    have l: "legal h (As ! n) (upto_epoch eps n) (snd (?eps ! n))"
      using sem_okD(5) [OF sem n] x n len by (auto simp: place_nth legal_append upto_epoch_Suc)
    have "legal h' (As ! n) (upto_epoch ?eps n) (snd (?eps ! n)) = legal h (As ! n) (upto_epoch eps n) (snd (?eps ! n))"
      by (rule legal_cong) (use h(2) sem_okD(8) [OF sem nth_mem [OF n]] new n in blast)+
    then show ?thesis using l by simp
  qed
  have P: "\<exists>w. fst (?eps ! Suc n) = Some w \<and> publishes h' (As ! n) (As ! Suc n) (upto_epoch ?eps (Suc n)) w"
    if n: "Suc n < length As" for n
  proof -
    obtain w where w: "fst (eps ! Suc n) = Some w" "publishes h (As ! n) (As ! Suc n) (upto_epoch eps (Suc n)) w"
      using sem_okD(6) [OF sem n] by blast
    have "publishes h' (As ! n) (As ! Suc n) (upto_epoch ?eps (Suc n)) w"
      by (rule publishes_cong [OF _ h(2) _ w(2)]) (use h(1) new n in auto)
    then show ?thesis using w(1) n len by simp
  qed
  have Z: "fst (?eps ! 0) = None" using sem_okD(2,3) [OF sem] len by simp
  have T: "r \<in> upto_epoch ?eps (length As) \<longleftrightarrow> taken (h' ! r)" if "r < length h'" "se_SingleRead (h' ! r)" for r
    using sem_okD(9) [OF sem, of r] t [of r] frozen_eqD(1) [OF h(2), of r] that h(1) up [OF order_refl] m by auto
  have B: "r < length h'" if "A \<in> set As" "A k = Some r" for A k r using sem_okD(8) [OF sem that] h(1) by simp
  have E: "length ?eps = length As" using len by simp
  show ?thesis by (rule sem_okI [OF E sem_okD(2) [OF sem] Z sem_okD(4) [OF sem] L P sem_okD(7) [OF sem] B T])
qed

text \<open>A write publishes: cells it binds anew are new.\<close>

lemma sem_publish:
  assumes sem: "sem_ok h As eps" and w: "publishes (h @ es) (last As) A (upto_epoch eps (length As)) w"
    and A: "\<And>k r. A k = Some r \<Longrightarrow> last As k = Some r \<or> length h \<le> r \<and> r < length h + length es \<and> (\<forall>k'. A k' = Some r \<longrightarrow> k' = k)"
    and es: "\<And>e. e \<in> set es \<Longrightarrow> \<not> taken e"
  shows "sem_ok (h @ es) (As @ [A]) (eps @ [(Some w, [])])"
proof -
  let ?eps = "eps @ [(Some w, [])]" and ?As = "As @ [A]" and ?h = "h @ es"
  note len = sem_okD(1) [OF sem] and ne = sem_okD(2) [OF sem]
  have la: "last As \<in> set As" "last As = As ! (length As - 1)" using ne by (simp_all add: last_conv_nth)
  have up: "upto_epoch ?eps n = upto_epoch eps n" if "n \<le> length As" for n
    by (rule upto_epoch_cong) (use that len in \<open>simp add: nth_append\<close>)
  have up': "upto_epoch ?eps (Suc (length As)) = upto_epoch eps (length As)"
    by (simp add: upto_epoch_Suc up len [symmetric])
  have old: "r < length h" if r: "r \<in> upto_epoch eps (length As)" for r
  proof -
    obtain m k where "m < length As" "(As ! m) k = Some r" by (rule sem_given [OF sem order_refl r])
    then show ?thesis using sem_okD(8) [OF sem, of "As ! m" k r] by simp
  qed
  have L: "legal ?h (?As ! n) (upto_epoch ?eps n) (snd (?eps ! n))" if n: "n < length ?As" for n
  proof (cases "n = length As")
    case False
    then have n': "n < length As" using n by simp
    have "legal ?h (As ! n) (upto_epoch eps n) (snd (eps ! n)) = legal h (As ! n) (upto_epoch eps n) (snd (eps ! n))"
      by (rule legal_cong) (use sem_okD(8) [OF sem nth_mem [OF n']] in \<open>auto simp: nth_append\<close>)
    then show ?thesis using sem_okD(5) [OF sem n'] n' up len by (simp add: nth_append)
  qed (simp add: len [symmetric])
  have P: "\<exists>w. fst (?eps ! Suc n) = Some w \<and> publishes ?h (?As ! n) (?As ! Suc n) (upto_epoch ?eps (Suc n)) w"
    if n: "Suc n < length ?As" for n
  proof (cases "Suc n = length As")
    case True
    then have "last As = As ! n" "n < length As" using la(2) by (simp_all flip: True)
    then show ?thesis using w True up [OF order_refl] len by (simp add: nth_append)
  next
    case False
    then have n': "Suc n < length As" using n by simp
    obtain w' where w': "fst (eps ! Suc n) = Some w'" "publishes h (As ! n) (As ! Suc n) (upto_epoch eps (Suc n)) w'"
      using sem_okD(6) [OF sem n'] by blast
    have "publishes ?h (As ! n) (As ! Suc n) (upto_epoch ?eps (Suc n)) w'"
      by (rule publishes_cong [OF _ _ _ w'(2)]) (use up [of "Suc n"] n' in \<open>auto simp: nth_append\<close>)
    then show ?thesis using w'(1) n' len by (simp add: nth_append)
  qed
  have Z: "fst (?eps ! 0) = None" "?As ! 0 = Map.empty" using sem_okD(3,4) [OF sem] ne len by (simp_all add: nth_append)
  have bound: "r < length ?h" if B: "B \<in> set ?As" "B k = Some r" for B k r
  proof (cases "B \<in> set As")
    case True
    then show ?thesis using sem_okD(8) [OF sem True B(2)] by simp
  next
    case False
    then have "A k = Some r" using B by simp
    from A [OF this] sem_okD(8) [OF sem la(1), of k r] show ?thesis by auto
  qed
  have U: "k = k'" if B: "B \<in> set ?As" "B' \<in> set ?As" "B k = Some r" "B' k' = Some r" for B B' k k' r
  proof -
    have one: "k1 = k2" if C: "C \<in> set As" "C k1 = Some r" "A k2 = Some r" for C k1 k2
      using A [OF C(3)] sem_okD(7) [OF sem C(1) la(1) C(2)] sem_okD(8) [OF sem C(1,2)] by auto
    have two: "k1 = k2" if "A k1 = Some r" "A k2 = Some r" for k1 k2
      using A [OF that(1)] A [OF that(2)] one [OF la(1)] that by blast
    consider "B \<in> set As" "B' \<in> set As" | "B \<in> set As" "B' = A" | "B = A" "B' \<in> set As" | "B = A" "B' = A"
      using B(1,2) by auto
    then show ?thesis
    proof cases
      case 1
      from sem_okD(7) [OF sem this B(3,4)] show ?thesis .
    next
      case 2
      with one [OF 2(1) B(3)] B(4) show ?thesis by blast
    next
      case 3
      with one [OF 3(2) B(4)] B(3) show ?thesis by blast
    next
      case 4
      with two B(3,4) show ?thesis by blast
    qed
  qed
  have T: "r \<in> upto_epoch ?eps (length ?As) \<longleftrightarrow> taken (?h ! r)" if r: "r < length ?h" "se_SingleRead (?h ! r)" for r
  proof (cases "r < length h")
    case True
    then show ?thesis using sem_okD(9) [OF sem True] up' r(2) by (simp add: nth_append)
  next
    case False
    then have "\<not> taken (?h ! r)" using es [OF nth_mem, of "r - length h"] r by (simp add: nth_append)
    then show ?thesis using old False up' by auto
  qed
  have E: "length ?eps = length ?As" "?As \<noteq> []" using len by simp_all
  show ?thesis by (rule sem_okI [OF E Z L P U bound T])
qed

section \<open>Real time\<close>

text \<open>When an operation of a run began and when it made its last step: a \<open>Get\<close> begins when it loads the index, a write
  is one action.\<close>

definition get_starts :: "cow_action list \<Rightarrow> nat list" where
  "get_starts as = filter (\<lambda>t. case as ! t of GetStart k \<Rightarrow> True | _ \<Rightarrow> False) [0..<length as]"

definition get_steps :: "cow_action list \<Rightarrow> nat \<Rightarrow> nat list" where
  "get_steps as i = filter (\<lambda>t. case as ! t of GetStep env j \<Rightarrow> j = i | _ \<Rightarrow> False) [0..<length as]"

fun op_first :: "cow_action list \<Rightarrow> seq_op \<Rightarrow> nat" where
  "op_first as (SeqGet i k env) = get_starts as ! i"
| "op_first as (SeqSet t env k v) = t"
| "op_first as (SeqDelete t ks) = t"

fun op_last :: "cow_action list \<Rightarrow> seq_op \<Rightarrow> nat" where
  "op_last as (SeqGet i k env) = last (get_steps as i)"
| "op_last as (SeqSet t env k v) = t"
| "op_last as (SeqDelete t ks) = t"

fun writes_at :: "nat \<Rightarrow> cow_action \<Rightarrow> seq_op list" where
  "writes_at t (SetPublish env k v) = [SeqSet t env k v]"
| "writes_at t (DeletePublish ks) = [SeqDelete t ks]"
| "writes_at t _ = []"

definition writes_of :: "cow_action list \<Rightarrow> seq_op list" where
  "writes_of as = concat (map (\<lambda>t. writes_at t (as ! t)) [0..<length as])"

fun is_write :: "seq_op \<Rightarrow> bool" where
  "is_write (SeqGet i k env) = False"
| "is_write _ = True"

lemma filter_nth_append: "filter (\<lambda>t. P ((as @ [a]) ! t)) [0..<length as] = filter (\<lambda>t. P (as ! t)) [0..<length as]"
  by (rule filter_cong) (simp_all add: nth_append)

lemma get_starts_snoc: "get_starts (as @ [a]) = get_starts as @ (case a of GetStart k \<Rightarrow> [length as] | _ \<Rightarrow> [])"
  using filter_nth_append [of "\<lambda>a. case a of GetStart k \<Rightarrow> True | _ \<Rightarrow> False" as a]
  by (cases a) (simp_all add: get_starts_def)

lemma get_steps_snoc:
  "get_steps (as @ [a]) i = get_steps as i @ (case a of GetStep env j \<Rightarrow> if j = i then [length as] else [] | _ \<Rightarrow> [])"
  using filter_nth_append [of "\<lambda>a. case a of GetStep env j \<Rightarrow> j = i | _ \<Rightarrow> False" as a]
  by (cases a) (simp_all add: get_steps_def)

lemma writes_of_snoc: "writes_of (as @ [a]) = writes_of as @ writes_at (length as) a"
proof -
  have "map (\<lambda>t. writes_at t ((as @ [a]) ! t)) [0..<length (as @ [a])] =
      map (\<lambda>t. writes_at t (as ! t)) [0..<length as] @ [writes_at (length as) a]"
    by (simp add: nth_append)
  then show ?thesis by (simp add: writes_of_def del: length_append upt_Suc)
qed

lemma get_starts_less: "t \<in> set (get_starts as) \<Longrightarrow> t < length as"
  by (simp add: get_starts_def)

lemma get_steps_less: "t \<in> set (get_steps as i) \<Longrightarrow> t < length as"
  by (simp add: get_steps_def)

lemma get_steps_nonempty: "GetStep env i \<in> set as \<Longrightarrow> get_steps as i \<noteq> []"
proof -
  assume "GetStep env i \<in> set as"
  then obtain t where "t < length as" "as ! t = GetStep env i" by (auto simp: in_set_conv_nth)
  then have "t \<in> set (get_steps as i)" by (simp add: get_steps_def)
  then show ?thesis by auto
qed

text \<open>\<open>ks\<close> has the key of each reader and the epoch in which it began.\<close>

fun op_fits :: "cow_action list \<Rightarrow> (gostring \<times> nat) list \<Rightarrow> seq_op \<Rightarrow> bool" where
  "op_fits as ks (SeqGet i k env) = (i < length ks \<and> k = fst (ks ! i) \<and> GetStep env i \<in> set as)"
| "op_fits as ks (SeqSet t env k v) = (t < length as)"
| "op_fits as ks (SeqDelete t ds) = (t < length as)"

definition ord_ok :: "cow_action list \<Rightarrow> (gostring \<times> nat) list \<Rightarrow> epoch list \<Rightarrow> bool" where
  "ord_ok as ks eps \<longleftrightarrow>
     sorted_wrt (\<lambda>x y. op_first as x \<le> op_last as y) (flat eps) \<and>
     (\<forall>n < length eps. \<forall>w. fst (eps ! n) = Some w \<longrightarrow> is_write w \<and>
        (\<forall>y \<in> set (epoch_ops (eps ! n)). op_first as w \<le> op_last as y) \<and>
        (\<forall>i < length ks. snd (ks ! i) < n \<longrightarrow> get_starts as ! i < op_first as w)) \<and>
     length (get_starts as) = length ks \<and> (\<forall>op \<in> set (flat eps). op_fits as ks op)"

lemma ord_okD:
  assumes "ord_ok as ks eps"
  shows "sorted_wrt (\<lambda>x y. op_first as x \<le> op_last as y) (flat eps)"
    "n < length eps \<Longrightarrow> fst (eps ! n) = Some w \<Longrightarrow> is_write w"
    "n < length eps \<Longrightarrow> fst (eps ! n) = Some w \<Longrightarrow> y \<in> set (epoch_ops (eps ! n)) \<Longrightarrow> op_first as w \<le> op_last as y"
    "n < length eps \<Longrightarrow> fst (eps ! n) = Some w \<Longrightarrow> i < length ks \<Longrightarrow> snd (ks ! i) < n \<Longrightarrow> get_starts as ! i < op_first as w"
    "length (get_starts as) = length ks" "op \<in> set (flat eps) \<Longrightarrow> op_fits as ks op"
  using assms unfolding ord_ok_def by blast+

lemma ord_okI:
  assumes "sorted_wrt (\<lambda>x y. op_first as x \<le> op_last as y) (flat eps)"
    "\<And>n w. n < length eps \<Longrightarrow> fst (eps ! n) = Some w \<Longrightarrow> is_write w"
    "\<And>n w y. n < length eps \<Longrightarrow> fst (eps ! n) = Some w \<Longrightarrow> y \<in> set (epoch_ops (eps ! n)) \<Longrightarrow> op_first as w \<le> op_last as y"
    "\<And>n w i. n < length eps \<Longrightarrow> fst (eps ! n) = Some w \<Longrightarrow> i < length ks \<Longrightarrow> snd (ks ! i) < n \<Longrightarrow> get_starts as ! i < op_first as w"
    "length (get_starts as) = length ks" "\<And>op. op \<in> set (flat eps) \<Longrightarrow> op_fits as ks op"
  shows "ord_ok as ks eps"
  unfolding ord_ok_def using assms by blast

lemma op_first_snoc:
  assumes "op_fits as ks op" "length (get_starts as) = length ks"
  shows "op_first (as @ [a]) op = op_first as op"
  using assms by (cases op) (simp_all add: get_starts_snoc nth_append)

lemma op_first_less:
  assumes "op_fits as ks op" "length (get_starts as) = length ks"
  shows "op_first as op < length as"
  using assms get_starts_less by (cases op) auto

lemma op_last_snoc:
  assumes "op_fits as ks op"
  shows "op_last as op \<le> op_last (as @ [a]) op"
proof (cases op)
  case (SeqGet i k env)
  then have "get_steps as i \<noteq> []" using assms get_steps_nonempty by auto
  then have "last (get_steps as i) < length as" using get_steps_less last_in_set by blast
  then show ?thesis using SeqGet by (cases a) (simp_all add: get_steps_snoc)
qed simp_all

lemma epoch_ops_flat: "n < length eps \<Longrightarrow> y \<in> set (epoch_ops (eps ! n)) \<Longrightarrow> y \<in> set (flat eps)"
  by (auto simp: flat_def)

lemma flat_epoch: "y \<in> set (flat eps) \<Longrightarrow> \<exists>n < length eps. y \<in> set (epoch_ops (eps ! n))"
proof -
  assume "y \<in> set (flat eps)"
  then obtain ep where ep: "ep \<in> set eps" "y \<in> set (epoch_ops ep)" by (auto simp: flat_def)
  then obtain n where "n < length eps" "eps ! n = ep" by (auto simp: in_set_conv_nth)
  then show ?thesis using ep(2) by blast
qed

lemma write_in_epoch: "fst ep = Some w \<Longrightarrow> w \<in> set (epoch_ops ep)"
  by (simp add: epoch_ops_def)

text \<open>The run goes on with another action, and perhaps with a new reader.\<close>

lemma ord_extend:
  assumes ok: "ord_ok as ks eps"
    and new: "length (get_starts (as @ [a])) = length (ks @ new)" "\<And>i. i < length new \<Longrightarrow> length eps \<le> Suc (snd (new ! i))"
  shows "ord_ok (as @ [a]) (ks @ new) eps"
proof (rule ord_okI)
  have fits: "op_fits as ks op" if "op \<in> set (flat eps)" for op by (rule ord_okD(6) [OF ok that])
  note len = ord_okD(5) [OF ok]
  show "sorted_wrt (\<lambda>x y. op_first (as @ [a]) x \<le> op_last (as @ [a]) y) (flat eps)"
  proof (rule sorted_wrt_mono_rel [OF _ ord_okD(1) [OF ok]])
    fix x y assume "x \<in> set (flat eps)" "y \<in> set (flat eps)" "op_first as x \<le> op_last as y"
    then show "op_first (as @ [a]) x \<le> op_last (as @ [a]) y"
      using op_first_snoc [OF fits len] op_last_snoc [OF fits] by (metis le_trans)
  qed
  show "length (get_starts (as @ [a])) = length (ks @ new)" by (rule new(1))
  show "op_fits (as @ [a]) (ks @ new) op" if "op \<in> set (flat eps)" for op
    using fits [OF that] by (cases op) (auto simp: nth_append)
  fix n w assume n: "n < length eps" "fst (eps ! n) = Some w"
  have wf: "op_fits as ks w" by (rule fits [OF epoch_ops_flat [OF n(1) write_in_epoch [OF n(2)]]])
  show "is_write w" by (rule ord_okD(2) [OF ok n])
  show "op_first (as @ [a]) w \<le> op_last (as @ [a]) y" if "y \<in> set (epoch_ops (eps ! n))" for y
    using ord_okD(3) [OF ok n that] op_first_snoc [OF wf len] op_last_snoc [OF fits [OF epoch_ops_flat [OF n(1) that]]]
    by (metis le_trans)
  show "get_starts (as @ [a]) ! i < op_first (as @ [a]) w" if i: "i < length (ks @ new)" "snd ((ks @ new) ! i) < n" for i
  proof (cases "i < length ks")
    case True
    then show ?thesis using ord_okD(4) [OF ok n True] i(2) op_first_snoc [OF wf len] len
      by (simp add: get_starts_snoc nth_append)
  next
    case False
    then have "i - length ks < length new" using i(1) by simp
    from new(2) [OF this] i n(1) False show ?thesis by (simp add: nth_append)
  qed
qed

lemma flat_place:
  assumes "m < length eps"
  shows "flat eps = flat (take (Suc m) eps) @ flat (drop (Suc m) eps)"
    "flat (place m x eps) = flat (take (Suc m) eps) @ fst x # flat (drop (Suc m) eps)"
proof -
  show "flat eps = flat (take (Suc m) eps) @ flat (drop (Suc m) eps)"
    unfolding flat_def concat_append [symmetric] map_append [symmetric] by simp
  have "place m x eps = take m eps @ (fst (eps ! m), snd (eps ! m) @ [x]) # drop (Suc m) eps"
    using assms by (simp add: place_def upd_conv_take_nth_drop)
  then show "flat (place m x eps) = flat (take (Suc m) eps) @ fst x # flat (drop (Suc m) eps)"
    using assms by (simp add: flat_def epoch_ops_def take_Suc_conv_app_nth)
qed

text \<open>An operation that makes its last step now is placed in an epoch that had begun when it began or later.\<close>

lemma ord_place:
  assumes ok: "ord_ok as ks eps" and m: "m < length eps" and x: "op_fits as ks (fst x)" "op_last as (fst x) = length as - 1"
    and w: "\<And>n. Suc n < length eps \<Longrightarrow> fst (eps ! Suc n) \<noteq> None"
    and later: "\<And>n w. m < n \<Longrightarrow> n < length eps \<Longrightarrow> fst (eps ! n) = Some w \<Longrightarrow> op_first as (fst x) \<le> op_first as w"
  shows "ord_ok as ks (place m x eps)"
proof (rule ord_okI)
  let ?pre = "flat (take (Suc m) eps)" and ?post = "flat (drop (Suc m) eps)"
  note f = flat_place [OF m]
  have fits: "op_fits as ks op" if "op \<in> set (flat eps)" for op by (rule ord_okD(6) [OF ok that])
  have first: "op_first as op \<le> op_last as (fst x)" if "op \<in> set (flat eps)" for op
    using op_first_less [OF fits [OF that] ord_okD(5) [OF ok]] x(2) by simp
  have after: "op_first as (fst x) \<le> op_last as y" if y: "y \<in> set ?post" for y
  proof -
    obtain n where n: "n < length eps - Suc m" "y \<in> set (epoch_ops (drop (Suc m) eps ! n))"
      using flat_epoch [OF y] by auto
    then have n': "Suc m + n < length eps" "y \<in> set (epoch_ops (eps ! (Suc m + n)))" by simp_all
    obtain w' where w': "fst (eps ! (Suc m + n)) = Some w'" using w [of "m + n"] n'(1) by auto
    show ?thesis using later [OF _ n'(1) w'] ord_okD(3) [OF ok n'(1) w' n'(2)] by simp
  qed
  show "sorted_wrt (\<lambda>x y. op_first as x \<le> op_last as y) (flat (place m x eps))"
    using ord_okD(1) [OF ok] first after f(1) unfolding f(2) by (auto simp: sorted_wrt_append)
  show "length (get_starts as) = length ks" by (rule ord_okD(5) [OF ok])
  show "op_fits as ks op" if "op \<in> set (flat (place m x eps))" for op
    using that fits x(1) f(1) unfolding f(2) by auto
  fix n w' assume "n < length (place m x eps)" "fst (place m x eps ! n) = Some w'"
  then have n: "n < length eps" "fst (eps ! n) = Some w'" by simp_all
  have wf: "w' \<in> set (flat eps)" by (rule epoch_ops_flat [OF n(1) write_in_epoch [OF n(2)]])
  show "is_write w'" by (rule ord_okD(2) [OF ok n])
  show "op_first as w' \<le> op_last as y" if y: "y \<in> set (epoch_ops (place m x eps ! n))" for y
  proof (cases "y = fst x")
    case True
    then show ?thesis using first [OF wf] by simp
  next
    case False
    then have "y \<in> set (epoch_ops (eps ! n))" using y n(1) by (auto simp: place_nth epoch_ops_def split: if_splits)
    then show ?thesis by (rule ord_okD(3) [OF ok n])
  qed
  show "get_starts as ! i < op_first as w'" if "i < length ks" "snd (ks ! i) < n" for i
    by (rule ord_okD(4) [OF ok n that])
qed

text \<open>A write publishes now: it begins a new epoch.\<close>

lemma ord_publish:
  assumes ok: "ord_ok as ks eps" and w: "writes_at (length as) a = [w]"
  shows "ord_ok (as @ [a]) ks (eps @ [(Some w, [])])"
proof (rule ord_okI)
  have st: "get_starts (as @ [a]) = get_starts as" using w by (cases a) (simp_all add: get_starts_snoc)
  note len = ord_okD(5) [OF ok]
  have "ord_ok (as @ [a]) (ks @ []) eps" by (rule ord_extend [OF ok]) (simp_all add: st len)
  then have ok': "ord_ok (as @ [a]) ks eps" by simp
  have wt: "is_write w" "op_first (as @ [a]) w = length as" "op_last (as @ [a]) w = length as" "op_fits (as @ [a]) ks w"
    using w by (cases a; auto)+
  have fits: "op_fits (as @ [a]) ks op" if "op \<in> set (flat eps)" for op by (rule ord_okD(6) [OF ok' that])
  have f: "flat (eps @ [(Some w, [])]) = flat eps @ [w]" by (simp add: flat_def epoch_ops_def)
  have first: "op_first (as @ [a]) op \<le> length as" if "op \<in> set (flat eps)" for op
    using op_first_less [OF fits [OF that]] st len by simp
  show "sorted_wrt (\<lambda>x y. op_first (as @ [a]) x \<le> op_last (as @ [a]) y) (flat (eps @ [(Some w, [])]))"
    using ord_okD(1) [OF ok'] first unfolding f by (simp add: sorted_wrt_append wt)
  show "length (get_starts (as @ [a])) = length ks" by (simp add: st len)
  show "op_fits (as @ [a]) ks op" if "op \<in> set (flat (eps @ [(Some w, [])]))" for op
    using that fits wt(4) unfolding f by auto
  fix n w' assume n: "n < length (eps @ [(Some w, [])])" "fst ((eps @ [(Some w, [])]) ! n) = Some w'"
  have "is_write w' \<and> (\<forall>y \<in> set (epoch_ops ((eps @ [(Some w, [])]) ! n)). op_first (as @ [a]) w' \<le> op_last (as @ [a]) y) \<and>
      (\<forall>i < length ks. snd (ks ! i) < n \<longrightarrow> get_starts (as @ [a]) ! i < op_first (as @ [a]) w')"
  proof (cases "n < length eps")
    case True
    then have "fst (eps ! n) = Some w'" using n(2) by (simp add: nth_append)
    then show ?thesis using True ord_okD(2-4) [OF ok' True] by (simp add: nth_append)
  next
    case False
    then have n': "n = length eps" "w' = w" using n by (simp_all add: nth_append)
    have "get_starts as ! i < length as" if "i < length ks" for i
      using get_starts_less [OF nth_mem] that len by simp
    then show ?thesis by (simp add: n' epoch_ops_def wt st)
  qed
  then show "is_write w'" "\<And>y. y \<in> set (epoch_ops ((eps @ [(Some w, [])]) ! n)) \<Longrightarrow> op_first (as @ [a]) w' \<le> op_last (as @ [a]) y"
    "\<And>i. i < length ks \<Longrightarrow> snd (ks ! i) < n \<Longrightarrow> get_starts (as @ [a]) ! i < op_first (as @ [a]) w'" by blast+
qed

section \<open>The invariant of a run\<close>

text \<open>The answer a \<open>Get\<close> will give, once that is certain, as the cell it is given.\<close>

fun decided :: "reader_pc \<Rightarrow> nat option option" where
  "decided (Returned res) = Some (map_option fst res)"
| "decided (Copying r) = Some (Some r)"
| "decided (Counted r) = Some (Some r)"
| "decided _ = None"

definition get_ids :: "seq_op list \<Rightarrow> nat list" where
  "get_ids ops = concat (map (\<lambda>op. case op of SeqGet i k env \<Rightarrow> [i] | _ \<Rightarrow> []) ops)"

lemma get_ids_simps [simp]:
  "get_ids [] = []" "get_ids (SeqGet i k env # ops) = i # get_ids ops" "get_ids (SeqSet t env k v # ops) = get_ids ops"
  "get_ids (SeqDelete t ks # ops) = get_ids ops" "get_ids (xs @ ys) = get_ids xs @ get_ids ys"
  by (simp_all add: get_ids_def)

text \<open>A reader is in the order, with its answer, from when that is certain, and only once. One that has found its
  entry alive has looked at a clock that says so.\<close>

fun in_order :: "epoch list \<Rightarrow> nat \<Rightarrow> gostring \<Rightarrow> nat option option \<Rightarrow> bool" where
  "in_order eps i k None = (i \<notin> set (get_ids (flat eps)))"
| "in_order eps i k (Some c) = (\<exists>env. \<exists>ep \<in> set eps. (SeqGet i k env, c) \<in> set (snd ep))"

definition dec_ok :: "cow_action list \<Rightarrow> storage_entry list \<Rightarrow> reader list \<Rightarrow> epoch list \<Rightarrow> bool" where
  "dec_ok as h rds eps \<longleftrightarrow>
     distinct (get_ids (flat eps)) \<and>
     (\<forall>i < length rds. in_order eps i (rd_key (rds ! i)) (decided (rd_pc (rds ! i)))) \<and>
     (\<forall>i < length rds. \<forall>r. rd_pc (rds ! i) = Live r \<longrightarrow>
        (\<exists>env. GetStep env i \<in> set as \<and> \<not> IsExpired (env_now env) (h ! r)))"

abbreviation bindings :: "hasher \<Rightarrow> cow_state \<Rightarrow> (gostring \<rightharpoonup> nat) list" where
  "bindings hash s \<equiv> map (ref_lookup hash) (co_indexes s)"

abbreviation reader_starts :: "cow_state \<Rightarrow> (gostring \<times> nat) list" where
  "reader_starts s \<equiv> map (\<lambda>rd. (rd_key rd, rd_start rd)) (co_readers s)"

definition maps_ok :: "hasher \<Rightarrow> cow_state \<Rightarrow> bool" where
  "maps_ok hash s \<longleftrightarrow> (\<forall>idx \<in> set (co_indexes s). ref_sorted idx \<and> ref_lookup hash idx [] = None)"

definition lin_ok :: "hasher \<Rightarrow> cow_action list \<Rightarrow> cow_state \<Rightarrow> epoch list \<Rightarrow> bool" where
  "lin_ok hash as s eps \<longleftrightarrow>
     cow_ok hash s \<and> maps_ok hash s \<and> sem_ok (co_heap s) (bindings hash s) eps \<and> ord_ok as (reader_starts s) eps \<and>
     filter is_write (flat eps) = writes_of as \<and> dec_ok as (co_heap s) (co_readers s) eps"

lemma lin_okD:
  assumes "lin_ok hash as s eps"
  shows "cow_ok hash s" "maps_ok hash s" "sem_ok (co_heap s) (bindings hash s) eps" "ord_ok as (reader_starts s) eps"
    "filter is_write (flat eps) = writes_of as" "dec_ok as (co_heap s) (co_readers s) eps"
  using assms by (simp_all add: lin_ok_def)

lemma lin_length: "lin_ok hash as s eps \<Longrightarrow> length eps = length (co_indexes s)"
  using sem_okD(1) [OF lin_okD(3)] by simp

text \<open>A reader moves without an answer being made certain.\<close>

lemma dec_move:
  assumes dec: "dec_ok as h rds eps" and i: "i < length rds" and d: "decided pc = decided (rd_pc (rds ! i))"
    and h: "\<And>j r. j < length rds \<Longrightarrow> rd_pc (rds ! j) = Live r \<Longrightarrow> frozen (h' ! r) = frozen (h ! r)"
    and l: "\<And>r. pc = Live r \<Longrightarrow> \<exists>env. GetStep env i \<in> set (as @ [a]) \<and> \<not> IsExpired (env_now env) (h' ! r)"
  shows "dec_ok (as @ [a]) h' (rds[i := (rds ! i)\<lparr>rd_pc := pc\<rparr>]) eps"
proof -
  let ?rds = "rds[i := (rds ! i)\<lparr>rd_pc := pc\<rparr>]"
  have same: "decided (rd_pc (?rds ! j)) = decided (rd_pc (rds ! j)) \<and> rd_key (?rds ! j) = rd_key (rds ! j)" if "j < length rds" for j
    using d that by (cases "j = i") simp_all
  have "\<exists>env. GetStep env j \<in> set (as @ [a]) \<and> \<not> IsExpired (env_now env) (h' ! r)"
    if j: "j < length rds" "rd_pc (?rds ! j) = Live r" for j r
  proof (cases "j = i")
    case True
    then show ?thesis using l j by simp
  next
    case False
    then have pc: "rd_pc (rds ! j) = Live r" using j(2) by simp
    obtain env where "GetStep env j \<in> set as" "\<not> IsExpired (env_now env) (h ! r)"
      using dec j(1) pc unfolding dec_ok_def by blast
    then show ?thesis using frozen_eqD(2) [OF h [OF j(1) pc]] by auto
  qed
  moreover have "in_order eps j (rd_key (?rds ! j)) (decided (rd_pc (?rds ! j)))" if j: "j < length rds" for j
  proof -
    have "in_order eps j (rd_key (rds ! j)) (decided (rd_pc (rds ! j)))" using dec j by (simp add: dec_ok_def)
    then show ?thesis using same [OF j] by metis
  qed
  ultimately show ?thesis using dec by (simp add: dec_ok_def)
qed

text \<open>The answer of a reader becomes certain, and it is placed.\<close>

lemma dec_place:
  assumes dec: "dec_ok as h rds eps" and m: "m < length eps" and i: "i < length rds"
    and d: "decided (rd_pc (rds ! i)) = None" "decided pc = Some c"
    and h: "\<And>j r. j < length rds \<Longrightarrow> rd_pc (rds ! j) = Live r \<Longrightarrow> frozen (h' ! r) = frozen (h ! r)"
  shows "dec_ok (as @ [a]) h' (rds[i := (rds ! i)\<lparr>rd_pc := pc\<rparr>]) (place m (SeqGet i (rd_key (rds ! i)) env0, c) eps)"
proof -
  let ?rds = "rds[i := (rds ! i)\<lparr>rd_pc := pc\<rparr>]" and ?x = "(SeqGet i (rd_key (rds ! i)) env0, c)"
  let ?eps = "place m ?x eps"
  note f = flat_place [OF m]
  have old: "in_order eps j (rd_key (rds ! j)) (decided (rd_pc (rds ! j)))" if "j < length rds" for j
    using dec that by (simp add: dec_ok_def)
  have new: "i \<notin> set (get_ids (flat eps))" using old [OF i] d(1) by simp
  have ids: "set (get_ids (flat ?eps)) = insert i (set (get_ids (flat eps)))" "distinct (get_ids (flat ?eps))"
    using dec new unfolding f(2) [of ?x] by (auto simp: dec_ok_def f(1))
  have keep: "\<exists>ep \<in> set ?eps. y \<in> set (snd ep)" if ep: "ep \<in> set eps" "y \<in> set (snd ep)" for ep y
  proof -
    obtain n where n: "n < length eps" "eps ! n = ep" using ep(1) by (auto simp: in_set_conv_nth)
    have "?eps ! n \<in> set ?eps" by (rule nth_mem) (simp add: n(1))
    moreover have "y \<in> set (snd (?eps ! n))" using n ep(2) by (auto simp: place_nth)
    ultimately show ?thesis by blast
  qed
  have "?eps ! m \<in> set ?eps" by (rule nth_mem) (simp add: m)
  moreover have "?x \<in> set (snd (?eps ! m))" using m by (simp add: place_nth)
  ultimately have here: "\<exists>ep \<in> set ?eps. ?x \<in> set (snd ep)" by blast
  have "in_order ?eps j (rd_key (?rds ! j)) (decided (rd_pc (?rds ! j)))" if j: "j < length rds" for j
  proof (cases "j = i")
    case True
    then show ?thesis using here d(2) j by auto
  next
    case False
    then have same: "?rds ! j = rds ! j" by simp
    show ?thesis
    proof (cases "decided (rd_pc (rds ! j))")
      case None
      then show ?thesis using old [OF j] False ids(1) by (simp add: same)
    next
      case (Some c')
      then obtain env ep where "ep \<in> set eps" "(SeqGet j (rd_key (rds ! j)) env, c') \<in> set (snd ep)"
        using old [OF j] by auto
      from keep [OF this] show ?thesis by (auto simp: same Some)
    qed
  qed
  moreover have "\<exists>env. GetStep env j \<in> set (as @ [a]) \<and> \<not> IsExpired (env_now env) (h' ! r)"
    if j: "j < length rds" "rd_pc (?rds ! j) = Live r" for j r
  proof -
    have "j \<noteq> i" using j d(2) by auto
    then have pc: "rd_pc (rds ! j) = Live r" using j(2) by simp
    obtain env where "GetStep env j \<in> set as" "\<not> IsExpired (env_now env) (h ! r)"
      using dec j(1) pc unfolding dec_ok_def by blast
    then show ?thesis using frozen_eqD(2) [OF h [OF j(1) pc]] by auto
  qed
  ultimately show ?thesis using ids(2) by (simp add: dec_ok_def)
qed

text \<open>The two kinds of steps of a reader, for the whole invariant.\<close>

lemma reader_starts_set_pc:
  "i < length (co_readers s) \<Longrightarrow> reader_starts (set_pc i pc s) = reader_starts s"
  by (simp add: set_pc_def map_update list_update_same_conv)

lemma live_cell:
  assumes "cow_ok hash s" "j < length (co_readers s)" "rd_pc (co_readers s ! j) = Live r"
  shows "r < length (co_heap s)"
  by (rule reader_at(1) [OF assms(1,2)]) (simp add: assms(3))

lemma ord_reader_step:
  assumes "ord_ok as ks eps"
  shows "ord_ok (as @ [GetStep env i]) ks eps" "get_starts (as @ [GetStep env i]) = get_starts as"
proof -
  show s: "get_starts (as @ [GetStep env i]) = get_starts as" by (simp add: get_starts_snoc)
  have "ord_ok (as @ [GetStep env i]) (ks @ []) eps" by (rule ord_extend [OF assms]) (simp_all add: s ord_okD(5) [OF assms])
  then show "ord_ok (as @ [GetStep env i]) ks eps" by simp
qed

lemma lin_move:
  assumes ok: "lin_ok hash as s eps" and i: "i < length (co_readers s)" and c: "cow_ok hash s'"
    and s': "s' = set_pc i pc (s\<lparr>co_heap := h, co_pending := p\<rparr>)" and d: "decided pc = decided (rd_pc (co_readers s ! i))"
    and h: "length h = length (co_heap s)" "\<And>r. r < length (co_heap s) \<Longrightarrow> frozen (h ! r) = frozen (co_heap s ! r)"
    and t: "\<And>r. r < length (co_heap s) \<Longrightarrow> se_SingleRead (co_heap s ! r) \<Longrightarrow> taken (h ! r) \<longleftrightarrow> taken (co_heap s ! r)"
    and l: "\<And>r. pc = Live r \<Longrightarrow> \<not> IsExpired (env_now env) (h ! r)"
  shows "lin_ok hash (as @ [GetStep env i]) s' eps"
proof -
  note parts = lin_okD [OF ok]
  have f: "co_heap s' = h" "co_indexes s' = co_indexes s" "reader_starts s' = reader_starts s"
    "co_readers s' = (co_readers s)[i := (co_readers s ! i)\<lparr>rd_pc := pc\<rparr>]"
    using reader_starts_set_pc [of i "s\<lparr>co_heap := h, co_pending := p\<rparr>" pc] i by (simp_all add: s' set_pc_def)
  have "dec_ok (as @ [GetStep env i]) h (co_readers s') eps"
    unfolding f(4) by (rule dec_move [OF parts(6) i d]) (use h(2) live_cell [OF parts(1)] l in auto)
  moreover have "sem_ok h (bindings hash s) eps" by (rule sem_heap [OF parts(3) h t])
  moreover have "maps_ok hash s'" using parts(2) by (simp add: maps_ok_def f)
  ultimately show ?thesis using c parts(5) ord_reader_step(1) [OF parts(4), of env i]
    by (simp add: lin_ok_def f(1-3) writes_of_snoc)
qed

lemma lin_place:
  assumes ok: "lin_ok hash as s eps" and i: "i < length (co_readers s)" and c: "cow_ok hash s'"
    and s': "s' = set_pc i pc (s\<lparr>co_heap := h, co_pending := p\<rparr>)"
    and d: "decided (rd_pc (co_readers s ! i)) = None" "decided pc = Some a"
    and h: "length h = length (co_heap s)" "\<And>r. r < length (co_heap s) \<Longrightarrow> frozen (h ! r) = frozen (co_heap s ! r)"
    and t: "\<And>r. r < length (co_heap s) \<Longrightarrow> se_SingleRead (co_heap s ! r) \<Longrightarrow> taken (h ! r) \<longleftrightarrow> taken (co_heap s ! r) \<or> a = Some r"
    and m: "rd_start (co_readers s ! i) \<le> m" "m < length (co_indexes s)"
    and a: "a = cell_get (co_heap s) env0 (bindings hash s ! m) (upto_epoch eps (Suc m)) (rd_key (co_readers s ! i))"
    and e: "GetStep env0 i \<in> set (as @ [GetStep env i])"
    and last: "\<And>r n k. a = Some r \<Longrightarrow> m < n \<Longrightarrow> n < length (co_indexes s) \<Longrightarrow> (bindings hash s ! n) k \<noteq> Some r"
  shows "lin_ok hash (as @ [GetStep env i]) s' (place m (SeqGet i (rd_key (co_readers s ! i)) env0, a) eps)"
proof -
  let ?as = "as @ [GetStep env i]" and ?x = "(SeqGet i (rd_key (co_readers s ! i)) env0, a)"
  note parts = lin_okD [OF ok]
  note len = lin_length [OF ok]
  have f: "co_heap s' = h" "co_indexes s' = co_indexes s" "reader_starts s' = reader_starts s"
    "co_readers s' = (co_readers s)[i := (co_readers s ! i)\<lparr>rd_pc := pc\<rparr>]"
    using reader_starts_set_pc [of i "s\<lparr>co_heap := h, co_pending := p\<rparr>" pc] i by (simp_all add: s' set_pc_def)
  have m': "m < length eps" "m < length (bindings hash s)" using m(2) len by simp_all
  have "dec_ok ?as h (co_readers s') (place m ?x eps)"
    unfolding f(4) by (rule dec_place [OF parts(6) m'(1) i d]) (use h(2) live_cell [OF parts(1)] in auto)
  moreover have "sem_ok h (bindings hash s) (place m ?x eps)"
    by (rule sem_place [OF parts(3) m'(2) _ _ h]) (use a last t in simp_all)
  moreover have "ord_ok ?as (reader_starts s) (place m ?x eps)"
  proof (rule ord_place [OF ord_reader_step(1) [OF parts(4)] m'(1)])
    show "op_fits ?as (reader_starts s) (fst ?x)" using i e by simp
    show "op_last ?as (fst ?x) = length ?as - 1" by (simp add: get_steps_snoc)
    show "fst (eps ! Suc n) \<noteq> None" if "Suc n < length eps" for n
      using sem_okD(6) [OF parts(3), of n] that len by auto
    show "op_first ?as (fst ?x) \<le> op_first ?as w" if "m < n" "n < length eps" "fst (eps ! n) = Some w" for n w
      using ord_okD(4) [OF ord_reader_step(1) [OF parts(4)] that(2,3), of i env i] that(1) m(1) i by (simp add: less_imp_le)
  qed
  moreover have "filter is_write (flat (place m ?x eps)) = filter is_write (flat eps)"
    unfolding flat_place(2) [OF m'(1)] flat_place(1) [OF m'(1)] by simp
  moreover have "maps_ok hash s'" using parts(2) by (simp add: maps_ok_def f)
  ultimately show ?thesis using c parts(5) by (simp add: lin_ok_def f(1-3) writes_of_snoc)
qed

text \<open>The step of a reader that makes its answer certain, or not.\<close>

lemma binding_at:
  assumes "cow_ok hash s" "i < length (co_readers s)"
  shows "rd_start (co_readers s ! i) < length (co_indexes s)"
    "pc_ref (rd_pc (co_readers s ! i)) = Some r \<Longrightarrow>
      (bindings hash s ! rd_start (co_readers s ! i)) (rd_key (co_readers s ! i)) = Some r"
  using cow_ok_reader [OF assms] by (simp_all add: reader_ok_def)

lemma lin_find:
  assumes ok: "lin_ok hash as s eps" and i: "i < length (co_readers s)" and c: "cow_ok hash (Get_find hash i idx s)"
    and pc: "rd_pc (co_readers s ! i) = Loaded idx"
  shows "\<exists>eps'. lin_ok hash (as @ [GetStep env i]) (Get_find hash i idx s) eps'"
proof -
  let ?rd = "co_readers s ! i" and ?n = "rd_start (co_readers s ! i)"
  note parts = lin_okD [OF ok]
  note b = binding_at(1) [OF parts(1) i]
  have idx: "idx = co_indexes s ! ?n" using cow_ok_reader [OF parts(1) i] pc by (simp add: reader_ok_def)
  have io: "idx_ok (length (co_heap s)) idx" "idx_ok (length (co_heap s)) (snapshot s)"
    using parts(1) b idx by (simp_all add: cow_ok_def snapshot_def)
  obtain j found where bs: "BinarySearch (rg_keys (ref_segment hash idx (rd_key ?rd))) (rd_key ?rd) = (j, found)" by fastforce
  let ?r = "rg_vals (ref_segment hash idx (rd_key ?rd)) ! j"
  have eq: "Get_find hash i idx s = (if found then set_pc i (Found ?r) s else set_pc i (Returned None) s)"
    by (simp add: Get_find_def Let_def ref_segment_cong [OF io] bs)
  have same: "set_pc i pc s = set_pc i pc (s\<lparr>co_heap := co_heap s, co_pending := co_pending s\<rparr>)" for pc by simp
  show ?thesis
  proof (cases found)
    case True
    then have "lin_ok hash (as @ [GetStep env i]) (Get_find hash i idx s) eps"
      by (intro lin_move [OF ok i c, where pc = "Found ?r" and h = "co_heap s" and p = "co_pending s"]) (simp_all add: eq pc)
    then show ?thesis by blast
  next
    case False
    then have "ref_lookup hash idx (rd_key ?rd) = None" by (simp add: ref_lookup_def Let_def bs)
    then have a: "None = cell_get (co_heap s) env (bindings hash s ! ?n) (upto_epoch eps (Suc ?n)) (rd_key ?rd)"
      using b by (simp add: cell_get_def idx)
    have "lin_ok hash (as @ [GetStep env i]) (Get_find hash i idx s) (place ?n (SeqGet i (rd_key ?rd) env, None) eps)"
      by (rule lin_place [OF ok i c, where pc = "Returned None" and h = "co_heap s" and p = "co_pending s"])
        (use False b a in \<open>simp_all add: eq pc\<close>)
    then show ?thesis by blast
  qed
qed

lemma lin_expired:
  assumes ok: "lin_ok hash as s eps" and i: "i < length (co_readers s)" and c: "cow_ok hash (Get_expired (env_now env) i r s)"
    and pc: "rd_pc (co_readers s ! i) = Found r"
  shows "\<exists>eps'. lin_ok hash (as @ [GetStep env i]) (Get_expired (env_now env) i r s) eps'"
proof -
  let ?rd = "co_readers s ! i" and ?n = "rd_start (co_readers s ! i)"
  note parts = lin_okD [OF ok]
  note b = binding_at(1) [OF parts(1) i] binding_at(2) [OF parts(1) i, of r]
  show ?thesis
  proof (cases "IsExpired (env_now env) (co_heap s ! r)")
    case True
    then have a: "None = cell_get (co_heap s) env (bindings hash s ! ?n) (upto_epoch eps (Suc ?n)) (rd_key ?rd)"
      using b by (simp add: cell_get_def pc)
    have "lin_ok hash (as @ [GetStep env i]) (Get_expired (env_now env) i r s) (place ?n (SeqGet i (rd_key ?rd) env, None) eps)"
      by (rule lin_place [OF ok i c, where pc = "Returned None" and h = "co_heap s" and p = "co_pending s @ [rd_key ?rd]"])
        (use True b a in \<open>simp_all add: Get_expired_def pc\<close>)
    then show ?thesis by blast
  next
    case False
    then have "lin_ok hash (as @ [GetStep env i]) (Get_expired (env_now env) i r s) eps"
      by (intro lin_move [OF ok i c, where pc = "Live r" and h = "co_heap s" and p = "co_pending s"]) (simp_all add: Get_expired_def pc)
    then show ?thesis by blast
  qed
qed

text \<open>The last epoch in which a cell is bound. It was given by then if it was ever given.\<close>

lemma last_bound:
  assumes sem: "sem_ok h As eps" and n: "n < length As" "(As ! n) k = Some r"
  obtains m where "n \<le> m" "m < length As" "(As ! m) k = Some r" "\<forall>n' k'. m < n' \<longrightarrow> n' < length As \<longrightarrow> (As ! n') k' \<noteq> Some r"
    "r \<in> upto_epoch eps (length As) \<longleftrightarrow> r \<in> upto_epoch eps (Suc m)"
proof -
  let ?N = "{n'. n' < length As \<and> (As ! n') k = Some r}"
  have fin: "finite ?N" by simp
  have ne: "n \<in> ?N" using n by simp
  define m where "m = Max ?N"
  have m: "m \<in> ?N" unfolding m_def by (rule Max_in) (use fin ne in auto)
  have top: "n' \<le> m" if "n' \<in> ?N" for n' unfolding m_def by (rule Max_ge [OF fin that])
  have later: "(As ! n') k' \<noteq> Some r" if n': "m < n'" "n' < length As" for n' k'
  proof
    assume b: "(As ! n') k' = Some r"
    then have "k' = k" using sem_okD(7) [OF sem, of "As ! n'" "As ! n"] n'(2) n by simp
    then show False using top [of n'] b n' by simp
  qed
  have up: "r \<in> upto_epoch eps (length As) \<longleftrightarrow> r \<in> upto_epoch eps (Suc m)"
  proof
    assume r: "r \<in> upto_epoch eps (length As)"
    obtain n' k' where b: "n' < length As" "r \<in> given (snd (eps ! n'))" "(As ! n') k' = Some r"
      by (rule sem_given [OF sem order_refl r])
    then have "n' \<le> m" using later [of n' k'] by (metis not_le)
    then show "r \<in> upto_epoch eps (Suc m)" using b(2) by (auto simp: upto_epoch_def)
  next
    assume "r \<in> upto_epoch eps (Suc m)"
    then show "r \<in> upto_epoch eps (length As)" using m by (auto simp: upto_epoch_def)
  qed
  have "\<forall>n' k'. m < n' \<longrightarrow> n' < length As \<longrightarrow> (As ! n') k' \<noteq> Some r" using later by blast
  then show thesis using that [OF top [OF ne] _ _ _ up] m by blast
qed

lemma lin_count:
  assumes ok: "lin_ok hash as s eps" and i: "i < length (co_readers s)" and c: "cow_ok hash (Get_count i r s)"
    and pc: "rd_pc (co_readers s ! i) = Live r"
  shows "\<exists>eps'. lin_ok hash (as @ [GetStep env i]) (Get_count i r s) eps'"
proof -
  let ?rd = "co_readers s ! i" and ?e = "co_heap s ! r"
  note parts = lin_okD [OF ok]
  have b: "rd_start ?rd < length (bindings hash s)" "(bindings hash s ! rd_start ?rd) (rd_key ?rd) = Some r"
    using binding_at(1) [OF parts(1) i] binding_at(2) [OF parts(1) i, of r] pc by simp_all
  obtain m where m: "rd_start ?rd \<le> m" "m < length (bindings hash s)" "(bindings hash s ! m) (rd_key ?rd) = Some r"
    "\<forall>n k. m < n \<longrightarrow> n < length (bindings hash s) \<longrightarrow> (bindings hash s ! n) k \<noteq> Some r"
    "r \<in> upto_epoch eps (length (bindings hash s)) \<longleftrightarrow> r \<in> upto_epoch eps (Suc m)"
    by (rule last_bound [OF parts(3) b])
  have r: "r < length (co_heap s)" by (rule live_cell [OF parts(1) i pc])
  have given: "se_SingleRead ?e \<Longrightarrow> r \<in> upto_epoch eps (Suc m) \<longleftrightarrow> taken ?e"
    using sem_okD(9) [OF parts(3) r] m(5) by simp
  obtain env0 where e: "GetStep env0 i \<in> set as" "\<not> IsExpired (env_now env0) ?e"
    using parts(6) i pc unfolding dec_ok_def by blast
  have e': "GetStep env0 i \<in> set (as @ [GetStep env i])" using e(1) by simp
  have d: "decided (rd_pc ?rd) = None" by (simp add: pc)
  have len: "m < length (co_indexes s)" using m(2) by simp
  have m4: "(bindings hash s ! n) k \<noteq> Some r'" if "a = Some r'" "a = None \<or> a = Some r" "m < n" "n < length (co_indexes s)" for a r' n k
    using m(4) that by auto
  have get: "cell_get (co_heap s) env0 (bindings hash s ! m) (upto_epoch eps (Suc m)) (rd_key ?rd) =
      (if se_SingleRead ?e \<and> taken ?e then None else Some r)"
    using m(3) e(2) given by (cases "se_SingleRead ?e") (simp_all add: cell_get_def)
  consider (win) "se_SingleRead ?e" "se_AccessCount ?e = 0" | (lost) "se_SingleRead ?e" "se_AccessCount ?e \<noteq> 0"
    | (many) "\<not> se_SingleRead ?e" by blast
  then show ?thesis
  proof cases
    case win
    let ?h = "(co_heap s)[r := ?e\<lparr>se_AccessCount := 1\<rparr>]"
    have eq: "Get_count i r s = set_pc i (Copying r) (s\<lparr>co_heap := ?h, co_pending := co_pending s @ [rd_key ?rd]\<rparr>)"
      using win by (simp add: Get_count_def Let_def)
    have "lin_ok hash (as @ [GetStep env i]) (Get_count i r s) (place m (SeqGet i (rd_key ?rd) env0, Some r) eps)"
      by (rule lin_place [OF ok i c eq d _ _ _ _ m(1) len _ e'])
        (use win m4 get r in \<open>auto simp: nth_list_update taken_def\<close>)
    then show ?thesis by blast
  next
    case lost
    have eq: "Get_count i r s = set_pc i (Returned None) (s\<lparr>co_heap := co_heap s, co_pending := co_pending s\<rparr>)"
      using lost by (simp add: Get_count_def Let_def)
    have "lin_ok hash (as @ [GetStep env i]) (Get_count i r s) (place m (SeqGet i (rd_key ?rd) env0, None) eps)"
      by (rule lin_place [OF ok i c eq d _ _ _ _ m(1) len _ e'])
        (use lost get in \<open>auto simp: taken_def\<close>)
    then show ?thesis by blast
  next
    case many
    let ?h = "(co_heap s)[r := ?e\<lparr>se_AccessCount := i32 (se_AccessCount ?e + 1)\<rparr>]"
    have eq: "Get_count i r s = set_pc i (Counted r) (s\<lparr>co_heap := ?h, co_pending := co_pending s\<rparr>)"
      using many by (simp add: Get_count_def Let_def)
    have "lin_ok hash (as @ [GetStep env i]) (Get_count i r s) (place m (SeqGet i (rd_key ?rd) env0, Some r) eps)"
      by (rule lin_place [OF ok i c eq d _ _ _ _ m(1) len _ e'])
        (use many m4 get r in \<open>auto simp: nth_list_update taken_def\<close>)
    then show ?thesis by blast
  qed
qed

lemma lin_stamp:
  assumes ok: "lin_ok hash as s eps" and i: "i < length (co_readers s)" and c: "cow_ok hash (Get_stamp cached i r s)"
    and pc: "rd_pc (co_readers s ! i) = Counted r"
  shows "lin_ok hash (as @ [GetStep env i]) (Get_stamp cached i r s) eps"
proof -
  have eq: "Get_stamp cached i r s =
      set_pc i (Copying r) (s\<lparr>co_heap := (co_heap s)[r := (co_heap s ! r)\<lparr>se_LastAccess := cached\<rparr>], co_pending := co_pending s\<rparr>)"
    by (simp add: Get_stamp_def)
  have "r < length (co_heap s)" using reader_at(1) [OF lin_okD(1) [OF ok] i, of r] pc by simp
  then show ?thesis by (intro lin_move [OF ok i c eq]) (auto simp: pc nth_list_update taken_def)
qed

lemma lin_copy:
  assumes ok: "lin_ok hash as s eps" and i: "i < length (co_readers s)" and c: "cow_ok hash (Get_copy i r s)"
    and pc: "rd_pc (co_readers s ! i) = Copying r"
  shows "lin_ok hash (as @ [GetStep env i]) (Get_copy i r s) eps"
proof -
  have eq: "Get_copy i r s = set_pc i (Returned (Some (r, co_heap s ! r))) (s\<lparr>co_heap := co_heap s, co_pending := co_pending s\<rparr>)"
    by (simp add: Get_copy_def)
  show ?thesis by (rule lin_move [OF ok i c eq]) (auto simp: pc)
qed

section \<open>Every action keeps the invariant\<close>

text \<open>What the run adds to the actions does not matter to readers that do not move.\<close>

lemma dec_more:
  assumes "dec_ok as h rds eps" "\<And>j r. j < length rds \<Longrightarrow> rd_pc (rds ! j) = Live r \<Longrightarrow> frozen (h' ! r) = frozen (h ! r)"
    and "set (get_ids (flat eps')) = set (get_ids (flat eps))" "distinct (get_ids (flat eps'))"
    and "\<And>ep y. ep \<in> set eps \<Longrightarrow> y \<in> set (snd ep) \<Longrightarrow> \<exists>ep' \<in> set eps'. y \<in> set (snd ep')"
  shows "dec_ok (as @ [a]) h' rds eps'"
proof -
  have "in_order eps' j (rd_key (rds ! j)) (decided (rd_pc (rds ! j)))" if j: "j < length rds" for j
  proof -
    have "in_order eps j (rd_key (rds ! j)) (decided (rd_pc (rds ! j)))" using assms(1) j by (simp add: dec_ok_def)
    then show ?thesis using assms(3,5) by (cases "decided (rd_pc (rds ! j))") (simp_all, blast)
  qed
  moreover have "\<exists>env. GetStep env j \<in> set (as @ [a]) \<and> \<not> IsExpired (env_now env) (h' ! r)"
    if j: "j < length rds" "rd_pc (rds ! j) = Live r" for j r
  proof -
    obtain env where "GetStep env j \<in> set as" "\<not> IsExpired (env_now env) (h ! r)"
      using assms(1) j unfolding dec_ok_def by blast
    then show ?thesis using frozen_eqD(2) [OF assms(2) [OF j]] by auto
  qed
  ultimately show ?thesis using assms(4) by (simp add: dec_ok_def)
qed

lemma lin_start:
  assumes ok: "lin_ok hash as s eps" and c: "cow_ok hash (Get_start k s)"
  shows "lin_ok hash (as @ [GetStart k]) (Get_start k s) eps"
proof -
  note parts = lin_okD [OF ok]
  let ?rd = "\<lparr>rd_key = k, rd_start = length (co_indexes s) - 1, rd_pc = Loaded (snapshot s)\<rparr>"
  have f: "co_heap (Get_start k s) = co_heap s" "co_indexes (Get_start k s) = co_indexes s"
    "co_readers (Get_start k s) = co_readers s @ [?rd]"
    by (simp_all add: Get_start_def)
  have "ord_ok (as @ [GetStart k]) (reader_starts s @ [(k, length (co_indexes s) - 1)]) eps"
    by (rule ord_extend [OF parts(4)]) (use lin_length [OF ok] ord_okD(5) [OF parts(4)] in \<open>simp_all add: get_starts_snoc\<close>)
  moreover have "dec_ok (as @ [GetStart k]) (co_heap s) (co_readers s @ [?rd]) eps"
  proof -
    have d: "dec_ok (as @ [GetStart k]) (co_heap s) (co_readers s) eps"
      by (rule dec_more [OF parts(6)]) (use parts(6) in \<open>auto simp: dec_ok_def\<close>)
    have "j < length (co_readers s)" if "j \<in> set (get_ids (flat eps))" for j
    proof -
      obtain op where op: "op \<in> set (flat eps)" "j \<in> set (case op of SeqGet i k env \<Rightarrow> [i] | _ \<Rightarrow> [])"
        using \<open>j \<in> set (get_ids (flat eps))\<close> by (auto simp: get_ids_def)
      have "op_fits as (reader_starts s) op" by (rule ord_okD(6) [OF parts(4) op(1)])
      then show ?thesis using op(2) by (cases op) auto
    qed
    then show ?thesis using d by (auto simp: dec_ok_def nth_append less_Suc_eq)
  qed
  moreover have "maps_ok hash (Get_start k s)" using parts(2) by (simp add: maps_ok_def f)
  ultimately show ?thesis using c parts(3,5) by (simp add: lin_ok_def f writes_of_snoc)
qed

lemma flat_snoc: "flat (eps @ [(Some w, [])]) = flat eps @ [w]"
  by (simp add: flat_def epoch_ops_def)

text \<open>A write that publishes.\<close>

lemma lin_publish:
  assumes ok: "lin_ok hash as s eps" and c: "cow_ok hash s'" and w: "writes_at (length as) a = [w]"
    and s': "s' = s\<lparr>co_heap := co_heap s @ es, co_indexes := co_indexes s @ [idx]\<rparr>"
    and idx: "ref_sorted idx" "ref_lookup hash idx [] = None"
    and p: "publishes (co_heap s @ es) (ref_lookup hash (snapshot s)) (ref_lookup hash idx) (upto_epoch eps (length (co_indexes s))) w"
    and A: "\<And>k r. ref_lookup hash idx k = Some r \<Longrightarrow> ref_lookup hash (snapshot s) k = Some r \<or>
      length (co_heap s) \<le> r \<and> r < length (co_heap s) + length es \<and> (\<forall>k'. ref_lookup hash idx k' = Some r \<longrightarrow> k' = k)"
    and es: "\<And>e. e \<in> set es \<Longrightarrow> \<not> taken e"
  shows "lin_ok hash (as @ [a]) s' (eps @ [(Some w, [])])"
proof -
  note parts = lin_okD [OF ok]
  have ne: "co_indexes s \<noteq> []" using parts(1) by (simp add: cow_ok_def)
  have la: "last (bindings hash s) = ref_lookup hash (snapshot s)" using ne by (simp add: snapshot_def last_map)
  have "sem_ok (co_heap s @ es) (bindings hash s @ [ref_lookup hash idx]) (eps @ [(Some w, [])])"
    by (rule sem_publish [OF parts(3)]) (use p A es in \<open>simp_all add: la\<close>)
  moreover have "ord_ok (as @ [a]) (reader_starts s) (eps @ [(Some w, [])])" by (rule ord_publish [OF parts(4) w])
  moreover have "dec_ok (as @ [a]) (co_heap s @ es) (co_readers s) (eps @ [(Some w, [])])"
  proof (rule dec_more [OF parts(6)])
    show "frozen ((co_heap s @ es) ! r) = frozen (co_heap s ! r)" if "j < length (co_readers s)" "rd_pc (co_readers s ! j) = Live r" for j r
      using live_cell [OF parts(1) that] by (simp add: nth_append)
    have ids: "get_ids (flat (eps @ [(Some w, [])])) = get_ids (flat eps)" using w by (cases a) (auto simp: flat_snoc)
    show "set (get_ids (flat (eps @ [(Some w, [])]))) = set (get_ids (flat eps))" by (simp add: ids)
    show "distinct (get_ids (flat (eps @ [(Some w, [])])))" using parts(6) by (simp add: ids dec_ok_def)
  qed auto
  moreover have "filter is_write (flat (eps @ [(Some w, [])])) = writes_of (as @ [a])"
    using parts(5) w by (cases a) (auto simp: flat_snoc writes_of_snoc)
  moreover have "maps_ok hash s'" using parts(2) idx by (simp add: maps_ok_def s')
  ultimately show ?thesis using c by (simp add: lin_ok_def s')
qed

lemma snapshot_maps:
  assumes "lin_ok hash as s eps"
  shows "ref_sorted (snapshot s)" "ref_lookup hash (snapshot s) [] = None" "idx_ok (length (co_heap s)) (snapshot s)"
proof -
  have "snapshot s \<in> set (co_indexes s)" using lin_okD(1) [OF assms] by (simp add: snapshot_def cow_ok_def)
  then show "ref_sorted (snapshot s)" "ref_lookup hash (snapshot s) [] = None"
    using lin_okD(2) [OF assms] by (simp_all add: maps_ok_def)
  show "idx_ok (length (co_heap s)) (snapshot s)" by (rule snapshot_ok [OF lin_okD(1) [OF assms]])
qed

lemma lin_set:
  assumes ok: "lin_ok hash as s eps" and c: "cow_ok hash (Set_publish hash env k v s)" and k: "k \<noteq> []"
  shows "lin_ok hash (as @ [SetPublish env k v]) (Set_publish hash env k v s) (eps @ [(Some (SeqSet (length as) env k v), [])])"
proof -
  let ?r = "length (co_heap s)" and ?e = "stamped env v"
  note sn = snapshot_maps [OF ok]
  have i: "idx_ok (Suc ?r) (snapshot s)" by (rule idx_ok_mono [OF sn(3)]) simp
  note m = ref_insert_map [OF i sn(1), of ?r hash k]
  have old: "?r \<notin> upto_epoch eps (length (co_indexes s))"
  proof
    assume "?r \<in> upto_epoch eps (length (co_indexes s))"
    then have r: "?r \<in> upto_epoch eps (length (bindings hash s))" by simp
    obtain n k' where b: "n < length (bindings hash s)" "(bindings hash s ! n) k' = Some ?r"
      by (rule sem_given [OF lin_okD(3) [OF ok] order_refl r])
    then show False using sem_okD(8) [OF lin_okD(3) [OF ok] nth_mem [OF b(1)] b(2)] by simp
  qed
  show ?thesis
  proof (rule lin_publish [OF ok c, where es = "[?e]" and idx = "ref_insert hash (snapshot s) k ?r"])
    show "Set_publish hash env k v s = s\<lparr>co_heap := co_heap s @ [?e], co_indexes := co_indexes s @ [ref_insert hash (snapshot s) k ?r]\<rparr>"
      by (simp add: Set_publish_def)
    show "ref_sorted (ref_insert hash (snapshot s) k ?r)" by (rule m(1)) simp
    show "ref_lookup hash (ref_insert hash (snapshot s) k ?r) [] = None" using m(2) k sn(2) by simp
    show "publishes (co_heap s @ [?e]) (ref_lookup hash (snapshot s)) (ref_lookup hash (ref_insert hash (snapshot s) k ?r))
        (upto_epoch eps (length (co_indexes s))) (SeqSet (length as) env k v)"
      using old m(2) by (auto intro!: exI [of _ ?r])
    fix k' r assume "ref_lookup hash (ref_insert hash (snapshot s) k ?r) k' = Some r"
    then show "ref_lookup hash (snapshot s) k' = Some r \<or> ?r \<le> r \<and> r < ?r + length [?e] \<and>
        (\<forall>k''. ref_lookup hash (ref_insert hash (snapshot s) k ?r) k'' = Some r \<longrightarrow> k'' = k')"
      using m(2) ref_lookup_less [OF sn(3), of hash] by (auto split: if_splits)
  qed (simp_all add: taken_def stamped_def)
qed

lemma lin_delete:
  assumes ok: "lin_ok hash as s eps" and c: "cow_ok hash (Delete_publish hash ks s)"
  shows "\<exists>eps'. lin_ok hash (as @ [DeletePublish ks]) (Delete_publish hash ks s) eps'"
proof -
  note parts = lin_okD [OF ok] and sn = snapshot_maps [OF ok]
  let ?w = "SeqDelete (length as) ks"
  obtain idx delta where d: "fold (ref_delete hash (co_heap s)) ks (snapshot s, 0) = (idx, delta)" by fastforce
  have m: "ref_sorted idx" "ref_lookup hash idx = ref_lookup hash (snapshot s) |` (- set ks)"
    "delta = 0 \<Longrightarrow> \<forall>k \<in> set ks. ref_lookup hash (snapshot s) k = None"
    using ref_deletes_map [of _ "(snapshot s, 0)" hash "co_heap s" ks] sn d by simp_all
  show ?thesis
  proof (cases "delta = 0")
    case False
    then have s': "Delete_publish hash ks s = s\<lparr>co_heap := co_heap s @ [], co_indexes := co_indexes s @ [idx]\<rparr>"
      by (simp add: Delete_publish_def d)
    have "lin_ok hash (as @ [DeletePublish ks]) (Delete_publish hash ks s) (eps @ [(Some ?w, [])])"
      by (rule lin_publish [OF ok c _ s']) (use m sn(2) in \<open>auto simp: restrict_map_def split: if_splits\<close>)
    then show ?thesis by blast
  next
    case True
    let ?m = "length (co_indexes s) - 1" and ?as = "as @ [DeletePublish ks]"
    let ?eps = "place ?m (?w, None) eps"
    have s': "Delete_publish hash ks s = s" by (simp add: Delete_publish_def d True)
    have ne: "co_indexes s \<noteq> []" using parts(1) by (simp add: cow_ok_def)
    then have len: "?m < length eps" "?m < length (bindings hash s)" "Suc ?m = length eps" using lin_length [OF ok] by (cases "co_indexes s"; simp)+
    have la: "bindings hash s ! ?m = ref_lookup hash (snapshot s)" using ne by (simp add: snapshot_def last_conv_nth)
    have fl: "flat ?eps = flat eps @ [?w]" using flat_place(2) [OF len(1), of "(?w, None)"] len(3) by (simp add: flat_def)
    have st: "get_starts ?as = get_starts as" by (simp add: get_starts_snoc)
    have "ord_ok ?as (reader_starts s @ []) eps"
      by (rule ord_extend [OF parts(4)]) (simp_all add: st ord_okD(5) [OF parts(4)])
    then have o: "ord_ok ?as (reader_starts s) eps" by simp
    have "ord_ok ?as (reader_starts s) ?eps"
    proof (rule ord_place [OF o len(1)])
      show "fst (eps ! Suc n) \<noteq> None" if "Suc n < length eps" for n
        using sem_okD(6) [OF parts(3), of n] that lin_length [OF ok] by auto
    qed (use len(3) in simp_all)
    moreover have "sem_ok (co_heap s) (bindings hash s) ?eps"
      by (rule sem_place [OF parts(3) len(2)]) (use m(3) [OF True] la in simp_all)
    moreover have "dec_ok ?as (co_heap s) (co_readers s) ?eps"
    proof (rule dec_more [OF parts(6)])
      show "set (get_ids (flat ?eps)) = set (get_ids (flat eps))" "distinct (get_ids (flat ?eps))"
        unfolding fl using parts(6) by (simp_all add: dec_ok_def)
      fix ep y assume ep: "ep \<in> set eps" "y \<in> set (snd ep)"
      obtain n where n: "n < length eps" "eps ! n = ep" using ep(1) by (auto simp: in_set_conv_nth)
      have "?eps ! n \<in> set ?eps" by (rule nth_mem) (simp add: n(1))
      moreover have "y \<in> set (snd (?eps ! n))" using n ep(2) by (auto simp: place_nth)
      ultimately show "\<exists>ep' \<in> set ?eps. y \<in> set (snd ep')" by blast
    qed simp
    moreover have "filter is_write (flat ?eps) = writes_of ?as" unfolding fl using parts(5) by (simp add: writes_of_snoc)
    ultimately have "lin_ok hash ?as s ?eps" using parts(1,2) unfolding lin_ok_def by blast
    then show ?thesis unfolding s' by blast
  qed
qed

definition keys_given :: "cow_action list \<Rightarrow> bool" where
  "keys_given as \<longleftrightarrow> list_all (\<lambda>a. case a of SetPublish env k v \<Rightarrow> k \<noteq> [] | _ \<Rightarrow> True) as"

lemma lin_step:
  assumes ok: "lin_ok hash as s eps" and r: "cow_step hash a s = Some s'" and k: "keys_given [a]"
  shows "\<exists>eps'. lin_ok hash (as @ [a]) s' eps'"
proof (cases a)
  case (GetStart key)
  then show ?thesis using lin_start [OF ok] cow_ok_start [OF lin_okD(1) [OF ok]] r by auto
next
  case (SetPublish env key v)
  then show ?thesis using lin_set [OF ok cow_ok_set [OF lin_okD(1) [OF ok]]] r k by (auto simp: keys_given_def)
next
  case (DeletePublish keys)
  then show ?thesis using lin_delete [OF ok cow_ok_delete [OF lin_okD(1) [OF ok]]] r by auto
next
  case (GetStep env i)
  have c: "cow_ok hash s'" by (rule cow_ok_step [OF lin_okD(1) [OF ok] r])
  have g: "Get_step hash env i s = Some s'" using r GetStep by simp
  then have i: "i < length (co_readers s)" by (simp add: Get_step_def split: if_splits)
  show ?thesis
  proof (cases "rd_pc (co_readers s ! i)")
    case (Loaded idx)
    then have "s' = Get_find hash i idx s" using g i by (simp add: Get_step_def)
    then show ?thesis using lin_find [OF ok i _ Loaded] c GetStep by simp
  next
    case (Found r)
    then have "s' = Get_expired (env_now env) i r s" using g i by (simp add: Get_step_def)
    then show ?thesis using lin_expired [OF ok i _ Found] c GetStep by simp
  next
    case (Live r)
    then have "s' = Get_count i r s" using g i by (simp add: Get_step_def)
    then show ?thesis using lin_count [OF ok i _ Live] c GetStep by simp
  next
    case (Counted r)
    then have "s' = Get_stamp (env_cached env) i r s" using g i by (simp add: Get_step_def)
    then show ?thesis using lin_stamp [OF ok i _ Counted] c GetStep by auto
  next
    case (Copying r)
    then have "s' = Get_copy i r s" using g i by (simp add: Get_step_def)
    then show ?thesis using lin_copy [OF ok i _ Copying] c GetStep by auto
  next
    case (Returned res)
    then show ?thesis using g i by (simp add: Get_step_def)
  qed
qed

lemma lin_new: "lin_ok hash [] new_cow [(None, [])]"
proof -
  have m: "ref_lookup hash (replicate 64 \<lparr>rg_keys = [], rg_vals = []\<rparr>) = Map.empty"
  proof
    fix k
    have "idx_ok 0 (replicate 64 \<lparr>rg_keys = [], rg_vals = []\<rparr>)" by (simp add: idx_ok_def)
    from ref_lookup_less [OF this, of hash k] show "ref_lookup hash (replicate 64 \<lparr>rg_keys = [], rg_vals = []\<rparr>) k = None"
      by (cases "ref_lookup hash (replicate 64 \<lparr>rg_keys = [], rg_vals = []\<rparr>) k") auto
  qed
  have "cow_ok hash new_cow" by (rule cow_ok_run [of hash "[]"]) simp
  then show ?thesis
    by (simp add: lin_ok_def new_cow_def maps_ok_def m ref_sorted_def sem_ok_def ord_ok_def dec_ok_def flat_def epoch_ops_def
        get_starts_def writes_of_def)
qed

lemma lin_run:
  assumes "cow_run hash bs s = Some s'" "lin_ok hash as s eps" "keys_given bs"
  shows "\<exists>eps'. lin_ok hash (as @ bs) s' eps'"
  using assms
proof (induction bs arbitrary: as s eps)
  case (Cons b bs)
  then obtain t where t: "cow_step hash b s = Some t" "cow_run hash bs t = Some s'" by (auto simp: bind_eq_Some_conv)
  have "keys_given [b]" "keys_given bs" using Cons.prems(3) by (simp_all add: keys_given_def)
  moreover obtain eps1 where "lin_ok hash (as @ [b]) t eps1" using lin_step [OF Cons.prems(2) t(1)] calculation(1) by blast
  ultimately show ?case using Cons.IH [OF t(2)] by fastforce
qed auto

section \<open>Answers\<close>

lemma in_answers:
  assumes "(SeqGet i k env, c) \<in> set e"
  shows "(i, map_option (\<lambda>r. frozen (h ! r)) c) \<in> set (answers h e)"
  using assms by (force simp: answers_def)

lemma fst_answers: "map fst (fst (seq_run ops M)) = get_ids ops"
  by (induction ops M rule: seq_run.induct) (simp_all add: case_prod_unfold Let_def fun_upd_def)

text \<open>What a reader that has returned was given, against the order.\<close>

lemma returned_answer:
  assumes ok: "lin_ok hash as s eps" and i: "i < length (co_readers s)" and pc: "rd_pc (co_readers s ! i) = Returned res"
  shows "\<exists>b. (i, b) \<in> set (fst (seq_run (flat eps) Map.empty)) \<and> map_option frozen b = map_option (frozen \<circ> snd) res"
proof -
  note parts = lin_okD [OF ok]
  have "in_order eps i (rd_key (co_readers s ! i)) (decided (rd_pc (co_readers s ! i)))" using parts(6) i by (simp add: dec_ok_def)
  then obtain env ep where ep: "ep \<in> set eps" "(SeqGet i (rd_key (co_readers s ! i)) env, map_option fst res) \<in> set (snd ep)"
    by (auto simp: pc)
  let ?b = "map_option (\<lambda>r. frozen (co_heap s ! r)) (map_option fst res)"
  have ne: "co_indexes s \<noteq> []" using parts(1) by (simp add: cow_ok_def)
  then have n: "length (co_indexes s) - 1 < length (bindings hash s)" "Suc (length (co_indexes s) - 1) = length eps"
    using lin_length [OF ok] by (cases "co_indexes s"; simp)+
  have "frozen_answers (fst (seq_run (flat (take (length eps) eps)) Map.empty)) = concat (map (answers (co_heap s) \<circ> snd) (take (length eps) eps))"
    using sem_replay [OF parts(3) n(1)] unfolding n(2) by blast
  moreover have "(i, ?b) \<in> set (concat (map (answers (co_heap s) \<circ> snd) eps))" using in_answers [OF ep(2)] ep(1) by auto
  ultimately have "(i, ?b) \<in> set (frozen_answers (fst (seq_run (flat eps) Map.empty)))" by simp
  then obtain b where b: "(i, b) \<in> set (fst (seq_run (flat eps) Map.empty))" "map_option frozen b = ?b"
    by (auto simp: frozen_answers_def)
  have "?b = map_option (frozen \<circ> snd) res"
  proof (cases res)
    case (Some x)
    obtain r e where x: "x = (r, e)" by fastforce
    have "pc_ok (co_heap s) (Returned (Some (r, e)))" using reader_at(4) [OF parts(1) i, of r] by (simp add: pc Some x)
    then show ?thesis by (simp add: Some x)
  qed simp
  then show ?thesis using b by auto
qed

section \<open>Property\<close>

text \<open>C13: The store is linearizable. For every interleaving of any number of \<open>Get\<close>s with writes, at the granularity of
  the atomic accesses and with readers that hold older indexes, there is one sequence of operations that has every
  write once, in the order of publication, and every \<open>Get\<close> that has returned once, with its key and a clock that
  this very call looked at; in which no operation that began after another had made its last step comes before it;
  and which, run one after another on a finite map, gives every \<open>Get\<close> the answer it returned, up to the read
  counters. Keys are not empty: an entry of size zero is not deleted, see \<open>Memory_Store\<close>.\<close>

theorem store_linearizable:
  assumes "cow_run hash as new_cow = Some s" "keys_given as"
  shows "\<exists>ops.
    filter is_write ops = writes_of as \<and>
    distinct (map fst (fst (seq_run ops Map.empty))) \<and>
    (\<forall>i k env. SeqGet i k env \<in> set ops \<longrightarrow> i < length (co_readers s) \<and> k = rd_key (co_readers s ! i) \<and> GetStep env i \<in> set as) \<and>
    sorted_wrt (\<lambda>x y. op_first as x \<le> op_last as y) ops \<and>
    (\<forall>i < length (co_readers s). \<forall>res. rd_pc (co_readers s ! i) = Returned res \<longrightarrow>
       (\<exists>b. (i, b) \<in> set (fst (seq_run ops Map.empty)) \<and> map_option frozen b = map_option (frozen \<circ> snd) res))"
proof -
  obtain eps where ok: "lin_ok hash as s eps" using lin_run [OF assms(1) lin_new assms(2)] by auto
  note parts = lin_okD [OF ok]
  show ?thesis
  proof (rule exI [of _ "flat eps"], intro conjI)
    show "filter is_write (flat eps) = writes_of as" by (rule parts(5))
    show "distinct (map fst (fst (seq_run (flat eps) Map.empty)))" using parts(6) unfolding fst_answers dec_ok_def by blast
    show "\<forall>i k env. SeqGet i k env \<in> set (flat eps) \<longrightarrow> i < length (co_readers s) \<and> k = rd_key (co_readers s ! i) \<and> GetStep env i \<in> set as"
      using ord_okD(6) [OF parts(4)] by fastforce
    show "sorted_wrt (\<lambda>x y. op_first as x \<le> op_last as y) (flat eps)" by (rule ord_okD(1) [OF parts(4)])
    show "\<forall>i < length (co_readers s). \<forall>res. rd_pc (co_readers s ! i) = Returned res \<longrightarrow>
        (\<exists>b. (i, b) \<in> set (fst (seq_run (flat eps) Map.empty)) \<and> map_option frozen b = map_option (frozen \<circ> snd) res)"
      by (intro allI impI) (rule returned_answer [OF ok])
  qed
qed

text \<open>The race of \<open>Cow_Concurrency\<close>: two readers of a single-read entry that is replaced while they run.\<close>

theorem store_linearizable_witness:
  "\<exists>s ops i. cow_run (\<lambda>_. 0) race new_cow = Some s \<and> filter is_write ops = writes_of race \<and>
     (i, None) \<in> set (fst (seq_run ops Map.empty))"
proof -
  obtain s e rd0 rd1 where s: "cow_run (\<lambda>_. 0) race new_cow = Some s" "co_readers s = [rd0, rd1]" "rd_pc rd0 = Returned None"
    using race_result by blast
  have k: "keys_given race" by (simp add: keys_given_def race_def str_nonempty)
  obtain ops where ops: "filter is_write ops = writes_of race"
    "\<forall>i < length (co_readers s). \<forall>res. rd_pc (co_readers s ! i) = Returned res \<longrightarrow>
       (\<exists>b. (i, b) \<in> set (fst (seq_run ops Map.empty)) \<and> map_option frozen b = map_option (frozen \<circ> snd) res)"
    using store_linearizable [OF s(1) k] by (elim exE conjE) (rule that)
  have pc: "rd_pc (co_readers s ! 0) = Returned None" and len: "0 < length (co_readers s)" by (simp_all add: s(2,3))
  note ops(2) [rule_format, OF len pc]
  then have "(0, None) \<in> set (fst (seq_run ops Map.empty))" by auto
  then show ?thesis using s(1) ops(1) by blast
qed

end
