(* ===== verification/Container_Concurrency.thy ===== *)
theory Container_Concurrency
  imports Linearizability Shard_Container
begin

text \<open>
  A shard container under concurrent calls (\<open>internal/engine/sharding.go\<close>): a call goes to the shard of its key and
  there runs as in \<open>Cow_Concurrency\<close>, while calls on any shard interleave with it. Each shard is linearizable by
  \<open>Linearizability\<close>; here the orders of the shards are merged into one that respects real time across shards, so the
  whole container is one map to its concurrent clients.
\<close>

section \<open>Calls on shards\<close>

text \<open>An action of a call reaches the shard its key hashes to; a batch to delete comes from the collector of a shard.\<close>

fun routed :: "(gostring \<Rightarrow> nat) \<Rightarrow> nat \<Rightarrow> cow_action \<Rightarrow> bool" where
  "routed shard j (GetStart k) = (shard k = j)"
| "routed shard j (GetStep env i) = True"
| "routed shard j (SetPublish env k v) = (shard k = j)"
| "routed shard j (DeletePublish ks) = list_all (\<lambda>k. shard k = j) ks"

type_synonym cow_container = "cow_state shard_container"

definition container_step :: "hasher \<Rightarrow> nat \<times> cow_action \<Rightarrow> cow_container \<Rightarrow> cow_container option" where
  "container_step hash x sc =
     (let (j, a) = x
      in if j < length (sc_shards sc) \<and> routed (getShard hash sc) j a
         then map_option (\<lambda>s. sc\<lparr>sc_shards := (sc_shards sc)[j := s]\<rparr>) (cow_step hash a (sc_shards sc ! j))
         else None)"

fun container_run :: "hasher \<Rightarrow> (nat \<times> cow_action) list \<Rightarrow> cow_container \<Rightarrow> cow_container option" where
  "container_run hash [] sc = Some sc"
| "container_run hash (x # xs) sc = Option.bind (container_step hash x sc) (container_run hash xs)"

definition new_container :: "int \<Rightarrow> cow_container" where
  "new_container n = NewShardContainer (\<lambda>now. new_cow) 0 n"

text \<open>What one shard sees of a run, and when.\<close>

definition on_shard :: "nat \<Rightarrow> (nat \<times> 'a) list \<Rightarrow> 'a list" where
  "on_shard j xs = map snd (filter (\<lambda>x. fst x = j) xs)"

definition shard_times :: "nat \<Rightarrow> (nat \<times> 'a) list \<Rightarrow> nat list" where
  "shard_times j xs = filter (\<lambda>t. fst (xs ! t) = j) [0..<length xs]"

lemma on_shard_simps [simp]:
  "on_shard j [] = []" "on_shard j (x # xs) = (if fst x = j then snd x # on_shard j xs else on_shard j xs)"
  by (simp_all add: on_shard_def)

lemma length_shard_times: "length (shard_times j xs) = length (on_shard j xs)"
proof -
  have "filter (\<lambda>x. fst x = j) (map ((!) xs) [0..<length xs]) = map ((!) xs) (shard_times j xs)"
    unfolding filter_map by (simp add: shard_times_def comp_def)
  then have "on_shard j xs = map (snd \<circ> (!) xs) (shard_times j xs)" by (simp add: on_shard_def map_nth)
  then show ?thesis by simp
qed

lemma sorted_shard_times: "sorted (shard_times j xs)"
  unfolding shard_times_def by (rule sorted_filter [of "\<lambda>x. x", simplified]) simp

lemma container_run_shards:
  assumes "container_run hash xs sc = Some sc'"
  shows "length (sc_shards sc') = length (sc_shards sc)"
    "j < length (sc_shards sc) \<Longrightarrow> cow_run hash (on_shard j xs) (sc_shards sc ! j) = Some (sc_shards sc' ! j)"
    "x \<in> set xs \<Longrightarrow> fst x < length (sc_shards sc) \<and> routed (getShard hash sc) (fst x) (snd x)"
proof -
  have "length (sc_shards sc') = length (sc_shards sc) \<and>
    (j < length (sc_shards sc) \<longrightarrow> cow_run hash (on_shard j xs) (sc_shards sc ! j) = Some (sc_shards sc' ! j)) \<and>
    (x \<in> set xs \<longrightarrow> fst x < length (sc_shards sc) \<and> routed (getShard hash sc) (fst x) (snd x))"
    using assms
  proof (induction xs arbitrary: sc)
    case (Cons y ys)
    obtain i a where y: "y = (i, a)" by fastforce
    obtain s where s: "i < length (sc_shards sc)" "routed (getShard hash sc) i a" "cow_step hash a (sc_shards sc ! i) = Some s"
      "container_run hash ys (sc\<lparr>sc_shards := (sc_shards sc)[i := s]\<rparr>) = Some sc'"
      using Cons.prems by (auto simp: container_step_def y bind_eq_Some_conv split: if_splits)
    have g: "getShard hash (sc\<lparr>sc_shards := ss\<rparr>) = getShard hash sc" for ss by (simp add: getShard_def fun_eq_iff)
    show ?case using Cons.IH [OF s(4)] s(1-3) by (auto simp: y g)
  qed simp
  then show "length (sc_shards sc') = length (sc_shards sc)"
    "j < length (sc_shards sc) \<Longrightarrow> cow_run hash (on_shard j xs) (sc_shards sc ! j) = Some (sc_shards sc' ! j)"
    "x \<in> set xs \<Longrightarrow> fst x < length (sc_shards sc) \<and> routed (getShard hash sc) (fst x) (snd x)" by blast+
qed

section \<open>Facts about a run of one shard\<close>

text \<open>A reader steps after it has begun.\<close>

lemma cow_step_readers:
  assumes "cow_step hash a s = Some s'"
  shows "map rd_key (co_readers s') = map rd_key (co_readers s) @ (case a of GetStart k \<Rightarrow> [k] | _ \<Rightarrow> [])"
    "a = GetStep env i \<Longrightarrow> i < length (co_readers s)"
  using assms
  by (cases a; auto simp: Get_start_def Set_publish_def Delete_publish_def Get_step_def Get_find_def Get_expired_def Get_count_def
      Get_stamp_def Get_copy_def set_pc_def Let_def map_update list_update_same_conv split: if_splits reader_pc.splits prod.splits)+

lemma cow_run_keys:
  assumes "cow_run hash as s = Some s'" "\<And>rd. rd \<in> set (co_readers s) \<Longrightarrow> P (rd_key rd)" "\<And>k. GetStart k \<in> set as \<Longrightarrow> P k"
  shows "rd \<in> set (co_readers s') \<Longrightarrow> P (rd_key rd)"
  using assms
proof (induction as arbitrary: s)
  case (Cons a as)
  obtain t where t: "cow_step hash a s = Some t" "cow_run hash as t = Some s'" using Cons.prems(2) by (auto simp: bind_eq_Some_conv)
  have "P (rd_key x)" if "x \<in> set (co_readers t)" for x
  proof -
    have "rd_key x \<in> set (map rd_key (co_readers t))" using that by simp
    then have "rd_key x \<in> set (map rd_key (co_readers s)) \<or> a = GetStart (rd_key x)"
      unfolding cow_step_readers(1) [OF t(1)] by (cases a) auto
    then show ?thesis using Cons.prems(3,4) by auto
  qed
  then show ?case using Cons.IH [OF Cons.prems(1) t(2)] Cons.prems(4) by auto
qed simp

lemma step_after_start:
  assumes "cow_run hash bs s = Some s'" "length (get_starts as) = length (co_readers s)"
    "\<And>i t. t \<in> set (get_steps as i) \<Longrightarrow> i < length (get_starts as) \<and> get_starts as ! i < t"
  shows "t \<in> set (get_steps (as @ bs) i) \<Longrightarrow> get_starts (as @ bs) ! i < t"
  using assms
proof (induction bs arbitrary: as s)
  case Nil
  then show ?case by simp
next
  case (Cons b bs)
  obtain u where u: "cow_step hash b s = Some u" "cow_run hash bs u = Some s'" using Cons.prems(2) by (auto simp: bind_eq_Some_conv)
  have len: "length (get_starts (as @ [b])) = length (co_readers u)"
    using arg_cong [OF cow_step_readers(1) [OF u(1)], of length] Cons.prems(3) by (cases b) (simp_all add: get_starts_snoc)
  have "i < length (get_starts (as @ [b])) \<and> get_starts (as @ [b]) ! i < t" if t: "t \<in> set (get_steps (as @ [b]) i)" for i t
  proof (cases "t \<in> set (get_steps as i)")
    case True
    then show ?thesis using Cons.prems(4) [OF True] by (simp add: get_starts_snoc nth_append)
  next
    case False
    then obtain env where b: "b = GetStep env i" "t = length as" using t by (cases b) (auto simp: get_steps_snoc split: if_splits)
    have "i < length (get_starts as)" using cow_step_readers(2) [OF u(1) b(1)] Cons.prems(3) by simp
    then show ?thesis using get_starts_less [OF nth_mem] by (simp add: b get_starts_snoc)
  qed
  then show ?case using Cons.IH [of "as @ [b]" u] Cons.prems(1) u(2) len by simp
qed

lemma op_interval:
  assumes "cow_run hash as new_cow = Some s" "op_fits as ks op"
  shows "op_first as op \<le> op_last as op" "op_last as op < length as"
proof -
  have "op_first as op \<le> op_last as op \<and> op_last as op < length as"
  proof (cases op)
    case (SeqGet i k env)
    then have ne: "get_steps as i \<noteq> []" using assms(2) get_steps_nonempty by auto
    have "get_starts as ! i < t" if "t \<in> set (get_steps as i)" for t
      using step_after_start [OF assms(1), where as = "[]" and t = t and i = i] that by (simp add: get_starts_def get_steps_def new_cow_def)
    then show ?thesis using SeqGet last_in_set [OF ne] get_steps_less by (auto simp: less_imp_le)
  qed (use assms(2) in simp_all)
  then show "op_first as op \<le> op_last as op" "op_last as op < length as" by blast+
qed

section \<open>Merging orders\<close>

text \<open>Each operation takes effect at a point between its first and its last step: in the order of its shard, the latest
  first step so far. The points of all shards are sorted, which keeps the order within each.\<close>

fun points :: "('x \<Rightarrow> nat) \<Rightarrow> nat \<Rightarrow> 'x list \<Rightarrow> (nat \<times> 'x) list" where
  "points f m [] = []"
| "points f m (x # xs) = (max m (f x), x) # points f (max m (f x)) xs"

lemma map_snd_points [simp]: "map snd (points f m xs) = xs"
  by (induction f m xs rule: points.induct) simp_all

lemma points_ge: "z \<in> set (points f m xs) \<Longrightarrow> m \<le> fst z \<and> f (snd z) \<le> fst z"
  by (induction f m xs rule: points.induct) auto

lemma sorted_points: "sorted (map fst (points f m xs))"
  by (induction f m xs rule: points.induct) (auto dest: points_ge)

lemma points_le:
  assumes "sorted_wrt (\<lambda>x y. f x \<le> l y) xs" "\<And>x. x \<in> set xs \<Longrightarrow> f x \<le> l x \<and> m \<le> l x" "z \<in> set (points f m xs)"
  shows "fst z \<le> (l (snd z) :: nat)"
  using assms by (induction f m xs rule: points.induct) auto

lemma concat_one: "concat (map (\<lambda>i. if i = j then A i else []) [0..<n]) = (if j < n then A j else [])"
  by (induction n) auto

lemma merge_orders:
  assumes "\<And>j. j < n \<Longrightarrow> sorted_wrt (\<lambda>x y. f (j, x) \<le> (l (j, y) :: nat)) (xs j)"
    and "\<And>j x. j < n \<Longrightarrow> x \<in> set (xs j) \<Longrightarrow> f (j, x) \<le> l (j, x)"
  obtains ops where "\<And>j. on_shard j ops = (if j < n then xs j else [])" "sorted_wrt (\<lambda>x y. f x \<le> l y) ops"
proof -
  define P where "P = (\<lambda>j. points f 0 (map (Pair j) (xs j)))"
  define L where "L = concat (map P [0..<n])"
  define S where "S = sort_key fst L"
  have tags: "fst (snd z) = j" if "z \<in> set (P j)" for z j
  proof -
    have "snd z \<in> set (map snd (P j))" using that by simp
    then show ?thesis by (auto simp: P_def)
  qed
  have "filter (\<lambda>z. fst (snd z) = j) L = (if j < n then P j else [])" for j
  proof -
    have "filter (\<lambda>z. fst (snd z) = j) (P i) = (if i = j then P i else [])" for i
      using tags by (auto simp: filter_id_conv filter_empty_conv)
    then show ?thesis by (simp add: L_def filter_concat comp_def concat_one)
  qed
  then have f: "filter (\<lambda>z. fst (snd z) = j) S = (if j < n then P j else [])" for j
    by (simp add: S_def filter_sort sort_key_id_if_sorted P_def sorted_points)
  have on: "on_shard j (map snd S) = (if j < n then xs j else [])" for j
  proof -
    have "map snd (map snd (P j)) = xs j" by (simp add: P_def del: map_map) (simp add: comp_def)
    then show ?thesis using f [of j] by (simp add: on_shard_def filter_map comp_def)
  qed
  have le: "f (snd z) \<le> fst z \<and> fst z \<le> l (snd z)" if z: "z \<in> set S" for z
  proof -
    obtain j where j: "j < n" "z \<in> set (P j)" using z by (auto simp: S_def L_def)
    have "fst z \<le> l (snd z)"
      by (rule points_le [of f l "map (Pair j) (xs j)" 0])
        (use assms j in \<open>auto simp: P_def sorted_wrt_map\<close>)
    then show ?thesis using j(2) points_ge [of z f 0] by (simp add: P_def)
  qed
  have "sorted_wrt (\<lambda>x y. fst x \<le> fst y) S" using sorted_sort_key [of fst L] by (simp add: S_def sorted_map)
  then have "sorted_wrt (\<lambda>x y. f (snd x) \<le> l (snd y)) S"
    by (rule sorted_wrt_mono_rel [rotated]) (use le in \<open>meson le_trans\<close>)
  then have "sorted_wrt (\<lambda>x y. f x \<le> l y) (map snd S)" by (simp add: sorted_wrt_map)
  then show thesis using that on by blast
qed

section \<open>One map\<close>

text \<open>The operations of all shards, one after another on one map.\<close>

fun container_seq :: "(nat \<times> seq_op) list \<Rightarrow> (gostring \<rightharpoonup> storage_entry) \<Rightarrow>
    ((nat \<times> nat) \<times> storage_entry option) list \<times> (gostring \<rightharpoonup> storage_entry)" where
  "container_seq [] M = ([], M)"
| "container_seq (x # xs) M =
     (let (a, M1) = seq_run [snd x] M; (b, M2) = container_seq xs M1 in (map (\<lambda>(i, c). ((fst x, i), c)) a @ b, M2))"

fun op_keys :: "seq_op \<Rightarrow> gostring list" where
  "op_keys (SeqGet i k env) = [k]"
| "op_keys (SeqSet t env k v) = [k]"
| "op_keys (SeqDelete t ks) = ks"

lemma op_local:
  assumes "\<And>k. k \<in> set (op_keys op) \<Longrightarrow> M k = M' k"
  shows "fst (seq_run [op] M) = fst (seq_run [op] M')" "M k = M' k \<Longrightarrow> snd (seq_run [op] M) k = snd (seq_run [op] M') k"
  using assms by (cases op; auto simp: Let_def restrict_map_def split: option.splits)+

lemma op_other: "k \<notin> set (op_keys op) \<Longrightarrow> snd (seq_run [op] M) k = M k"
  by (cases op) (auto simp: Let_def split: option.splits)

lemma container_seq_shard:
  assumes "\<And>x k. x \<in> set ops \<Longrightarrow> k \<in> set (op_keys (snd x)) \<Longrightarrow> shard k = fst x" "\<And>k. shard k = j \<Longrightarrow> M k = Mj k"
  shows "map (\<lambda>x. (snd (fst x), snd x)) (filter (\<lambda>x. fst (fst x) = j) (fst (container_seq ops M))) =
    fst (seq_run (on_shard j ops) Mj)"
  using assms
proof (induction ops arbitrary: M Mj)
  case (Cons x ops)
  obtain i op where x: "x = (i, op)" by fastforce
  obtain a M1 where r: "seq_run [op] M = (a, M1)" by fastforce
  note ih = Cons.IH [OF Cons.prems(1)]
  have keys: "shard k = i" if "k \<in> set (op_keys op)" for k using Cons.prems(1) [of x k] that by (simp add: x)
  show ?case
  proof (cases "i = j")
    case True
    obtain aj Mj1 where rj: "seq_run [op] Mj = (aj, Mj1)" by fastforce
    have same: "M k = Mj k" if "k \<in> set (op_keys op)" for k using Cons.prems(2) keys [OF that] True by simp
    have eq: "a = aj" using op_local(1) [of op M Mj] same r rj by simp
    have agree: "M1 k = Mj1 k" if "shard k = j" for k using op_local(2) [of op M Mj k] same Cons.prems(2) [OF that] r rj by simp
    have s: "seq_run (op # on_shard j ops) Mj = (aj @ fst (seq_run (on_shard j ops) Mj1), snd (seq_run (on_shard j ops) Mj1))"
      using seq_run_append [of "[op]" "on_shard j ops" Mj] by (simp add: rj case_prod_unfold Let_def del: seq_run.simps)
    show ?thesis using ih [of M1 Mj1] agree True
      by (simp add: x r s eq case_prod_unfold Let_def filter_map comp_def del: seq_run.simps)
  next
    case False
    have "M1 k = Mj k" if "shard k = j" for k
      using op_other [of k op M] keys [of k] that False Cons.prems(2) [OF that] r by auto
    then show ?thesis using ih [of M1 Mj] False
      by (simp add: x r case_prod_unfold Let_def filter_map comp_def del: seq_run.simps)
  qed
qed simp

lemma distinct_by_shard:
  assumes "\<And>j. distinct (map (\<lambda>x. snd (fst x)) (filter (\<lambda>x. fst (fst x) = j) A))"
  shows "distinct (map fst A)"
  using assms
proof (induction A)
  case (Cons x A)
  have "distinct (map (\<lambda>x. snd (fst x)) (filter (\<lambda>x. fst (fst x) = j) A))" for j
    using Cons.prems [of j] by (auto split: if_splits)
  moreover have "fst x \<notin> fst ` set A"
  proof
    assume "fst x \<in> fst ` set A"
    then have "snd (fst x) \<in> (\<lambda>x. snd (fst x)) ` {y \<in> set A. fst (fst y) = fst (fst x)}" by force
    then show False using Cons.prems [of "fst (fst x)"] by simp
  qed
  ultimately show ?case using Cons.IH by simp
qed simp

section \<open>Property\<close>

text \<open>When an operation of a shard began and made its last step, on the clock of the whole run.\<close>

definition first_step :: "(nat \<times> cow_action) list \<Rightarrow> nat \<times> seq_op \<Rightarrow> nat" where
  "first_step acts x = shard_times (fst x) acts ! op_first (on_shard (fst x) acts) (snd x)"

definition last_step :: "(nat \<times> cow_action) list \<Rightarrow> nat \<times> seq_op \<Rightarrow> nat" where
  "last_step acts x = shard_times (fst x) acts ! op_last (on_shard (fst x) acts) (snd x)"

lemma step_mono:
  assumes "op_first (on_shard j acts) x \<le> op_last (on_shard j acts) y" "op_last (on_shard j acts) y < length (on_shard j acts)"
  shows "first_step acts (j, x) \<le> last_step acts (j, y)"
  using sorted_nth_mono [OF sorted_shard_times assms(1), of j acts] assms(2) by (simp add: first_step_def last_step_def length_shard_times)

text \<open>The order of one shard, with the keys its operations touch.\<close>

lemma shard_order:
  assumes run: "cow_run hash as new_cow = Some s" and given: "keys_given as"
    and routes: "\<And>a. a \<in> set as \<Longrightarrow> routed shard j a"
  obtains ops where "filter is_write ops = writes_of as" "distinct (map fst (fst (seq_run ops Map.empty)))"
    "sorted_wrt (\<lambda>x y. op_first as x \<le> op_last as y) ops"
    "\<And>op. op \<in> set ops \<Longrightarrow> op_fits as (reader_starts s) op \<and> (\<forall>k \<in> set (op_keys op). shard k = j)"
    "\<And>i res. i < length (co_readers s) \<Longrightarrow> rd_pc (co_readers s ! i) = Returned res \<Longrightarrow>
       \<exists>b. (i, b) \<in> set (fst (seq_run ops Map.empty)) \<and> map_option frozen b = map_option (frozen \<circ> snd) res"
proof -
  obtain eps where ok: "lin_ok hash as s eps" using lin_run [OF run lin_new given] by auto
  note parts = lin_okD [OF ok]
  have keys: "shard (rd_key rd) = j" if rd: "rd \<in> set (co_readers s)" for rd
    by (rule cow_run_keys [where P = "\<lambda>k. shard k = j", OF run _ _ rd]) (auto simp: new_cow_def dest: routes)
  have w: "\<forall>k \<in> set (op_keys op). shard k = j" if op: "op \<in> set (flat eps)" for op
  proof (cases "is_write op")
    case True
    then have "op \<in> set (filter is_write (flat eps))" using op by simp
    then have "op \<in> set (writes_of as)" unfolding parts(5) .
    then obtain t where t: "t < length as" "op \<in> set (writes_at t (as ! t))" by (auto simp: writes_of_def)
    have "routed shard j (as ! t)" using routes t(1) by simp
    then show ?thesis using t(2) by (cases "as ! t") (auto simp: list_all_iff)
  next
    case False
    then obtain i k env where g: "op = SeqGet i k env" by (cases op) auto
    have "i < length (co_readers s)" "k = rd_key (co_readers s ! i)" using ord_okD(6) [OF parts(4) op] by (auto simp: g)
    then show ?thesis using keys by (simp add: g)
  qed
  have d: "distinct (map fst (fst (seq_run (flat eps) Map.empty)))" using parts(6) unfolding fst_answers dec_ok_def by blast
  show thesis
    by (rule that [OF parts(5) d ord_okD(1) [OF parts(4)] _ returned_answer [OF ok]]) (use ord_okD(6) [OF parts(4)] w in blast)
qed

text \<open>C18: A container of any number of shards is linearizable, on keys that are not empty. For every interleaving of calls on keys of any shards
  there is one sequence of operations that has, for each shard, every write once, in the order of publication, and
  every \<open>Get\<close> that has returned exactly once, with its key and a clock that this very call looked at; in which no operation that began after another had made its last step
  comes before it, whichever their shards; and which, run one after another on one finite map, gives every \<open>Get\<close>
  the answer it returned, up to the read counters.\<close>

theorem container_linearizable:
  assumes "container_run hash acts (new_container n) = Some sc" "keys_given (map snd acts)"
  shows "\<exists>ops.
    (\<forall>j < length (sc_shards sc). filter is_write (on_shard j ops) = writes_of (on_shard j acts)) \<and>
    (\<forall>x \<in> set ops. fst x < length (sc_shards sc)) \<and>
    distinct (map fst (fst (container_seq ops Map.empty))) \<and>
    (\<forall>j i k env. (j, SeqGet i k env) \<in> set ops \<longrightarrow> i < length (co_readers (sc_shards sc ! j)) \<and>
       k = rd_key (co_readers (sc_shards sc ! j) ! i) \<and> (j, GetStep env i) \<in> set acts) \<and>
    sorted_wrt (\<lambda>x y. first_step acts x \<le> last_step acts y) ops \<and>
    (\<forall>j < length (sc_shards sc). \<forall>i < length (co_readers (sc_shards sc ! j)). \<forall>res.
       rd_pc (co_readers (sc_shards sc ! j) ! i) = Returned res \<longrightarrow>
       (\<exists>b. ((j, i), b) \<in> set (fst (container_seq ops Map.empty)) \<and> map_option frozen b = map_option (frozen \<circ> snd) res))"
proof -
  let ?N = "length (sc_shards sc)" and ?shard = "getShard hash (new_container n)"
  note shards = container_run_shards [OF assms(1)]
  have run: "cow_run hash (on_shard j acts) new_cow = Some (sc_shards sc ! j)" if "j < ?N" for j
    using shards(1) shards(2) [of j] that by (simp add: new_container_def NewShardContainer_def Let_def)
  have given: "keys_given (on_shard j acts)" for j
    using assms(2) by (auto simp: keys_given_def on_shard_def list_all_iff)
  have routes: "routed ?shard j a" if "a \<in> set (on_shard j acts)" for j a
    using that shards(3) by (fastforce simp: on_shard_def)
  define good where "good = (\<lambda>j ops. filter is_write ops = writes_of (on_shard j acts) \<and> distinct (map fst (fst (seq_run ops Map.empty))) \<and>
    sorted_wrt (\<lambda>x y. op_first (on_shard j acts) x \<le> op_last (on_shard j acts) y) ops \<and>
    (\<forall>op \<in> set ops. op_fits (on_shard j acts) (reader_starts (sc_shards sc ! j)) op \<and> (\<forall>k \<in> set (op_keys op). ?shard k = j)) \<and>
    (\<forall>i < length (co_readers (sc_shards sc ! j)). \<forall>res. rd_pc (co_readers (sc_shards sc ! j) ! i) = Returned res \<longrightarrow>
      (\<exists>b. (i, b) \<in> set (fst (seq_run ops Map.empty)) \<and> map_option frozen b = map_option (frozen \<circ> snd) res)))"
  have "\<exists>ops. good j ops" if j: "j < ?N" for j
    by (rule shard_order [OF run [OF j] given routes]) (auto simp: good_def)
  then obtain xs where xs: "good j (xs j)" if "j < ?N" for j by metis
  have fits: "op_fits (on_shard j acts) (reader_starts (sc_shards sc ! j)) x" if "j < ?N" "x \<in> set (xs j)" for j x
    using xs [OF that(1)] that(2) by (simp add: good_def)
  have order: "first_step acts (j, x) \<le> last_step acts (j, y)"
    if "j < ?N" "y \<in> set (xs j)" "op_first (on_shard j acts) x \<le> op_last (on_shard j acts) y" for j x y
    by (rule step_mono [OF that(3) op_interval(2) [OF run [OF that(1)] fits [OF that(1,2)]]])
  obtain ops where ops: "\<And>j. on_shard j ops = (if j < ?N then xs j else [])" "sorted_wrt (\<lambda>x y. first_step acts x \<le> last_step acts y) ops"
  proof (rule merge_orders [of ?N "first_step acts" "last_step acts" xs])
    fix j assume j: "j < ?N"
    have "sorted_wrt (\<lambda>x y. op_first (on_shard j acts) x \<le> op_last (on_shard j acts) y) (xs j)" using xs [OF j] by (simp add: good_def)
    then show "sorted_wrt (\<lambda>x y. first_step acts (j, x) \<le> last_step acts (j, y)) (xs j)"
      by (rule sorted_wrt_mono_rel [rotated]) (rule order [OF j])
    show "first_step acts (j, x) \<le> last_step acts (j, x)" if "x \<in> set (xs j)" for x
      by (rule order [OF j that op_interval(1) [OF run [OF j] fits [OF j that]]])
  qed (rule that)
  have mine: "fst x < ?N \<and> snd x \<in> set (xs (fst x))" if "x \<in> set ops" for x
  proof -
    have "snd x \<in> set (on_shard (fst x) ops)" using that by (auto simp: on_shard_def)
    then show ?thesis unfolding ops(1) by (simp split: if_splits)
  qed
  have keys: "?shard k = fst x" if x: "x \<in> set ops" "k \<in> set (op_keys (snd x))" for x k
  proof -
    have "\<forall>op \<in> set (xs (fst x)). \<forall>k \<in> set (op_keys op). ?shard k = fst x" using xs [of "fst x"] mine [OF x(1)] by (simp add: good_def)
    then show ?thesis using mine [OF x(1)] x(2) by blast
  qed
  have parts: "map (\<lambda>x. (snd (fst x), snd x)) (filter (\<lambda>x. fst (fst x) = j) (fst (container_seq ops Map.empty))) =
      fst (seq_run (if j < ?N then xs j else []) Map.empty)" for j
    using container_seq_shard [of ops ?shard j Map.empty Map.empty] keys ops(1) by simp
  have once: "distinct (map fst (fst (container_seq ops Map.empty)))"
  proof (rule distinct_by_shard)
    fix j
    have "map (\<lambda>x. snd (fst x)) (filter (\<lambda>x. fst (fst x) = j) (fst (container_seq ops Map.empty))) =
        map fst (fst (seq_run (if j < ?N then xs j else []) Map.empty))"
      unfolding parts [symmetric] by (simp add: comp_def)
    then show "distinct (map (\<lambda>x. snd (fst x)) (filter (\<lambda>x. fst (fst x) = j) (fst (container_seq ops Map.empty))))"
      using xs [of j] by (auto simp: good_def)
  qed
  have answered: "\<exists>b. ((j, i), b) \<in> set (fst (container_seq ops Map.empty)) \<and> map_option frozen b = map_option (frozen \<circ> snd) res"
    if j: "j < ?N" "i < length (co_readers (sc_shards sc ! j))" "rd_pc (co_readers (sc_shards sc ! j) ! i) = Returned res" for j i res
  proof -
    obtain b where b: "(i, b) \<in> set (fst (seq_run (xs j) Map.empty))" "map_option frozen b = map_option (frozen \<circ> snd) res"
      using xs [OF j(1)] j(2,3) unfolding good_def by blast
    then have "(i, b) \<in> set (map (\<lambda>x. (snd (fst x), snd x)) (filter (\<lambda>x. fst (fst x) = j) (fst (container_seq ops Map.empty))))"
      using parts [of j] j(1) by simp
    then have "((j, i), b) \<in> set (fst (container_seq ops Map.empty))" by auto
    then show ?thesis using b(2) by blast
  qed
  have real: "j < ?N \<and> i < length (co_readers (sc_shards sc ! j)) \<and> k = rd_key (co_readers (sc_shards sc ! j) ! i) \<and>
      (j, GetStep env i) \<in> set acts" if x: "(j, SeqGet i k env) \<in> set ops" for j i k env
  proof -
    have m: "j < ?N" "SeqGet i k env \<in> set (xs j)" using mine [OF x] by simp_all
    have "GetStep env i \<in> set (on_shard j acts)" using fits [OF m] by simp
    then have "(j, GetStep env i) \<in> set acts" by (auto simp: on_shard_def)
    then show ?thesis using fits [OF m] m(1) by simp
  qed
  show ?thesis
  proof (rule exI [of _ ops], intro conjI)
    show "\<forall>j < ?N. filter is_write (on_shard j ops) = writes_of (on_shard j acts)" using xs by (simp add: good_def ops(1))
    show "\<forall>x \<in> set ops. fst x < ?N" using mine by blast
    show "distinct (map fst (fst (container_seq ops Map.empty)))" by (rule once)
    show "\<forall>j i k env. (j, SeqGet i k env) \<in> set ops \<longrightarrow> i < length (co_readers (sc_shards sc ! j)) \<and>
        k = rd_key (co_readers (sc_shards sc ! j) ! i) \<and> (j, GetStep env i) \<in> set acts" using real by blast
    show "sorted_wrt (\<lambda>x y. first_step acts x \<le> last_step acts y) ops" by (rule ops(2))
    show "\<forall>j < ?N. \<forall>i < length (co_readers (sc_shards sc ! j)). \<forall>res. rd_pc (co_readers (sc_shards sc ! j) ! i) = Returned res \<longrightarrow>
        (\<exists>b. ((j, i), b) \<in> set (fst (container_seq ops Map.empty)) \<and> map_option frozen b = map_option (frozen \<circ> snd) res)"
      by (intro allI impI) (rule answered)
  qed
qed

text \<open>Two shards and a key of each: a reader of the second key loads before that key is set and misses it; a reader of
  the first key finds it, with steps on the other shard in between.\<close>

definition two_shards :: "(nat \<times> cow_action) list" where
  "two_shards =
     [(1, SetPublish sample_env (str ''k'') (sample_entry [1] 0 True)), (0, GetStart (str ''j'')), (1, GetStart (str ''k'')),
      (0, SetPublish sample_env (str ''j'') ((sample_entry [2] 0 True)\<lparr>se_Key := str ''j''\<rparr>)), (1, GetStep sample_env 0),
      (0, GetStep sample_env 0), (1, GetStep sample_env 0), (1, GetStep sample_env 0), (1, GetStep sample_env 0)]"

definition first_byte :: hasher where
  "first_byte k = (case k of [] \<Rightarrow> 0 | c # _ \<Rightarrow> ucast c)"

fun answered_value :: "reader_pc \<Rightarrow> byte list option option" where
  "answered_value (Returned res) = Some (map_option (se_Value \<circ> snd) res)"
| "answered_value pc = None"

lemma answered_valueE:
  "answered_value pc = Some None \<Longrightarrow> pc = Returned None"
  "answered_value pc = Some (Some v) \<Longrightarrow> \<exists>r e. pc = Returned (Some (r, e)) \<and> se_Value e = v"
  by (cases pc; fastforce)+

fun two_shards_end :: "cow_container option \<Rightarrow> bool" where
  "two_shards_end None = False"
| "two_shards_end (Some sc) =
     (map (map (answered_value \<circ> rd_pc) \<circ> co_readers) (sc_shards sc) = [[Some None], [Some (Some [1])]])"

lemma two_shards_run: "two_shards_end (container_run first_byte two_shards (new_container 2))"
  by code_simp

lemma frozen_same_value: "frozen b = frozen e \<Longrightarrow> se_Value b = se_Value e"
  by (drule arg_cong [where f = se_Value]) (simp add: frozen_def)

theorem container_linearizable_witness:
  "\<exists>sc ops b. container_run first_byte two_shards (new_container 2) = Some sc \<and>
     ((0, 0), None) \<in> set (fst (container_seq ops Map.empty)) \<and> ((1, 0), Some b) \<in> set (fst (container_seq ops Map.empty)) \<and>
     se_Value b = [1]"
proof -
  obtain sc where sc: "container_run first_byte two_shards (new_container 2) = Some sc" "two_shards_end (Some sc)"
    using two_shards_run by (cases "container_run first_byte two_shards (new_container 2)") simp_all
  obtain s0 s1 rd0 rd1 r e where e: "sc_shards sc = [s0, s1]" "co_readers s0 = [rd0]" "co_readers s1 = [rd1]"
    "rd_pc rd0 = Returned None" "rd_pc rd1 = Returned (Some (r, e))" "se_Value e = [1]"
    using sc(2) by (auto simp: map_eq_Cons_conv dest!: answered_valueE)
  have k: "keys_given (map snd two_shards)" by (simp add: keys_given_def two_shards_def str_nonempty)
  obtain ops where ops: "\<forall>j < length (sc_shards sc). \<forall>i < length (co_readers (sc_shards sc ! j)). \<forall>res.
      rd_pc (co_readers (sc_shards sc ! j) ! i) = Returned res \<longrightarrow>
      (\<exists>b. ((j, i), b) \<in> set (fst (container_seq ops Map.empty)) \<and> map_option frozen b = map_option (frozen \<circ> snd) res)"
    using container_linearizable [OF sc(1) k] by (elim exE conjE) (rule that)
  have len: "0 < length (sc_shards sc)" "1 < length (sc_shards sc)" "0 < length (co_readers (sc_shards sc ! 0))"
    "0 < length (co_readers (sc_shards sc ! 1))" by (simp_all add: e(1-3))
  have pc: "rd_pc (co_readers (sc_shards sc ! 0) ! 0) = Returned None"
    "rd_pc (co_readers (sc_shards sc ! 1) ! 0) = Returned (Some (r, e))" by (simp_all add: e(1-5))
  obtain b0 where b0: "((0, 0), b0) \<in> set (fst (container_seq ops Map.empty))" "b0 = None"
    using ops [rule_format, OF len(1,3) pc(1)] by auto
  obtain b1 where b1: "((1, 0), b1) \<in> set (fst (container_seq ops Map.empty))" "map_option frozen b1 = Some (frozen e)"
    using ops [rule_format, OF len(2,4) pc(2)] by auto
  obtain b where b: "b1 = Some b" "frozen b = frozen e" using b1(2) by auto
  have "se_Value b = [1]" using frozen_same_value [OF b(2)] e(6) by simp
  then show ?thesis using sc(1) b0 b1(1) unfolding b(1) b0(2) by blast
qed

end
