(* ===== verification/Cow_Refinement.thy ===== *)
theory Cow_Refinement
  imports Linearizability
begin

text \<open>
  The two models of the memory store agree (\<open>internal/engine/in_memory.go\<close>): after any interleaving of
  \<open>Cow_Concurrency\<close>, following the pointers of the published index gives a state of \<open>Memory_Store\<close>, and each operation,
  run alone from there, keeps the two in step. A \<open>Get\<close> writes its counters through a pointer, so this needs that no
  two keys of an index share a cell.
\<close>

section \<open>Sorted indexes are canonical\<close>

lemma seg_ext:
  assumes "seg_ok a" "seg_ok b" "seg_map a = seg_map b"
  shows "a = b"
proof -
  have "set (seg_keys a) = set (seg_keys b)" using dom_seg_map [OF assms(1)] dom_seg_map [OF assms(2)] assms(3) by simp
  then have k: "seg_keys a = seg_keys b"
    using assms(1,2) by (intro strict_sorted_equal) (simp_all add: seg_ok_def)
  have v: "map (\<lambda>k. the (seg_map s k)) (seg_keys s) = seg_vals s" if "seg_ok s" for s
  proof (rule nth_equalityI)
    show "length (map (\<lambda>k. the (seg_map s k)) (seg_keys s)) = length (seg_vals s)" using that by (simp add: seg_ok_def)
    fix i assume i: "i < length (map (\<lambda>k. the (seg_map s k)) (seg_keys s))"
    then have "seg_map s (seg_keys s ! i) = Some (seg_vals s ! i)"
      using that strictly_sorted_distinct [of "seg_keys s"] unfolding seg_map_def
      by (intro map_of_is_SomeI) (auto simp: in_set_zip seg_ok_def)
    then show "map (\<lambda>k. the (seg_map s k)) (seg_keys s) ! i = seg_vals s ! i" using i by simp
  qed
  have "seg_vals a = seg_vals b" using v [OF assms(1)] v [OF assms(2)] k assms(3) by simp
  with k show ?thesis by (cases a; cases b) simp
qed

lemma index_ext:
  assumes ok: "index_ok hash xs" "index_ok hash ys" and len: "length xs = length ys" and m: "index_map hash xs = index_map hash ys"
  shows "xs = ys"
proof (rule nth_equalityI [OF len])
  fix i assume i: "i < length xs"
  have at: "seg_map (zs ! i) = (\<lambda>k. if segment_of hash (length zs) k = i then index_map hash zs k else None)"
    if "index_ok hash zs" "i < length zs" for zs
  proof
    fix k
    have "seg_map (zs ! i) k = None" if "segment_of hash (length zs) k \<noteq> i"
      using that index_okD(3) [OF \<open>index_ok hash zs\<close> \<open>i < length zs\<close>, of k] dom_seg_map [OF index_okD(2) [OF \<open>index_ok hash zs\<close> \<open>i < length zs\<close>]]
      by (metis domIff)
    then show "seg_map (zs ! i) k = (if segment_of hash (length zs) k = i then index_map hash zs k else None)"
      by (auto simp: index_map_def)
  qed
  have i': "i < length ys" using i len by simp
  have "seg_map (xs ! i) = seg_map (ys ! i)" unfolding at [OF ok(1) i] at [OF ok(2) i'] len m ..
  then show "xs ! i = ys ! i" by (rule seg_ext [OF index_okD(2) [OF ok(1) i] index_okD(2) [OF ok(2) i']])
qed

section \<open>Following the pointers\<close>

definition ref_ok :: "hasher \<Rightarrow> storage_entry list \<Rightarrow> ref_index \<Rightarrow> bool" where
  "ref_ok hash h idx \<longleftrightarrow> idx_ok (length h) idx \<and> index_ok hash (deref h idx)"

lemma ref_okD:
  assumes "ref_ok hash h idx"
  shows "idx_ok (length h) idx" "index_ok hash (deref h idx)" "ref_sorted idx"
  using assms by (auto simp: ref_ok_def index_ok_def ref_sorted_def deref_nth seg_ok_def in_set_conv_nth)

text \<open>Only the keys matter, not what the cells hold.\<close>

lemma ref_ok_heap:
  assumes "length h \<le> length h'" "ref_ok hash h idx"
  shows "ref_ok hash h' idx"
  using assms idx_ok_mono [of "length h" idx "length h'"] by (simp add: ref_ok_def index_ok_def deref_nth seg_ok_def)

lemma index_map_deref:
  assumes "ref_ok hash h idx"
  shows "index_map hash (deref h idx) k = map_option ((!) h) (ref_lookup hash idx k)"
proof -
  let ?si = "ref_segmentIndexOf hash idx k"
  note si = ref_segment_less [OF ref_okD(1) [OF assms], of hash k]
  obtain i found where b: "BinarySearch (rg_keys (idx ! ?si)) k = (i, found)" by fastforce
  have "BinarySearch (seg_keys (deref h idx ! ?si)) k = (i, found)" by (simp add: deref_nth [OF si] b)
  note lk = seg_lookup [OF index_okD(2) [OF ref_okD(2) [OF assms]] this] 
  show ?thesis using lk si b by (cases found) (auto simp: index_map_def segment_of_ref ref_lookup_def Let_def deref_nth)
qed

text \<open>One key of a batch, and all of them.\<close>

lemma ref_delete_deref:
  assumes ok: "ref_ok hash h idx" and r: "ref_delete hash h k (idx, d) = (idx', d')"
  shows "ref_ok hash h idx' \<and> d' - d = index_size (deref h idx') - index_size (deref h idx) \<and>
    ref_lookup hash idx' = (ref_lookup hash idx)(k := None) \<and> length idx' = length idx"
proof -
  let ?si = "ref_segmentIndexOf hash idx k"
  note si = ref_segment_less [OF ref_okD(1) [OF ok], of hash k]
  have lk: "ref_lookup hash idx' = (ref_lookup hash idx)(k := None)"
    using ref_delete_map(2) [of _ "(idx, d)" hash h k] ref_okD(1,3) [OF ok] r by simp
  obtain i found where b: "BinarySearch (rg_keys (idx ! ?si)) k = (i, found)" by fastforce
  show ?thesis
  proof (cases found)
    case False
    then show ?thesis using r b ok lk by (auto simp: ref_delete_def Let_def)
  next
    case True
    let ?seg = "deref h idx ! ?si"
    define ns where "ns = \<lparr>seg_keys = remove_at i (seg_keys ?seg), seg_vals = remove_at i (seg_vals ?seg)\<rparr>"
    have bs: "BinarySearch (seg_keys ?seg) k = (i, True)" using True b by (simp add: deref_nth [OF si])
    have so: "seg_ok ?seg" using index_okD(2) [OF ref_okD(2) [OF ok]] si by simp
    note rm = seg_remove [OF so bs ns_def]
    have iv: "i < length (rg_vals (idx ! ?si))" using seg_lookup(3) [OF so bs] by (simp add: deref_nth [OF si])
    have idx': "idx' = idx[?si := \<lparr>rg_keys = remove_at i (rg_keys (idx ! ?si)), rg_vals = remove_at i (rg_vals (idx ! ?si))\<rparr>]"
      "d' = d - sizeOf k (seg_vals ?seg ! i)"
      using r b True iv by (simp_all add: ref_delete_def Let_def deref_nth [OF si])
    have new: "deref h idx' = (deref h idx)[?si := ns]"
      by (simp add: idx' deref_def map_update ns_def remove_at_def take_map drop_map si)
    have sub: "set (seg_keys ns) \<subseteq> insert k (set (seg_keys ?seg))"
      using set_take_subset [of i "seg_keys ?seg"] set_drop_subset [of "Suc i" "seg_keys ?seg"] by (auto simp: ns_def remove_at_def)
    have sk: "?si = segment_of hash (length (deref h idx)) k" by (simp add: segment_of_ref)
    note rep = index_replace_key [OF ref_okD(2) [OF ok] sk rm(1) sub rm(2)]
    have "idx_ok (length h) idx'" using idx_ok_delete [of _ "(idx, d)" hash h k] ref_okD(1) [OF ok] r by simp
    moreover have "length idx' = length idx" by (simp add: idx'(1))
    ultimately show ?thesis using rep(1,3) rm(3) lk unfolding ref_ok_def new idx'(2) by simp
  qed
qed

lemma ref_deletes_deref:
  assumes "ref_ok hash h idx" "fold (ref_delete hash h) ks (idx, d) = (idx', d')"
  shows "ref_ok hash h idx' \<and> d' - d = index_size (deref h idx') - index_size (deref h idx) \<and>
    ref_lookup hash idx' = (ref_lookup hash idx) |` (- set ks) \<and> length idx' = length idx"
  using assms
proof (induction ks arbitrary: idx d)
  case (Cons k ks)
  obtain idx1 d1 where r: "ref_delete hash h k (idx, d) = (idx1, d1)" by fastforce
  note one = ref_delete_deref [OF Cons.prems(1) r]
  have "ref_ok hash h idx' \<and> d' - d1 = index_size (deref h idx') - index_size (deref h idx1) \<and>
    ref_lookup hash idx' = (ref_lookup hash idx1) |` (- set ks) \<and> length idx' = length idx1"
    by (rule Cons.IH) (use one Cons.prems(2) r in simp_all)
  moreover have "((ref_lookup hash idx)(k := None)) |` (- set ks) = (ref_lookup hash idx) |` (- set (k # ks))"
    by (auto simp: restrict_map_def)
  ultimately show ?case using one by simp
qed (auto simp: restrict_map_def)

section \<open>Every published index\<close>

text \<open>The current index is sorted, with each key in the segment of its hash, and no two keys share a cell.\<close>

definition snap_ok :: "hasher \<Rightarrow> cow_state \<Rightarrow> bool" where
  "snap_ok hash s \<longleftrightarrow> ref_ok hash (co_heap s) (snapshot s) \<and>
     (\<forall>k k' r. ref_lookup hash (snapshot s) k = Some r \<longrightarrow> ref_lookup hash (snapshot s) k' = Some r \<longrightarrow> k = k')"

lemma snap_ok_set:
  assumes "snap_ok hash s"
  shows "snap_ok hash (Set_publish hash env k v s)"
proof -
  let ?h = "co_heap s" and ?s = "Set_publish hash env k v s"
  have ok: "ref_ok hash ?h (snapshot s)" using assms by (simp add: snap_ok_def)
  define m where "m = (NewMemoryStore 0)\<lparr>ms_segments := deref ?h (snapshot s)\<rparr>"
  have "gc_ok (ms_gc (NewMemoryStore 0))" using NewMemoryStore_ok(1) by (simp add: store_ok_def)
  then have m: "store_ok hash m" using ref_okD(2) [OF ok] by (simp add: m_def store_ok_def)
  have "index_ok hash (deref (co_heap ?s) (snapshot ?s))"
    using MemoryStore_Set_correct(1) [OF m prod.collapse [symmetric]] Set_publish_refines [OF ref_okD(1) [OF ok], of m]
    by (simp add: store_ok_def m_def)
  moreover have i: "idx_ok (length (co_heap ?s)) (snapshot s)" by (rule idx_ok_mono [OF ref_okD(1) [OF ok]]) (simp add: Set_publish_def)
  have s: "co_heap ?s = ?h @ [stamped env v]" "snapshot ?s = ref_insert hash (snapshot s) k (length ?h)"
    by (simp_all add: Set_publish_def snapshot_def)
  ultimately have "ref_ok hash (co_heap ?s) (snapshot ?s)" using idx_ok_insert [OF i, of "length ?h" hash k] by (simp add: ref_ok_def s)
  moreover have "ref_lookup hash (snapshot ?s) = (ref_lookup hash (snapshot s))(k \<mapsto> length ?h)"
    using ref_insert_map(2) [OF i ref_okD(3) [OF ok], of "length ?h" hash k] by (simp add: s)
  ultimately show ?thesis using assms ref_lookup_less [OF ref_okD(1) [OF ok], of hash] by (auto simp: snap_ok_def)
qed

lemma snap_ok_delete:
  assumes "snap_ok hash s"
  shows "snap_ok hash (Delete_publish hash ks s)"
proof -
  obtain idx d where f: "fold (ref_delete hash (co_heap s)) ks (snapshot s, 0) = (idx, d)" by fastforce
  have "ref_ok hash (co_heap s) (snapshot s)" using assms by (simp add: snap_ok_def)
  note ds = ref_deletes_deref [OF this f]
  have "Delete_publish hash ks s = (if d \<noteq> 0 then s\<lparr>co_indexes := co_indexes s @ [idx]\<rparr> else s)"
    by (simp only: Delete_publish_def f prod.case Let_def)
  then show ?thesis using assms ds by (auto simp: snap_ok_def snapshot_def restrict_map_def split: if_splits)
qed

lemma Get_step_frame:
  assumes "Get_step hash env i s = Some s'"
  shows "co_indexes s' = co_indexes s" "length (co_heap s') = length (co_heap s)"
  using assms by (auto simp: get_steps split: if_splits reader_pc.splits prod.splits)

lemma snap_ok_step: "snap_ok hash s \<Longrightarrow> cow_step hash a s = Some s' \<Longrightarrow> snap_ok hash s'"
proof (cases a)
  case (GetStep env i)
  assume ok: "snap_ok hash s" and "cow_step hash a s = Some s'"
  then have f: "snapshot s' = snapshot s" "length (co_heap s') = length (co_heap s)"
    using Get_step_frame [of hash env i s s'] GetStep by (simp_all add: snapshot_def)
  then show ?thesis using ok ref_ok_heap [of "co_heap s" "co_heap s'" hash "snapshot s"] by (simp add: snap_ok_def)
next
  case (GetStart k)
  assume "snap_ok hash s" "cow_step hash a s = Some s'"
  then show ?thesis using GetStart by (auto simp: Get_start_def snap_ok_def snapshot_def)
qed (auto simp: snap_ok_set snap_ok_delete)

lemma snap_ok_new: "snap_ok hash new_cow"
proof -
  have d: "deref [] (snapshot new_cow) = ms_segments (NewMemoryStore 0)" by (simp add: new_cow_def snapshot_def deref_def NewMemoryStore_def)
  have i: "idx_ok 0 (snapshot new_cow)" by (simp add: new_cow_def snapshot_def idx_ok_def)
  then have "ref_ok hash (co_heap new_cow) (snapshot new_cow)"
    using NewMemoryStore_ok(1) [of hash 0] d by (simp add: ref_ok_def store_ok_def new_cow_def)
  then show ?thesis using ref_lookup_less [OF i, of hash] by (auto simp: snap_ok_def)
qed

lemma snap_ok_run: "cow_run hash as new_cow = Some s \<Longrightarrow> snap_ok hash s"
  by (rule cow_run_invariant [where I = "snap_ok hash", OF _ snap_ok_new snap_ok_step])

section \<open>In step\<close>

text \<open>The sequential store holds what the pointers of the published index lead to.\<close>

definition in_step :: "hasher \<Rightarrow> cow_state \<Rightarrow> memory_store \<Rightarrow> bool" where
  "in_step hash s m \<longleftrightarrow> store_ok hash m \<and> ms_segments m = deref (co_heap s) (snapshot s)"

lemma in_step_set:
  assumes "snap_ok hash s" "in_step hash s m"
  shows "in_step hash (Set_publish hash env k v s) (fst (MemoryStore_Set env hash m k v))"
  using assms Set_publish_refines [of s m] MemoryStore_Set_correct(1) [OF _ prod.collapse [symmetric]]
  by (simp add: in_step_def snap_ok_def ref_ok_def)

lemma in_step_delete:
  assumes s: "snap_ok hash s" and m: "in_step hash s m" and r: "deleteBatch hash m ks = (m', out)"
  shows "in_step hash (if out = None then Delete_publish hash ks s else s) m'"
proof -
  have ok: "store_ok hash m" and segs: "ms_segments m = deref (co_heap s) (snapshot s)" using m by (simp_all add: in_step_def)
  have ref: "ref_ok hash (co_heap s) (snapshot s)" using s by (simp add: snap_ok_def)
  have ok': "store_ok hash m'" using deleteBatch_any [OF ok r] by blast
  obtain idx d where f: "fold (ref_delete hash (co_heap s)) ks (snapshot s, 0) = (idx, d)" by fastforce
  note ds = ref_deletes_deref [OF ref f]
  have pub: "Delete_publish hash ks s = (if d \<noteq> 0 then s\<lparr>co_indexes := co_indexes s @ [idx]\<rparr> else s)"
    by (simp only: Delete_publish_def f prod.case Let_def)
  obtain new d2 kc gc o1 where dg:
    "delete_groups (group_keys hash m ks) (ms_segments m) (ms_segments m) 0 (ms_keyCount m) (ms_gc m) = ((new, d2, kc, gc), o1)"
    by (metis surj_pair)
  note c = deleteBatch_groups [OF ok dg]
  have same: "deref (co_heap s) idx = new \<and> d = d2" if "o1 = None"
  proof -
    have "index_map hash (deref (co_heap s) idx) = index_map hash new"
      using c that ds index_map_deref [OF ref] index_map_deref [of hash "co_heap s" idx]
      by (auto simp: fun_eq_iff segs restrict_map_def)
    then have "deref (co_heap s) idx = new"
      using c that ds ref_okD(2) [of hash "co_heap s" idx] by (intro index_ext [of hash]) (simp_all add: segs)
    then show ?thesis using c that ds by (simp add: segs)
  qed
  show ?thesis
  proof (cases "ks = []")
    case True
    then have "d = 0" "m' = m" "out = None" using r f by (auto simp: deleteBatch_def)
    then show ?thesis using m by (simp add: pub)
  next
    case False
    have "ms_segments m' = (if o1 = None \<and> d2 \<noteq> 0 then new else ms_segments m)" "out = o1"
      using r False dg by (auto simp: deleteBatch_def split: option.splits if_splits)
    then show ?thesis using same ok' segs by (auto simp: in_step_def pub snapshot_def)
  qed
qed

text \<open>Writing a cell that an index binds to \<open>k\<close> is writing the entry of \<open>k\<close>.\<close>

lemma deref_write:
  assumes s: "snap_ok hash s" and m: "in_step hash s m"
    and b: "BinarySearch (rg_keys (ref_segment hash (snapshot s) k)) k = (j, True)"
    and r: "r = rg_vals (ref_segment hash (snapshot s) k) ! j"
  shows "ms_segments (write_entry m (ref_segmentIndexOf hash (snapshot s) k) j e) = deref ((co_heap s)[r := e]) (snapshot s)"
proof -
  let ?si = "ref_segmentIndexOf hash (snapshot s) k" and ?h = "(co_heap s)[r := e]"
  have ref: "ref_ok hash (co_heap s) (snapshot s)" and own: "\<And>k'. ref_lookup hash (snapshot s) k' = Some r \<Longrightarrow> k' = k"
    and lk: "ref_lookup hash (snapshot s) k = Some r"
    using s by (auto simp: snap_ok_def ref_lookup_def Let_def b r)
  have segs: "ms_segments m = deref (co_heap s) (snapshot s)" using m by (simp add: in_step_def)
  note si = ref_segment_less [OF ref_okD(1) [OF ref], of hash k]
  have si': "?si = segment_of hash (length (ms_segments m)) k" by (simp add: segs segment_of_ref)
  have b': "BinarySearch (seg_keys (ms_segments m ! ?si)) k = (j, True)" by (simp add: segs deref_nth [OF si] b)
  have io: "index_ok hash (ms_segments m)" using ref_okD(2) [OF ref] by (simp add: segs)
  note w = write_entry_correct [OF io si' b', of e]
  have ref': "ref_ok hash ?h (snapshot s)" by (rule ref_ok_heap [OF _ ref]) simp
  have less: "r < length (co_heap s)" by (rule ref_lookup_less [OF ref_okD(1) [OF ref] lk])
  have "index_map hash (deref ?h (snapshot s)) k' = ((index_map hash (ms_segments m))(k \<mapsto> e)) k'" for k'
    using index_map_deref [OF ref', of k'] index_map_deref [OF ref, of k'] own [of k'] lk less
    by (cases "ref_lookup hash (snapshot s) k'") (auto simp: segs nth_list_update)
  then have "index_map hash (ms_segments (write_entry m ?si j e)) = index_map hash (deref ?h (snapshot s))"
    unfolding w(2) by auto
  then show ?thesis using w(1) ref_okD(2) [OF ref'] by (intro index_ext [of hash]) (simp_all add: segs)
qed

text \<open>A \<open>Get\<close> that nothing interrupts: its answer, the cells it leaves, and the deletions it asks for.\<close>

definition get_alone :: "env \<Rightarrow> storage_entry list \<Rightarrow> nat option \<Rightarrow> (nat \<times> storage_entry) option \<times> storage_entry list \<times> bool" where
  "get_alone env h found =
     (case found of
        None \<Rightarrow> (None, h, False)
      | Some r \<Rightarrow>
          let e = h ! r;
              one = e\<lparr>se_AccessCount := 1\<rparr>;
              more = e\<lparr>se_AccessCount := i32 (se_AccessCount e + 1), se_LastAccess := env_cached env\<rparr>
          in if IsExpired (env_now env) e then (None, h, True)
             else if se_SingleRead e
             then if se_AccessCount e = 0 then (Some (r, one), h[r := one], True) else (None, h, False)
             else (Some (r, more), h[r := more], False))"

lemma Get_run_alone:
  assumes ok: "idx_ok (length (co_heap s)) (snapshot s)"
    and g: "get_alone env (co_heap s) (ref_lookup hash (snapshot s) k) = (res, h', asked)"
  shows "\<exists>n. cow_run hash (GetStart k # replicate n (GetStep env (length (co_readers s)))) s =
    Some (s\<lparr>co_heap := h', co_pending := co_pending s @ (if asked then [k] else []),
      co_readers := co_readers s @ [\<lparr>rd_key = k, rd_start = length (co_indexes s) - 1, rd_pc = Returned res\<rparr>]\<rparr>)"
proof -
  let ?seg = "ref_segment hash (snapshot s) k"
  obtain j found where b: "BinarySearch (rg_keys ?seg) k = (j, found)" by fastforce
  let ?r = "rg_vals ?seg ! j"
  let ?e = "co_heap s ! ?r"
  have lk: "ref_lookup hash (snapshot s) k = (if found then Some ?r else None)" by (simp add: ref_lookup_def Let_def b)
  have r: "?r < length (co_heap s)" if found using ref_lookup_less [OF ok, of hash k ?r] that lk by simp
  note b' = b [unfolded snapshot_def]
  consider "\<not> found" | "found" "IsExpired (env_now env) ?e"
    | "found" "\<not> IsExpired (env_now env) ?e" "se_SingleRead ?e" "se_AccessCount ?e \<noteq> 0"
    | "found" "\<not> IsExpired (env_now env) ?e" "se_SingleRead ?e" "se_AccessCount ?e = 0"
    | "found" "\<not> IsExpired (env_now env) ?e" "\<not> se_SingleRead ?e" by blast
  then show ?thesis
  proof cases
    case 1
    then have x: "res = None \<and> h' = co_heap s \<and> \<not> asked" using g by (simp add: lk get_alone_def Let_def split: if_splits)
    show ?thesis using 1 by (intro exI [of _ "1"]) (simp add: x get_steps nth_append b')
  next
    case 2
    then have x: "res = None \<and> h' = co_heap s \<and> asked" using g by (simp add: lk get_alone_def Let_def split: if_splits)
    show ?thesis using 2 by (intro exI [of _ "Suc (Suc 0)"]) (simp add: x get_steps nth_append b')
  next
    case 3
    then have x: "res = None \<and> h' = co_heap s \<and> \<not> asked" using g by (simp add: lk get_alone_def Let_def split: if_splits)
    show ?thesis using 3 by (intro exI [of _ "Suc (Suc (Suc 0))"]) (simp add: x get_steps nth_append b')
  next
    case 4
    then have x: "res = Some (?r, ?e\<lparr>se_AccessCount := 1\<rparr>) \<and> h' = (co_heap s)[?r := ?e\<lparr>se_AccessCount := 1\<rparr>] \<and> asked" using g by (simp add: lk get_alone_def Let_def split: if_splits)
    show ?thesis using 4 r by (intro exI [of _ "Suc (Suc (Suc (Suc 0)))"]) (simp add: x get_steps nth_append b')
  next
    case 5
    let ?more = "?e\<lparr>se_AccessCount := i32 (se_AccessCount ?e + 1), se_LastAccess := env_cached env\<rparr>"
    have x: "res = Some (?r, ?more) \<and> h' = (co_heap s)[?r := ?more] \<and> \<not> asked" using g 5 by (simp add: lk get_alone_def Let_def split: if_splits)
    show ?thesis using 5 r by (intro exI [of _ "Suc (Suc (Suc (Suc (Suc 0))))"]) (simp add: x get_steps nth_append b')
  qed
qed

lemma in_step_get:
  assumes s: "snap_ok hash s" and m: "in_step hash s m"
    and g: "get_alone env (co_heap s) (ref_lookup hash (snapshot s) k) = (res, h', asked)"
  shows "fst (MemoryStore_Get env hash m k) = map_option snd res \<and>
    ms_segments (snd (MemoryStore_Get env hash m k)) = deref h' (snapshot s) \<and>
    ms_gc (snd (MemoryStore_Get env hash m k)) = (if asked then GC_ScheduleDelete (ms_gc m) k else ms_gc m)"
proof -
  let ?seg = "ref_segment hash (snapshot s) k" and ?si = "ref_segmentIndexOf hash (snapshot s) k"
  obtain j found where b: "BinarySearch (rg_keys ?seg) k = (j, found)" by fastforce
  let ?r = "rg_vals ?seg ! j"
  have ref: "ref_ok hash (co_heap s) (snapshot s)" using s by (simp add: snap_ok_def)
  have segs: "ms_segments m = deref (co_heap s) (snapshot s)" using m by (simp add: in_step_def)
  note si = ref_segment_less [OF ref_okD(1) [OF ref], of hash k]
  have lk: "ref_lookup hash (snapshot s) k = (if found then Some ?r else None)" by (simp add: ref_lookup_def Let_def b)
  have w: "ms_segments (write_entry m ?si j e) = deref ((co_heap s)[?r := e]) (snapshot s)" if found for e
    using deref_write [OF s m, of k j ?r e] b that by simp
  have b': "BinarySearch (seg_keys (ms_segments m ! ?si)) k = (j, found)" by (simp add: segs deref_nth [OF si] b)
  have e: "seg_vals (ms_segments m ! ?si) ! j = co_heap s ! ?r" if found
    using BinarySearch_le [OF b that] idx_ok_segment(1) [OF ref_okD(1) [OF ref], of hash k] by (simp add: segs deref_nth [OF si])
  have sg: "segmentIndexOf hash m k = ?si" by (simp add: segs segment_of_ref)
  show ?thesis
  proof (cases found)
    case False
    then show ?thesis using g b' sg segs by (simp add: MemoryStore_Get_def Let_def lk get_alone_def del: segmentIndexOf_eq)
  next
    case True
    then show ?thesis using g b' sg segs e w
      by (auto simp: MemoryStore_Get_def Let_def lk get_alone_def simp del: segmentIndexOf_eq split: if_splits)
  qed
qed

section \<open>Property\<close>

text \<open>C8: Run one operation at a time, the concurrent store is the store of \<open>Memory_Store\<close>, from the new store on and
  after any interleaving. If the sequential store holds what the published index leads to, then it still does after a
  \<open>Set\<close> and after a batch of deletes, which when it panics leaves both as they were; and a \<open>Get\<close> whose steps nothing
  interrupts returns what the sequential \<open>Get\<close> returns, leaves the two in step, with the counters it wrote, and asks the
  collector for the same deletions.\<close>

theorem cow_refines_store:
  assumes "cow_run hash as new_cow = Some s" "in_step hash s m"
  shows "in_step hash new_cow (NewMemoryStore now) \<and>
    in_step hash (Set_publish hash env k v s) (fst (MemoryStore_Set env hash m k v)) \<and>
    (case deleteBatch hash m ks of
       (m', None) \<Rightarrow> in_step hash (Delete_publish hash ks s) m'
     | (m', Some p) \<Rightarrow> in_step hash s m') \<and>
    (\<exists>n s' res asked. cow_run hash (GetStart k # replicate n (GetStep env (length (co_readers s)))) s = Some s' \<and>
      rd_pc (co_readers s' ! length (co_readers s)) = Returned res \<and>
      map_option snd res = fst (MemoryStore_Get env hash m k) \<and> in_step hash s' (snd (MemoryStore_Get env hash m k)) \<and>
      co_pending s' = co_pending s @ asked \<and> ms_gc (snd (MemoryStore_Get env hash m k)) = foldl GC_ScheduleDelete (ms_gc m) asked)"
proof (intro conjI)
  have s: "snap_ok hash s" by (rule snap_ok_run [OF assms(1)])
  show "in_step hash new_cow (NewMemoryStore now)"
    by (simp add: in_step_def NewMemoryStore_ok(1)) (simp add: new_cow_def snapshot_def deref_def NewMemoryStore_def)
  show "in_step hash (Set_publish hash env k v s) (fst (MemoryStore_Set env hash m k v))" by (rule in_step_set [OF s assms(2)])
  obtain m' out where d: "deleteBatch hash m ks = (m', out)" by fastforce
  show "case deleteBatch hash m ks of (m', None) \<Rightarrow> in_step hash (Delete_publish hash ks s) m' | (m', Some p) \<Rightarrow> in_step hash s m'"
    using in_step_delete [OF s assms(2) d] by (cases out) (simp_all add: d)
  obtain res h' asked where g: "get_alone env (co_heap s) (ref_lookup hash (snapshot s) k) = (res, h', asked)" by (metis surj_pair)
  have idx: "idx_ok (length (co_heap s)) (snapshot s)" using s by (simp add: snap_ok_def ref_ok_def)
  have "store_ok hash (snd (MemoryStore_Get env hash m k))"
    using assms(2) MemoryStore_Get_correct(3) [OF _ prod.collapse [symmetric]] by (simp add: in_step_def)
  then show "\<exists>n s' res asked. cow_run hash (GetStart k # replicate n (GetStep env (length (co_readers s)))) s = Some s' \<and>
      rd_pc (co_readers s' ! length (co_readers s)) = Returned res \<and>
      map_option snd res = fst (MemoryStore_Get env hash m k) \<and> in_step hash s' (snd (MemoryStore_Get env hash m k)) \<and>
      co_pending s' = co_pending s @ asked \<and> ms_gc (snd (MemoryStore_Get env hash m k)) = foldl GC_ScheduleDelete (ms_gc m) asked"
    using Get_run_alone [OF idx g] in_step_get [OF s assms(2) g]
    by (elim exE) (intro exI conjI, assumption, auto simp: in_step_def snapshot_def)
qed

text \<open>A key is set; the \<open>Get\<close> that follows finds the value, and a batch that deletes it leaves the index empty.\<close>

definition set_cow :: cow_state where
  "set_cow = Set_publish (\<lambda>_. 0) sample_env (str ''k'') (sample_entry [1, 2, 3] 0 False) new_cow"

theorem cow_refines_store_witness:
  "(\<exists>n s' r e. cow_run (\<lambda>_. 0) (GetStart (str ''k'') # replicate n (GetStep sample_env 0)) set_cow = Some s' \<and>
      rd_pc (co_readers s' ! 0) = Returned (Some (r, e)) \<and> se_Value e = [1, 2, 3] \<and>
      in_step (\<lambda>_. 0) s' (snd (MemoryStore_Get sample_env (\<lambda>_. 0) (sample_store (\<lambda>_. 0) False) (str ''k'')))) \<and>
    in_step (\<lambda>_. 0) (Delete_publish (\<lambda>_. 0) [str ''k''] set_cow) (fst (deleteBatch (\<lambda>_. 0) (sample_store (\<lambda>_. 0) False) [str ''k''])) \<and>
    length (co_indexes (Delete_publish (\<lambda>_. 0) [str ''k''] set_cow)) = 3"
proof -
  let ?h = "\<lambda>_ :: gostring. 0 :: 64 word" and ?m = "sample_store (\<lambda>_. 0) False" and ?k = "str ''k''"
  have "cow_run ?h [] new_cow = Some new_cow" by simp
  moreover have "in_step ?h new_cow (NewMemoryStore 0)"
    by (simp add: in_step_def NewMemoryStore_ok(1)) (simp add: new_cow_def snapshot_def deref_def NewMemoryStore_def)
  ultimately have "in_step ?h set_cow ?m"
    unfolding set_cow_def sample_store_def using cow_refines_store [of ?h "[]" new_cow "NewMemoryStore 0"] by blast
  moreover have run: "cow_run ?h [SetPublish sample_env ?k (sample_entry [1, 2, 3] 0 False)] new_cow = Some set_cow" by (simp add: set_cow_def)
  note all = cow_refines_store [OF run calculation, of 0 sample_env ?k "sample_entry [] 0 False" "[?k]"]
  have c: "co_readers set_cow = []" "snd (deleteBatch ?h ?m [?k]) = None"
    "map_option se_Value (fst (MemoryStore_Get sample_env ?h ?m ?k)) = Some [1, 2, 3]"
    "length (co_indexes (Delete_publish ?h [?k] set_cow)) = 3" by code_simp+
  obtain n s' res where g: "cow_run ?h (GetStart ?k # replicate n (GetStep sample_env 0)) set_cow = Some s'"
    "rd_pc (co_readers s' ! 0) = Returned res" "map_option snd res = fst (MemoryStore_Get sample_env ?h ?m ?k)"
    "in_step ?h s' (snd (MemoryStore_Get sample_env ?h ?m ?k))"
    using all unfolding c(1) list.size by (elim exE conjE) (rule that)
  then obtain r e where "res = Some (r, e)" "se_Value e = [1, 2, 3]" using c(3) by (cases res) auto
  moreover obtain m' where "deleteBatch ?h ?m [?k] = (m', None)" using c(2) by (cases "deleteBatch ?h ?m [?k]") auto
  ultimately show ?thesis using all g c(4) by auto
qed

end
