(* ===== verification/Store_Counters.thy ===== *)
theory Store_Counters
  imports Shard_Container
begin

text \<open>
  Stores and containers in every state the process can reach (\<open>internal/engine/in_memory.go\<close>,
  \<open>internal/engine/sharding.go\<close>): any keys, the empty one included, and deletes that panic in the collector, after which
  the HTTP server goes on with the store as they left it. The index stays sound and the byte count exact; the key
  count falls behind by one for each delete after which its key was still there, and by nothing else.
\<close>

section \<open>What the operations do to the counters\<close>

text \<open>How far the key count is behind the index, and the exactness of the byte count.\<close>

definition lag :: "memory_store \<Rightarrow> int" where
  "lag s = index_count (ms_segments s) - ms_keyCount s"

definition sized :: "memory_store \<Rightarrow> bool" where
  "sized s \<longleftrightarrow> ms_usedBytes s = index_size (ms_segments s)"

definition recount :: "int \<Rightarrow> memory_store \<Rightarrow> memory_store" where
  "recount d s = s\<lparr>ms_keyCount := ms_keyCount s + d\<rparr>"

lemma recount_simps [simp]:
  "ms_segments (recount d s) = ms_segments s" "ms_gc (recount d s) = ms_gc s" "ms_usedBytes (recount d s) = ms_usedBytes s"
  "ms_keyCount (recount d s) = ms_keyCount s + d" "store_ok hash (recount d s) = store_ok hash s"
  "store_map hash (recount d s) = store_map hash s"
  by (simp_all add: recount_def store_ok_def store_map_def)

lemma counters_recount: "counters_ok (recount d s) \<longleftrightarrow> sized s \<and> lag s = d"
  by (auto simp: counters_ok_def sized_def lag_def)

lemma lag_gc [simp]: "lag (s\<lparr>ms_gc := gc\<rparr>) = lag s" "sized (s\<lparr>ms_gc := gc\<rparr>) = sized s"
  by (simp_all add: lag_def sized_def)

text \<open>\<open>Set\<close> and \<open>Get\<close> do not look at the key count.\<close>

lemma Set_recount: "MemoryStore_Set env hash (recount d s) k v = apfst (recount d) (MemoryStore_Set env hash s k v)"
  by (auto simp: MemoryStore_Set_def Let_def recount_def stamped_def split: prod.split sum.split)

lemma Get_recount: "MemoryStore_Get env hash (recount d s) k = apsnd (recount d) (MemoryStore_Get env hash s k)"
  by (auto simp: MemoryStore_Get_def Let_def recount_def write_entry_def split: prod.split)

lemma Set_lag:
  assumes "store_ok hash s" "sized s" "MemoryStore_Set env hash s k v = (s', out)"
  shows "sized s' \<and> lag s' = lag s"
  using MemoryStore_Set_correct(3) [of hash "recount (lag s) s" env k v "recount (lag s) s'" out] assms
  by (simp add: Set_recount counters_recount)

lemma Get_lag:
  assumes "store_ok hash s" "sized s" "MemoryStore_Get env hash s k = (r, s')"
  shows "sized s' \<and> lag s' = lag s"
  using MemoryStore_Get_correct(4) [of hash "recount (lag s) s" env k r "recount (lag s) s'"] assms
  by (simp add: Get_recount counters_recount)

text \<open>The keys of a batch that were there before it and are there after it.\<close>

definition kept :: "hasher \<Rightarrow> gostring list \<Rightarrow> memory_store \<Rightarrow> memory_store \<Rightarrow> nat" where
  "kept hash ks s s' = card (set (filter (\<lambda>k. MemoryStore_Exists hash s k \<and> MemoryStore_Exists hash s' k) ks))"

lemma foldl_add_shift: "foldl (\<lambda>t s. t + f s) (t + (c :: int)) xs = foldl (\<lambda>t s. t + f s) t xs + c"
proof (induction xs arbitrary: t)
  case (Cons a xs)
  have "t + c + f a = t + f a + c" by simp
  then show ?case by (simp only: foldl.simps Cons.IH)
qed simp

lemma kept_maps:
  assumes "store_ok hash s" "store_ok hash s'"
  shows "kept hash ks s s' = card (set ks \<inter> dom (store_map hash s) \<inter> dom (store_map hash s'))"
  unfolding kept_def MemoryStore_Exists_correct [OF assms(1)] MemoryStore_Exists_correct [OF assms(2)]
  by (rule arg_cong [where f = card]) auto

lemma finite_store_map: "store_ok hash s \<Longrightarrow> finite (dom (store_map hash s))"
  by (metis MemoryStore_Keys_correct(1) List.finite_set)

lemma batch_lag:
  assumes ok: "store_ok hash s" and r: "deleteBatch hash s ks = (s', None)"
  shows "(sized s \<longrightarrow> sized s') \<and> lag s' = lag s + int (kept hash ks s s')"
proof -
  let ?segs = "ms_segments s" and ?m = "store_map hash s"
  have ok': "store_ok hash s'" by (rule deleteBatch_correct(1) [OF ok r refl])
  show ?thesis
  proof (cases "ks = []")
    case True
    then show ?thesis using r by (simp add: deleteBatch_def kept_def)
  next
    case False
    obtain new d kc gc o1 where dg: "delete_groups (group_keys hash s ks) ?segs ?segs 0 (ms_keyCount s) (ms_gc s) = ((new, d, kc, gc), o1)"
      by (metis surj_pair)
    then have o1: "o1 = None" using r False by (auto simp: deleteBatch_def split: option.splits)
    from deleteBatch_groups [OF ok dg] o1 have new: "index_ok hash new" "index_map hash new = ?m |` (- set ks)"
      "d = index_size new - index_size ?segs" "kc = ms_keyCount s + index_count new - index_count ?segs"
      by (simp_all add: store_map_def)
    have s': "s' = (if d \<noteq> 0 then s\<lparr>ms_segments := new, ms_usedBytes := ms_usedBytes s + d, ms_keyCount := kc, ms_gc := gc\<rparr>
        else s\<lparr>ms_keyCount := kc, ms_gc := gc\<rparr>)"
      using r False dg o1 by (simp add: deleteBatch_def split: if_splits)
    show ?thesis
    proof (cases "d = 0")
      case False
      then have "store_map hash s' = ?m |` (- set ks)" using s' new(2) by (simp add: store_map_def)
      then have e: "set ks \<inter> dom ?m \<inter> dom (store_map hash s') = {}" by auto
      have "kept hash ks s s' = 0" unfolding kept_maps [OF ok ok'] e by simp
      then show ?thesis using s' False new(3,4) by (simp add: lag_def sized_def)
    next
      case True
      then have m: "store_map hash s' = ?m" using s' by (simp add: store_map_def)
      have "dom (index_map hash new) = dom ?m - set ks" by (auto simp: new(2))
      then have "index_count new = int (card (dom ?m - set ks))" using index_count_card [OF new(1)] by simp
      moreover have "index_count ?segs = int (card (dom ?m))"
        using index_count_card [of hash ?segs] ok by (simp add: store_ok_def store_map_def)
      moreover have "card (dom ?m) = card (dom ?m - set ks) + card (dom ?m \<inter> set ks)"
        using card_Int_Diff [OF finite_store_map [OF ok], of "set ks"] by simp
      moreover have "kept hash ks s s' = card (dom ?m \<inter> set ks)"
        unfolding kept_maps [OF ok ok'] m by (rule arg_cong [where f = card]) blast
      ultimately show ?thesis using s' True new(4) by (simp add: lag_def sized_def)
    qed
  qed
qed

lemma Delete_lag:
  assumes ok: "store_ok hash s" and r: "MemoryStore_Delete hash s k = (s', out)"
  shows "(sized s \<longrightarrow> sized s') \<and> lag s' = lag s + int (kept hash [k] s s')"
proof (cases out)
  case None
  then show ?thesis using batch_lag [OF ok] r by (simp add: MemoryStore_Delete_def)
next
  case (Some p)
  have ok': "store_ok hash s'" using deleteBatch_any [OF ok] r by (auto simp: MemoryStore_Delete_def)
  let ?si = "segment_of hash (length (ms_segments s)) k"
  have io: "index_ok hash (ms_segments s)" using ok by (simp add: store_ok_def)
  have so: "seg_ok (ms_segments s ! ?si)" by (rule index_okD(2) [OF io index_okD(1) [OF io]])
  obtain i found where b: "BinarySearch (seg_keys (ms_segments s ! ?si)) k = (i, found)" by fastforce
  have f: "found" using r b Some by (cases found) (auto simp: MemoryStore_Delete_def deleteBatch_def group_keys_def Let_def)
  then have s': "s' = s\<lparr>ms_keyCount := ms_keyCount s - 1\<rparr>"
    using r b Some by (cases "GC_Cancel (ms_gc s) k") (auto simp: MemoryStore_Delete_def deleteBatch_def group_keys_def Let_def split: if_splits)
  have "k \<in> dom (store_map hash s)" using seg_lookup(1) [OF so b] f by (auto simp: store_map_def index_map_def)
  moreover have "store_map hash s' = store_map hash s" by (simp add: s' store_map_def)
  ultimately have k: "set [k] \<inter> dom (store_map hash s) \<inter> dom (store_map hash s') = {k}" by auto
  have "kept hash [k] s s' = 1" unfolding kept_maps [OF ok ok'] k by simp
  moreover have "sized s' = sized s" "lag s' = lag s + 1" by (simp_all add: s' lag_def sized_def)
  ultimately show ?thesis by simp
qed

section \<open>Stores\<close>

text \<open>A turn of a collector, with the deletes it loses. The batch that the coalescer flushes is taken first and deleted
  later, and other calls may come between; a flush that panics ends the process, and the store with it.\<close>

inductive collector_turn :: "hasher \<Rightarrow> memory_store \<Rightarrow> nat \<Rightarrow> memory_store \<Rightarrow> bool" for hash where
  turn_near: "collector_turn hash s 0 (s\<lparr>ms_gc := GC_nearTick c (ms_gc s)\<rparr>)"
| turn_wheel: "collector_turn hash s 0 (s\<lparr>ms_gc := GC_wheelTick t (ms_gc s)\<rparr>)"
| turn_take: "collector_turn hash s 0 (s\<lparr>ms_gc := snd (GC_flush (ms_gc s))\<rparr>)"
| turn_batch: "deleteBatch hash s ks = (s', None) \<Longrightarrow> collector_turn hash s (kept hash ks s s') s'"

text \<open>A store with the number of deletes that were lost. A delete may panic: the HTTP server answers and goes on.\<close>

inductive store_life :: "hasher \<Rightarrow> nat \<Rightarrow> memory_store \<Rightarrow> bool" for hash where
  life_new: "store_life hash 0 (NewMemoryStore now)"
| life_set: "store_life hash n s \<Longrightarrow> MemoryStore_Set env hash s k v = (s', out) \<Longrightarrow> store_life hash n s'"
| life_get: "store_life hash n s \<Longrightarrow> MemoryStore_Get env hash s k = (r, s') \<Longrightarrow> store_life hash n s'"
| life_delete: "store_life hash n s \<Longrightarrow> MemoryStore_Delete hash s k = (s', out) \<Longrightarrow> store_life hash (n + kept hash [k] s s') s'"
| life_turn: "store_life hash n s \<Longrightarrow> collector_turn hash s l s' \<Longrightarrow> store_life hash (n + l) s'"
| life_start: "store_life hash n s \<Longrightarrow> store_life hash n (MemoryStore_StartGC s)"
| life_stop: "store_life hash n s \<Longrightarrow> store_life hash n (MemoryStore_StopGC s)"

definition life_ok :: "hasher \<Rightarrow> int \<Rightarrow> memory_store \<Rightarrow> bool" where
  "life_ok hash n s \<longleftrightarrow> store_ok hash s \<and> sized s \<and> lag s = n"

lemma life_okD: "life_ok hash n s \<Longrightarrow> store_ok hash s" "life_ok hash n s \<Longrightarrow> sized s" "life_ok hash n s \<Longrightarrow> lag s = n"
  by (simp_all add: life_ok_def)

lemma life_ok_gc: "life_ok hash n s \<Longrightarrow> gc_ok gc \<Longrightarrow> life_ok hash n (s\<lparr>ms_gc := gc\<rparr>)"
  by (simp add: life_ok_def)

lemma life_ok_new: "life_ok hash 0 (NewMemoryStore now)"
  using NewMemoryStore_ok(1) [of hash now] NewMemoryStore_ok(2) [of now] by (simp add: life_ok_def sized_def lag_def counters_ok_def)

lemma life_ok_set: "life_ok hash n s \<Longrightarrow> MemoryStore_Set env hash s k v = (s', out) \<Longrightarrow> life_ok hash n s'"
  using Set_lag MemoryStore_Set_correct(1) unfolding life_ok_def by metis

lemma life_ok_get: "life_ok hash n s \<Longrightarrow> MemoryStore_Get env hash s k = (r, s') \<Longrightarrow> life_ok hash n s'"
  using Get_lag MemoryStore_Get_correct(3) unfolding life_ok_def by metis

lemma life_ok_delete:
  "life_ok hash n s \<Longrightarrow> MemoryStore_Delete hash s k = (s', out) \<Longrightarrow> life_ok hash (n + int (kept hash [k] s s')) s'"
  using Delete_lag [of hash s k s' out] deleteBatch_any [of hash s "[k]" s' out] by (simp add: life_ok_def MemoryStore_Delete_def)

lemma life_ok_turn:
  assumes "collector_turn hash s l s'" "life_ok hash n s"
  shows "life_ok hash (n + int l) s'" "dom (store_map hash s') \<subseteq> dom (store_map hash s)"
proof -
  have g: "gc_ok (ms_gc s)" by (rule store_ok_gc [OF life_okD(1) [OF assms(2)]])
  note k = life_ok_gc [OF assms(2)]
  have "life_ok hash (n + int l) s' \<and> dom (store_map hash s') \<subseteq> dom (store_map hash s)"
    using assms(1)
  proof cases
    case (turn_near c)
    then show ?thesis using k [OF GC_nearTick_ok [OF g, of c]] by simp
  next
    case (turn_wheel t)
    then show ?thesis using k [OF GC_wheelTick_ok [OF g, of t]] by simp
  next
    case turn_take
    then show ?thesis using k [OF GC_flush_ok [OF g prod.collapse [symmetric]]] by simp
  next
    case (turn_batch ks)
    note any = deleteBatch_any [OF life_okD(1) [OF assms(2)] turn_batch(2)]
    then have "dom (store_map hash s') \<subseteq> dom (store_map hash s)" by (auto simp: restrict_map_def split: if_splits)
    then show ?thesis using any batch_lag [OF life_okD(1) [OF assms(2)] turn_batch(2)] assms(2) turn_batch(1)
      by (simp add: life_ok_def)
  qed
  then show "life_ok hash (n + int l) s'" "dom (store_map hash s') \<subseteq> dom (store_map hash s)" by blast+
qed

lemma life_ok_startstop:
  "life_ok hash n s \<Longrightarrow> life_ok hash n (MemoryStore_StartGC s)" "life_ok hash n s \<Longrightarrow> life_ok hash n (MemoryStore_StopGC s)"
  using life_ok_gc [of hash n s "GC_Start (ms_gc s)"] life_ok_gc [of hash n s "GC_Stop (ms_gc s)"]
  by (simp_all add: MemoryStore_StartGC_def MemoryStore_StopGC_def life_ok_def store_ok_def)

lemma store_life_ok: "store_life hash n s \<Longrightarrow> life_ok hash (int n) s"
proof (induction rule: store_life.induct)
  case (life_delete n s k s' out)
  then show ?case using life_ok_delete [OF life_delete.IH] by simp
next
  case (life_turn n s l s')
  then show ?case using life_ok_turn(1) [OF life_turn(2) life_turn.IH] by simp
qed (auto intro: life_ok_new life_ok_set life_ok_get life_ok_startstop)

text \<open>A flush without a panic is the two steps of taking the batch and deleting it.\<close>

lemma life_flush:
  assumes "store_life hash n s" "MemoryStore_flush hash s = (s', None)"
  shows "\<exists>ks. (ks = [] \<or> set ks = gc_pending (ms_gc s)) \<and> store_life hash (n + kept hash ks (s\<lparr>ms_gc := snd (GC_flush (ms_gc s))\<rparr>) s') s'"
proof -
  let ?t = "s\<lparr>ms_gc := snd (GC_flush (ms_gc s))\<rparr>"
  obtain b gc where f: "GC_flush (ms_gc s) = (b, gc)" by fastforce
  have t: "store_life hash n ?t" using life_turn [OF assms(1) turn_take] by simp
  show ?thesis
  proof (cases b)
    case None
    then have "s' = ?t" using assms(2) f by (simp add: MemoryStore_flush_def)
    then show ?thesis using t by (intro exI [of _ "[]"]) (simp add: kept_def)
  next
    case (Some ks)
    then have "deleteBatch hash ?t ks = (s', None)" using assms(2) f by (simp add: MemoryStore_flush_def)
    from life_turn [OF t turn_batch [OF this]] GC_flush_keys(2) [OF f Some] show ?thesis by blast
  qed
qed

text \<open>As long as no key is empty and no delete panics nothing is lost.\<close>

lemma reachable_life: "ms_reachable hash s \<Longrightarrow> store_life hash 0 s"
proof (induction rule: ms_reachable.induct)
  case (ms_delete s ks s')
  have ok: "store_ok hash s" "sizes_pos (store_map hash s) (set ks)"
    using ms_reachable_inv [OF ms_delete(1)] by (simp_all add: ms_inv_def sizes_pos_nonempty)
  have "kept hash ks s s' = 0"
    unfolding kept_maps [OF ok(1) deleteBatch_correct(1) [OF ok(1) ms_delete(2) refl]]
      deleteBatch_correct(2) [OF ok(1) ms_delete(2) refl ok(2)] by (simp add: Int_assoc)
  with life_turn [OF ms_delete.IH turn_batch [OF ms_delete(2)]] show ?case by simp
next
  case (ms_flush s s')
  have ok: "store_ok hash s" "sizes_pos (store_map hash s) (gc_pending (ms_gc s))"
    using ms_reachable_inv [OF ms_flush(1)] by (simp_all add: ms_inv_def sizes_pos_nonempty)
  note f = MemoryStore_flush_correct(1,2) [OF ok(1) ms_flush(2) ok(2)]
  let ?t = "s\<lparr>ms_gc := snd (GC_flush (ms_gc s))\<rparr>"
  obtain ks where ks: "ks = [] \<or> set ks = gc_pending (ms_gc s)" "store_life hash (0 + kept hash ks ?t s') s'"
    using life_flush [OF ms_flush.IH ms_flush(2)] by blast
  have "gc_ok (snd (GC_flush (ms_gc s)))" by (rule GC_flush_ok [OF store_ok_gc [OF ok(1)] prod.collapse [symmetric]])
  then have t: "store_ok hash ?t" using ok(1) by simp
  have "kept hash ks ?t s' = 0" using ks(1) unfolding kept_maps [OF t f(1)] f(2) by (auto simp: Int_assoc)
  then show ?case using ks(2) by simp
next
  case (ms_near s c)
  then show ?case using life_turn [OF ms_near.IH turn_near] by simp
next
  case (ms_wheel s t)
  then show ?case using life_turn [OF ms_wheel.IH turn_wheel] by simp
qed (auto intro: store_life.intros)

section \<open>Containers\<close>

text \<open>A container with the number of deletes that its shards have lost.\<close>

inductive container_life :: "hasher \<Rightarrow> nat \<Rightarrow> memory_store shard_container \<Rightarrow> bool" for hash where
  clife_new: "m < 2 ^ 63 \<Longrightarrow> container_life hash 0 (NewShardContainer NewMemoryStore now m)"
| clife_set: "container_life hash n sc \<Longrightarrow> ShardContainer_Set (cow_methods hash) env hash sc k v = (sc', p) \<Longrightarrow> container_life hash n sc'"
| clife_get: "container_life hash n sc \<Longrightarrow> ShardContainer_Get (cow_methods hash) env hash sc k = (r, sc') \<Longrightarrow> container_life hash n sc'"
| clife_delete: "container_life hash n sc \<Longrightarrow> ShardContainer_Delete (cow_methods hash) hash sc k = (sc', p) \<Longrightarrow>
    container_life hash
      (n + (if ShardContainer_Exists (cow_methods hash) hash sc k \<and> ShardContainer_Exists (cow_methods hash) hash sc' k then 1 else 0)) sc'"
| clife_turn: "container_life hash n sc \<Longrightarrow> i < length (sc_shards sc) \<Longrightarrow> collector_turn hash (sc_shards sc ! i) l s \<Longrightarrow>
    container_life hash (n + l) (sc\<lparr>sc_shards := (sc_shards sc)[i := s]\<rparr>)"
| clife_start: "container_life hash n sc \<Longrightarrow> container_life hash n (ShardContainer_StartGC (cow_methods hash) sc)"
| clife_stop: "container_life hash n sc \<Longrightarrow> container_life hash n (ShardContainer_StopGC (cow_methods hash) sc)"

definition lags :: "memory_store shard_container \<Rightarrow> int" where
  "lags sc = sum_list (map lag (sc_shards sc))"

definition clife_ok :: "hasher \<Rightarrow> int \<Rightarrow> memory_store shard_container \<Rightarrow> bool" where
  "clife_ok hash n sc \<longleftrightarrow> sc_ok hash sc \<and> list_all sized (sc_shards sc) \<and> lags sc = n"

lemma lags_update:
  assumes "i < length (sc_shards sc)"
  shows "lags (sc\<lparr>sc_shards := (sc_shards sc)[i := s]\<rparr>) = lags sc - lag (sc_shards sc ! i) + lag s"
  using assms by (simp add: lags_def sum_list_update)

text \<open>A new shard that keeps to the keys of the old one.\<close>

lemma clife_replace:
  assumes "clife_ok hash n sc" "i < length (sc_shards sc)" "life_ok hash l s" "sc_ok hash (sc\<lparr>sc_shards := (sc_shards sc)[i := s]\<rparr>)"
  shows "clife_ok hash (n - lag (sc_shards sc ! i) + l) (sc\<lparr>sc_shards := (sc_shards sc)[i := s]\<rparr>)"
  using assms by (simp add: clife_ok_def life_ok_def lags_update list_all_length nth_list_update)

lemma clife_shard:
  assumes "clife_ok hash n sc" "i < length (sc_shards sc)"
  shows "life_ok hash (lag (sc_shards sc ! i)) (sc_shards sc ! i)"
  using assms container_okD(1) [of "store_map hash" "store_ok hash" hash sc i] by (simp add: clife_ok_def life_ok_def list_all_length)

lemma clife_get_shard:
  assumes "clife_ok hash n sc"
  shows "getShard hash sc k < length (sc_shards sc)"
  using assms getShard_less by (auto simp: clife_ok_def)

lemma clife_ok_set:
  assumes "clife_ok hash n sc" "ShardContainer_Set (cow_methods hash) env hash sc k v = (sc', p)"
  shows "clife_ok hash n sc'"
proof -
  let ?i = "getShard hash sc k"
  note i = clife_get_shard [OF assms(1), of k]
  obtain s where s: "MemoryStore_Set env hash (sc_shards sc ! ?i) k v = (s, p)" "sc' = sc\<lparr>sc_shards := (sc_shards sc)[?i := s]\<rparr>"
    using assms(2) by (auto simp: ShardContainer_Set_def Let_def cow_methods_def split: prod.splits)
  have "sc_ok hash sc'" using cow.sharded_set(1) [OF _ assms(2)] assms(1) by (simp add: clife_ok_def)
  from clife_replace [OF assms(1) i life_ok_set [OF clife_shard [OF assms(1) i] s(1)] this [unfolded s(2)]]
  show ?thesis by (simp add: s(2))
qed

lemma clife_ok_get:
  assumes "clife_ok hash n sc" "ShardContainer_Get (cow_methods hash) env hash sc k = (r, sc')"
  shows "clife_ok hash n sc'"
proof -
  let ?i = "getShard hash sc k"
  note i = clife_get_shard [OF assms(1), of k]
  obtain s where s: "MemoryStore_Get env hash (sc_shards sc ! ?i) k = (r, s)" "sc' = sc\<lparr>sc_shards := (sc_shards sc)[?i := s]\<rparr>"
    using assms(2) by (auto simp: ShardContainer_Get_def Let_def cow_methods_def split: prod.splits)
  have "sc_ok hash sc'" using cow.sharded_get(1) [OF _ assms(2)] assms(1) by (simp add: clife_ok_def)
  from clife_replace [OF assms(1) i life_ok_get [OF clife_shard [OF assms(1) i] s(1)] this [unfolded s(2)]]
  show ?thesis by (simp add: s(2))
qed

lemma clife_ok_delete:
  assumes "clife_ok hash n sc" "ShardContainer_Delete (cow_methods hash) hash sc k = (sc', p)"
  shows "clife_ok hash
    (n + (if ShardContainer_Exists (cow_methods hash) hash sc k \<and> ShardContainer_Exists (cow_methods hash) hash sc' k then 1 else 0)) sc'"
proof -
  let ?i = "getShard hash sc k" and ?o = "sc_shards sc ! getShard hash sc k"
  note i = clife_get_shard [OF assms(1), of k]
  obtain s where s: "MemoryStore_Delete hash ?o k = (s, p)" "sc' = sc\<lparr>sc_shards := (sc_shards sc)[?i := s]\<rparr>"
    using assms(2) by (auto simp: ShardContainer_Delete_def Let_def cow_methods_def split: prod.splits)
  have "sc_ok hash sc'" using cow.sharded_delete_any(1) [OF _ assms(2)] assms(1) by (simp add: clife_ok_def)
  from clife_replace [OF assms(1) i life_ok_delete [OF clife_shard [OF assms(1) i] s(1)] this [unfolded s(2)]]
  have c: "clife_ok hash (n + int (kept hash [k] ?o s)) sc'" by (simp add: s(2))
  have "int (kept hash [k] ?o s) =
      (if ShardContainer_Exists (cow_methods hash) hash sc k \<and> ShardContainer_Exists (cow_methods hash) hash sc' k then 1 else 0)"
    using i by (simp add: kept_def ShardContainer_Exists_def cow_methods_def s(2))
  then show ?thesis using c by simp
qed

lemma clife_ok_turn:
  assumes c: "clife_ok hash n sc" and i: "i < length (sc_shards sc)" and t: "collector_turn hash (sc_shards sc ! i) l s"
  shows "clife_ok hash (n + int l) (sc\<lparr>sc_shards := (sc_shards sc)[i := s]\<rparr>)"
proof -
  let ?sc = "sc\<lparr>sc_shards := (sc_shards sc)[i := s]\<rparr>"
  note l = life_ok_turn [OF t clife_shard [OF c i]]
  have ok: "sc_ok hash sc" using c by (simp add: clife_ok_def)
  have "store_ok hash (sc_shards ?sc ! j) \<and> (\<forall>k \<in> dom (store_map hash (sc_shards ?sc ! j)). getShard hash ?sc k = j)"
    if "j < length (sc_shards sc)" for j
    using container_okD [OF ok that] subsetD [OF l(2)] life_okD(1) [OF l(1)] i by (cases "j = i") auto
  then have "sc_ok hash ?sc" using ok by (simp add: container_ok_def)
  from clife_replace [OF c i l(1) this] show ?thesis by simp
qed

lemma clife_ok_map:
  assumes c: "clife_ok hash n sc" and f: "\<And>n s. life_ok hash n s \<Longrightarrow> life_ok hash n (f s) \<and> store_map hash (f s) = store_map hash s"
    and ok: "sc_ok hash (sc\<lparr>sc_shards := map f (sc_shards sc)\<rparr>)"
  shows "clife_ok hash n (sc\<lparr>sc_shards := map f (sc_shards sc)\<rparr>)"
proof -
  have "sized (f s) \<and> lag (f s) = lag s" if s: "s \<in> set (sc_shards sc)" for s
  proof -
    obtain i where i: "i < length (sc_shards sc)" "sc_shards sc ! i = s" using s unfolding in_set_conv_nth by blast
    then show ?thesis using f [OF clife_shard [OF c i(1)]] clife_shard [OF c i(1)] by (simp add: life_ok_def)
  qed
  then show ?thesis using c ok by (simp add: clife_ok_def lags_def list_all_iff comp_def cong: map_cong)
qed

lemma container_life_ok: "container_life hash n sc \<Longrightarrow> clife_ok hash (int n) sc"
proof (induction rule: container_life.induct)
  case (clife_new m now)
  have "sc_ok hash (NewShardContainer NewMemoryStore now m)" using clife_new by (intro cow.sharded_new) simp_all
  moreover have "sized (NewMemoryStore now)" "lag (NewMemoryStore now) = 0" using life_ok_new by (auto simp: life_ok_def)
  ultimately show ?case by (simp add: clife_ok_def lags_def NewShardContainer_def Let_def list_all_length sum_list_replicate)
next
  case (clife_set n sc env k v sc' p)
  then show ?case using clife_ok_set by blast
next
  case (clife_get n sc env k r sc')
  then show ?case using clife_ok_get by blast
next
  case (clife_delete n sc k sc' p)
  then show ?case using clife_ok_delete [OF clife_delete.IH clife_delete(2)]
    by (cases "ShardContainer_Exists (cow_methods hash) hash sc k \<and> ShardContainer_Exists (cow_methods hash) hash sc' k")
      (auto simp: add.commute)
next
  case (clife_turn n sc i l s)
  then show ?case using clife_ok_turn [OF clife_turn.IH clife_turn(2,3)] by simp
next
  case (clife_start n sc)
  have "sc_ok hash (ShardContainer_StartGC (cow_methods hash) sc)" using clife_start.IH cow.sharded_gc(1) by (simp add: clife_ok_def)
  then show ?case using clife_ok_map [OF clife_start.IH, of MemoryStore_StartGC] life_ok_startstop(1)
    by (simp add: ShardContainer_StartGC_def cow_methods_def)
next
  case (clife_stop n sc)
  have "sc_ok hash (ShardContainer_StopGC (cow_methods hash) sc)" using clife_stop.IH cow.sharded_gc(3) by (simp add: clife_ok_def)
  then show ?case using clife_ok_map [OF clife_stop.IH, of MemoryStore_StopGC] life_ok_startstop(2)
    by (simp add: ShardContainer_StopGC_def cow_methods_def)
qed

text \<open>With the key counts put right the container is an exact one.\<close>

lemma clife_counters:
  assumes c: "clife_ok hash n sc"
  shows "ShardContainer_Count (cow_methods hash) sc = int (card (dom (sc_map hash sc))) - n"
    "ShardContainer_Usage (cow_methods hash) sc = (\<Sum>k \<in> dom (sc_map hash sc). sizeOf k (the (sc_map hash sc k)))"
proof -
  let ?f = "\<lambda>s. recount (lag s) s" and ?m = "cow_methods hash"
  let ?sc = "sc\<lparr>sc_shards := map ?f (sc_shards sc)\<rparr>"
  have ok: "sc_ok hash sc" using c by (simp add: clife_ok_def)
  have r: "sc_ok hash ?sc" "sc_map hash ?sc = sc_map hash sc" by (rule container_map_all [OF ok]; simp)+
  have "list_all counters_ok (sc_shards ?sc)" using c by (simp add: clife_ok_def list_all_iff counters_recount)
  note count = cow.sharded_count [OF r(1) this, unfolded r(2)]
  have "foldl (\<lambda>t s. t + m_Count ?m s) t (map ?f xs) = foldl (\<lambda>t s. t + m_Count ?m s) t xs + sum_list (map lag xs)" for t xs
    by (induction xs arbitrary: t) (simp_all add: cow_methods_def MemoryStore_Count_def foldl_add_shift)
  then show "ShardContainer_Count ?m sc = int (card (dom (sc_map hash sc))) - n"
    using count(1) c by (simp add: ShardContainer_Count_def clife_ok_def lags_def)
  have "foldl (\<lambda>t s. t + m_Usage ?m s) t (map ?f xs) = foldl (\<lambda>t s. t + m_Usage ?m s) t xs" for t xs
    by (induction xs arbitrary: t) (simp_all add: cow_methods_def MemoryStore_Usage_def)
  then show "ShardContainer_Usage ?m sc = (\<Sum>k \<in> dom (sc_map hash sc). sizeOf k (the (sc_map hash sc k)))"
    using count(2) by (simp add: ShardContainer_Usage_def)
qed

section \<open>Properties\<close>

text \<open>A store that has lost a delete: two keys with a time-to-live, the first deleted, the delete of the second panics.\<close>

definition after_panic :: "hasher \<Rightarrow> memory_store" where
  "after_panic hash =
     fst (MemoryStore_Delete hash (set_set_delete hash sample_env sample_env 0 (str ''a'') (sample_entry [1] 10 False)
       (str ''b'') (sample_entry [2] 20 False)) (str ''b''))"

text \<open>C5: In every state that a store can be in, after any calls on any keys, panics, ticks and flushes, the segments are
  sorted and hold each key in the segment of its hash, the listing has every key of the store once, \<open>Exists\<close> tells
  whether a key is listed, \<open>Usage\<close> is the sum of the entries' sizes, and \<open>Count\<close> is the number of keys less the number
  of deletes after which their key was still there: those that panicked in the collector and those of an empty key
  with an empty value.\<close>

theorem store_invariant:
  assumes "store_life hash lost s"
  shows "index_ok hash (ms_segments s) \<and> distinct (MemoryStore_Keys s) \<and>
    set (MemoryStore_Keys s) = dom (store_map hash s) \<and>
    (MemoryStore_Exists hash s k \<longleftrightarrow> k \<in> set (MemoryStore_Keys s)) \<and>
    MemoryStore_Count s = int (length (MemoryStore_Keys s)) - int lost \<and>
    MemoryStore_Usage s = (\<Sum>k \<in> dom (store_map hash s). sizeOf k (the (store_map hash s k)))"
proof -
  have i: "store_ok hash s" "sized s" "lag s = int lost" using store_life_ok [OF assms] by (simp_all add: life_ok_def)
  then have c: "counters_ok (recount (int lost) s)" by (simp add: counters_recount)
  note k = MemoryStore_Keys_correct [OF i(1)] and e = MemoryStore_Exists_correct [OF i(1), of k]
  have "card (dom (store_map hash s)) = length (MemoryStore_Keys s)"
    using distinct_card [OF k(2)] k(1) by simp
  then show ?thesis using MemoryStore_counters [of hash, OF _ c] k e i(1)
    by (simp add: store_ok_def MemoryStore_Count_def MemoryStore_Usage_def domIff)
qed

lemma after_panic_life: "store_life (\<lambda>_. 0) 1 (after_panic (\<lambda>_. 0))"
proof -
  let ?h = "\<lambda>_ :: gostring. 0 :: 64 word"
  let ?s1 = "fst (MemoryStore_Set sample_env ?h (NewMemoryStore 0) (str ''a'') (sample_entry [1] 10 False))"
  let ?s2 = "fst (MemoryStore_Set sample_env ?h ?s1 (str ''b'') (sample_entry [2] 20 False))"
  let ?s3 = "fst (MemoryStore_Delete ?h ?s2 (str ''a''))"
  have e: "after_panic ?h = fst (MemoryStore_Delete ?h ?s3 (str ''b''))" by (simp add: after_panic_def set_set_delete_def)
  have k: "kept ?h [str ''a''] ?s2 ?s3 = 0" "kept ?h [str ''b''] ?s3 (fst (MemoryStore_Delete ?h ?s3 (str ''b''))) = 1"
    by code_simp+
  have "store_life ?h 0 ?s1" by (rule life_set [OF life_new prod.collapse [symmetric]])
  then have "store_life ?h 0 ?s2" by (rule life_set [OF _ prod.collapse [symmetric]])
  from life_delete [OF this prod.collapse [symmetric], of "str ''a''"] have "store_life ?h 0 ?s3" unfolding k(1) by simp
  from life_delete [OF this prod.collapse [symmetric], of "str ''b''"] show ?thesis unfolding k(2) e by simp
qed

theorem store_invariant_witness:
  "MemoryStore_Keys (after_panic (\<lambda>_. 0)) = [str ''b''] \<and> MemoryStore_Count (after_panic (\<lambda>_. 0)) = 0 \<and>
    MemoryStore_Usage (after_panic (\<lambda>_. 0)) = 2"
proof -
  have k: "MemoryStore_Keys (after_panic (\<lambda>_. 0)) = [str ''b'']" "MemoryStore_Usage (after_panic (\<lambda>_. 0)) = 2" by code_simp+
  show ?thesis using store_invariant [OF after_panic_life] k by simp
qed

text \<open>C37: A container of any number of shards, in every state it can be in, is one map: \<open>Keys\<close> lists each key once in
  whatever order the shards answer, \<open>Exists\<close> tells whether a key is listed, \<open>Usage\<close> is the sum of the entries' sizes, and
  \<open>Count\<close> is the number of keys less the number of deletes, of any shard, after which their key was still there.\<close>

theorem container_is_one_map:
  assumes "container_life hash lost sc" "mset order = mset [0..<length (sc_shards sc)]"
  shows "set (ShardContainer_Keys (cow_methods hash) order sc) = dom (sc_map hash sc) \<and>
    distinct (ShardContainer_Keys (cow_methods hash) order sc) \<and>
    (ShardContainer_Exists (cow_methods hash) hash sc k \<longleftrightarrow> sc_map hash sc k \<noteq> None) \<and>
    ShardContainer_Count (cow_methods hash) sc = int (card (dom (sc_map hash sc))) - int lost \<and>
    ShardContainer_Usage (cow_methods hash) sc = (\<Sum>k \<in> dom (sc_map hash sc). sizeOf k (the (sc_map hash sc k)))"
proof -
  have c: "clife_ok hash (int lost) sc" by (rule container_life_ok [OF assms(1)])
  then have ok: "sc_ok hash sc" by (simp add: clife_ok_def)
  show ?thesis
    using cow.sharded_keys [OF ok assms(2)] cow.sharded_exists [OF ok] clife_counters [OF c] by blast
qed

text \<open>Two shards, a key in each; the delete of the empty key leaves it where it was.\<close>

definition byte_hash :: hasher where
  "byte_hash k = (case k of [] \<Rightarrow> 0 | c # _ \<Rightarrow> ucast c)"

definition two_keys :: "memory_store shard_container" where
  "two_keys = fst (ShardContainer_Set (cow_methods byte_hash) sample_env byte_hash (fst (ShardContainer_Set (cow_methods byte_hash) sample_env byte_hash
     (NewShardContainer NewMemoryStore 0 2) (str ''k'') (sample_entry [1, 2] 0 False))) [] (sample_entry [] 0 False))"

definition lost_empty :: "memory_store shard_container" where
  "lost_empty = fst (ShardContainer_Delete (cow_methods byte_hash) byte_hash two_keys [])"

lemma lost_empty_life: "container_life byte_hash 1 lost_empty"
proof -
  have "container_life byte_hash 0 two_keys"
    unfolding two_keys_def by (rule clife_set [OF clife_set [OF clife_new prod.collapse [symmetric]] prod.collapse [symmetric]]) simp
  moreover have "ShardContainer_Exists (cow_methods byte_hash) byte_hash two_keys []" "ShardContainer_Exists (cow_methods byte_hash) byte_hash lost_empty []"
    by code_simp+
  ultimately show ?thesis using clife_delete [OF _ prod.collapse [symmetric], of byte_hash 0 two_keys "[]"] by (simp add: lost_empty_def)
qed

theorem container_is_one_map_witness:
  "set (ShardContainer_Keys (cow_methods byte_hash) [1, 0] lost_empty) = dom (sc_map byte_hash lost_empty) \<and>
    card (dom (sc_map byte_hash lost_empty)) = 2 \<and> ShardContainer_Count (cow_methods byte_hash) lost_empty = 1 \<and>
    ShardContainer_Usage (cow_methods byte_hash) lost_empty = 3"
proof -
  have l: "length (sc_shards lost_empty) = 2" "ShardContainer_Count (cow_methods byte_hash) lost_empty = 1"
    "ShardContainer_Usage (cow_methods byte_hash) lost_empty = 3" by code_simp+
  have "mset [1, 0] = mset [0..<length (sc_shards lost_empty)]" by (simp add: l(1) numeral_2_eq_2)
  from container_is_one_map [OF lost_empty_life this] l(2,3) show ?thesis by simp
qed

end
