(* ===== verification/Spec2Isabelle.thy ===== *)
theory Spec2Isabelle
  imports Near_Queue Hashed_Wheel Delete_Coalescer Garbage_Collector Memory_Store Pending_Deletes Cow_Concurrency Shard_Container
    Auth_Token Bucket_Manager Services Cached_Clock Tcp_Codec Be_Words Tcp_Protocol Tcp_Server Tcp_Buffers Tcp_Lifecycle
    Configuration Http_Types Http_Transport Http_Server Http_Properties Bootstrap
    Manager_Calls Requests_As_Calls Server_Runs Server_Properties Bucket_Concurrency Process_Lifecycle Lock_Order
    Linearizability Container_Concurrency Cow_Refinement Store_Counters
begin

text \<open>
  Bukt is an in-memory key-value store with named buckets, served over HTTP and over a binary TCP protocol.
  This development models its logic, from the queues of the garbage collector up to the start of the
  program, and proves what each part promises.

  \<^bold>\<open>How the program fits together.\<close> \<open>cmd/kvstore/main.go\<close> reads the configuration, sets up the logger and the token
  manager, prints a token for the default bucket, creates the bucket manager and starts both servers. A request
  arrives as an HTTP request (\<open>internal/transport/http\<close>, through a chain of middleware) or as a TCP frame
  (\<open>internal/transport/tcp\<close>), is authorised by a bucket token (\<open>internal/auth\<close>), and calls a service
  (\<open>internal/service\<close>), which finds the bucket's container in the bucket manager (\<open>internal/bucket\<close>). A container
  (\<open>internal/engine/sharding.go\<close>) hands a key to one of its stores by hash; a store
  (\<open>internal/engine/in_memory.go\<close>) keeps sorted segments that readers use without a lock while writers publish copies,
  and a garbage collector (\<open>internal/gc\<close>) with a heap for near deadlines, a hashed wheel for far ones and a queue of
  keys to delete in batches.

  \<^bold>\<open>Theories, bottom up.\<close>
  \<^item> \<open>Bukt_Prelude\<close>: Go's integers with their wrap-around (\<open>i64\<close>, \<open>i32\<close>), byte strings, panics and outcomes as
    values, slice idioms (\<open>go_copy\<close>, \<open>insert_at\<close>, \<open>remove_at\<close>), big-endian numbers, shared lemmas and collections.
  \<^item> \<open>Go_Heap\<close>: \<open>container/heap\<close> over an interface of less, swap, push and pop, as a locale, with the heap order
    and the multiset it keeps. \<open>Go_Crypto\<close>: SHA-256, HMAC and URL base64. \<open>Go_Text\<close>: trimming, decimal numbers,
    UTF-8, standard base64 and time formatting.
  \<^item> \<open>Expiry_Source\<close>: the locale of a source of deadlines. \<open>Near_Queue\<close> (\<open>near_queue.go\<close>) and \<open>Hashed_Wheel\<close>
    (\<open>hashed_wheel.go\<close>) interpret it; \<open>Delete_Coalescer\<close> (\<open>delete_coalescer.go\<close>) and \<open>Garbage_Collector\<close> (\<open>gc.go\<close>)
    complete the collector, whose goroutines are the step relation of \<open>gc_step\<close>.
  \<^item> \<open>Binary_Search\<close> and \<open>Memory_Store\<close> (\<open>in_memory.go\<close>, \<open>types.go\<close>): the store one operation at a time, refining a
    finite map. \<open>Cow_Concurrency\<close>: the same \<open>Get\<close> cut at its atomic accesses, with entries as heap cells and any
    number of readers holding older indexes. \<open>Cow_Refinement\<close>: the two models agree; after any interleaving a whole
    \<open>Set\<close>, batch of deletes or \<open>Get\<close> keeps them in step, answers and requested deletions included. \<open>Pending_Deletes\<close>:
    the store between a \<open>Get\<close> that marks a key for deletion and the flush.
  \<^item> \<open>Linearizability\<close>: the order of operations behind every interleaving of \<open>Cow_Concurrency\<close>, built by placing each read
    in an epoch (the time of one published index) as soon as its answer is certain.
  \<^item> \<open>Shard_Container\<close> (\<open>sharding.go\<close>): the locale of store methods with their laws, interpreted by the memory store.
    \<open>Store_Counters\<close>: stores and containers in every state, with empty keys and after deletes that panicked, and by how
    much their key count is then behind.
    \<open>Container_Concurrency\<close>: concurrent calls on the shards of a container, whose orders merge into one.
  \<^item> \<open>Auth_Token\<close> (\<open>token.go\<close>, \<open>manager.go\<close>), \<open>Bucket_Manager\<close> (\<open>bucket.go\<close>), \<open>Services\<close> (\<open>storage_service.go\<close>,
    \<open>bucket_service.go\<close>, \<open>errs.go\<close>): tokens, buckets and the operations on \<open>kv_view\<close>, one finite map per bucket.
  \<^item> \<open>Tcp_Codec\<close>, \<open>Tcp_Protocol\<close>, \<open>Tcp_Server\<close> (\<open>codec.go\<close>, \<open>protocol.go\<close>, \<open>handler.go\<close>, the loop of \<open>server.go\<close>): wire
    formats, handlers, and a connection as a function of the reads. \<open>Be_Words\<close>: the word readers of \<open>server.go\<close>. \<open>Tcp_Buffers\<close>: the memory under it, slices of
    backing arrays and the pool they come from. \<open>Tcp_Lifecycle\<close>: \<open>Start\<close>, the accept loop and \<open>Stop\<close>, in pieces.
  \<^item> \<open>Http_Types\<close> (\<open>types.go\<close>), \<open>Http_Transport\<close> (\<open>internal/util\<close> and the middleware), \<open>Http_Server\<close> (\<open>handlers.go\<close>,
    \<open>router.go\<close>), \<open>Http_Properties\<close>: requests, the chain, the routes, the handlers, and what they promise.
  \<^item> \<open>Configuration\<close> (\<open>config.go\<close>, \<open>logger.go\<close>) and \<open>Bootstrap\<close> (\<open>main.go\<close> up to the start of the servers).
  \<^item> \<open>Manager_Calls\<close>: the calls that reach the bucket manager as one datatype, with what every call keeps, and the
    locales of facts about stores that hold of all shards of all buckets. \<open>Requests_As_Calls\<close>: every HTTP request and
    every TCP frame makes at most one such call. \<open>Server_Runs\<close> and \<open>Server_Properties\<close>: runs of the whole server from
    the state of \<open>main\<close>, any requests over both protocols in any order; a TCP connection is the run of the successive
    frames of the bytes it reads.
  \<^item> \<open>Bucket_Concurrency\<close>: a request between \<open>GetStore\<close> and its operation while buckets are created and deleted, and the
    sequence of atomic calls that such a run amounts to.
    \<open>Lock_Order\<close>: the mutexes of all operations and the locale of programs that follow one ranking of locks.
    \<open>Process_Lifecycle\<close>: the goroutines of \<open>main\<close>, the signal, the stop and the exit, with a connection whose panic
    ends the process.

  \<^bold>\<open>Representation.\<close> Structs are records, a Go \<open>error\<close> or panic is a value (\<open>outcome\<close> with \<open>Ok\<close>, \<open>Err\<close> and \<open>Panic\<close>, a
  sum, or a state with the panic that ended the operation). Strings are byte lists. Signed integers are \<open>int\<close> with
  \<open>i64\<close> or \<open>i32\<close> where an operation can leave the range; hashes and request numbers are words. A time is the number
  of nanoseconds, \<open>zero_time\<close> the zero of \<open>time.Time\<close>. What an operation reads from outside is a record \<open>env\<close>: the
  clock, the cached clock, the random draw. Go maps are maps or association lists. The third-party hash function is
  the parameter \<open>hasher\<close>, identifiers of the uuid module and the runtime's choice of capacity in \<open>append\<close> are
  arguments; nothing is assumed about them.

  \<^bold>\<open>What is shown.\<close> Functional behaviour on every branch and against a finite map (services, store, container, handlers);
  reachability invariants (queue, store, manager, buffers, wait group); that a store, and a container of
  any number of them, is linearizable, that a single-read value is delivered at most once in every interleaving and that a \<open>Get\<close> answers from one snapshot; that only the holder of a bucket's
  token affects it; round trips of frames, payloads, tokens and values; that framing does not depend on how bytes
  arrive; delivery and conservation of deadlines; that \<open>Stop\<close> after \<open>Start\<close> leaves nothing running and within how
  many steps. Over runs of the whole server: the manager's invariant, isolation of buckets, service of an accepted value until it
  expires, survival as long as no entry has a time-to-live, and that collectors never run; that a connection is the run
  of its frames, with its answers in order and the bytes it keeps; that a request in flight is atomic or invisible, and
  what manager a run with requests in flight leaves; that no schedule deadlocks; with which status the process ends, and
  that it ends after a signal whatever the other goroutines do. Where the code does not do what it means to do, the theorem says what it does: the near queue's stale
  positions and the panic of a delete, the collector's nanoseconds, the new value that a pending deletion removes, the wrap of a long time-to-live, the frame that
  crashes the server, the stored key that a failed write exposes to the next connection, \<open>Stop\<close> overtaking \<open>Start\<close>,
  the route that can never succeed, the write lost to a bucket that is replaced, the idle client that holds up the shutdown.

  \<^bold>\<open>Bounds and fuel.\<close> No definition takes fuel. Loops are structural or have a measure: binary search the width of the
  interval, the frame loop the bytes left, heap sifting the distance to the root or the end, the wheel the entries of
  a slot. Constants are the code's: 64 segments, 13 bytes of header, 16 MiB of payload, 17 MiB of buffer, 1 MiB of body.

  \<^bold>\<open>Not modelled.\<close> Sockets, deadlines and socket options, the inside of the HTTP server (it listens, serves and
  fails), tickers (a tick is a step, of the collector or of \<open>Cached_Clock\<close>), log output, the third-party hash (\<open>hasher.go\<close> only
  forwards to it) and uuid modules, the bodies and the \<open>Location\<close> of what \<open>ServeMux\<close> itself answers (redirects of unclean
  paths, unknown paths and methods; a request comes with the escaped path that \<open>net/url\<close> gives it), signals other than \<open>SIGINT\<close>
  and \<open>SIGTERM\<close>, and Go's memory model below single atomic accesses: a data race on the counters of
  an entry while it is copied is a copy of some value of them. Memory is not
  bounded: a shard count too large to allocate is not refused. The two or three lock regions inside one step of the
  collector are taken together, and the range over a Go map is in the order of insertion. A run of \<open>Server_Runs\<close> takes requests one at a time; their interleavings are the subject of \<open>Cow_Concurrency\<close>
  (one store), \<open>Container_Concurrency\<close> (the stores of a bucket; \<open>Keys\<close>, \<open>Count\<close> and \<open>Usage\<close> ask each shard
  at a time of its own and promise no snapshot) and \<open>Bucket_Concurrency\<close> (the manager), not of one combined relation. \<open>unsafe\<close> conversions are modelled where the
  result is kept or could be written (\<open>Tcp_Buffers\<close>) and are the identity where it is only read.
\<close>

end
